(* ===== verification/Peak_Prelude.thy ===== *)
theory Peak_Prelude
  imports "HOL-Library.Word" "HOL-Library.Monad_Syntax"
begin

text \<open>
  Shared vocabulary of the libpeak development.

  \<^item> Machine integers: \<open>u8\<close>, \<open>u16\<close>, \<open>u32\<close>, \<open>u64\<close> are the C types \<open>uint8_t\<close> to
    \<open>uint64_t\<close> (\<open>unsigned int\<close> is \<open>u32\<close>, \<open>size_t\<close> is \<open>u64\<close>: the model is that of a
    little-endian LP64 target).
  \<^item> Memory: an object of memory is the list of its bytes, an address inside it an offset.
    A read or write outside the object is \<open>None\<close> (undefined behaviour in C), so every
    access of the code is an access that can fail in the model. A pointer that may be
    \<open>NULL\<close> is an offset option.
  \<^item> \<open>outcome\<close>: how a call ends that may also call \<open>panic()\<close> or never return.
\<close>

unbundle bit_operations_syntax

type_synonym u8 = "8 word"
type_synonym u16 = "16 word"
type_synonym u32 = "32 word"
type_synonym u64 = "64 word"
type_synonym mem = "u8 list"
type_synonym ptr = "nat option"

datatype 'a outcome = Return 'a | Panic | Hang

named_theorems mem_simps \<open>evaluation of in-range memory accesses\<close>
named_theorems word_bytes \<open>words split into bytes and joined again\<close>

section \<open>Calls that may panic\<close>

definition obind :: "'a outcome option \<Rightarrow> ('a \<Rightarrow> 'b outcome option) \<Rightarrow> 'b outcome option" where
  "obind m f = (case m of None \<Rightarrow> None | Some (Return x) \<Rightarrow> f x | Some Panic \<Rightarrow> Some Panic | Some Hang \<Rightarrow> Some Hang)"

lemma obind_simps [simp]:
  "obind None f = None" "obind (Some (Return x)) f = f x" "obind (Some Panic) f = Some Panic" "obind (Some Hang) f = Some Hang"
  by (simp_all add: obind_def)

section \<open>Time stamps\<close>

text \<open>\<open>struct peak_timeval\<close> of \<open>src/include/peak_timeslice.h\<close>.\<close>

record peak_timeval =
  tv_sec :: int
  tv_usec :: int

section \<open>Byte access\<close>

definition load8 :: "mem \<Rightarrow> nat \<Rightarrow> u8 option" where
  "load8 m a = (if a < length m then Some (m ! a) else None)"

definition store8 :: "mem \<Rightarrow> nat \<Rightarrow> u8 \<Rightarrow> mem option" where
  "store8 m a v = (if a < length m then Some (m[a := v]) else None)"

lemma load8_in [mem_simps]: "a < length m \<Longrightarrow> load8 m a = Some (m ! a)"
  by (simp add: load8_def)

lemma load8_out: "length m \<le> a \<Longrightarrow> load8 m a = None"
  by (simp add: load8_def)

lemma load8_eq_None_iff: "load8 m a = None \<longleftrightarrow> length m \<le> a"
  by (auto simp: load8_def)

lemma store8_in [mem_simps]: "a < length m \<Longrightarrow> store8 m a v = Some (m[a := v])"
  by (simp add: store8_def)

lemma store8_eq_None_iff: "store8 m a v = None \<longleftrightarrow> length m \<le> a"
  by (auto simp: store8_def)

lemma bind_store8_Some [mem_simps]:
  "store8 m a v \<bind> f = Some r \<longleftrightarrow> a < length m \<and> f (m[a := v]) = Some r"
  by (auto simp: store8_def)

lemma store8_Some_iff [mem_simps]:
  "store8 m a v = Some r \<longleftrightarrow> a < length m \<and> m[a := v] = r"
  by (auto simp: store8_def)

text \<open>\<open>memcmp(3)\<close> over the first \<open>n\<close> bytes: only the sign of the result is specified by the
  standard, so the model returns -1, 0 or 1.\<close>

fun memcmp :: "u8 list \<Rightarrow> u8 list \<Rightarrow> nat \<Rightarrow> int" where
  "memcmp xs ys 0 = 0"
| "memcmp (x # xs) (y # ys) (Suc n) =
     (if x < y then - 1 else if y < x then 1 else memcmp xs ys n)"
| "memcmp xs ys (Suc n) = 0"

lemma memcmp_range: "memcmp xs ys n \<in> {- 1, 0, 1}"
  by (induction xs ys n rule: memcmp.induct) auto

lemma memcmp_refl [simp]: "memcmp xs xs n = 0"
proof (induction n arbitrary: xs)
  case (Suc n)
  then show ?case by (cases xs) auto
qed simp

lemma memcmp_swap: "memcmp ys xs n = - memcmp xs ys n"
  by (induction xs ys n rule: memcmp.induct) (auto simp: not_less)

lemma memcmp_eq_0_iff:
  assumes "n \<le> length xs" and "n \<le> length ys"
  shows "memcmp xs ys n = 0 \<longleftrightarrow> take n xs = take n ys"
  using assms by (induction xs ys n rule: memcmp.induct) auto

lemma memcmp_trans_le:
  assumes "n \<le> length xs" "n \<le> length ys" "n \<le> length zs"
    and "memcmp xs ys n \<le> 0" "memcmp ys zs n \<le> 0"
  shows "memcmp xs zs n \<le> 0"
  using assms
proof (induction xs ys n arbitrary: zs rule: memcmp.induct)
  case (2 x xs y ys n)
  then obtain z zs' where zs: "zs = z # zs'" by (cases zs) auto
  from "2.prems" have le: "x \<le> y" "y \<le> z" unfolding zs by (auto split: if_splits)
  show ?case
  proof (cases "x = y \<and> y = z")
    case True
    with "2.IH"[of zs'] "2.prems" show ?thesis unfolding zs by simp
  next
    case False
    with le have "x < z" by force
    then show ?thesis unfolding zs by simp
  qed
qed auto

section \<open>Joining and splitting words\<close>

lemma split16 [word_bytes]:
  "push_bit 8 (ucast (ucast (drop_bit 8 u) :: u8)) OR ucast (ucast u :: u8) = (u :: u16)"
  by (rule bit_word_eqI) (auto simp add: bit_simps)

lemma split16_be [word_bytes]:
  "ucast (ucast u :: u8) OR push_bit 8 (ucast (ucast (drop_bit 8 u) :: u8)) = (u :: u16)"
  by (rule bit_word_eqI) (auto simp add: bit_simps)

lemma split32 [word_bytes]:
  "push_bit 24 (ucast (ucast (drop_bit 24 u) :: u8)) OR push_bit 16 (ucast (ucast (drop_bit 16 u) :: u8))
   OR push_bit 8 (ucast (ucast (drop_bit 8 u) :: u8)) OR ucast (ucast u :: u8) = (u :: u32)"
  (is "?w = u")
proof (rule bit_word_eqI)
  fix n assume "n < LENGTH(32)"
  then consider "n < 8" | "8 \<le> n" "n < 16" | "16 \<le> n" "n < 24" | "24 \<le> n" "n < 32"
    by force
  then show "bit ?w n = bit u n"
    by cases (auto simp: bit_simps)
qed

lemma split64 [word_bytes]:
  "push_bit 32 (ucast (ucast (drop_bit 32 u) :: u32)) OR ucast (ucast u :: u32) = (u :: u64)"
  by (rule bit_word_eqI) (auto simp add: bit_simps)

lemma join_bytes:
  fixes a b c d :: u8
  defines "w \<equiv> (push_bit 24 (ucast d) OR push_bit 16 (ucast c) OR push_bit 8 (ucast b) OR ucast a :: u32)"
  shows "ucast w = a" "ucast (drop_bit 8 w) = b" "ucast (drop_bit 16 w) = c" "ucast (drop_bit 24 w) = d"
  unfolding w_def
  by (rule bit_word_eqI, auto simp: bit_simps dest: bit_imp_le_length; fail)+

section \<open>Values that do not wrap\<close>

lemma sint_small: "unat (w :: u64) < 2 ^ 63 \<Longrightarrow> sint w = int (unat w)"
proof -
  assume "unat w < 2 ^ 63"
  then have "int (unat w) < int (2 ^ 63)" by (simp only: of_nat_less_iff)
  then have "uint w < 2 ^ 63" by simp
  moreover have "- (2 ^ 63) \<le> uint w" by (rule order_trans[OF _ uint_ge_0]) simp
  ultimately show ?thesis using signed_take_bit_int_eq_self[of 63 "uint w"] by (simp add: sint_uint)
qed

lemma unat_of_nat_small: "n < 2 ^ 64 \<Longrightarrow> unat (of_nat n :: u64) = n"
  by (simp add: unat_of_nat)

lemma unat_add_small: "unat a + unat b < 2 ^ 64 \<Longrightarrow> unat (a + b :: u64) = unat a + unat b"
  by (simp add: unat_word_ariths)

lemma unat_eqD: "unat (v :: u64) = unat w \<Longrightarrow> v = w"
  by (simp add: word_unat_eq_iff)

section \<open>Comparison functions\<close>

text \<open>
  The tree and the page lists of libpeak are generated for a comparison macro whose sign orders the
  elements. This is what they rely on, for the elements of a domain \<open>D\<close>; each comparison of the library
  is an interpretation.
\<close>

locale cmp_order =
  fixes cmp :: "'a \<Rightarrow> 'a \<Rightarrow> int" and D :: "'a set"
  assumes cmp_swap: "x \<in> D \<Longrightarrow> y \<in> D \<Longrightarrow> cmp y x < 0 \<longleftrightarrow> 0 < cmp x y"
    and cmp_trans: "x \<in> D \<Longrightarrow> y \<in> D \<Longrightarrow> z \<in> D \<Longrightarrow> cmp x y \<le> 0 \<Longrightarrow> cmp y z \<le> 0 \<Longrightarrow> cmp x z \<le> 0"
begin

abbreviation cmp_sorted :: "'a list \<Rightarrow> bool" where
  "cmp_sorted \<equiv> sorted_wrt (\<lambda>x y. cmp x y < 0)"

lemma less_trans:
  assumes "x \<in> D" "y \<in> D" "z \<in> D" "cmp x y < 0" "cmp y z \<le> 0"
  shows "cmp x z < 0"
proof (rule ccontr)
  assume "\<not> cmp x z < 0"
  then have "cmp z x \<le> 0" using cmp_swap[of z x] assms by simp
  with assms have "cmp y x \<le> 0" using cmp_trans[of y z x] by simp
  with assms cmp_swap[of y x] show False by simp
qed

lemma le_less_trans:
  assumes "x \<in> D" "y \<in> D" "z \<in> D" "cmp x y \<le> 0" "cmp y z < 0"
  shows "cmp x z < 0"
proof (rule ccontr)
  assume "\<not> cmp x z < 0"
  then have "cmp z x \<le> 0" using cmp_swap[of z x] assms by simp
  with assms have "cmp z y \<le> 0" using cmp_trans[of z x y] by simp
  with assms cmp_swap[of z y] show False by simp
qed

lemma sorted_distinct:
  assumes "cmp_sorted xs" "set xs \<subseteq> D"
  shows "distinct xs"
  using assms
proof (induction xs)
  case (Cons x xs)
  have "cmp x x = 0" using cmp_swap[of x x] Cons.prems(2) by force
  with Cons show ?case by auto
qed simp

end

end
