(* ===== verification/Peak_Type.thy ===== *)
theory Peak_Type
  imports Peak_Prelude
begin

text \<open>
  The byte-order primitives of \<open>src/include/peak_type.h\<close>: byte swaps, little- and big-endian
  decoding and encoding at an address, and the wrap-around tests \<open>wrap16\<close> to \<open>wrap64\<close>.
  A decoder reads the bytes the code reads and fails outside the object; an encoder writes
  the bytes in the code's order.
\<close>

definition peak_bswap16 :: "u16 \<Rightarrow> u16" where
  "peak_bswap16 u = push_bit 8 u OR drop_bit 8 u"

definition peak_bswap32 :: "u32 \<Rightarrow> u32" where
  "peak_bswap32 u = push_bit 16 (ucast (peak_bswap16 (ucast u))) OR
     ucast (peak_bswap16 (ucast (drop_bit 16 u)))"

definition peak_bswap64 :: "u64 \<Rightarrow> u64" where
  "peak_bswap64 u = push_bit 32 (ucast (peak_bswap32 (ucast u))) OR
     ucast (peak_bswap32 (ucast (drop_bit 32 u)))"

definition peak_le16dec :: "mem \<Rightarrow> nat \<Rightarrow> u16 option" where
  "peak_le16dec m p = do {
     p1 \<leftarrow> load8 m (p + 1);
     p0 \<leftarrow> load8 m p;
     Some (push_bit 8 (ucast p1) OR ucast p0) }"

definition peak_le16enc :: "mem \<Rightarrow> nat \<Rightarrow> u16 \<Rightarrow> mem option" where
  "peak_le16enc m p u = do {
     m \<leftarrow> store8 m p (ucast u);
     store8 m (p + 1) (ucast (drop_bit 8 u)) }"

definition peak_le32dec :: "mem \<Rightarrow> nat \<Rightarrow> u32 option" where
  "peak_le32dec m p = do {
     p3 \<leftarrow> load8 m (p + 3);
     p2 \<leftarrow> load8 m (p + 2);
     p1 \<leftarrow> load8 m (p + 1);
     p0 \<leftarrow> load8 m p;
     Some (push_bit 24 (ucast p3) OR push_bit 16 (ucast p2) OR push_bit 8 (ucast p1) OR ucast p0) }"

definition peak_le32enc :: "mem \<Rightarrow> nat \<Rightarrow> u32 \<Rightarrow> mem option" where
  "peak_le32enc m p u = do {
     m \<leftarrow> store8 m p (ucast u);
     m \<leftarrow> store8 m (p + 1) (ucast (drop_bit 8 u));
     m \<leftarrow> store8 m (p + 2) (ucast (drop_bit 16 u));
     store8 m (p + 3) (ucast (drop_bit 24 u)) }"

definition peak_le64dec :: "mem \<Rightarrow> nat \<Rightarrow> u64 option" where
  "peak_le64dec m p = do {
     hi \<leftarrow> peak_le32dec m (p + 4);
     lo \<leftarrow> peak_le32dec m p;
     Some (push_bit 32 (ucast hi) OR ucast lo) }"

definition peak_le64enc :: "mem \<Rightarrow> nat \<Rightarrow> u64 \<Rightarrow> mem option" where
  "peak_le64enc m p u = do {
     m \<leftarrow> peak_le32enc m p (ucast u);
     peak_le32enc m (p + 4) (ucast (drop_bit 32 u)) }"

definition peak_be16dec :: "mem \<Rightarrow> nat \<Rightarrow> u16 option" where
  "peak_be16dec m p = do {
     p1 \<leftarrow> load8 m (p + 1);
     p0 \<leftarrow> load8 m p;
     Some (ucast p1 OR push_bit 8 (ucast p0)) }"

definition peak_be16enc :: "mem \<Rightarrow> nat \<Rightarrow> u16 \<Rightarrow> mem option" where
  "peak_be16enc m p u = do {
     m \<leftarrow> store8 m p (ucast (drop_bit 8 u));
     store8 m (p + 1) (ucast u) }"

definition peak_be32dec :: "mem \<Rightarrow> nat \<Rightarrow> u32 option" where
  "peak_be32dec m p = do {
     p0 \<leftarrow> load8 m p;
     p1 \<leftarrow> load8 m (p + 1);
     p2 \<leftarrow> load8 m (p + 2);
     p3 \<leftarrow> load8 m (p + 3);
     Some (push_bit 24 (ucast p0) OR push_bit 16 (ucast p1) OR push_bit 8 (ucast p2) OR ucast p3) }"

definition peak_be32enc :: "mem \<Rightarrow> nat \<Rightarrow> u32 \<Rightarrow> mem option" where
  "peak_be32enc m p u = do {
     m \<leftarrow> store8 m p (ucast (drop_bit 24 u));
     m \<leftarrow> store8 m (p + 1) (ucast (drop_bit 16 u));
     m \<leftarrow> store8 m (p + 2) (ucast (drop_bit 8 u));
     store8 m (p + 3) (ucast u) }"

definition peak_be64dec :: "mem \<Rightarrow> nat \<Rightarrow> u64 option" where
  "peak_be64dec m p = do {
     hi \<leftarrow> peak_be32dec m p;
     lo \<leftarrow> peak_be32dec m (p + 4);
     Some (push_bit 32 (ucast hi) OR ucast lo) }"

definition peak_be64enc :: "mem \<Rightarrow> nat \<Rightarrow> u64 \<Rightarrow> mem option" where
  "peak_be64enc m p u = do {
     m \<leftarrow> peak_be32enc m p (ucast (drop_bit 32 u));
     peak_be32enc m (p + 4) (ucast u) }"

definition wrap16 :: "u16 \<Rightarrow> bool" where
  "wrap16 x \<longleftrightarrow> 0xFFFF div 2 < x"

definition wrap32 :: "u32 \<Rightarrow> bool" where
  "wrap32 x \<longleftrightarrow> 0xFFFFFFFF div 2 < x"

definition wrap64 :: "u64 \<Rightarrow> bool" where
  "wrap64 x \<longleftrightarrow> 0xFFFFFFFFFFFFFFFF div 2 < x"

section \<open>In-range decoding\<close>

lemmas decoder_defs = peak_le16dec_def peak_le32dec_def peak_le64dec_def
  peak_be16dec_def peak_be32dec_def peak_be64dec_def

lemmas encoder_defs = peak_le16enc_def peak_le32enc_def peak_le64enc_def
  peak_be16enc_def peak_be32enc_def peak_be64enc_def

text \<open>A decoder succeeds exactly when all bytes it reads are inside the object.\<close>

lemma decode_eq_None_iff:
  "peak_le16dec m p = None \<longleftrightarrow> length m < p + 2"
  "peak_be16dec m p = None \<longleftrightarrow> length m < p + 2"
  "peak_le32dec m p = None \<longleftrightarrow> length m < p + 4"
  "peak_be32dec m p = None \<longleftrightarrow> length m < p + 4"
  "peak_le64dec m p = None \<longleftrightarrow> length m < p + 8"
  "peak_be64dec m p = None \<longleftrightarrow> length m < p + 8"
  by (auto simp: decoder_defs load8_def bind_eq_None_conv split: if_splits)

section \<open>The codec contract\<close>

text \<open>
  What the six encoder/decoder pairs promise their clients: an encoder succeeds exactly in
  range, writes only its own bytes, and the decoder reads back what was written.
\<close>

locale codec =
  fixes dec :: "mem \<Rightarrow> nat \<Rightarrow> 'w option"
    and enc :: "mem \<Rightarrow> nat \<Rightarrow> 'w \<Rightarrow> mem option"
    and width :: nat
  assumes enc_in: "p + width \<le> length m \<Longrightarrow> enc m p u \<noteq> None"
    and enc_out: "length m < p + width \<Longrightarrow> enc m p u = None"
    and enc_length: "enc m p u = Some m' \<Longrightarrow> length m' = length m"
    and enc_frame: "enc m p u = Some m' \<Longrightarrow> i < p \<or> p + width \<le> i \<Longrightarrow> m' ! i = m ! i"
    and dec_enc: "enc m p u = Some m' \<Longrightarrow> dec m' p = Some u"
    and dec_local: "length m = length m' \<Longrightarrow> (\<And>i. p \<le> i \<Longrightarrow> i < p + width \<Longrightarrow> m ! i = m' ! i) \<Longrightarrow>
      dec m p = dec m' p"
begin

lemma round_trip:
  assumes "p + width \<le> length m"
  obtains m' where "enc m p u = Some m'" "dec m' p = Some u" "length m' = length m"
  using enc_in[OF assms, of u] enc_length dec_enc by blast

lemma dec_other:
  assumes "enc m p u = Some m'" and "q + width \<le> p \<or> p + width \<le> q"
  shows "dec m' q = dec m q"
  using assms enc_length[OF assms(1)] enc_frame[OF assms(1)]
  by (intro dec_local) auto

end

lemmas codec_simps = mem_simps word_bytes load8_def store8_def nth_list_update bind_eq_None_conv

interpretation le16: codec peak_le16dec peak_le16enc 2
  by unfold_locales
    (auto simp: peak_le16enc_def peak_le16dec_def codec_simps split: if_splits)

interpretation be16: codec peak_be16dec peak_be16enc 2
  by unfold_locales
    (auto simp: peak_be16enc_def peak_be16dec_def codec_simps split: if_splits)

interpretation le32: codec peak_le32dec peak_le32enc 4
  by unfold_locales
    (auto simp: peak_le32enc_def peak_le32dec_def codec_simps split: if_splits)

interpretation be32: codec peak_be32dec peak_be32enc 4
  by unfold_locales
    (auto simp: peak_be32enc_def peak_be32dec_def codec_simps split: if_splits)

text \<open>The 64-bit codecs are two 32-bit codecs side by side.\<close>

interpretation le64: codec peak_le64dec peak_le64enc 8
proof unfold_locales
  fix m m' :: mem and p i :: nat and u :: u64
  show "peak_le64enc m p u \<noteq> None" if bound: "p + 8 \<le> length m"
  proof (rule le32.round_trip)
    show "p + 4 \<le> length m" using bound by simp
    fix m1 assume "peak_le32enc m p (ucast u) = Some m1" "length m1 = length m"
    then show ?thesis
      using bound le32.enc_in[of "p + 4" m1 "ucast (drop_bit 32 u)"] by (simp add: peak_le64enc_def)
  qed
  show "peak_le64enc m p u = None" if "length m < p + 8"
  proof (cases "peak_le32enc m p (ucast u)")
    case (Some m1)
    then show ?thesis
      using that le32.enc_length[OF Some] le32.enc_out[of m1 "p + 4"] by (simp add: peak_le64enc_def)
  qed (simp add: peak_le64enc_def)
  {
    assume "peak_le64enc m p u = Some m'"
    then obtain m1 where m1: "peak_le32enc m p (ucast u) = Some m1"
      and m2: "peak_le32enc m1 (p + 4) (ucast (drop_bit 32 u)) = Some m'"
      by (auto simp: peak_le64enc_def bind_eq_Some_conv)
    show "length m' = length m"
      using le32.enc_length[OF m1] le32.enc_length[OF m2] by simp
    show "m' ! i = m ! i" if "i < p \<or> p + 8 \<le> i"
      using that le32.enc_frame[OF m1, of i] le32.enc_frame[OF m2, of i] by auto
    show "peak_le64dec m' p = Some u"
      using le32.dec_enc[OF m1] le32.dec_enc[OF m2] le32.dec_other[OF m2, of p]
      by (simp add: peak_le64dec_def word_bytes)
  }
  show "peak_le64dec m p = peak_le64dec m' p"
    if "length m = length m'" and "\<And>i. p \<le> i \<Longrightarrow> i < p + 8 \<Longrightarrow> m ! i = m' ! i"
    using le32.dec_local[OF that(1), of p] le32.dec_local[OF that(1), of "p + 4"] that(2)
    by (simp add: peak_le64dec_def)
qed


interpretation be64: codec peak_be64dec peak_be64enc 8
proof unfold_locales
  fix m m' :: mem and p i :: nat and u :: u64
  show "peak_be64enc m p u \<noteq> None" if bound: "p + 8 \<le> length m"
  proof (rule be32.round_trip)
    show "p + 4 \<le> length m" using bound by simp
    fix m1 assume "peak_be32enc m p (ucast (drop_bit 32 u)) = Some m1" "length m1 = length m"
    then show ?thesis
      using bound be32.enc_in[of "p + 4" m1 "ucast u"] by (simp add: peak_be64enc_def)
  qed
  show "peak_be64enc m p u = None" if "length m < p + 8"
  proof (cases "peak_be32enc m p (ucast (drop_bit 32 u))")
    case (Some m1)
    then show ?thesis
      using that be32.enc_length[OF Some] be32.enc_out[of m1 "p + 4"] by (simp add: peak_be64enc_def)
  qed (simp add: peak_be64enc_def)
  {
    assume "peak_be64enc m p u = Some m'"
    then obtain m1 where m1: "peak_be32enc m p (ucast (drop_bit 32 u)) = Some m1"
      and m2: "peak_be32enc m1 (p + 4) (ucast u) = Some m'"
      by (auto simp: peak_be64enc_def bind_eq_Some_conv)
    show "length m' = length m"
      using be32.enc_length[OF m1] be32.enc_length[OF m2] by simp
    show "m' ! i = m ! i" if "i < p \<or> p + 8 \<le> i"
      using that be32.enc_frame[OF m1, of i] be32.enc_frame[OF m2, of i] by auto
    show "peak_be64dec m' p = Some u"
      using be32.dec_enc[OF m1] be32.dec_enc[OF m2] be32.dec_other[OF m2, of p]
      by (simp add: peak_be64dec_def word_bytes)
  }
  show "peak_be64dec m p = peak_be64dec m' p"
    if "length m = length m'" and "\<And>i. p \<le> i \<Longrightarrow> i < p + 8 \<Longrightarrow> m ! i = m' ! i"
    using be32.dec_local[OF that(1), of p] be32.dec_local[OF that(1), of "p + 4"] that(2)
    by (simp add: peak_be64dec_def)
qed

section \<open>Byte swaps\<close>

text \<open>The big-endian decoders are the little-endian ones followed by a byte swap.\<close>

lemma bswap16_join:
  "peak_bswap16 (push_bit 8 (ucast (b :: u8)) OR ucast (a :: u8)) = push_bit 8 (ucast a) OR ucast b"
  by (rule bit_word_eqI) (auto simp: peak_bswap16_def bit_simps dest: bit_imp_le_length)

lemma low16_join:
  "ucast (push_bit 24 (ucast d) OR push_bit 16 (ucast c) OR push_bit 8 (ucast (b :: u8)) OR ucast (a :: u8) :: u32) =
    (push_bit 8 (ucast b) OR ucast a :: u16)"
  by (rule bit_word_eqI) (auto simp: bit_simps)

lemma high16_join:
  "ucast (drop_bit 16 (push_bit 24 (ucast d) OR push_bit 16 (ucast c) OR push_bit 8 (ucast (b :: u8)) OR ucast (a :: u8) :: u32)) =
    (push_bit 8 (ucast (d::u8)) OR ucast (c::u8) :: u16)"
  by (rule bit_word_eqI) (auto simp: bit_simps dest: bit_imp_le_length)

lemma join16_32: "push_bit 16 (ucast (push_bit 8 (ucast (a :: u8)) OR ucast (b :: u8) :: u16)) OR
    ucast (push_bit 8 (ucast c) OR ucast (d::u8) :: u16) =
  (push_bit 24 (ucast a) OR push_bit 16 (ucast b) OR push_bit 8 (ucast (c::u8)) OR ucast (d :: u8) :: u32)"
  by (rule bit_word_eqI) (auto simp: bit_simps dest: bit_imp_le_length)

lemma bswap32_join:
  "peak_bswap32 (push_bit 24 (ucast (d :: u8)) OR push_bit 16 (ucast (c :: u8)) OR push_bit 8 (ucast (b :: u8)) OR ucast (a :: u8)) =
   push_bit 24 (ucast a) OR push_bit 16 (ucast b) OR push_bit 8 (ucast c) OR ucast d"
  unfolding peak_bswap32_def low16_join high16_join bswap16_join by (simp add: join16_32)

lemma be32_eq_bswap_le32: "peak_be32dec m p = map_option peak_bswap32 (peak_le32dec m p)"
  by (cases "p + 4 \<le> length m")
    (simp_all add: peak_be32dec_def peak_le32dec_def load8_def bswap32_join)

lemma low32_join: "ucast (push_bit 32 (ucast (hi :: u32)) OR ucast (lo :: u32) :: u64) = lo"
  by (rule bit_word_eqI) (auto simp: bit_simps)

lemma high32_join: "ucast (drop_bit 32 (push_bit 32 (ucast (hi :: u32)) OR ucast (lo :: u32) :: u64)) = hi"
  by (rule bit_word_eqI) (auto simp: bit_simps dest: bit_imp_le_length)

lemma bswap64_join:
  "peak_bswap64 (push_bit 32 (ucast (hi :: u32)) OR ucast (lo :: u32)) =
   push_bit 32 (ucast (peak_bswap32 lo)) OR ucast (peak_bswap32 hi)"
  unfolding peak_bswap64_def low32_join high32_join ..

lemma be64_eq_bswap_le64: "peak_be64dec m p = map_option peak_bswap64 (peak_le64dec m p)"
  by (cases "peak_le32dec m p"; cases "peak_le32dec m (p + 4)")
    (simp_all add: peak_be64dec_def peak_le64dec_def be32_eq_bswap_le32 bswap64_join)

lemma bswap16_involution: "peak_bswap16 (peak_bswap16 u) = u"
  by (rule bit_word_eqI) (auto simp: peak_bswap16_def bit_simps)

section \<open>Properties\<close>

text \<open>Writing a 64-bit value with \<open>le64enc\<close> anywhere inside an object succeeds, changes only
  the eight bytes at that address, is read back by \<open>le64dec\<close>, and is read byte-swapped by
  \<open>be64dec\<close>.\<close>

lemma le64_round_trip:
  assumes "p + 8 \<le> length m"
  shows "\<exists>m'. peak_le64enc m p u = Some m' \<and> length m' = length m \<and>
    (\<forall>i. i < p \<or> p + 8 \<le> i \<longrightarrow> m' ! i = m ! i) \<and>
    peak_le64dec m' p = Some u \<and> peak_be64dec m' p = Some (peak_bswap64 u)"
proof (rule le64.round_trip[OF assms])
  fix m' assume m': "peak_le64enc m p u = Some m'" "peak_le64dec m' p = Some u" "length m' = length m"
  then show ?thesis
    using le64.enc_frame[OF m'(1)] by (auto simp: be64_eq_bswap_le64)
qed

lemma le64_round_trip_witness:
  "\<exists>m'. peak_le64enc (replicate 10 7) 1 0x0102030405060708 = Some m' \<and>
    peak_be64dec m' 1 = Some (peak_bswap64 0x0102030405060708) \<and> m' ! 9 = 7"
  using le64_round_trip[of 1 "replicate 10 7" "0x0102030405060708"] by (auto simp: numeral_eq_Suc)

end
