(* ===== verification/Peak_Net.thy ===== *)
theory Peak_Net
  imports Peak_Type
begin

text \<open>
  Network addresses, \<open>src/include/peak_net.h\<close>: the 16-byte address union, the embedding of IPv4
  addresses into it, the \<open>memcmp\<close>-based comparisons and the prefix comparison \<open>netprefix\<close>.
  The union \<open>struct netaddr\<close> is the list of its sixteen bytes; \<open>netprefix\<close> is shown to compare
  exactly the leading bits of the two addresses.
\<close>

type_synonym netaddr = "u8 list"

definition net_in64 :: netaddr where
  "net_in64 = [0, 0, 0, 0, 0, 0, 0, 0, 0, 0, 0xff, 0xff, 0, 0, 0, 0]"

text \<open>The two quad words are copied from \<open>net_in64\<close>, then double word 3 (bytes 12 to 15) is
  overwritten by the address as it sits in memory.\<close>

definition netaddr4 :: "u32 \<Rightarrow> netaddr" where
  "netaddr4 ip = take 12 net_in64 @
     [ucast ip, ucast (drop_bit 8 ip), ucast (drop_bit 16 ip), ucast (drop_bit 24 ip)]"

definition netaddr6 :: "mem \<Rightarrow> nat \<Rightarrow> netaddr option" where
  "netaddr6 m ip = (if ip + 16 \<le> length m then Some (take 16 (drop ip m)) else None)"

definition netcmp :: "netaddr \<Rightarrow> netaddr \<Rightarrow> int" where
  "netcmp x y = memcmp x y 16"

definition netcmp4 :: "netaddr \<Rightarrow> int" where
  "netcmp4 x = memcmp x net_in64 (16 - 4)"

definition netcmp6 :: "netaddr \<Rightarrow> int" where
  "netcmp6 x = (if netcmp4 x = 0 then 1 else 0)"

definition NET_PREFIX4 :: "nat \<Rightarrow> nat" where
  "NET_PREFIX4 x = (if x \<noteq> 0 then x + 96 else 0)"

definition NET_PREFIX_MAX :: nat where
  "NET_PREFIX_MAX = 128"

definition prefix_table :: "u8 list" where
  "prefix_table = [0x80, 0xC0, 0xE0, 0xF0, 0xF8, 0xFC, 0xFE, 0xFF]"

lemma length_prefix_table [simp]: "length prefix_table = 8"
  by (simp add: prefix_table_def)

text \<open>The byte loop of \<open>netprefix\<close> and the masked comparison of the last byte.\<close>

function netprefix_loop :: "netaddr \<Rightarrow> netaddr \<Rightarrow> nat \<Rightarrow> nat \<Rightarrow> int" where
  "netprefix_loop x y i yp =
     (if length prefix_table \<le> yp then
        (let ret = uint (x ! i) - uint (y ! i) in
         if ret \<noteq> 0 then ret
         else netprefix_loop x y (Suc i) (yp - length prefix_table))
      else uint (x ! i AND prefix_table ! yp) - uint (y ! i AND prefix_table ! yp))"
  by pat_completeness auto
termination
  by (relation "measure (\<lambda>(x, y, i, yp). yp)") auto

declare netprefix_loop.simps [simp del]

definition netprefix :: "netaddr \<Rightarrow> netaddr \<Rightarrow> u32 \<Rightarrow> int" where
  "netprefix x y yp =
     (if yp = 0 then 0
      else let yp = (if unat yp > NET_PREFIX_MAX then NET_PREFIX_MAX else unat yp)
           in netprefix_loop x y 0 (yp - 1))"

section \<open>Address order\<close>

text \<open>Bit \<open>k\<close> of an address, counted from the most significant bit of its first byte.\<close>

definition addr_bit :: "netaddr \<Rightarrow> nat \<Rightarrow> bool" where
  "addr_bit x k = bit (x ! (k div 8)) (7 - k mod 8)"

lemma length_netaddr4 [simp]: "length (netaddr4 ip) = 16"
  by (simp add: netaddr4_def net_in64_def)

lemma netaddr6_length: "netaddr6 m ip = Some x \<Longrightarrow> length x = 16"
  by (auto simp: netaddr6_def split: if_splits)

lemma netcmp_eq_0_iff: "length x = 16 \<Longrightarrow> length y = 16 \<Longrightarrow> netcmp x y = 0 \<longleftrightarrow> x = y"
  by (simp add: netcmp_def memcmp_eq_0_iff)

lemma netcmp_swap: "netcmp y x = - netcmp x y"
  unfolding netcmp_def by (rule memcmp_swap)

interpretation net: cmp_order netcmp "{x. length x = 16}"
proof
  show "netcmp y x < 0 \<longleftrightarrow> 0 < netcmp x y" for x y by (simp add: netcmp_swap[of y x])
  show "netcmp x z \<le> 0" if "x \<in> {x. length x = 16}" "y \<in> {x. length x = 16}" "z \<in> {x. length x = 16}" "netcmp x y \<le> 0" "netcmp y z \<le> 0" for x y z
    using memcmp_trans_le[of 16 x y z] that by (simp add: netcmp_def)
qed

lemma netcmp4_iff: "length x = 16 \<Longrightarrow> netcmp4 x = 0 \<longleftrightarrow> (\<exists>ip. x = netaddr4 ip)"
proof
  assume len: "length x = 16" and "netcmp4 x = 0"
  then have pre: "take 12 x = take 12 net_in64"
    by (simp add: netcmp4_def memcmp_eq_0_iff net_in64_def)
  obtain a b c d where last: "drop 12 x = [a, b, c, d]"
  proof -
    have "length (drop 12 x) = Suc (Suc (Suc (Suc 0)))" using len by simp
    then show thesis using that unfolding length_Suc_conv length_0_conv by blast
  qed
  define ip :: u32 where
    "ip = push_bit 24 (ucast d) OR push_bit 16 (ucast c) OR push_bit 8 (ucast b) OR ucast a"
  have "[ucast ip, ucast (drop_bit 8 ip), ucast (drop_bit 16 ip), ucast (drop_bit 24 ip)] = [a, b, c, d]"
    unfolding ip_def join_bytes ..
  then have "x = netaddr4 ip"
    using pre last append_take_drop_id[of 12 x] by (simp add: netaddr4_def)
  then show "\<exists>ip. x = netaddr4 ip" ..
next
  assume "\<exists>ip. x = netaddr4 ip"
  then show "netcmp4 x = 0"
    by (auto simp: netcmp4_def memcmp_eq_0_iff net_in64_def netaddr4_def)
qed

section \<open>Prefixes compare leading bits\<close>

lemma bit_prefix_table: "r < 8 \<Longrightarrow> n < 8 \<Longrightarrow> bit (prefix_table ! r) n \<longleftrightarrow> 7 - r \<le> n"
proof -
  assume "r < 8" "n < 8"
  then have "r \<in> {0, 1, 2, 3, 4, 5, 6, 7}" "n \<in> {0, 1, 2, 3, 4, 5, 6, 7}" by auto
  then show ?thesis by (auto simp: prefix_table_def)
qed

lemma byte_mask_eq_iff:
  fixes a b :: u8
  assumes "r < 8"
  shows "uint (a AND prefix_table ! r) = uint (b AND prefix_table ! r) \<longleftrightarrow>
    (\<forall>j \<le> r. bit a (7 - j) = bit b (7 - j))" (is "?l \<longleftrightarrow> ?r")
proof -
  have "?l \<longleftrightarrow> a AND prefix_table ! r = b AND prefix_table ! r" by (simp add: word_uint_eq_iff)
  also have "\<dots> \<longleftrightarrow> (\<forall>n < 8. bit (a AND prefix_table ! r) n = bit (b AND prefix_table ! r) n)"
    by (auto intro!: bit_word_eqI)
  also have "\<dots> \<longleftrightarrow> (\<forall>n < 8. 7 - r \<le> n \<longrightarrow> bit a n = bit b n)"
    using assms by (auto simp: bit_and_iff bit_prefix_table)
  also have "\<dots> \<longleftrightarrow> ?r"
  proof (rule iffI; intro allI impI)
    fix j assume "\<forall>n < 8. 7 - r \<le> n \<longrightarrow> bit a n = bit b n" "j \<le> r"
    then show "bit a (7 - j) = bit b (7 - j)" using assms by auto
  next
    fix n assume "?r" "n < 8" "7 - r \<le> n"
    then show "bit a n = bit b n" by (auto dest!: spec[of _ "7 - n"])
  qed
  finally show ?thesis .
qed

lemma byte_eq_iff: "uint (a :: u8) = uint (b :: u8) \<longleftrightarrow> (\<forall>j < 8. bit a (7 - j) = bit b (7 - j))"
proof -
  have "a AND prefix_table ! 7 = a" for a :: u8
    by (rule bit_word_eqI) (auto simp: bit_and_iff bit_prefix_table)
  moreover have "j \<le> 7 \<longleftrightarrow> j < 8" for j :: nat by auto
  ultimately show ?thesis using byte_mask_eq_iff[of 7 a b] by simp
qed

lemma netprefix_loop_eq_0_iff:
  "netprefix_loop x y i yp = 0 \<longleftrightarrow>
    (\<forall>k. 8 * i \<le> k \<and> k \<le> 8 * i + yp \<longrightarrow> addr_bit x k = addr_bit y k)"
proof (induction x y i yp rule: netprefix_loop.induct)
  case (1 x y i yp)
  have bits: "(\<forall>j \<le> r. bit (x ! i) (7 - j) = bit (y ! i) (7 - j)) \<longleftrightarrow>
      (\<forall>k. 8 * i \<le> k \<and> k \<le> 8 * i + r \<longrightarrow> addr_bit x k = addr_bit y k)" if "r < 8" for r
  proof (rule iffI; intro allI impI)
    fix k assume *: "\<forall>j \<le> r. bit (x ! i) (7 - j) = bit (y ! i) (7 - j)" "8 * i \<le> k \<and> k \<le> 8 * i + r"
    from that *(2) have byte: "k div 8 = i" and "k - 8 * i \<le> r" by auto
    then have "k mod 8 \<le> r" by (simp add: minus_mult_div_eq_mod[symmetric])
    with *(1) byte show "addr_bit x k = addr_bit y k" by (simp add: addr_bit_def)
  next
    fix j assume *: "\<forall>k. 8 * i \<le> k \<and> k \<le> 8 * i + r \<longrightarrow> addr_bit x k = addr_bit y k" "j \<le> r"
    from that *(2) have "(8 * i + j) div 8 = i" "(8 * i + j) mod 8 = j" by auto
    with *(1)[rule_format, of "8 * i + j"] *(2) show "bit (x ! i) (7 - j) = bit (y ! i) (7 - j)"
      by (simp add: addr_bit_def)
  qed
  show ?case
  proof (cases "8 \<le> yp")
    case small: False
    then have "netprefix_loop x y i yp =
        uint (x ! i AND prefix_table ! yp) - uint (y ! i AND prefix_table ! yp)"
      by (simp add: netprefix_loop.simps[of x y i yp])
    with small show ?thesis using byte_mask_eq_iff[of yp "x ! i" "y ! i"] bits[of yp] by simp
  next
    case big: True
    have "8 * i \<le> k \<and> k \<le> 8 * i + yp \<longleftrightarrow>
        (8 * i \<le> k \<and> k \<le> 8 * i + 7) \<or> (8 * Suc i \<le> k \<and> k \<le> 8 * Suc i + (yp - 8))" for k
      using big by auto
    then have split: "(\<forall>k. 8 * i \<le> k \<and> k \<le> 8 * i + yp \<longrightarrow> P k) \<longleftrightarrow>
        (\<forall>k. 8 * i \<le> k \<and> k \<le> 8 * i + 7 \<longrightarrow> P k) \<and>
        (\<forall>k. 8 * Suc i \<le> k \<and> k \<le> 8 * Suc i + (yp - 8) \<longrightarrow> P k)" for P
      by blast
    have step: "netprefix_loop x y i yp = 0 \<longleftrightarrow>
        uint (x ! i) = uint (y ! i) \<and> netprefix_loop x y (Suc i) (yp - 8) = 0"
      using big by (simp add: netprefix_loop.simps[of x y i yp] Let_def)
    have byte: "uint (x ! i) = uint (y ! i) \<longleftrightarrow>
        (\<forall>k. 8 * i \<le> k \<and> k \<le> 8 * i + 7 \<longrightarrow> addr_bit x k = addr_bit y k)"
      using bits[of 7] byte_eq_iff[of "x ! i" "y ! i"] by (simp add: less_Suc_eq_le numeral_eq_Suc)
    show ?thesis
      unfolding split step byte using 1[OF _ refl] big byte by auto
  qed
qed

section \<open>Properties\<close>

text \<open>\<open>netprefix(x, y, yp)\<close> returns zero exactly when the first \<open>yp\<close> bits (at most 128) of the
  two addresses agree; in particular a prefix length of zero matches everything.\<close>

lemma netprefix_matches_leading_bits:
  "netprefix x y yp = 0 \<longleftrightarrow> (\<forall>k < min (unat yp) 128. addr_bit x k = addr_bit y k)"
proof (cases "yp = 0")
  case True
  then show ?thesis by (simp add: netprefix_def)
next
  case False
  then have "0 < unat yp" by (simp add: unat_gt_0)
  then have "k \<le> min (unat yp) 128 - 1 \<longleftrightarrow> k < min (unat yp) 128" for k
    by auto
  moreover have "netprefix x y yp = netprefix_loop x y 0 (min (unat yp) 128 - 1)"
    using False by (simp add: netprefix_def NET_PREFIX_MAX_def min_def)
  ultimately show ?thesis
    using netprefix_loop_eq_0_iff[of x y 0 "min (unat yp) 128 - 1"] by simp
qed

lemma netprefix_matches_leading_bits_witness:
  "netprefix (netaddr4 0x0100A8C0) (netaddr4 0x0200A8C0) 126 = 0 \<and>
   addr_bit (netaddr4 0x0100A8C0) 125 = addr_bit (netaddr4 0x0200A8C0) 125"
proof -
  have "netprefix (netaddr4 0x0100A8C0) (netaddr4 0x0200A8C0) 126 = 0" by code_simp
  then show ?thesis
    using netprefix_matches_leading_bits[of "netaddr4 0x0100A8C0" "netaddr4 0x0200A8C0" 126] by simp
qed

end
