(* ===== verification/Peak_Audit.thy ===== *)
theory Peak_Audit
  imports Peak_Prelude
begin

text \<open>
  Runtime counters, \<open>src/lib/peak_audit.c\<close> and \<open>src/lib/peak_audit.h\<close>. Each thread counts in its
  own copy of \<open>struct peak_audit\<close> (\<open>audit_thread\<close>) and merges it into a shared one with
  \<open>peak_audit_sync\<close>. The single-threaded operations are functions on the thread's counters; the
  concurrent behaviour is a step relation in which the atomic addition and the local wipe of
  \<open>peak_audit_sync\<close> are separate steps that interleave with the other threads.
\<close>

abbreviation (input) AUDIT_PACKET_DROP_LINK :: nat where "AUDIT_PACKET_DROP_LINK \<equiv> 0"
abbreviation (input) AUDIT_PACKET_DROP_IPV4 :: nat where "AUDIT_PACKET_DROP_IPV4 \<equiv> 1"
abbreviation (input) AUDIT_PACKET_DROP_IPV6 :: nat where "AUDIT_PACKET_DROP_IPV6 \<equiv> 2"
abbreviation (input) AUDIT_PACKET_DROP_ICMP :: nat where "AUDIT_PACKET_DROP_ICMP \<equiv> 3"
abbreviation (input) AUDIT_PACKET_DROP_TCP :: nat where "AUDIT_PACKET_DROP_TCP \<equiv> 4"
abbreviation (input) AUDIT_PACKET_DROP_UDP :: nat where "AUDIT_PACKET_DROP_UDP \<equiv> 5"
abbreviation (input) AUDIT_TRACK_ADDED :: nat where "AUDIT_TRACK_ADDED \<equiv> 6"
abbreviation (input) AUDIT_TRACK_RECYCLED :: nat where "AUDIT_TRACK_RECYCLED \<equiv> 7"
abbreviation (input) AUDIT_TRACK_FAILED :: nat where "AUDIT_TRACK_FAILED \<equiv> 8"
abbreviation (input) AUDIT_MAX :: nat where "AUDIT_MAX \<equiv> 9"

text \<open>\<open>struct peak_audit\<close>: one 64-bit counter per field.\<close>

type_synonym peak_audit = "u64 list"

definition audit_zero :: peak_audit where
  "audit_zero = replicate AUDIT_MAX 0"

definition audit_names :: "string list" where
  "audit_names = [''packet.drop.link'', ''packet.drop.ipv4'', ''packet.drop.ipv6'',
     ''packet.drop.icmp'', ''packet.drop.tcp'', ''packet.drop.udp'',
     ''track.added'', ''track.recycled'', ''track.failed'']"

definition peak_audit_name :: "nat \<Rightarrow> string option" where
  "peak_audit_name f = (if f < AUDIT_MAX then Some (audit_names ! f) else None)"

definition peak_audit_set :: "nat \<Rightarrow> u64 \<Rightarrow> peak_audit \<Rightarrow> peak_audit" where
  "peak_audit_set f v a = (if f < AUDIT_MAX then a[f := v] else a)"

definition peak_audit_get :: "nat \<Rightarrow> peak_audit \<Rightarrow> u64" where
  "peak_audit_get f a = (if f < AUDIT_MAX then a ! f else 0)"

definition peak_audit_add :: "nat \<Rightarrow> u64 \<Rightarrow> peak_audit \<Rightarrow> peak_audit" where
  "peak_audit_add f v a = (if f < AUDIT_MAX then a[f := a ! f + v] else a)"

definition peak_audit_inc :: "nat \<Rightarrow> peak_audit \<Rightarrow> peak_audit" where
  "peak_audit_inc f a = (if f < AUDIT_MAX then a[f := a ! f + 1] else a)"

text \<open>One round of the loop of \<open>peak_audit_sync\<close>: the atomic addition to the shared field and the
  wipe of the local one.\<close>

definition sync_merge :: "nat \<Rightarrow> peak_audit \<Rightarrow> peak_audit \<Rightarrow> peak_audit" where
  "sync_merge i export a = export[i := export ! i + a ! i]"

definition sync_wipe :: "nat \<Rightarrow> peak_audit \<Rightarrow> peak_audit" where
  "sync_wipe i a = a[i := 0]"

definition peak_audit_sync :: "peak_audit \<Rightarrow> peak_audit \<Rightarrow> peak_audit \<times> peak_audit" where
  "peak_audit_sync export a =
     fold (\<lambda>i (e, l). (sync_merge i e l, sync_wipe i l)) [0..<AUDIT_MAX] (export, a)"

section \<open>Single-threaded behaviour\<close>

definition audit_ok :: "peak_audit \<Rightarrow> bool" where
  "audit_ok a \<longleftrightarrow> length a = AUDIT_MAX"

lemma audit_ok_zero [simp]: "audit_ok audit_zero"
  by (simp add: audit_ok_def audit_zero_def)

lemma audit_ok_ops [simp]:
  "audit_ok a \<Longrightarrow> audit_ok (peak_audit_set f v a)"
  "audit_ok a \<Longrightarrow> audit_ok (peak_audit_add f v a)"
  "audit_ok a \<Longrightarrow> audit_ok (peak_audit_inc f a)"
  by (auto simp: audit_ok_def peak_audit_set_def peak_audit_add_def peak_audit_inc_def)

lemma peak_audit_inc_eq_add: "peak_audit_inc f = peak_audit_add f 1"
  by (auto simp: peak_audit_inc_def peak_audit_add_def)

lemma audit_get_add:
  "audit_ok a \<Longrightarrow> f < AUDIT_MAX \<Longrightarrow>
   peak_audit_get g (peak_audit_add f v a) = peak_audit_get g a + (if g = f then v else 0)"
  by (auto simp: peak_audit_get_def peak_audit_add_def audit_ok_def)

lemma sync_fold:
  assumes "n \<le> AUDIT_MAX" "audit_ok e" "audit_ok l"
  shows "fold (\<lambda>i (e, l). (sync_merge i e l, sync_wipe i l)) [0..<n] (e, l) =
    (map (\<lambda>i. if i < n then e ! i + l ! i else e ! i) [0..<AUDIT_MAX],
     map (\<lambda>i. if i < n then 0 else l ! i) [0..<AUDIT_MAX])"
  using assms(1)
proof (induction n)
  case 0
  show ?case using assms(2,3) by (auto simp: audit_ok_def intro!: nth_equalityI)
next
  case (Suc n)
  then show ?case
    by (auto simp: sync_merge_def sync_wipe_def nth_list_update less_Suc_eq intro!: nth_equalityI)
qed

section \<open>Threads\<close>

text \<open>Where a thread is: outside \<open>peak_audit_sync\<close>, about to add field \<open>i\<close> to the shared counters,
  or about to wipe its own field \<open>i\<close>.\<close>

datatype audit_pc = Counting | Merging nat | Wiping nat

record audit_sys =
  audit_thread :: "nat \<Rightarrow> peak_audit"
  audit_export :: peak_audit
  audit_at :: "nat \<Rightarrow> audit_pc"
  audit_hits :: "nat \<Rightarrow> u64" \<comment> \<open>history: everything ever added to a field\<close>

definition audit_init :: audit_sys where
  "audit_init = \<lparr>audit_thread = \<lambda>_. audit_zero, audit_export = audit_zero,
     audit_at = \<lambda>_. Counting, audit_hits = \<lambda>_. 0\<rparr>"

inductive audit_step :: "nat \<Rightarrow> audit_sys \<Rightarrow> audit_sys \<Rightarrow> bool" for n :: nat where
  count: "t < n \<Longrightarrow> audit_at s t = Counting \<Longrightarrow> f < AUDIT_MAX \<Longrightarrow>
    audit_step n s (s\<lparr>audit_thread := (audit_thread s)(t := peak_audit_add f v (audit_thread s t)),
      audit_hits := (audit_hits s)(f := audit_hits s f + v)\<rparr>)"
| enter: "t < n \<Longrightarrow> audit_at s t = Counting \<Longrightarrow>
    audit_step n s (s\<lparr>audit_at := (audit_at s)(t := Merging 0)\<rparr>)"
| merge: "t < n \<Longrightarrow> audit_at s t = Merging i \<Longrightarrow>
    audit_step n s (s\<lparr>audit_export := sync_merge i (audit_export s) (audit_thread s t),
      audit_at := (audit_at s)(t := Wiping i)\<rparr>)"
| wipe: "t < n \<Longrightarrow> audit_at s t = Wiping i \<Longrightarrow>
    audit_step n s (s\<lparr>audit_thread := (audit_thread s)(t := sync_wipe i (audit_thread s t)),
      audit_at := (audit_at s)(t := if Suc i < AUDIT_MAX then Merging (Suc i) else Counting)\<rparr>)"

inductive audit_reachable :: "nat \<Rightarrow> audit_sys \<Rightarrow> bool" for n :: nat where
  start: "audit_reachable n audit_init"
| step: "audit_reachable n s \<Longrightarrow> audit_step n s s' \<Longrightarrow> audit_reachable n s'"

text \<open>What thread \<open>t\<close> still owes the shared counters: nothing for a field it has just added.\<close>

definition audit_pending :: "audit_sys \<Rightarrow> nat \<Rightarrow> nat \<Rightarrow> u64" where
  "audit_pending s f t = (if audit_at s t = Wiping f then 0 else audit_thread s t ! f)"

definition audit_inv :: "nat \<Rightarrow> audit_sys \<Rightarrow> bool" where
  "audit_inv n s \<longleftrightarrow> audit_ok (audit_export s) \<and> (\<forall>t. audit_ok (audit_thread s t)) \<and>
     (\<forall>t i. audit_at s t = Merging i \<or> audit_at s t = Wiping i \<longrightarrow> i < AUDIT_MAX) \<and>
     (\<forall>f < AUDIT_MAX. audit_export s ! f + (\<Sum>t<n. audit_pending s f t) = audit_hits s f)"

lemma sum_update_one:
  fixes g h :: "nat \<Rightarrow> 'a :: comm_ring_1"
  assumes "t < n" and "\<And>u. u \<noteq> t \<Longrightarrow> g u = h u"
  shows "(\<Sum>u<n. g u) = (\<Sum>u<n. h u) + g t - h t"
proof -
  have "(\<Sum>u<n. g u) = g t + (\<Sum>u\<in>{..<n} - {t}. g u)"
    using assms(1) by (simp add: sum.remove)
  also have "(\<Sum>u\<in>{..<n} - {t}. g u) = (\<Sum>u\<in>{..<n} - {t}. h u)"
    using assms(2) by (intro sum.cong) auto
  also have "\<dots> = (\<Sum>u<n. h u) - h t"
    using assms(1) by (simp add: sum.remove)
  finally show ?thesis by simp
qed

lemma shift_amount:
  fixes e :: "'a :: comm_ring_1"
  assumes "x' = x + p' - p" and "e' + p' = e + p" and "e + x = h"
  shows "e' + x' = h"
proof -
  have "e' + x' = (e' + p') + x - p" unfolding assms(1) by simp
  also have "\<dots> = e + x" unfolding assms(2) by simp
  finally show ?thesis using assms(3) by simp
qed

lemma audit_inv_init: "audit_inv n audit_init"
  by (simp add: audit_inv_def audit_init_def audit_pending_def) (simp add: audit_zero_def)

lemma audit_inv_step: "audit_step n s s' \<Longrightarrow> audit_inv n s \<Longrightarrow> audit_inv n s'"
proof (induction rule: audit_step.induct)
  case (count t s f v)
  let ?s = "s\<lparr>audit_thread := (audit_thread s)(t := peak_audit_add f v (audit_thread s t)),
      audit_hits := (audit_hits s)(f := audit_hits s f + v)\<rparr>"
  have "audit_export s ! g + (\<Sum>u<n. audit_pending ?s g u) = audit_hits ?s g" if "g < AUDIT_MAX" for g
  proof -
    have "(\<Sum>u<n. audit_pending ?s g u) = (\<Sum>u<n. audit_pending s g u) + audit_pending ?s g t - audit_pending s g t"
      using count by (intro sum_update_one) (auto simp: audit_pending_def)
    moreover have "audit_pending ?s g t - audit_pending s g t = (if g = f then v else 0)"
      using count that by (auto simp: audit_pending_def peak_audit_add_def audit_inv_def audit_ok_def)
    ultimately show ?thesis
      using count.prems that by (auto simp: audit_inv_def algebra_simps)
  qed
  with count show ?case by (auto simp: audit_inv_def)
next
  case (enter t s)
  let ?s = "s\<lparr>audit_at := (audit_at s)(t := Merging 0)\<rparr>"
  have "audit_pending ?s = audit_pending s"
    using enter by (auto simp: audit_pending_def fun_eq_iff)
  with enter show ?case by (auto simp: audit_inv_def)
next
  case (merge t s i)
  let ?s = "s\<lparr>audit_export := sync_merge i (audit_export s) (audit_thread s t),
      audit_at := (audit_at s)(t := Wiping i)\<rparr>"
  have "audit_export ?s ! g + (\<Sum>u<n. audit_pending ?s g u) = audit_hits s g" if "g < AUDIT_MAX" for g
  proof -
    have sums: "(\<Sum>u<n. audit_pending ?s g u) = (\<Sum>u<n. audit_pending s g u) + audit_pending ?s g t - audit_pending s g t"
      using merge by (intro sum_update_one) (auto simp: audit_pending_def)
    have moved: "audit_export ?s ! g + audit_pending ?s g t = audit_export s ! g + audit_pending s g t"
      using merge that by (auto simp: audit_pending_def sync_merge_def audit_inv_def audit_ok_def)
    have "audit_export s ! g + (\<Sum>u<n. audit_pending s g u) = audit_hits s g"
      using merge.prems that by (simp add: audit_inv_def)
    then show ?thesis by (rule shift_amount[OF sums moved])
  qed
  with merge show ?case by (auto simp: audit_inv_def audit_ok_def sync_merge_def)
next
  case (wipe t s i)
  let ?s = "s\<lparr>audit_thread := (audit_thread s)(t := sync_wipe i (audit_thread s t)),
      audit_at := (audit_at s)(t := if Suc i < AUDIT_MAX then Merging (Suc i) else Counting)\<rparr>"
  have "audit_pending ?s g u = audit_pending s g u" if "g < AUDIT_MAX" for g u
    using wipe that by (auto simp: audit_pending_def sync_wipe_def audit_inv_def audit_ok_def nth_list_update)
  with wipe show ?case by (auto simp: audit_inv_def audit_ok_def sync_wipe_def)
qed

lemma audit_reachable_inv: "audit_reachable n s \<Longrightarrow> audit_inv n s"
  by (induction rule: audit_reachable.induct) (blast intro: audit_inv_init audit_inv_step)+

section \<open>Properties\<close>

text \<open>\<open>peak_audit_sync\<close> adds every local counter to the shared one (modulo \<open>2^64\<close>) and leaves all
  local counters at zero.\<close>

lemma peak_audit_sync_merges:
  assumes "audit_ok e" and "audit_ok a"
  shows "peak_audit_sync e a = (map2 (+) e a, audit_zero)"
  using assms sync_fold[of AUDIT_MAX e a]
  by (auto simp: peak_audit_sync_def audit_zero_def audit_ok_def intro!: nth_equalityI)

theorem peak_audit_sync_merges_witness:
  "peak_audit_sync (peak_audit_inc 2 audit_zero) (peak_audit_add 2 5 audit_zero) =
    (map2 (+) (peak_audit_inc 2 audit_zero) (peak_audit_add 2 5 audit_zero), audit_zero)"
  using peak_audit_sync_merges[of "peak_audit_inc 2 audit_zero" "peak_audit_add 2 5 audit_zero"]
  by simp

text \<open>C9. No count is lost or duplicated however the threads interleave: in every reachable state in
  which no thread has anything left to merge into a field, the shared counter of that field is
  exactly what all threads together ever counted.\<close>

theorem audit_no_count_lost:
  assumes "audit_reachable n s" and "f < AUDIT_MAX"
    and "\<And>t. t < n \<Longrightarrow> audit_pending s f t = 0"
  shows "peak_audit_get f (audit_export s) = audit_hits s f"
proof -
  have "(\<Sum>t<n. audit_pending s f t) = 0"
    using assms(3) by (intro sum.neutral) simp
  with audit_reachable_inv[OF assms(1)] assms(2) show ?thesis
    by (auto simp: audit_inv_def peak_audit_get_def)
qed

text \<open>A run of two threads: thread 1 counts 5 on field 0, enters \<open>peak_audit_sync\<close> and merges it.\<close>

definition audit_run :: audit_sys where
  "audit_run = \<lparr>audit_thread = (\<lambda>_. audit_zero)(1 := peak_audit_add 0 5 audit_zero),
     audit_export = peak_audit_add 0 5 audit_zero, audit_at = (\<lambda>_. Counting)(1 := Wiping 0),
     audit_hits = (\<lambda>_. 0)(0 := 5)\<rparr>"

lemma audit_run_reachable: "audit_reachable 2 audit_run"
proof -
  let ?s1 = "audit_init\<lparr>audit_thread := (audit_thread audit_init)(1 := peak_audit_add 0 5 (audit_thread audit_init 1)),
      audit_hits := (audit_hits audit_init)(0 := audit_hits audit_init 0 + 5)\<rparr>"
  let ?s2 = "?s1\<lparr>audit_at := (audit_at ?s1)(1 := Merging 0)\<rparr>"
  let ?s3 = "?s2\<lparr>audit_export := sync_merge 0 (audit_export ?s2) (audit_thread ?s2 1),
      audit_at := (audit_at ?s2)(1 := Wiping 0)\<rparr>"
  have "audit_reachable 2 ?s1"
    by (rule audit_reachable.step[OF audit_reachable.start], rule audit_step.count)
      (simp_all add: audit_init_def)
  then have "audit_reachable 2 ?s2"
    by (rule audit_reachable.step, intro audit_step.enter) (simp_all add: audit_init_def)
  then have "audit_reachable 2 ?s3"
    by (rule audit_reachable.step, intro audit_step.merge) (simp_all add: audit_init_def)
  moreover have "?s3 = audit_run"
    by (simp add: audit_run_def audit_init_def sync_merge_def peak_audit_add_def audit_zero_def)
  ultimately show ?thesis by simp
qed

theorem audit_no_count_lost_witness:
  "peak_audit_get 0 (audit_export audit_run) = audit_hits audit_run 0 \<and> audit_hits audit_run 0 = 5"
proof -
  have "audit_pending audit_run 0 t = 0" if "t < 2" for t
    by (simp add: audit_pending_def audit_run_def audit_zero_def)
  with audit_no_count_lost[OF audit_run_reachable, of 0] show ?thesis
    by (simp add: audit_run_def)
qed

end
