(* ===== verification/Peak_Packet.thy ===== *)
theory Peak_Packet
  imports Peak_Net Peak_Audit
begin

text \<open>
  The packet preprocessor, \<open>src/lib/peak_packet.c\<close> and \<open>src/lib/peak_packet.h\<close>. A packet is parsed
  out of the object \<open>m\<close> that holds it; the pointers of \<open>struct peak_packet\<close> are offsets into \<open>m\<close>.
  Every header field the code reads is a load that fails outside \<open>m\<close>, so \<open>None\<close> is an
  out-of-bounds read. The extension header loop of \<open>peak_packet_ipv6\<close> runs on fuel; the fuel the
  parser uses is shown to be enough to tell a loop that ends from one that never does
  (\<open>Hang\<close>). Header layouts are those of \<open><netinet/ip.h>\<close>, \<open><netinet/ip6.h>\<close>, \<open><netinet/tcp.h>\<close> and
  \<open><netinet/udp.h>\<close>.
\<close>

section \<open>Constants and types\<close>

abbreviation (input) LINKTYPE_NULL :: u32 where "LINKTYPE_NULL \<equiv> 0"
abbreviation (input) LINKTYPE_ETHERNET :: u32 where "LINKTYPE_ETHERNET \<equiv> 1"
abbreviation (input) LINKTYPE_LINUX_SLL :: u32 where "LINKTYPE_LINUX_SLL \<equiv> 113"

abbreviation (input) ETHERTYPE_IP :: u16 where "ETHERTYPE_IP \<equiv> 0x0800"
abbreviation (input) ETHERTYPE_VLAN :: u16 where "ETHERTYPE_VLAN \<equiv> 0x8100"
abbreviation (input) ETHERTYPE_IPV6 :: u16 where "ETHERTYPE_IPV6 \<equiv> 0x86DD"

abbreviation (input) IPPROTO_HOPOPTS :: u8 where "IPPROTO_HOPOPTS \<equiv> 0"
abbreviation (input) IPPROTO_ICMP :: u8 where "IPPROTO_ICMP \<equiv> 1"
abbreviation (input) IPPROTO_IGMP :: u8 where "IPPROTO_IGMP \<equiv> 2"
abbreviation (input) IPPROTO_IPIP :: u8 where "IPPROTO_IPIP \<equiv> 4"
abbreviation (input) IPPROTO_TCP :: u8 where "IPPROTO_TCP \<equiv> 6"
abbreviation (input) IPPROTO_UDP :: u8 where "IPPROTO_UDP \<equiv> 17"
abbreviation (input) IPPROTO_IPV6 :: u8 where "IPPROTO_IPV6 \<equiv> 41"
abbreviation (input) IPPROTO_ROUTING :: u8 where "IPPROTO_ROUTING \<equiv> 43"
abbreviation (input) IPPROTO_FRAGMENT :: u8 where "IPPROTO_FRAGMENT \<equiv> 44"
abbreviation (input) IPPROTO_GRE :: u8 where "IPPROTO_GRE \<equiv> 47"
abbreviation (input) IPPROTO_ESP :: u8 where "IPPROTO_ESP \<equiv> 50"
abbreviation (input) IPPROTO_AH :: u8 where "IPPROTO_AH \<equiv> 51"
abbreviation (input) IPPROTO_ICMPV6 :: u8 where "IPPROTO_ICMPV6 \<equiv> 58"
abbreviation (input) IPPROTO_NONE :: u8 where "IPPROTO_NONE \<equiv> 59"
abbreviation (input) IPPROTO_DSTOPTS :: u8 where "IPPROTO_DSTOPTS \<equiv> 60"
abbreviation (input) IPPROTO_OSPFIGP :: u8 where "IPPROTO_OSPFIGP \<equiv> 89"
abbreviation (input) IPPROTO_IPEIP :: u8 where "IPPROTO_IPEIP \<equiv> 94"
abbreviation (input) IPPROTO_PIM :: u8 where "IPPROTO_PIM \<equiv> 103"
abbreviation (input) IPPROTO_L2TP :: u8 where "IPPROTO_L2TP \<equiv> 115"
abbreviation (input) IPPROTO_SCTP :: u8 where "IPPROTO_SCTP \<equiv> 132"

abbreviation (input) TH_FIN :: u8 where "TH_FIN \<equiv> 0x01"
abbreviation (input) TH_SYN :: u8 where "TH_SYN \<equiv> 0x02"
abbreviation (input) TH_RST :: u8 where "TH_RST \<equiv> 0x04"
abbreviation (input) TH_PUSH :: u8 where "TH_PUSH \<equiv> 0x08"
abbreviation (input) TH_ACK :: u8 where "TH_ACK \<equiv> 0x10"
abbreviation (input) TH_URG :: u8 where "TH_URG \<equiv> 0x20"
abbreviation (input) TCP_MAXHLEN :: nat where "TCP_MAXHLEN \<equiv> 60"
abbreviation (input) ICMP_MINLEN :: u16 where "ICMP_MINLEN \<equiv> 8"
abbreviation (input) AF_INET :: u16 where "AF_INET \<equiv> 2"
abbreviation (input) AF_INET6 :: u16 where "AF_INET6 \<equiv> 10"

text \<open>\<open>struct peak_packet\<close> without its padding fields.\<close>

record peak_packet =
  mac_raw :: ptr
  net_raw :: ptr
  flow_raw :: ptr
  app_raw :: ptr
  link_type :: u32
  mac_len :: u32
  mac_type :: u16
  mac_vlan :: u16
  net_saddr :: netaddr
  net_daddr :: netaddr
  net_family :: u16
  net_len :: u16
  net_hlen :: u8
  net_type :: u8
  flow_hlen :: u16
  flow_len :: u16
  flow_sport :: u16
  flow_dport :: u16
  app_len :: u16

definition packet_zero :: peak_packet where
  "packet_zero = \<lparr>mac_raw = None, net_raw = None, flow_raw = None, app_raw = None,
     link_type = 0, mac_len = 0, mac_type = 0, mac_vlan = 0,
     net_saddr = replicate 16 0, net_daddr = replicate 16 0, net_family = 0,
     net_len = 0, net_hlen = 0, net_type = 0,
     flow_hlen = 0, flow_len = 0, flow_sport = 0, flow_dport = 0, app_len = 0\<rparr>"

section \<open>Names\<close>

definition peak_packet_mac :: "peak_packet \<Rightarrow> string" where
  "peak_packet_mac self =
     (if mac_type self = ETHERTYPE_IP then ''ip''
      else if mac_type self = ETHERTYPE_IPV6 then ''ipv6''
      else ''xxx'')"

definition peak_packet_net :: "peak_packet \<Rightarrow> string" where
  "peak_packet_net self =
     (if net_type self = IPPROTO_ICMP then ''icmp''
      else if net_type self = IPPROTO_IGMP then ''igmp''
      else if net_type self = IPPROTO_IPIP then ''ipv4''
      else if net_type self = IPPROTO_TCP then ''tcp''
      else if net_type self = IPPROTO_UDP then ''udp''
      else if net_type self = IPPROTO_IPV6 then ''ipv6''
      else if net_type self = IPPROTO_GRE then ''gre''
      else if net_type self = IPPROTO_NONE then ''none''
      else if net_type self = IPPROTO_ICMPV6 then ''icmpv6''
      else if net_type self = IPPROTO_IPEIP then ''ipeip''
      else if net_type self = IPPROTO_OSPFIGP then ''ospf''
      else if net_type self = IPPROTO_L2TP then ''l2tp''
      else if net_type self = IPPROTO_SCTP then ''sctp''
      else if net_type self = IPPROTO_PIM then ''pim''
      else ''xxx'')"

section \<open>IPv6 extension headers\<close>

text \<open>How the loop ends: with the return value of \<open>peak_packet_ipv6\<close> (is the packet bad?), the
  header length and the protocol; or not at all within the fuel.\<close>

datatype ip6_exit = Ip6_exit bool u8 u8 | Ip6_spin

definition ip6_variable :: "u8 \<Rightarrow> bool" where
  "ip6_variable t \<longleftrightarrow> t = IPPROTO_HOPOPTS \<or> t = IPPROTO_ROUTING \<or> t = IPPROTO_DSTOPTS \<or>
     t = IPPROTO_ESP \<or> t = IPPROTO_AH"

text \<open>\<open>struct ip6_ext\<close> has two bytes (next type, length), so \<open>next_hdr\<close> moves in steps of two.\<close>

fun ipv6_loop :: "nat \<Rightarrow> mem \<Rightarrow> nat \<Rightarrow> u8 \<Rightarrow> u8 \<Rightarrow> ip6_exit option" where
  "ipv6_loop 0 m next_hdr next_type hlen = Some Ip6_spin"
| "ipv6_loop (Suc fuel) m next_hdr next_type hlen =
     (if ip6_variable next_type then do {
        ip6e_len \<leftarrow> load8 m (next_hdr + 1);
        if ip6e_len mod 8 \<noteq> 0 then Some (Ip6_exit True hlen 0)
        else do {
          ip6e_nxt \<leftarrow> load8 m next_hdr;
          ipv6_loop fuel m (next_hdr + 2 * (unat ip6e_len div 2)) ip6e_nxt (hlen + ip6e_len) } }
      else if next_type = IPPROTO_FRAGMENT then do {
        ip6e_nxt \<leftarrow> load8 m next_hdr;
        ipv6_loop fuel m (next_hdr + 2 * (8 div 2)) ip6e_nxt (hlen + 8) }
      else Some (Ip6_exit False hlen next_type))"

definition ipv6_fuel :: "mem \<Rightarrow> nat" where
  "ipv6_fuel m = 2 * length m + 2"

definition peak_packet_ipv6 :: "mem \<Rightarrow> peak_packet \<Rightarrow> (bool \<times> peak_packet) outcome option" where
  "peak_packet_ipv6 m self = do {
     i6h \<leftarrow> net_raw self;
     next_type \<leftarrow> load8 m (i6h + 6);
     ip6_plen \<leftarrow> peak_be16dec m (i6h + 4);
     let self = self\<lparr>net_len := 40 + ip6_plen, net_hlen := 40\<rparr>;
     r \<leftarrow> ipv6_loop (ipv6_fuel m) m (i6h + 40) next_type (net_hlen self);
     Some (case r of
         Ip6_spin \<Rightarrow> Hang
       | Ip6_exit bad hlen t \<Rightarrow>
           Return (bad, if bad then self\<lparr>net_hlen := hlen\<rparr>
                        else self\<lparr>net_hlen := hlen, net_type := t\<rparr>)) }"

section \<open>Transport headers\<close>

definition peak_packet_udp :: "mem \<Rightarrow> peak_packet \<Rightarrow> (bool \<times> peak_packet) option" where
  "peak_packet_udp m self = (let hlen = 8 in
     if flow_len self < 8 then Some (True, self)
     else do {
       uh \<leftarrow> flow_raw self;
       uh_sport \<leftarrow> peak_le16dec m uh;
       uh_dport \<leftarrow> peak_le16dec m (uh + 2);
       if uh_sport = 0 \<or> uh_dport = 0 then Some (True, self)
       else do {
         uh_ulen \<leftarrow> peak_le16dec m (uh + 4);
         ulen \<leftarrow> peak_be16dec m (uh + 4);
         if uh_ulen = 0 \<or> unat ulen < hlen then Some (True, self)
         else do {
           uh_sum \<leftarrow> peak_le16dec m (uh + 6);
           sport \<leftarrow> peak_be16dec m uh;
           dport \<leftarrow> peak_be16dec m (uh + 2);
           Some (False, self\<lparr>app_len := flow_len self - 8, app_raw := Some (uh + hlen),
             flow_sport := sport, flow_dport := dport, flow_hlen := 8\<rparr>) } } })"

text \<open>The flag sanity checks of \<open>peak_packet_tcp\<close>: may the segment pass?\<close>

definition tcp_flags_ok :: "u8 \<Rightarrow> bool" where
  "tcp_flags_ok flags \<longleftrightarrow>
     (if flags AND TH_SYN \<noteq> 0 then flags AND TH_RST = 0
      else flags AND (TH_ACK OR TH_RST) \<noteq> 0) \<and>
     (flags AND TH_ACK = 0 \<longrightarrow> flags AND (TH_FIN OR TH_PUSH OR TH_URG) = 0)"

definition peak_packet_tcp :: "mem \<Rightarrow> peak_packet \<Rightarrow> (bool \<times> peak_packet) option" where
  "peak_packet_tcp m self = do {
     th \<leftarrow> flow_raw self;
     off \<leftarrow> load8 m (th + 12);
     let hlen = unat (drop_bit 4 off) * 4;
     if hlen < 20 \<or> TCP_MAXHLEN < hlen then Some (True, self)
     else if unat (flow_len self) < hlen then Some (True, self)
     else do {
       th_sport \<leftarrow> peak_le16dec m th;
       th_dport \<leftarrow> peak_le16dec m (th + 2);
       if th_sport = 0 \<or> th_dport = 0 then Some (True, self)
       else do {
         flags \<leftarrow> load8 m (th + 13);
         if \<not> tcp_flags_ok flags then Some (True, self)
         else do {
           sport \<leftarrow> peak_be16dec m th;
           dport \<leftarrow> peak_be16dec m (th + 2);
           Some (False, self\<lparr>app_raw := Some (th + hlen),
             app_len := flow_len self - of_nat hlen,
             flow_sport := sport, flow_dport := dport, flow_hlen := of_nat hlen\<rparr>) } } } }"

section \<open>The parser\<close>

text \<open>The link layer switch; the inner \<open>None\<close> is an unknown link type.\<close>

definition parse_link :: "mem \<Rightarrow> u32 \<Rightarrow> peak_packet \<Rightarrow> peak_packet option option" where
  "parse_link m type self =
     (if type = LINKTYPE_NULL then
        Some (Some (self\<lparr>mac_type := ETHERTYPE_IP, net_raw := mac_raw self\<rparr>))
      else if type = LINKTYPE_ETHERNET then do {
        mac \<leftarrow> mac_raw self;
        m_type \<leftarrow> peak_be16dec m (mac + 12);
        if m_type = ETHERTYPE_VLAN then do {
          ether_type \<leftarrow> peak_be16dec m (mac + 16);
          vlan_tci \<leftarrow> peak_be16dec m (mac + 14);
          Some (Some (self\<lparr>mac_type := ether_type, mac_vlan := 0x0FFF AND vlan_tci,
            net_raw := Some (mac + 18)\<rparr>)) }
        else Some (Some (self\<lparr>mac_type := m_type, net_raw := Some (mac + 14)\<rparr>)) }
      else if type = LINKTYPE_LINUX_SLL then do {
        mac \<leftarrow> mac_raw self;
        sll_protocol \<leftarrow> peak_be16dec m (mac + 14);
        Some (Some (self\<lparr>mac_type := sll_protocol, net_raw := Some (mac + 16)\<rparr>)) }
      else Some None)"

text \<open>The IPv4 case of the network layer switch: is the packet bad, and the packet.\<close>

definition parse_ipv4 :: "mem \<Rightarrow> peak_packet \<Rightarrow> (bool \<times> peak_packet) option" where
  "parse_ipv4 m self = do {
     iph \<leftarrow> net_raw self;
     ip_vhl \<leftarrow> load8 m iph;
     let ip_hlen = unat (ip_vhl AND 0x0F) * 4;
     ip_len \<leftarrow> peak_be16dec m (iph + 2);
     if drop_bit 4 ip_vhl \<noteq> 4 then Some (True, self)
     else if ip_hlen < 20 then Some (True, self)
     else if unat ip_len < ip_hlen then Some (True, self)
     else do {
       ip_src \<leftarrow> peak_le32dec m (iph + 12);
       ip_dst \<leftarrow> peak_le32dec m (iph + 16);
       ip_p \<leftarrow> load8 m (iph + 9);
       Some (False, self\<lparr>net_saddr := netaddr4 ip_src, net_daddr := netaddr4 ip_dst,
         net_family := AF_INET, net_type := ip_p, net_hlen := of_nat ip_hlen,
         net_len := ip_len\<rparr>) } }"

definition parse_ipv6 :: "mem \<Rightarrow> peak_packet \<Rightarrow> (bool \<times> peak_packet) outcome option" where
  "parse_ipv6 m self = do {
     ip6h \<leftarrow> net_raw self;
     ip6_src \<leftarrow> netaddr6 m (ip6h + 8);
     ip6_dst \<leftarrow> netaddr6 m (ip6h + 24);
     peak_packet_ipv6 m (self\<lparr>net_saddr := ip6_src, net_daddr := ip6_dst,
       net_family := AF_INET6\<rparr>) }"

text \<open>The transport layer: start and length of the next header, then the protocol switch.\<close>

definition parse_flow :: "mem \<Rightarrow> peak_packet \<Rightarrow> peak_audit \<Rightarrow> (bool \<times> peak_packet \<times> peak_audit) option" where
  "parse_flow m self a = do {
     net \<leftarrow> net_raw self;
     let self = self\<lparr>flow_raw := Some (net + unat (net_hlen self)),
       flow_len := net_len self - ucast (net_hlen self)\<rparr>;
     if net_type self = IPPROTO_TCP then do {
       (bad, self) \<leftarrow> peak_packet_tcp m self;
       if bad then Some (True, self, peak_audit_inc AUDIT_PACKET_DROP_TCP a)
       else Some (False, self, a) }
     else if net_type self = IPPROTO_UDP then do {
       (bad, self) \<leftarrow> peak_packet_udp m self;
       if bad then Some (True, self, peak_audit_inc AUDIT_PACKET_DROP_UDP a)
       else Some (False, self, a) }
     else if net_type self = IPPROTO_ICMP then
       (if flow_len self < ICMP_MINLEN
        then Some (True, self, peak_audit_inc AUDIT_PACKET_DROP_ICMP a)
        else Some (False, self\<lparr>app_len := flow_len self - ICMP_MINLEN,
          app_raw := map_option (\<lambda>f. f + 8) (flow_raw self), flow_hlen := ICMP_MINLEN\<rparr>, a))
     else Some (False, self, a) }"

definition peak_packet_parse ::
  "mem \<Rightarrow> u32 \<Rightarrow> u32 \<Rightarrow> peak_audit \<Rightarrow> (bool \<times> peak_packet \<times> peak_audit) outcome option" where
  "peak_packet_parse m len type a = do {
     let self = packet_zero\<lparr>link_type := type, mac_raw := Some 0, mac_len := len\<rparr>;
     linked \<leftarrow> parse_link m type self;
     case linked of
       None \<Rightarrow> Some (Return (True, self, peak_audit_inc AUDIT_PACKET_DROP_LINK a))
     | Some self \<Rightarrow>
         if mac_type self = ETHERTYPE_IP then do {
           (bad, self) \<leftarrow> parse_ipv4 m self;
           if bad then Some (Return (True, self, peak_audit_inc AUDIT_PACKET_DROP_IPV4 a))
           else map_option Return (parse_flow m self a) }
         else if mac_type self = ETHERTYPE_IPV6 then do {
           r \<leftarrow> parse_ipv6 m self;
           case r of
             Return (bad, self) \<Rightarrow>
               if bad then Some (Return (True, self, peak_audit_inc AUDIT_PACKET_DROP_IPV6 a))
               else map_option Return (parse_flow m self a)
           | Panic \<Rightarrow> Some Panic
           | Hang \<Rightarrow> Some Hang }
         else Some (Return (False, self, a)) }"

section \<open>Extension header chains\<close>

text \<open>One step of the extension header loop as a relation on the loop's state: where the next
  header is and which type it has.\<close>

inductive ip6_next :: "mem \<Rightarrow> nat \<times> u8 \<Rightarrow> nat \<times> u8 \<Rightarrow> bool" for m where
  variable_header: "\<lbrakk>ip6_variable t; load8 m (pos + 1) = Some l; l mod 8 = 0; load8 m pos = Some t'\<rbrakk>
     \<Longrightarrow> ip6_next m (pos, t) (pos + unat l, t')"
| fragment_header: "load8 m pos = Some t' \<Longrightarrow> ip6_next m (pos, IPPROTO_FRAGMENT) (pos + 8, t')"

inductive_simps ip6_next_iff: "ip6_next m (pos, t) s"

lemma ip6_variable_fragment [simp]: "\<not> ip6_variable IPPROTO_FRAGMENT"
  by (simp add: ip6_variable_def)

lemma mod8_even:
  fixes l :: u8
  assumes "l mod 8 = 0"
  shows "2 * (unat l div 2) = unat l"
proof -
  have "unat (l mod 8) = 0" using assms by simp
  then have "unat l mod 8 = 0" by (simp add: unat_mod_distrib)
  then show ?thesis by presburger
qed

lemma dvd8: "(8 :: u8) dvd l \<Longrightarrow> l mod 8 = 0"
proof (elim dvdE)
  fix k :: u8
  assume l: "l = 8 * k"
  have "take_bit 3 (push_bit 3 k) = 0" by (rule bit_word_eqI) (simp add: bit_simps)
  then show "l mod 8 = 0" by (simp add: l take_bit_eq_mod push_bit_eq_mult mult.commute)
qed

lemma ipv6_loop_step:
  assumes "ip6_next m (pos, t) (pos', t')"
  obtains h' where "\<And>fuel. ipv6_loop (Suc fuel) m pos t h = ipv6_loop fuel m pos' t' h'"
  using assms by (cases rule: ip6_next.cases) (auto simp: mod8_even)

lemma ipv6_loop_spin_step:
  assumes "ipv6_loop (Suc fuel) m pos t h = Some Ip6_spin"
  obtains pos' t' h' where "ip6_next m (pos, t) (pos', t')"
    and "ipv6_loop fuel m pos' t' h' = Some Ip6_spin"
proof (cases "ip6_variable t")
  case True
  with assms that[OF variable_header] show thesis
    by (auto simp: bind_eq_Some_conv mod8_even dvd8 split: if_splits)
next
  case False
  with assms have "t = IPPROTO_FRAGMENT" by (auto split: if_splits)
  with assms that fragment_header[of m pos] show thesis by (auto simp: bind_eq_Some_conv)
qed

lemma ip6_self_loop_spins:
  assumes "ip6_next m (pos, t) (pos, t)"
  shows "ipv6_loop fuel m pos t h = Some Ip6_spin"
proof (induction fuel arbitrary: h)
  case (Suc fuel)
  from ipv6_loop_step[OF assms, of h] Suc.IH show ?case by metis
qed simp

lemma ip6_reaches_loop_spins:
  assumes "(ip6_next m)\<^sup>*\<^sup>* s (pos', t')" and "ip6_next m (pos', t') (pos', t')"
  shows "ipv6_loop fuel m (fst s) (snd s) h = Some Ip6_spin"
  using assms(1)
proof (induction arbitrary: fuel h rule: converse_rtranclp_induct)
  case base
  with ip6_self_loop_spins[OF assms(2)] show ?case by simp
next
  case (step s s1)
  show ?case
  proof (cases fuel)
    case (Suc f)
    with ipv6_loop_step[of m "fst s" "snd s" "fst s1" "snd s1" h] step show ?thesis
      by (metis prod.collapse)
  qed simp
qed

text \<open>Every step but a self loop lowers this measure, hence the bound \<open>ipv6_fuel\<close>.\<close>

definition ip6_measure :: "mem \<Rightarrow> nat \<times> u8 \<Rightarrow> nat" where
  "ip6_measure m s = 2 * (length m - fst s) + (if ip6_variable (snd s) then 1 else 0)"

lemma ip6_next_decreases:
  assumes "ip6_next m s s'"
  shows "ip6_measure m s' < ip6_measure m s \<or> ip6_next m s' s'"
  using assms
proof (cases rule: ip6_next.cases)
  case (variable_header t pos l t')
  then have pos: "pos + 1 < length m" by (simp add: load8_def split: if_splits)
  show ?thesis
  proof (cases "unat l = 0")
    case True
    with variable_header pos show ?thesis
      by (auto simp: ip6_measure_def ip6_next_iff unat_eq_0)
  next
    case False
    then have "2 * (length m - (pos + unat l)) + 1 < 2 * (length m - pos) + 1" using pos by simp
    with variable_header show ?thesis by (simp add: ip6_measure_def)
  qed
next
  case (fragment_header pos t')
  then show ?thesis by (auto simp: ip6_measure_def load8_def split: if_splits)
qed

lemma ipv6_fuel_spin:
  assumes "ipv6_loop fuel m (fst s) (snd s) h = Some Ip6_spin" and "ip6_measure m s < fuel"
  shows "\<exists>s'. (ip6_next m)\<^sup>*\<^sup>* s s' \<and> ip6_next m s' s'"
  using assms
proof (induction fuel arbitrary: s h)
  case (Suc fuel)
  obtain s1 h1 where s1: "ip6_next m s s1" "ipv6_loop fuel m (fst s1) (snd s1) h1 = Some Ip6_spin"
    using ipv6_loop_spin_step[OF Suc.prems(1)] by (metis fst_conv prod.collapse snd_conv)
  show ?case
  proof (cases "ip6_next m s1 s1")
    case True
    with s1(1) show ?thesis by blast
  next
    case False
    with ip6_next_decreases[OF s1(1)] Suc.prems(2) have "ip6_measure m s1 < fuel" by simp
    from Suc.IH[OF s1(2) this] s1(1) show ?thesis by (meson converse_rtranclp_into_rtranclp)
  qed
qed simp

lemma ip6_measure_fuel: "ip6_measure m s < ipv6_fuel m"
  unfolding ip6_measure_def ipv6_fuel_def by (simp, linarith)

lemma ipv6_loop_spin_iff:
  "ipv6_loop (ipv6_fuel m) m pos t h = Some Ip6_spin \<longleftrightarrow>
     (\<exists>s. (ip6_next m)\<^sup>*\<^sup>* (pos, t) s \<and> ip6_next m s s)"
  using ipv6_fuel_spin[OF _ ip6_measure_fuel, where s = "(pos, t)" and h = h]
    ip6_reaches_loop_spins[where s = "(pos, t)" and m = m] by auto

lemma ipv6_loop_more_fuel:
  assumes "ipv6_loop fuel m pos t h = Some (Ip6_exit b h' t')"
  shows "ipv6_loop (fuel + k) m pos t h = Some (Ip6_exit b h' t')"
  using assms
proof (induction fuel arbitrary: pos t h)
  case (Suc fuel)
  then show ?case by (auto simp: dvd8 split: if_splits Option.bind_splits)
qed simp

lemma exit_case_Hang_iff:
  "(case r of Ip6_spin \<Rightarrow> Hang | Ip6_exit b h t \<Rightarrow> Return (f b h t)) = Hang \<longleftrightarrow> r = Ip6_spin"
  by (cases r) auto

text \<open>C7. \<open>peak_packet_ipv6\<close> never returns exactly when the extension headers lead to a state that is its
  own successor: a variable header of length zero in front of another variable header. In every other
  case the fuel of the model is enough, so \<open>Hang\<close> is non-termination of the C loop.\<close>

theorem ipv6_hang_iff:
  "peak_packet_ipv6 m p = Some Hang \<longleftrightarrow>
     (\<exists>i t plen s. net_raw p = Some i \<and> load8 m (i + 6) = Some t \<and> peak_be16dec m (i + 4) = Some plen \<and>
        (ip6_next m)\<^sup>*\<^sup>* (i + 40, t) s \<and> ip6_next m s s)"
  unfolding peak_packet_ipv6_def
  by (auto simp: bind_eq_Some_conv Let_def ipv6_loop_spin_iff exit_case_Hang_iff
      simp del: split_paired_Ex)

section \<open>What an accepted packet looks like\<close>

lemma tcp_flags_ok_iff:
  "tcp_flags_ok f \<longleftrightarrow>
     (if bit f 4 then \<not> (bit f 1 \<and> bit f 2)
      else bit f 1 \<noteq> bit f 2 \<and> \<not> bit f 0 \<and> \<not> bit f 3 \<and> \<not> bit f 5)"
proof -
  have one: "f AND 2 ^ n \<noteq> 0 \<longleftrightarrow> bit f n" for n
    by (simp add: bit_iff_and_push_bit_not_eq_0 push_bit_of_1)
  have "f AND 1 \<noteq> 0 \<longleftrightarrow> bit f 0" "f AND 2 \<noteq> 0 \<longleftrightarrow> bit f 1" "f AND 4 \<noteq> 0 \<longleftrightarrow> bit f 2"
    "f AND 8 \<noteq> 0 \<longleftrightarrow> bit f 3" "f AND 16 \<noteq> 0 \<longleftrightarrow> bit f 4" "f AND 32 \<noteq> 0 \<longleftrightarrow> bit f 5"
    using one[of 0] one[of 1] one[of 2] one[of 3] one[of 4] one[of 5] by simp_all
  moreover have "f AND 20 = (f AND 16) OR (f AND 4)" "f AND 41 = (f AND 1) OR (f AND 8) OR (f AND 32)"
    using bit.conj_disj_distrib[of f 16 4] bit.conj_disj_distrib[of f 1 "8 OR 32"]
      bit.conj_disj_distrib[of f 8 32] by simp_all
  ultimately show ?thesis
    unfolding tcp_flags_ok_def by (simp add: or_eq_0_iff) blast
qed

text \<open>The header and payload lengths of an accepted transport header add up.\<close>

definition flow_layered :: "peak_packet \<Rightarrow> bool" where
  "flow_layered p \<longleftrightarrow> unat (flow_hlen p) + unat (app_len p) = unat (flow_len p) \<and>
     app_raw p = map_option (\<lambda>f. f + unat (flow_hlen p)) (flow_raw p)"

definition same_net :: "peak_packet \<Rightarrow> peak_packet \<Rightarrow> bool" where
  "same_net p q \<longleftrightarrow> net_raw q = net_raw p \<and> flow_raw q = flow_raw p \<and> net_len q = net_len p \<and>
     net_hlen q = net_hlen p \<and> flow_len q = flow_len p \<and> net_type q = net_type p \<and>
     net_family q = net_family p \<and> mac_type q = mac_type p \<and>
     net_saddr q = net_saddr p \<and> net_daddr q = net_daddr p"

lemma unat_of_nat16: "h < 65536 \<Longrightarrow> unat (of_nat h :: u16) = h"
  by (simp add: unat_of_nat)

lemma unat_sub_of_nat:
  fixes w :: u16
  assumes "h \<le> unat w"
  shows "unat (w - of_nat h) = unat w - h"
proof -
  have h: "unat (of_nat h :: u16) = h"
    using assms unsigned_less[of w, where 'a = nat] by (intro unat_of_nat16) simp
  with assms have "of_nat h \<le> w" by (simp add: word_le_nat_alt)
  with h show ?thesis by (simp add: unat_sub)
qed

lemma byte_of_high: "ucast (drop_bit 8 (push_bit 8 (ucast (a :: u8)) :: u16)) = a"
  by (rule bit_word_eqI) (simp add: bit_simps)

lemma byte_of_low: "ucast (ucast (a :: u8) :: u16) = a"
  by (rule bit_word_eqI) (simp add: bit_simps)

lemma high_byte_zero: "(push_bit 8 (ucast (a :: u8)) :: u16) = 0 \<longleftrightarrow> a = 0"
  using byte_of_high[of a] by (auto simp: push_bit_eq_0_iff)

lemma be16_zero:
  assumes "peak_be16dec m p = Some 0" and "peak_le16dec m p = Some v"
  shows "v = 0"
proof -
  have low: "(ucast (a :: u8) :: u16) = 0 \<longleftrightarrow> a = 0" for a
    using byte_of_low[of a] by auto
  show ?thesis
    using assms by (auto simp: decoder_defs bind_eq_Some_conv or_eq_0_iff high_byte_zero low)
qed

lemma tcp_accepted:
  assumes "peak_packet_tcp m p = Some (False, q)"
  shows "same_net p q \<and> flow_layered q" "20 \<le> unat (flow_hlen q)" "flow_sport q \<noteq> 0" "flow_dport q \<noteq> 0"
    "\<exists>th f. flow_raw p = Some th \<and> load8 m (th + 13) = Some f \<and> tcp_flags_ok f"
  using assms unfolding peak_packet_tcp_def Let_def
  by (auto simp: same_net_def flow_layered_def bind_eq_Some_conv unat_of_nat16 unat_sub_of_nat
      simp del: of_nat_mult
      dest: be16_zero split: if_splits)

lemma udp_accepted:
  assumes "peak_packet_udp m p = Some (False, q)"
  shows "same_net p q \<and> flow_layered q" "flow_hlen q = 8" "flow_sport q \<noteq> 0" "flow_dport q \<noteq> 0"
  using assms unat_of_nat16[of 8] unat_sub_of_nat[of 8 "flow_len p"] unfolding peak_packet_udp_def Let_def
  by (auto simp: word_less_nat_alt same_net_def flow_layered_def bind_eq_Some_conv dest: be16_zero split: if_splits)

lemma parse_flow_accepted:
  assumes "parse_flow m p a = Some (False, q, a')"
  shows "\<exists>n. net_raw p = Some n \<and> flow_raw q = Some (n + unat (net_hlen p))"
    "a' = a" "flow_len q = net_len p - ucast (net_hlen p)" 
    "net_raw q = net_raw p" "net_len q = net_len p" "net_hlen q = net_hlen p" "net_type q = net_type p"
    "net_family q = net_family p"
    "net_type p \<in> {IPPROTO_TCP, IPPROTO_UDP, IPPROTO_ICMP} \<Longrightarrow> flow_layered q"
  using assms unat_sub_of_nat[of 8 "net_len p - ucast (net_hlen p)"] unfolding parse_flow_def Let_def
  by (auto simp: bind_eq_Some_conv same_net_def flow_layered_def word_le_nat_alt word_less_nat_alt dest!: tcp_accepted(1) udp_accepted(1) split: if_splits)

lemma parse_link_result:
  assumes "parse_link m type self = Some (Some p)"
  shows "net_family p = net_family self" "app_len p = app_len self"
  using assms unfolding parse_link_def by (auto simp: bind_eq_Some_conv split: if_splits)

lemma low_nibble: "unat ((v :: u8) AND 0x0F) \<le> 15"
  using word_and_le1[of v "0x0F"] by (simp add: word_le_nat_alt)

lemma parse_ipv4_accepted:
  assumes "parse_ipv4 m p = Some (False, q)"
  shows "20 \<le> unat (net_hlen q)" "unat (net_hlen q) \<le> 60" "unat (net_hlen q) \<le> unat (net_len q)"
    "net_family q = AF_INET"
proof -
  obtain v l where q: "net_family q = AF_INET" "net_hlen q = of_nat (unat (v AND 0x0F :: u8) * 4)"
      "net_len q = l" "20 \<le> unat (v AND 0x0F) * 4" "unat (v AND 0x0F) * 4 \<le> unat l"
    using assms unfolding parse_ipv4_def Let_def
    by (fastforce simp: bind_eq_Some_conv simp del: of_nat_mult split: if_splits)
  have "unat (net_hlen q) = unat (v AND 0x0F) * 4"
    unfolding q(2) using low_nibble[of v] by (subst unat_of_nat) simp
  with q low_nibble[of v] show "20 \<le> unat (net_hlen q)" "unat (net_hlen q) \<le> 60"
    "unat (net_hlen q) \<le> unat (net_len q)" "net_family q = AF_INET" by auto
qed

lemma peak_packet_ipv6_family:
  "peak_packet_ipv6 m p = Some (Return (b, q)) \<Longrightarrow> net_family q = net_family p"
  unfolding peak_packet_ipv6_def Let_def
  by (auto split: Option.bind_splits ip6_exit.splits if_splits)

lemma parse_ipv6_family:
  "parse_ipv6 m p = Some (Return (b, q)) \<Longrightarrow> net_family q = AF_INET6"
  unfolding parse_ipv6_def by (auto simp: bind_eq_Some_conv dest: peak_packet_ipv6_family)

lemma accepted_ipv6_family:
  "parse_ipv6 m p = Some (Return (b, q)) \<Longrightarrow> parse_flow m q a = Some (False, r, a') \<Longrightarrow>
     net_family r = AF_INET \<Longrightarrow> False"
  by (simp add: parse_ipv6_family parse_flow_accepted(8))

text \<open>An accepted IPv4 packet went through \<open>parse_ipv4\<close> and \<open>parse_flow\<close>.\<close>

lemma accepted_ipv4_path:
  assumes "peak_packet_parse m len type a = Some (Return (False, p, a'))" and "net_family p = AF_INET"
  obtains q r where "parse_ipv4 m q = Some (False, r)" "parse_flow m r a = Some (False, p, a')" "app_len q = 0"
  using assms unfolding peak_packet_parse_def Let_def
  by (auto simp: packet_zero_def split: Option.bind_splits option.splits if_splits outcome.splits
      dest: parse_link_result) (fastforce dest: parse_link_result(2) accepted_ipv6_family)+

lemma ipv4_layers:
  assumes "peak_packet_parse m len type a = Some (Return (False, p, a'))" and "net_family p = AF_INET"
    and "net_type p \<in> {IPPROTO_TCP, IPPROTO_UDP, IPPROTO_ICMP}"
  shows "\<exists>n. net_raw p = Some n \<and> 20 \<le> unat (net_hlen p) \<and> unat (net_hlen p) \<le> 60 \<and>
     unat (net_hlen p) + unat (flow_len p) = unat (net_len p) \<and>
     flow_raw p = Some (n + unat (net_hlen p)) \<and>
     unat (flow_hlen p) + unat (app_len p) = unat (flow_len p) \<and>
     app_raw p = Some (n + unat (net_hlen p) + unat (flow_hlen p))"
proof -
  from accepted_ipv4_path[OF assms(1,2)] obtain q r
    where r: "parse_ipv4 m q = Some (False, r)" "parse_flow m r a = Some (False, p, a')" .
  note fl = parse_flow_accepted[OF r(2)] and ip = parse_ipv4_accepted[OF r(1)]
  have "flow_layered p" using fl assms(3) by simp
  moreover have "unat (net_hlen p) + unat (flow_len p) = unat (net_len p)"
    using fl ip(3) unat_sub_of_nat[of "unat (net_hlen r)" "net_len r"] by simp
  ultimately show ?thesis using fl(1) ip by (auto simp: flow_layered_def fl(4-6))
qed

text \<open>Other protocols leave the application layer empty.\<close>

lemma ipv4_other_layers:
  assumes "peak_packet_parse m len type a = Some (Return (False, p, a'))" and "net_family p = AF_INET"
    and "net_type p \<notin> {IPPROTO_TCP, IPPROTO_UDP, IPPROTO_ICMP}"
  shows "app_len p = 0" "\<exists>n. net_raw p = Some n \<and> flow_raw p = Some (n + unat (net_hlen p)) \<and>
     unat (net_hlen p) + unat (flow_len p) = unat (net_len p)"
proof -
  from accepted_ipv4_path[OF assms(1,2)] obtain q r
    where r: "parse_ipv4 m q = Some (False, r)" "parse_flow m r a = Some (False, p, a')" "app_len q = 0" .
  note fl = parse_flow_accepted[OF r(2)] and ip = parse_ipv4_accepted[OF r(1)]
  have "app_len r = app_len q"
    using r(1) unfolding parse_ipv4_def Let_def by (auto simp: bind_eq_Some_conv split: if_splits)
  then show "app_len p = 0"
    using r(2,3) fl assms(3) unfolding parse_flow_def Let_def
    by (auto simp: bind_eq_Some_conv split: if_splits)
  show "\<exists>n. net_raw p = Some n \<and> flow_raw p = Some (n + unat (net_hlen p)) \<and>
     unat (net_hlen p) + unat (flow_len p) = unat (net_len p)"
    using fl ip(3) unat_sub_of_nat[of "unat (net_hlen r)" "net_len r"] by auto
qed

text \<open>C6. In an accepted IPv4 packet the lengths of the layers add up without wrapping: the IP header has 20 to 60 bytes, IP
  header and flow make up the datagram, and the flow starts right behind the header. For TCP, UDP and ICMP the transport header and the
  payload make up the flow, and the payload pointer stands right behind both headers; for every other protocol there is no payload.\<close>

theorem ipv4_accepted_layers:
  assumes "peak_packet_parse m len type a = Some (Return (False, p, a'))" and "net_family p = AF_INET"
  shows "\<exists>n. net_raw p = Some n \<and> 20 \<le> unat (net_hlen p) \<and> unat (net_hlen p) \<le> 60 \<and>
     unat (net_hlen p) + unat (flow_len p) = unat (net_len p) \<and> flow_raw p = Some (n + unat (net_hlen p)) \<and>
     (if net_type p \<in> {IPPROTO_TCP, IPPROTO_UDP, IPPROTO_ICMP}
      then unat (flow_hlen p) + unat (app_len p) = unat (flow_len p) \<and>
        app_raw p = Some (n + unat (net_hlen p) + unat (flow_hlen p))
      else app_len p = 0)"
proof (cases "net_type p \<in> {IPPROTO_TCP, IPPROTO_UDP, IPPROTO_ICMP}")
  case True
  from ipv4_layers[OF assms True] True show ?thesis by auto
next
  case False
  from accepted_ipv4_path[OF assms] obtain q r where r: "parse_ipv4 m q = Some (False, r)" "parse_flow m r a = Some (False, p, a')" .
  have "20 \<le> unat (net_hlen p) \<and> unat (net_hlen p) \<le> 60" using parse_flow_accepted(6)[OF r(2)] parse_ipv4_accepted(1,2)[OF r(1)] by simp
  with ipv4_other_layers[OF assms False] False show ?thesis by auto
qed

definition udp_frame :: mem where
  "udp_frame = [0x45, 0, 0, 30, 0, 0, 0, 0, 64, 17, 0, 0, 10, 0, 0, 1, 10, 0, 0, 2,
     0, 53, 0x30, 0x39, 0, 10, 0, 0, 0xAA, 0xBB] @ replicate 62 0"

definition udp_packet :: peak_packet where
  "udp_packet = \<lparr>mac_raw = Some 0, net_raw = Some 0, flow_raw = Some 20, app_raw = Some 28,
     link_type = 0, mac_len = 30, mac_type = 0x0800, mac_vlan = 0,
     net_saddr = netaddr4 0x0100000A, net_daddr = netaddr4 0x0200000A, net_family = 2,
     net_len = 30, net_hlen = 20, net_type = 17,
     flow_hlen = 8, flow_len = 10, flow_sport = 53, flow_dport = 12345, app_len = 2\<rparr>"

lemma udp_frame_parsed:
  "peak_packet_parse udp_frame 30 0 audit_zero = Some (Return (False, udp_packet, audit_zero))"
  by code_simp

theorem ipv4_accepted_layers_witness:
  "\<exists>n. net_raw udp_packet = Some n \<and> 20 \<le> unat (net_hlen udp_packet) \<and>
     unat (net_hlen udp_packet) + unat (flow_len udp_packet) = unat (net_len udp_packet) \<and>
     flow_raw udp_packet = Some (n + unat (net_hlen udp_packet)) \<and>
     unat (flow_hlen udp_packet) + unat (app_len udp_packet) = unat (flow_len udp_packet) \<and>
     app_raw udp_packet = Some (n + unat (net_hlen udp_packet) + unat (flow_hlen udp_packet))"
  using ipv4_accepted_layers[OF udp_frame_parsed] by (simp add: udp_packet_def)

section \<open>Which frames are read within bounds\<close>

lemma parse_link_total:
  assumes "18 \<le> length m" and "mac_raw self = Some 0"
  obtains "parse_link m type self = Some None"
  | p n where "parse_link m type self = Some (Some p)" "net_raw p = Some n" "n \<le> 18"
proof -
  have "parse_link m type self \<noteq> None"
    using assms by (auto simp: parse_link_def bind_eq_None_conv decode_eq_None_iff simp del: not_None_eq)
  moreover have "\<exists>n. net_raw p = Some n \<and> n \<le> 18" if "parse_link m type self = Some (Some p)" for p
    using that assms(2) unfolding parse_link_def by (auto simp: bind_eq_Some_conv split: if_splits)
  ultimately show thesis using that by (metis not_None_eq)
qed

lemma parse_ipv4_total:
  assumes "net_raw p = Some n" and "n + 20 \<le> length m"
  obtains b q where "parse_ipv4 m p = Some (b, q)" "net_raw q = Some n"
proof -
  have "parse_ipv4 m p \<noteq> None"
    using assms by (auto simp: parse_ipv4_def bind_eq_None_conv decode_eq_None_iff load8_eq_None_iff
        Let_def simp del: not_None_eq)
  moreover have "net_raw q = net_raw p" if "parse_ipv4 m p = Some (b, q)" for b q
    using that unfolding parse_ipv4_def Let_def by (auto simp: bind_eq_Some_conv split: if_splits)
  ultimately show thesis using that assms(1) by (metis not_None_eq prod.collapse)
qed

lemma tcp_total: "flow_raw p = Some f \<Longrightarrow> f + 14 \<le> length m \<Longrightarrow> peak_packet_tcp m p \<noteq> None"
  by (auto simp: peak_packet_tcp_def bind_eq_None_conv decode_eq_None_iff load8_eq_None_iff Let_def
      simp del: not_None_eq)

lemma udp_total: "flow_raw p = Some f \<Longrightarrow> f + 8 \<le> length m \<Longrightarrow> peak_packet_udp m p \<noteq> None"
  by (auto simp: peak_packet_udp_def bind_eq_None_conv decode_eq_None_iff Let_def simp del: not_None_eq)

lemma parse_flow_total:
  assumes "net_raw p = Some n" and "n + unat (net_hlen p) + 14 \<le> length m"
  shows "parse_flow m p a \<noteq> None"
  using assms unfolding parse_flow_def Let_def
  by (auto simp: tcp_total udp_total bind_eq_None_conv simp del: not_None_eq split: prod.splits)

text \<open>C8. Parsing a frame that is not IPv6 reads nothing outside a buffer of 92 bytes (VLAN header, the
  largest IP header, the TCP header up to its flags) and always returns.\<close>

theorem ipv4_parse_returns:
  assumes "92 \<le> length m"
    and "\<And>q. parse_link m type (packet_zero\<lparr>link_type := type, mac_raw := Some 0, mac_len := len\<rparr>) = Some (Some q)
           \<Longrightarrow> mac_type q \<noteq> ETHERTYPE_IPV6"
  shows "\<exists>bad p a'. peak_packet_parse m len type a = Some (Return (bad, p, a'))"
proof -
  let ?p0 = "packet_zero\<lparr>link_type := type, mac_raw := Some 0, mac_len := len\<rparr>"
  have "18 \<le> length m" "mac_raw ?p0 = Some 0" using assms(1) by simp_all
  then show ?thesis
  proof (cases rule: parse_link_total[where type = type])
    case 1
    then show ?thesis by (auto simp: peak_packet_parse_def Let_def)
  next
    case (2 p n)
    then obtain b q where q: "parse_ipv4 m p = Some (b, q)" "net_raw q = Some n"
      using parse_ipv4_total[of p n m] assms(1) by auto
    have "parse_flow m q a \<noteq> None" if "\<not> b"
      using that q 2 assms(1) parse_ipv4_accepted(2)[of m p q] by (intro parse_flow_total[of q n]) auto
    then show ?thesis using 2 q assms(2)[OF 2(1)] by (auto simp: peak_packet_parse_def Let_def)
  qed
qed

theorem ipv4_parse_returns_witness:
  "92 \<le> length udp_frame \<and> (\<exists>bad p a'. peak_packet_parse udp_frame 30 LINKTYPE_NULL audit_zero = Some (Return (bad, p, a')))"
proof -
  have "92 \<le> length udp_frame" by (simp add: udp_frame_def)
  moreover have "mac_type q \<noteq> ETHERTYPE_IPV6"
    if "parse_link udp_frame LINKTYPE_NULL (packet_zero\<lparr>link_type := LINKTYPE_NULL, mac_raw := Some 0, mac_len := 30\<rparr>)
      = Some (Some q)" for q
    using that by (auto simp: parse_link_def)
  ultimately show ?thesis using ipv4_parse_returns[of udp_frame LINKTYPE_NULL 30 audit_zero] by blast
qed

section \<open>Drop counters\<close>

text \<open>A rejected packet increments exactly one drop counter of the audit table, an accepted packet
  leaves the table alone.\<close>

lemma packet_parse_counts:
  assumes "peak_packet_parse m len type a = Some (Return (bad, p, a'))"
  shows "if bad then \<exists>i \<in> {AUDIT_PACKET_DROP_LINK, AUDIT_PACKET_DROP_IPV4, AUDIT_PACKET_DROP_IPV6,
             AUDIT_PACKET_DROP_ICMP, AUDIT_PACKET_DROP_TCP, AUDIT_PACKET_DROP_UDP}. a' = peak_audit_inc i a
         else a' = a"
  using assms unfolding peak_packet_parse_def parse_flow_def Let_def
  by (auto split: Option.bind_splits option.splits if_splits outcome.splits prod.splits)

definition bad_frame :: mem where
  "bad_frame = [0x55] @ replicate 97 0"

lemma packet_parse_counts_witness:
  "(case peak_packet_parse bad_frame 98 LINKTYPE_NULL audit_zero of
     Some (Return (bad, p, a')) \<Rightarrow> bad \<and> a' = peak_audit_inc AUDIT_PACKET_DROP_IPV4 audit_zero | _ \<Rightarrow> False) \<and>
   (\<exists>i \<in> {AUDIT_PACKET_DROP_LINK, AUDIT_PACKET_DROP_IPV4, AUDIT_PACKET_DROP_IPV6,
      AUDIT_PACKET_DROP_ICMP, AUDIT_PACKET_DROP_TCP, AUDIT_PACKET_DROP_UDP}.
      peak_audit_inc AUDIT_PACKET_DROP_IPV4 audit_zero = peak_audit_inc i audit_zero)"
proof -
  have c: "case peak_packet_parse bad_frame 98 LINKTYPE_NULL audit_zero of
     Some (Return (bad, p, a')) \<Rightarrow> bad \<and> a' = peak_audit_inc AUDIT_PACKET_DROP_IPV4 audit_zero | _ \<Rightarrow> False"
    by code_simp
  then obtain p where "peak_packet_parse bad_frame 98 LINKTYPE_NULL audit_zero
      = Some (Return (True, p, peak_audit_inc AUDIT_PACKET_DROP_IPV4 audit_zero))"
    by (auto split: option.splits outcome.splits)
  from packet_parse_counts[OF this] c show ?thesis by simp
qed

section \<open>IPv6 lengths\<close>

definition short_ip6_frame :: mem where
  "short_ip6_frame = replicate 12 0 @ [0x86, 0xDD, 0x60, 0, 0, 0, 0, 0, 0, 64] @ replicate 32 0 @
     [17, 8, 0, 0, 0, 0, 0, 0, 0, 53, 0x30, 0x39, 0, 8, 0, 0]"

text \<open>For IPv6 the lengths do not add up: a frame with payload length 0 and one hop-by-hop header is
  accepted although its headers are longer than the datagram, and the payload length wraps to 65520
  bytes behind a buffer of 70.\<close>

lemma ipv6_length_underflow:
  "case peak_packet_parse short_ip6_frame 70 LINKTYPE_ETHERNET audit_zero of
     Some (Return (bad, p, a')) \<Rightarrow> \<not> bad \<and> net_len p < ucast (net_hlen p) \<and> app_len p = 65520
   | _ \<Rightarrow> False"
  by code_simp

definition hanging_frame :: mem where
  "hanging_frame = replicate 12 0 @ [0x86, 0xDD, 0x60, 0, 0, 0, 0, 8, 0, 64] @ replicate 34 0"

lemma hanging_frame_hangs: "peak_packet_parse hanging_frame 56 LINKTYPE_ETHERNET audit_zero = Some Hang"
  by code_simp

end
