(* ===== verification/Peak_Li.thy ===== *)
theory Peak_Li
  imports Peak_Packet
begin

text \<open>
  The application detector, \<open>src/lib/peak_li.c\<close> and \<open>src/lib/peak_li.h\<close>. Every detector
  \<open>LI_DESCRIBE_APP(x)\<close> is a function \<open>peak_li_x\<close> of the buffer and the parsed packet; \<open>None\<close> is a
  read outside the buffer (or through a \<open>NULL\<close> pointer), \<open>Some b\<close> the detector's verdict. Structs are
  packed, so a field is a payload offset. Fields the code compares with zero in host order are read
  in little-endian order. The table \<open>apps\<close> keeps the fields the code computes with (detector,
  protocols, number, name); its descriptive strings are left out.
\<close>

section \<open>Payload access\<close>

definition app8 :: "mem \<Rightarrow> peak_packet \<Rightarrow> nat \<Rightarrow> u8 option" where
  "app8 m packet i = do { raw \<leftarrow> app_raw packet; load8 m (raw + i) }"

definition app_be16 :: "mem \<Rightarrow> peak_packet \<Rightarrow> nat \<Rightarrow> u16 option" where
  "app_be16 m packet i = do { raw \<leftarrow> app_raw packet; peak_be16dec m (raw + i) }"

definition app_be32 :: "mem \<Rightarrow> peak_packet \<Rightarrow> nat \<Rightarrow> u32 option" where
  "app_be32 m packet i = do { raw \<leftarrow> app_raw packet; peak_be32dec m (raw + i) }"

definition app_host16 :: "mem \<Rightarrow> peak_packet \<Rightarrow> nat \<Rightarrow> u16 option" where
  "app_host16 m packet i = do { raw \<leftarrow> app_raw packet; peak_le16dec m (raw + i) }"

definition app_host32 :: "mem \<Rightarrow> peak_packet \<Rightarrow> nat \<Rightarrow> u32 option" where
  "app_host32 m packet i = do { raw \<leftarrow> app_raw packet; peak_le32dec m (raw + i) }"

definition app_host64 :: "mem \<Rightarrow> peak_packet \<Rightarrow> nat \<Rightarrow> u64 option" where
  "app_host64 m packet i = do { raw \<leftarrow> app_raw packet; peak_le64dec m (raw + i) }"

text \<open>The \<open>n\<close> bytes at payload offset \<open>i\<close>, all of which \<open>memcmp\<close> may read.\<close>

definition app_bytes :: "mem \<Rightarrow> peak_packet \<Rightarrow> nat \<Rightarrow> nat \<Rightarrow> u8 list option" where
  "app_bytes m packet i n = do {
     raw \<leftarrow> app_raw packet;
     if raw + i + n \<le> length m then Some (take n (drop (raw + i) m)) else None }"

definition bytes_of :: "string \<Rightarrow> u8 list" where
  "bytes_of s = map of_char s"

section \<open>Macros\<close>

definition LI_ISDIGIT :: "u8 \<Rightarrow> bool" where
  "LI_ISDIGIT x \<longleftrightarrow> 0x30 \<le> x \<and> x \<le> 0x39"

function li_strlen_loop :: "mem \<Rightarrow> peak_packet \<Rightarrow> nat \<Rightarrow> nat \<Rightarrow> nat option" where
  "li_strlen_loop m packet off ret = do {
     c \<leftarrow> app8 m packet (off + ret);
     if c = 0 then Some ret
     else if unat (app_len packet) \<le> off + Suc ret then Some 0
     else li_strlen_loop m packet off (Suc ret) }"
  by pat_completeness auto
termination
  by (relation "measure (\<lambda>(m, packet, off, ret). unat (app_len packet) - (off + ret))") auto

declare li_strlen_loop.simps [simp del]

definition LI_STRLEN :: "mem \<Rightarrow> peak_packet \<Rightarrow> nat \<Rightarrow> nat option" where
  "LI_STRLEN m packet off =
     (if off < unat (app_len packet) then li_strlen_loop m packet off 0 else Some 0)"

text \<open>Does \<open>LI_EXCLUDE_PORT(prt)\<close> return from the detector?\<close>

definition LI_EXCLUDE_PORT :: "peak_packet \<Rightarrow> u16 \<Rightarrow> bool" where
  "LI_EXCLUDE_PORT packet prt \<longleftrightarrow> (flow_sport packet = prt) \<noteq> (flow_dport packet = prt)"

text \<open>\<open>LI_MATCH_PAYLOAD(keys, min, 1)\<close>: \<open>Some (Some b)\<close> returns \<open>b\<close> from the detector,
  \<open>Some None\<close> falls through.\<close>

definition LI_MATCH_PAYLOAD :: "mem \<Rightarrow> peak_packet \<Rightarrow> string list \<Rightarrow> nat \<Rightarrow> bool option option" where
  "LI_MATCH_PAYLOAD m packet keys minlen =
     (if unat (app_len packet) < minlen then Some (Some False)
      else do {
        raw \<leftarrow> app_bytes m packet 0 minlen;
        if \<exists>key \<in> set keys. memcmp raw (bytes_of key) minlen = 0 then Some (Some True)
        else Some None })"

text \<open>A detector that consists of keywords only: \<open>LI_MATCH_PAYLOAD(strings, 4, 1); return (0);\<close>\<close>

definition match_or_reject :: "mem \<Rightarrow> peak_packet \<Rightarrow> string list \<Rightarrow> bool option" where
  "match_or_reject m packet strings = do {
     r \<leftarrow> LI_MATCH_PAYLOAD m packet strings 4;
     case r of Some b \<Rightarrow> Some b | None \<Rightarrow> Some False }"

section \<open>Detectors\<close>

definition peak_li_dns :: "mem \<Rightarrow> peak_packet \<Rightarrow> bool option" where
  "peak_li_dns m packet = (let padding = (if net_type packet = IPPROTO_TCP then 2 else 0) in
     if unat (app_len packet) < 12 + padding then Some False
     else do {
       short \<leftarrow> (if padding \<noteq> 0 then do {
           l \<leftarrow> app_be16 m packet 0;
           Some (unat l + 2 < unat (app_len packet)) }
         else Some False);
       if short then Some False
       else do {
         decoded \<leftarrow> app_be16 m packet (padding + 2);
         if decoded AND 0x0070 \<noteq> 0 then Some False
         else if decoded AND 0x7800 \<notin> {0, 0x0800, 0x1000} then Some False
         else if decoded AND 0x8000 \<noteq> 0 then
           Some (decoded AND 0x000F \<in> {0, 1, 3, 4, 5})
         else if decoded AND 0x000F \<noteq> 0 then Some False
         else if decoded AND 0x0480 \<noteq> 0 then Some False
         else do {
           question_count \<leftarrow> app_host16 m packet (padding + 4);
           if question_count = 0 then Some False
           else do {
             answer_count \<leftarrow> app_host16 m packet (padding + 6);
             Some (answer_count = 0) } } } })"

definition peak_li_dhcp :: "mem \<Rightarrow> peak_packet \<Rightarrow> bool option" where
  "peak_li_dhcp m packet =
     (if unat (app_len packet) < 236 then Some False
      else do {
        op \<leftarrow> app8 m packet 0;
        if op \<notin> {1, 2} then Some False
        else do {
          htype \<leftarrow> app8 m packet 1;
          if htype \<noteq> 1 then Some False
          else do {
            hlen \<leftarrow> app8 m packet 2;
            Some (hlen = 6) } } })"

definition peak_li_stun :: "mem \<Rightarrow> peak_packet \<Rightarrow> bool option" where
  "peak_li_stun m packet = do {
     r \<leftarrow> LI_MATCH_PAYLOAD m packet [''RSP/''] 4;
     case r of
       Some b \<Rightarrow> Some b
     | None \<Rightarrow>
         if unat (app_len packet) < 20 then Some False
         else do {
           cookie \<leftarrow> app_be32 m packet 4;
           Some (cookie = 0x2112A442) } }"

definition peak_li_cvs :: "mem \<Rightarrow> peak_packet \<Rightarrow> bool option" where
  "peak_li_cvs m packet = match_or_reject m packet [''BEGI'', ''I LO'', ''I HA'']"

definition peak_li_rtcp :: "mem \<Rightarrow> peak_packet \<Rightarrow> bool option" where
  "peak_li_rtcp m packet =
     (if unat (app_len packet) < 4 then Some False
      else do {
        v_p_count \<leftarrow> app8 m packet 0;
        if drop_bit 6 v_p_count \<noteq> 2 then Some False
        else do {
          type \<leftarrow> app8 m packet 1;
          Some (type \<in> {192, 193, 194, 195, 200, 201, 202, 203, 204, 205, 206, 207, 208, 209}) } })"

definition peak_li_rtp :: "mem \<Rightarrow> peak_packet \<Rightarrow> bool option" where
  "peak_li_rtp m packet =
     (if unat (app_len packet) < 12 then Some False
      else do {
        v_p_x_cc \<leftarrow> app8 m packet 0;
        if drop_bit 6 v_p_x_cc \<noteq> 2 then Some False
        else do {
          timestamp \<leftarrow> app_host32 m packet 4;
          if timestamp = 0 then Some True
          else do {
            m_pt \<leftarrow> app8 m packet 1;
            Some (m_pt AND 0x7F \<in> {0, 3, 4, 5, 6, 7, 8, 9, 10, 11, 12, 13, 14, 15, 16, 17, 18,
              25, 26, 28, 31, 32, 33, 34}) } } })"

definition peak_li_sip :: "mem \<Rightarrow> peak_packet \<Rightarrow> bool option" where
  "peak_li_sip m packet = match_or_reject m packet
     [''SIP/'', ''INVI'', ''ACK '', ''BYE '', ''CANC'', ''OPTI'', ''REGI'', ''PRAC'', ''SUBS'', ''NOTI'',
      ''PUBL'', ''INFO'', ''REFE'', ''MESS'', ''UPDA'']"

definition peak_li_ftp :: "mem \<Rightarrow> peak_packet \<Rightarrow> bool option" where
  "peak_li_ftp m packet =
     (if LI_EXCLUDE_PORT packet 110 then Some False
      else if LI_EXCLUDE_PORT packet 25 then Some False
      else if LI_EXCLUDE_PORT packet 465 then Some False
      else if LI_EXCLUDE_PORT packet 587 then Some False
      else if LI_EXCLUDE_PORT packet 194 then Some False
      else if LI_EXCLUDE_PORT packet 6667 then Some False
      else match_or_reject m packet [''220 '', ''220-'', ''USER''])"

definition peak_li_ssh :: "mem \<Rightarrow> peak_packet \<Rightarrow> bool option" where
  "peak_li_ssh m packet = match_or_reject m packet [''SSH-'']"

definition peak_li_imap :: "mem \<Rightarrow> peak_packet \<Rightarrow> bool option" where
  "peak_li_imap m packet = match_or_reject m packet [''* OK'']"

definition peak_li_smtp :: "mem \<Rightarrow> peak_packet \<Rightarrow> bool option" where
  "peak_li_smtp m packet =
     (if LI_EXCLUDE_PORT packet 21 then Some False
      else match_or_reject m packet [''220 '', ''220-'', ''HELO'', ''EHLO''])"

definition peak_li_pop3 :: "mem \<Rightarrow> peak_packet \<Rightarrow> bool option" where
  "peak_li_pop3 m packet =
     (if LI_EXCLUDE_PORT packet 21 then Some False
      else if LI_EXCLUDE_PORT packet 194 then Some False
      else if LI_EXCLUDE_PORT packet 6667 then Some False
      else match_or_reject m packet [''+OK '', ''USER'', ''CAPA'', ''AUTH''])"

definition peak_li_telnet :: "mem \<Rightarrow> peak_packet \<Rightarrow> bool option" where
  "peak_li_telnet m packet =
     (if unat (app_len packet) < 2 then Some False
      else do {
        c0 \<leftarrow> app8 m packet 0;
        if c0 \<noteq> 0xFF then Some False
        else do {
          c1 \<leftarrow> app8 m packet 1;
          let next = (if c1 = 0xF0 then 2 else if c1 = 0xFA then 4 else 3);
          if next < unat (app_len packet) then do {
            c \<leftarrow> app8 m packet next;
            Some (c = 0xFF) }
          else Some True } })"

definition peak_li_rip :: "mem \<Rightarrow> peak_packet \<Rightarrow> bool option" where
  "peak_li_rip m packet =
     (if unat (app_len packet) < 24 then Some False
      else do {
        zero \<leftarrow> app_host16 m packet 2;
        if zero \<noteq> 0 then Some False
        else do {
          version \<leftarrow> app8 m packet 1;
          if version \<notin> {1, 2} then Some False
          else do {
            command \<leftarrow> app8 m packet 0;
            Some (command \<in> {1, 2}) } } })"

definition peak_li_dtls :: "mem \<Rightarrow> peak_packet \<Rightarrow> bool option" where
  "peak_li_dtls m packet =
     (if unat (app_len packet) < 13 then Some False
      else do {
        decoded \<leftarrow> app_be16 m packet 11;
        if decoded = 0 \<or> 0x4000 < decoded then Some False
        else do {
          version \<leftarrow> app_be16 m packet 1;
          Some (version = 0xFEFF) } })"

definition peak_li_tls :: "mem \<Rightarrow> peak_packet \<Rightarrow> bool option" where
  "peak_li_tls m packet =
     (if unat (app_len packet) < 5 then Some False
      else do {
        decoded \<leftarrow> app_be16 m packet 3;
        if decoded = 0 \<or> 0x4000 < decoded then Some False
        else do {
          record_type \<leftarrow> app8 m packet 0;
          if record_type \<notin> {20, 21, 22, 23} then Some False
          else do {
            version \<leftarrow> app_be16 m packet 1;
            Some (version \<in> {0x0300, 0x0301, 0x0302, 0x0303}) } } })"

definition peak_li_ike :: "mem \<Rightarrow> peak_packet \<Rightarrow> bool option" where
  "peak_li_ike m packet =
     (if unat (app_len packet) < 28 then Some False
      else do {
        initiator_cookie \<leftarrow> app_host64 m packet 0;
        if initiator_cookie = 0 then Some False
        else do {
          version \<leftarrow> app8 m packet 17;
          bad \<leftarrow> (if drop_bit 4 version = 1 then do {
              next_payload \<leftarrow> app8 m packet 16;
              if next_payload < 1 \<or> 13 < next_payload then Some True
              else do {
                exchange_type \<leftarrow> app8 m packet 18;
                Some (exchange_type < 1 \<or> 5 < exchange_type) } }
            else if drop_bit 4 version = 2 then do {
              next_payload \<leftarrow> app8 m packet 16;
              if next_payload < 33 \<or> 49 < next_payload then Some True
              else do {
                exchange_type \<leftarrow> app8 m packet 18;
                Some (exchange_type < 34 \<or> 38 < exchange_type) } }
            else Some True);
          if bad then Some False
          else do {
            len \<leftarrow> app_be32 m packet 24;
            Some (len = ucast (app_len packet)) } } })"

definition peak_li_bgp :: "mem \<Rightarrow> peak_packet \<Rightarrow> bool option" where
  "peak_li_bgp m packet =
     (if unat (app_len packet) < 19 then Some False
      else do {
        marker \<leftarrow> app_bytes m packet 0 16;
        if memcmp marker (replicate 16 0xFF) 16 \<noteq> 0 then Some False
        else do {
          msg_length \<leftarrow> app_be16 m packet 16;
          if unat msg_length < 19 then Some False
          else do {
            msg_type \<leftarrow> app8 m packet 18;
            Some (msg_type \<in> {1, 2, 3, 4, 5}) } } })"

definition peak_li_http :: "mem \<Rightarrow> peak_packet \<Rightarrow> bool option" where
  "peak_li_http m packet = match_or_reject m packet
     [''HTTP'', ''GET '', ''HEAD'', ''POST'', ''PUT '', ''DELE'', ''TRAC'', ''CONN'', ''OPTI'', ''PROP'',
      ''MKCO'', ''COPY'', ''MOVE'', ''LOCK'', ''UNLO'', ''SOUR'']"

definition peak_li_rtsp :: "mem \<Rightarrow> peak_packet \<Rightarrow> bool option" where
  "peak_li_rtsp m packet = match_or_reject m packet
     [''RTSP'', ''DESC'', ''ANNO'', ''GET_'', ''OPTI'', ''PAUS'', ''PLAY'', ''RECO'', ''REDI'', ''SETU'',
      ''SET_'', ''TEAR'']"

definition peak_li_netflow_v1 :: "mem \<Rightarrow> peak_packet \<Rightarrow> bool option" where
  "peak_li_netflow_v1 m packet =
     (if unat (app_len packet) < 16 + 48 then Some False
      else do {
        decoded \<leftarrow> app_be16 m packet 2;
        if decoded = 0 \<or> 24 < decoded then Some False
        else do {
          pad1 \<leftarrow> app_host16 m packet (16 + 36);
          if pad1 \<noteq> 0 then Some False
          else do {
            pad2 \<leftarrow> app_bytes m packet (16 + 41) 3;
            if memcmp pad2 [0, 0, 0] 3 \<noteq> 0 then Some False
            else do {
              src_addr \<leftarrow> app_host32 m packet 16;
              if src_addr = 0 then Some False
              else do {
                dst_addr \<leftarrow> app_host32 m packet (16 + 4);
                if dst_addr = 0 then Some False
                else Some (unat (app_len packet) = 16 + unat decoded * 48) } } } } })"

definition peak_li_netflow_v5 :: "mem \<Rightarrow> peak_packet \<Rightarrow> bool option" where
  "peak_li_netflow_v5 m packet =
     (if unat (app_len packet) < 24 + 48 then Some False
      else do {
        decoded \<leftarrow> app_be16 m packet 2;
        if decoded = 0 \<or> 30 < decoded then Some False
        else do {
          pad1 \<leftarrow> app8 m packet (24 + 36);
          if pad1 \<noteq> 0 then Some False
          else do {
            pad2 \<leftarrow> app_host16 m packet (24 + 46);
            if pad2 \<noteq> 0 then Some False
            else do {
              src_addr \<leftarrow> app_host32 m packet 24;
              if src_addr = 0 then Some False
              else do {
                dst_addr \<leftarrow> app_host32 m packet (24 + 4);
                if dst_addr = 0 then Some False
                else Some (unat (app_len packet) = 24 + unat decoded * 48) } } } } })"

definition peak_li_netflow :: "mem \<Rightarrow> peak_packet \<Rightarrow> bool option" where
  "peak_li_netflow m packet =
     (if unat (app_len packet) < 2 then Some False
      else do {
        version \<leftarrow> app_be16 m packet 0;
        if version = 1 then peak_li_netflow_v1 m packet
        else if version = 5 then peak_li_netflow_v5 m packet
        else Some False })"

definition peak_li_radius :: "mem \<Rightarrow> peak_packet \<Rightarrow> bool option" where
  "peak_li_radius m packet =
     (if unat (app_len packet) < 20 then Some False
      else do {
        decoded \<leftarrow> app_be16 m packet 2;
        if decoded < 20 \<or> 4096 < decoded then Some False
        else if app_len packet \<noteq> decoded then Some False
        else do {
          code \<leftarrow> app8 m packet 0;
          Some (code \<in> {1, 2, 3, 4, 5, 11, 12, 13}) } })"

definition peak_li_bittorrent :: "mem \<Rightarrow> peak_packet \<Rightarrow> bool option" where
  "peak_li_bittorrent m packet = match_or_reject m packet [CHR 0x13 # ''Bit'']"

definition peak_li_gnutella :: "mem \<Rightarrow> peak_packet \<Rightarrow> bool option" where
  "peak_li_gnutella m packet = match_or_reject m packet [''GNUT'', ''GIV '']"

definition peak_li_netbios_name_service :: "mem \<Rightarrow> peak_packet \<Rightarrow> bool option" where
  "peak_li_netbios_name_service m packet = (let padding = (if net_type packet = IPPROTO_TCP then 2 else 0) in
     if unat (app_len packet) < 12 + padding then Some False
     else do {
       decoded \<leftarrow> app_be16 m packet (padding + 2);
       if decoded AND 0x0060 \<noteq> 0 then Some False
       else if decoded AND 0x000F \<notin> {0, 1, 2, 3, 4, 5, 6, 7} then Some False
       else Some (decoded AND 0x7800 \<in> {0, 0x2800, 0x3000, 0x3800, 0x4000}) })"

definition peak_li_tftp :: "mem \<Rightarrow> peak_packet \<Rightarrow> bool option" where
  "peak_li_tftp m packet =
     (if unat (app_len packet) < 4 then Some False
      else do {
        opcode \<leftarrow> app_be16 m packet 0;
        if opcode = 1 \<or> opcode = 2 then do {
          file_len \<leftarrow> LI_STRLEN m packet 2;
          if file_len = 0 then Some False
          else do {
            mode_len \<leftarrow> LI_STRLEN m packet (2 + file_len + 1);
            if mode_len = 0 then Some False
            else do {
              c \<leftarrow> app8 m packet (2 + file_len + 1);
              Some (c \<in> {0x4F, 0x6F, 0x4E, 0x6E, 0x4D, 0x6D}) } } }
        else if opcode = 3 then do {
          block \<leftarrow> app_host16 m packet 2;
          if block = 0 then Some False
          else Some (unat (app_len packet) \<le> 4 + 512) }
        else if opcode = 4 then Some (unat (app_len packet) \<le> 4)
        else if opcode = 5 then do {
          error_code \<leftarrow> app_be16 m packet 2;
          Some (error_code \<in> {0, 1, 2, 3, 4, 5, 6, 7}) }
        else Some False })"

definition peak_li_netbios_session_service :: "mem \<Rightarrow> peak_packet \<Rightarrow> bool option" where
  "peak_li_netbios_session_service m packet =
     (if net_type packet \<noteq> IPPROTO_TCP then Some False
      else if unat (app_len packet) < 4 then Some False
      else do {
        flags \<leftarrow> app8 m packet 1;
        if flags AND 0xFE \<noteq> 0 then Some False
        else do {
          type \<leftarrow> app8 m packet 0;
          Some (type \<in> {0x00, 0x81, 0x82, 0x83, 0x84, 0x85}) } })"

definition peak_li_netbios_datagram_service :: "mem \<Rightarrow> peak_packet \<Rightarrow> bool option" where
  "peak_li_netbios_datagram_service m packet =
     (if net_type packet \<noteq> IPPROTO_UDP then Some False
      else if unat (app_len packet) < 14 then Some False
      else do {
        flags \<leftarrow> app8 m packet 1;
        if flags AND 0xF0 \<noteq> 0 then Some False
        else do {
          source_ip \<leftarrow> app_host32 m packet 4;
          if source_ip = 0 then Some False
          else do {
            source_port \<leftarrow> app_host16 m packet 8;
            if source_port = 0 then Some False
            else do {
              msg_type \<leftarrow> app8 m packet 0;
              Some (msg_type \<in> {0x10, 0x11, 0x12, 0x13, 0x14, 0x15, 0x16}) } } } })"

definition peak_li_netbios :: "mem \<Rightarrow> peak_packet \<Rightarrow> bool option" where
  "peak_li_netbios m packet = do {
     datagram \<leftarrow> peak_li_netbios_datagram_service m packet;
     if datagram then Some True
     else do {
       session \<leftarrow> peak_li_netbios_session_service m packet;
       if session then Some True
       else peak_li_netbios_name_service m packet } }"

definition peak_li_pptp_raw :: "mem \<Rightarrow> peak_packet \<Rightarrow> bool option" where
  "peak_li_pptp_raw m packet =
     (if unat (app_len packet) < 8 then Some False
      else do {
        cookie \<leftarrow> app_be32 m packet 4;
        if cookie \<noteq> 0x1A2B3C4D then Some False
        else do {
          len \<leftarrow> app_be16 m packet 0;
          if unat len < 8 then Some False
          else do {
            type \<leftarrow> app_be16 m packet 2;
            Some (type \<in> {1, 2}) } } })"

definition peak_li_l2tp :: "mem \<Rightarrow> peak_packet \<Rightarrow> bool option" where
  "peak_li_l2tp m packet =
     (if unat (app_len packet) < 12 then Some False
      else do {
        version \<leftarrow> app8 m packet 1;
        if version \<notin> {2, 3} then Some False
        else do {
          flags \<leftarrow> app8 m packet 0;
          if flags AND 0x80 = 0 then Some False
          else if flags AND 0x78 = 0 then Some False
          else if flags AND 0x37 \<noteq> 0 then Some False
          else do {
            len \<leftarrow> app_be16 m packet 2;
            Some (app_len packet = len) } } })"

definition peak_li_ntp :: "mem \<Rightarrow> peak_packet \<Rightarrow> bool option" where
  "peak_li_ntp m packet =
     (if unat (app_len packet) < 48 then Some False
      else do {
        flags \<leftarrow> app8 m packet 0;
        if flags AND 0x38 = 0x08 then
          (if unat (app_len packet) \<noteq> 48 then Some False
           else Some (flags AND 0x05 = 0))
        else if flags AND 0x38 = 0x10 \<or> flags AND 0x38 = 0x18 then
          (if unat (app_len packet) \<notin> {48, 60} then Some False
           else Some (flags AND 0x05 \<noteq> 0))
        else if flags AND 0x38 = 0x20 then
          (if unat (app_len packet) \<notin> {48, 68} then Some False
           else Some (flags AND 0x05 \<noteq> 0))
        else Some False })"

text \<open>GRE is matched on the flow layer: its header is the flow header.\<close>

definition peak_li_pptp_gre :: "mem \<Rightarrow> peak_packet \<Rightarrow> bool option" where
  "peak_li_pptp_gre m packet =
     (if unat (flow_len packet) < 8 then Some False
      else do {
        raw \<leftarrow> flow_raw packet;
        protocol \<leftarrow> peak_be16dec m (raw + 2);
        if protocol \<noteq> 0x880B then Some False
        else do {
          CRKSs_recur \<leftarrow> load8 m raw;
          if CRKSs_recur AND 0xCF \<noteq> 0 then Some False
          else if CRKSs_recur AND 0x20 = 0 then Some False
          else do {
            A_flags_version \<leftarrow> load8 m (raw + 1);
            if A_flags_version AND 0x07 \<noteq> 1 then Some False
            else Some (A_flags_version AND 0x78 = 0) } } })"

definition peak_li_pptp :: "mem \<Rightarrow> peak_packet \<Rightarrow> bool option" where
  "peak_li_pptp m packet =
     (if net_type packet = IPPROTO_GRE then peak_li_pptp_gre m packet
      else peak_li_pptp_raw m packet)"

definition peak_li_ldap :: "mem \<Rightarrow> peak_packet \<Rightarrow> bool option" where
  "peak_li_ldap m packet =
     (if unat (app_len packet) < 8 then Some False
      else do {
        identifier_type \<leftarrow> app8 m packet 0;
        if identifier_type \<noteq> 0x30 then Some False
        else do {
          identifier_length \<leftarrow> app8 m packet 1;
          if identifier_length AND 0x80 = 0 \<or> identifier_length AND 0x7F \<noteq> 4 then Some False
          else do {
            message_type \<leftarrow> app8 m packet 6;
            if message_type \<noteq> 0x02 then Some False
            else do {
              message_length \<leftarrow> app8 m packet 7;
              if message_length = 0 then Some False
              else if unat (app_len packet) < 8 + unat message_length then Some False
              else do {
                op_type \<leftarrow> app8 m packet (8 + unat message_length);
                if op_type AND 0xE0 \<noteq> 0x60 then Some False
                else Some (op_type AND 0x1F \<in> {0, 1, 2, 3, 4, 5, 6, 7, 8, 9, 10, 11, 12, 13, 14, 15, 16,
                  19, 23, 24}) } } } } })"

definition peak_li_snmp :: "mem \<Rightarrow> peak_packet \<Rightarrow> bool option" where
  "peak_li_snmp m packet =
     (if unat (app_len packet) < 7 then Some False
      else do {
        identifier_type \<leftarrow> app8 m packet 0;
        if identifier_type \<noteq> 0x30 then Some False
        else do {
          version_type \<leftarrow> app8 m packet 2;
          if version_type \<noteq> 0x02 then Some False
          else do {
            version_length \<leftarrow> app8 m packet 3;
            if version_length \<noteq> 0x01 then Some False
            else do {
              version_value \<leftarrow> app8 m packet 4;
              if version_value \<notin> {0, 1, 3} then Some False
              else do {
                community_type \<leftarrow> app8 m packet 5;
                if community_type \<noteq> 0x04 then Some False
                else do {
                  community_length \<leftarrow> app8 m packet 6;
                  if unat (app_len packet) < 7 + unat community_length + 2 then Some False
                  else do {
                    pdu_value \<leftarrow> app8 m packet (7 + (unat community_length + 2));
                    Some (pdu_value \<in> {0, 1, 2, 3, 4, 5, 6, 7, 8}) } } } } } } })"

definition peak_li_impp :: "mem \<Rightarrow> peak_packet \<Rightarrow> bool option" where
  "peak_li_impp m packet =
     (if unat (app_len packet) < 4 then Some False
      else do {
        start_byte \<leftarrow> app8 m packet 0;
        if start_byte \<noteq> 0x6F then Some False
        else do {
          channel \<leftarrow> app8 m packet 1;
          if channel \<notin> {1, 2} then Some False
          else do {
            version \<leftarrow> app_be16 m packet 2;
            Some (version \<in> {6, 7, 8, 10}) } } })"

definition peak_li_xmpp :: "mem \<Rightarrow> peak_packet \<Rightarrow> bool option" where
  "peak_li_xmpp m packet = match_or_reject m packet [''<?xm'', ''<str'', ''<pre'']"

definition peak_li_openvpn :: "mem \<Rightarrow> peak_packet \<Rightarrow> bool option" where
  "peak_li_openvpn m packet = (let padding = (if net_type packet = IPPROTO_TCP then 2 else 0) in
     if unat (app_len packet) < 9 + padding then Some False
     else do {
       short \<leftarrow> (if padding \<noteq> 0 then do {
           l \<leftarrow> app_be16 m packet 0;
           Some (unat l + 2 < unat (app_len packet)) }
         else Some False);
       if short then Some False
       else do {
         opcode \<leftarrow> app8 m packet padding;
         Some (opcode \<in> {0x20, 0x28, 0x38, 0x40}) } })"

definition peak_li_irc :: "mem \<Rightarrow> peak_packet \<Rightarrow> bool option" where
  "peak_li_irc m packet =
     (if LI_EXCLUDE_PORT packet 110 then Some False
      else if LI_EXCLUDE_PORT packet 21 then Some False
      else match_or_reject m packet
        [''NICK'', ''PASS'', ''USER'', '':irc'', '':loc'', ''WHO '', ''WHOI'', ''PING'', ''CAP '', ''JOIN'',
         ''PRIV''])"

definition peak_li_syslog :: "mem \<Rightarrow> peak_packet \<Rightarrow> bool option" where
  "peak_li_syslog m packet =
     (if unat (app_len packet) < 3 then Some False
      else do {
        c0 \<leftarrow> app8 m packet 0;
        if c0 \<noteq> 0x3C then Some False
        else do {
          c1 \<leftarrow> app8 m packet 1;
          if \<not> LI_ISDIGIT c1 then Some False
          else do {
            c2 \<leftarrow> app8 m packet 2;
            Some (LI_ISDIGIT c2 \<or> c2 = 0x3E) } } })"

definition peak_li_iptype :: "mem \<Rightarrow> peak_packet \<Rightarrow> bool option" where
  "peak_li_iptype m packet = Some True"

section \<open>The application table\<close>

abbreviation (input) LI_UNKNOWN :: u32 where "LI_UNKNOWN \<equiv> 0"
abbreviation (input) LI_UNDEFINED :: u32 where "LI_UNDEFINED \<equiv> 1"
abbreviation (input) LI_HTTP :: u32 where "LI_HTTP \<equiv> 2"
abbreviation (input) LI_RTSP :: u32 where "LI_RTSP \<equiv> 3"
abbreviation (input) LI_POP3 :: u32 where "LI_POP3 \<equiv> 4"
abbreviation (input) LI_IMAP :: u32 where "LI_IMAP \<equiv> 5"
abbreviation (input) LI_SMTP :: u32 where "LI_SMTP \<equiv> 6"
abbreviation (input) LI_STUN :: u32 where "LI_STUN \<equiv> 7"
abbreviation (input) LI_PPTP :: u32 where "LI_PPTP \<equiv> 8"
abbreviation (input) LI_TELNET :: u32 where "LI_TELNET \<equiv> 9"
abbreviation (input) LI_DHCP :: u32 where "LI_DHCP \<equiv> 10"
abbreviation (input) LI_SSH :: u32 where "LI_SSH \<equiv> 11"
abbreviation (input) LI_IRC :: u32 where "LI_IRC \<equiv> 12"
abbreviation (input) LI_FTP :: u32 where "LI_FTP \<equiv> 13"
abbreviation (input) LI_SIP :: u32 where "LI_SIP \<equiv> 14"
abbreviation (input) LI_DNS :: u32 where "LI_DNS \<equiv> 15"
abbreviation (input) LI_CVS :: u32 where "LI_CVS \<equiv> 16"
abbreviation (input) LI_BITTORRENT :: u32 where "LI_BITTORRENT \<equiv> 17"
abbreviation (input) LI_GNUTELLA :: u32 where "LI_GNUTELLA \<equiv> 18"
abbreviation (input) LI_NETBIOS :: u32 where "LI_NETBIOS \<equiv> 19"
abbreviation (input) LI_RTCP :: u32 where "LI_RTCP \<equiv> 20"
abbreviation (input) LI_RTP :: u32 where "LI_RTP \<equiv> 21"
abbreviation (input) LI_RIP :: u32 where "LI_RIP \<equiv> 22"
abbreviation (input) LI_BGP :: u32 where "LI_BGP \<equiv> 23"
abbreviation (input) LI_IKE :: u32 where "LI_IKE \<equiv> 24"
abbreviation (input) LI_DTLS :: u32 where "LI_DTLS \<equiv> 25"
abbreviation (input) LI_TLS :: u32 where "LI_TLS \<equiv> 26"
abbreviation (input) LI_LDAP :: u32 where "LI_LDAP \<equiv> 27"
abbreviation (input) LI_SNMP :: u32 where "LI_SNMP \<equiv> 28"
abbreviation (input) LI_TFTP :: u32 where "LI_TFTP \<equiv> 29"
abbreviation (input) LI_XMPP :: u32 where "LI_XMPP \<equiv> 30"
abbreviation (input) LI_IMPP :: u32 where "LI_IMPP \<equiv> 31"
abbreviation (input) LI_OPENVPN :: u32 where "LI_OPENVPN \<equiv> 32"
abbreviation (input) LI_SYSLOG :: u32 where "LI_SYSLOG \<equiv> 33"
abbreviation (input) LI_L2TP :: u32 where "LI_L2TP \<equiv> 34"
abbreviation (input) LI_NTP :: u32 where "LI_NTP \<equiv> 35"
abbreviation (input) LI_NETFLOW :: u32 where "LI_NETFLOW \<equiv> 36"
abbreviation (input) LI_RADIUS :: u32 where "LI_RADIUS \<equiv> 37"
abbreviation (input) LI_OSPF :: u32 where "LI_OSPF \<equiv> 38"
abbreviation (input) LI_ICMP :: u32 where "LI_ICMP \<equiv> 39"
abbreviation (input) LI_IGMP :: u32 where "LI_IGMP \<equiv> 40"

text \<open>\<open>IPPROTO_MAX\<close> lies beyond every 8-bit protocol number, so it never matches.\<close>

abbreviation (input) IPPROTO_MAX :: u16 where "IPPROTO_MAX \<equiv> 256"

record peak_lis =
  li_function :: "mem \<Rightarrow> peak_packet \<Rightarrow> bool option"
  li_proto :: "u16 \<times> u16"
  li_number :: u32
  li_name :: string

definition apps :: "peak_lis list" where
  "apps = [
     \<lparr>li_function = peak_li_iptype, li_proto = (ucast IPPROTO_ICMP, ucast IPPROTO_ICMPV6), li_number = LI_ICMP, li_name = ''icmp''\<rparr>,
     \<lparr>li_function = peak_li_iptype, li_proto = (ucast IPPROTO_IGMP, IPPROTO_MAX), li_number = LI_IGMP, li_name = ''igmp''\<rparr>,
     \<lparr>li_function = peak_li_iptype, li_proto = (ucast IPPROTO_OSPFIGP, IPPROTO_MAX), li_number = LI_OSPF, li_name = ''ospf''\<rparr>,
     \<lparr>li_function = peak_li_iptype, li_proto = (ucast IPPROTO_L2TP, IPPROTO_MAX), li_number = LI_L2TP, li_name = ''l2tp''\<rparr>,
     \<lparr>li_function = peak_li_pptp, li_proto = (ucast IPPROTO_TCP, ucast IPPROTO_GRE), li_number = LI_PPTP, li_name = ''pptp''\<rparr>,
     \<lparr>li_function = peak_li_http, li_proto = (ucast IPPROTO_TCP, IPPROTO_MAX), li_number = LI_HTTP, li_name = ''http''\<rparr>,
     \<lparr>li_function = peak_li_rtsp, li_proto = (ucast IPPROTO_TCP, ucast IPPROTO_UDP), li_number = LI_RTSP, li_name = ''rtsp''\<rparr>,
     \<lparr>li_function = peak_li_pop3, li_proto = (ucast IPPROTO_TCP, IPPROTO_MAX), li_number = LI_POP3, li_name = ''pop3''\<rparr>,
     \<lparr>li_function = peak_li_imap, li_proto = (ucast IPPROTO_TCP, IPPROTO_MAX), li_number = LI_IMAP, li_name = ''imap''\<rparr>,
     \<lparr>li_function = peak_li_smtp, li_proto = (ucast IPPROTO_TCP, IPPROTO_MAX), li_number = LI_SMTP, li_name = ''smtp''\<rparr>,
     \<lparr>li_function = peak_li_ftp, li_proto = (ucast IPPROTO_TCP, IPPROTO_MAX), li_number = LI_FTP, li_name = ''ftp''\<rparr>,
     \<lparr>li_function = peak_li_cvs, li_proto = (ucast IPPROTO_TCP, IPPROTO_MAX), li_number = LI_CVS, li_name = ''cvs''\<rparr>,
     \<lparr>li_function = peak_li_ssh, li_proto = (ucast IPPROTO_TCP, IPPROTO_MAX), li_number = LI_SSH, li_name = ''ssh''\<rparr>,
     \<lparr>li_function = peak_li_irc, li_proto = (ucast IPPROTO_TCP, IPPROTO_MAX), li_number = LI_IRC, li_name = ''irc''\<rparr>,
     \<lparr>li_function = peak_li_stun, li_proto = (ucast IPPROTO_UDP, ucast IPPROTO_TCP), li_number = LI_STUN, li_name = ''stun''\<rparr>,
     \<lparr>li_function = peak_li_sip, li_proto = (ucast IPPROTO_UDP, ucast IPPROTO_TCP), li_number = LI_SIP, li_name = ''sip''\<rparr>,
     \<lparr>li_function = peak_li_rip, li_proto = (ucast IPPROTO_UDP, IPPROTO_MAX), li_number = LI_RIP, li_name = ''rip''\<rparr>,
     \<lparr>li_function = peak_li_radius, li_proto = (ucast IPPROTO_UDP, IPPROTO_MAX), li_number = LI_RADIUS, li_name = ''radius''\<rparr>,
     \<lparr>li_function = peak_li_bgp, li_proto = (ucast IPPROTO_TCP, IPPROTO_MAX), li_number = LI_BGP, li_name = ''bgp''\<rparr>,
     \<lparr>li_function = peak_li_ike, li_proto = (ucast IPPROTO_UDP, IPPROTO_MAX), li_number = LI_IKE, li_name = ''ike''\<rparr>,
     \<lparr>li_function = peak_li_netflow, li_proto = (ucast IPPROTO_UDP, IPPROTO_MAX), li_number = LI_NETFLOW, li_name = ''netflow''\<rparr>,
     \<lparr>li_function = peak_li_tftp, li_proto = (ucast IPPROTO_UDP, IPPROTO_MAX), li_number = LI_TFTP, li_name = ''tftp''\<rparr>,
     \<lparr>li_function = peak_li_dhcp, li_proto = (ucast IPPROTO_UDP, IPPROTO_MAX), li_number = LI_DHCP, li_name = ''dhcp''\<rparr>,
     \<lparr>li_function = peak_li_dtls, li_proto = (ucast IPPROTO_UDP, IPPROTO_MAX), li_number = LI_DTLS, li_name = ''dtls''\<rparr>,
     \<lparr>li_function = peak_li_tls, li_proto = (ucast IPPROTO_TCP, IPPROTO_MAX), li_number = LI_TLS, li_name = ''tls''\<rparr>,
     \<lparr>li_function = peak_li_ldap, li_proto = (ucast IPPROTO_TCP, IPPROTO_MAX), li_number = LI_LDAP, li_name = ''ldap''\<rparr>,
     \<lparr>li_function = peak_li_snmp, li_proto = (ucast IPPROTO_UDP, IPPROTO_MAX), li_number = LI_SNMP, li_name = ''snmp''\<rparr>,
     \<lparr>li_function = peak_li_bittorrent, li_proto = (ucast IPPROTO_TCP, IPPROTO_MAX), li_number = LI_BITTORRENT, li_name = ''bittorrent''\<rparr>,
     \<lparr>li_function = peak_li_gnutella, li_proto = (ucast IPPROTO_TCP, IPPROTO_MAX), li_number = LI_GNUTELLA, li_name = ''gnutella''\<rparr>,
     \<lparr>li_function = peak_li_impp, li_proto = (ucast IPPROTO_TCP, IPPROTO_MAX), li_number = LI_IMPP, li_name = ''impp''\<rparr>,
     \<lparr>li_function = peak_li_xmpp, li_proto = (ucast IPPROTO_TCP, IPPROTO_MAX), li_number = LI_XMPP, li_name = ''xmpp''\<rparr>,
     \<lparr>li_function = peak_li_syslog, li_proto = (ucast IPPROTO_UDP, ucast IPPROTO_TCP), li_number = LI_SYSLOG, li_name = ''syslog''\<rparr>,
     \<lparr>li_function = peak_li_l2tp, li_proto = (ucast IPPROTO_UDP, IPPROTO_MAX), li_number = LI_L2TP, li_name = ''l2tp''\<rparr>,
     \<lparr>li_function = peak_li_ntp, li_proto = (ucast IPPROTO_UDP, IPPROTO_MAX), li_number = LI_NTP, li_name = ''ntp''\<rparr>,
     \<lparr>li_function = peak_li_dns, li_proto = (ucast IPPROTO_UDP, ucast IPPROTO_TCP), li_number = LI_DNS, li_name = ''dns''\<rparr>,
     \<lparr>li_function = peak_li_openvpn, li_proto = (ucast IPPROTO_UDP, ucast IPPROTO_TCP), li_number = LI_OPENVPN, li_name = ''openvpn''\<rparr>,
     \<lparr>li_function = peak_li_rtcp, li_proto = (ucast IPPROTO_UDP, IPPROTO_MAX), li_number = LI_RTCP, li_name = ''rtcp''\<rparr>,
     \<lparr>li_function = peak_li_netbios, li_proto = (ucast IPPROTO_UDP, ucast IPPROTO_TCP), li_number = LI_NETBIOS, li_name = ''netbios''\<rparr>,
     \<lparr>li_function = peak_li_telnet, li_proto = (ucast IPPROTO_TCP, IPPROTO_MAX), li_number = LI_TELNET, li_name = ''telnet''\<rparr>,
     \<lparr>li_function = peak_li_rtp, li_proto = (ucast IPPROTO_UDP, IPPROTO_MAX), li_number = LI_RTP, li_name = ''rtp''\<rparr>,
     \<lparr>li_function = peak_li_iptype, li_proto = (IPPROTO_MAX, IPPROTO_MAX), li_number = LI_UNDEFINED, li_name = ''undefined''\<rparr>]"

definition li_proto_match :: "peak_lis \<Rightarrow> peak_packet \<Rightarrow> bool" where
  "li_proto_match app packet \<longleftrightarrow>
     fst (li_proto app) = ucast (net_type packet) \<or> snd (li_proto app) = ucast (net_type packet)"

section \<open>Operations\<close>

fun test_loop :: "peak_lis list \<Rightarrow> mem \<Rightarrow> peak_packet \<Rightarrow> u32 \<Rightarrow> bool option" where
  "test_loop [] m packet number = Some False"
| "test_loop (app # rest) m packet number =
     (if li_number app = number \<and> li_proto_match app packet then li_function app m packet
      else test_loop rest m packet number)"

definition peak_li_test :: "mem \<Rightarrow> peak_packet \<Rightarrow> u32 \<Rightarrow> bool option" where
  "peak_li_test m packet number = test_loop apps m packet number"

fun get_loop :: "peak_lis list \<Rightarrow> mem \<Rightarrow> peak_packet \<Rightarrow> u32 option" where
  "get_loop [] m packet = Some (if app_len packet \<noteq> 0 then LI_UNDEFINED else LI_UNKNOWN)"
| "get_loop (app # rest) m packet =
     (if li_proto_match app packet then do {
        hit \<leftarrow> li_function app m packet;
        if hit then Some (li_number app) else get_loop rest m packet }
      else get_loop rest m packet)"

definition peak_li_get :: "mem \<Rightarrow> peak_packet \<Rightarrow> u32 option" where
  "peak_li_get m packet =
     (if (net_type packet = IPPROTO_TCP \<or> net_type packet = IPPROTO_UDP) \<and> app_len packet = 0
      then Some LI_UNKNOWN
      else get_loop apps m packet)"

text \<open>\<open>strcasecmp(3)\<close> in the C locale, as far as the code uses it: are the strings equal but for case?\<close>

definition tolower :: "char \<Rightarrow> char" where
  "tolower c = (let n = (of_char c :: int) in if 65 \<le> n \<and> n \<le> 90 then char_of (n + 32) else c)"

definition strcaseeq :: "string \<Rightarrow> string \<Rightarrow> bool" where
  "strcaseeq s t \<longleftrightarrow> map tolower s = map tolower t"

definition peak_li_number :: "string \<Rightarrow> u32" where
  "peak_li_number name =
     (case find (\<lambda>app. strcaseeq name (li_name app)) apps of
        Some app \<Rightarrow> li_number app | None \<Rightarrow> LI_UNKNOWN)"

definition peak_li_data :: "u32 \<Rightarrow> (peak_lis \<Rightarrow> string) \<Rightarrow> string outcome" where
  "peak_li_data number field =
     (if number = LI_UNKNOWN then Return ''unknown''
      else case find (\<lambda>app. number = li_number app) apps of
        Some app \<Rightarrow> Return (field app) | None \<Rightarrow> Panic)"

definition peak_li_name :: "u32 \<Rightarrow> string outcome" where
  "peak_li_name number = peak_li_data number li_name"

text \<open>\<open>peak_li_merge\<close> joins the verdicts of both directions of a flow (two 16-bit values).\<close>

definition peak_li_merge :: "u16 \<times> u16 \<Rightarrow> u32" where
  "peak_li_merge array =
     (let ret = ucast (max (fst array) (snd array)) in
      if ret = LI_UNDEFINED \<and> (ucast (fst array) = LI_UNKNOWN \<or> ucast (snd array) = LI_UNKNOWN)
      then LI_UNKNOWN else ret)"

section \<open>Payload in bounds\<close>

text \<open>The payload of the packet, and \<open>slack\<close> bytes behind it, lie inside the buffer; likewise the
  flow layer. An empty payload needs no pointer.\<close>

definition app_ok :: "mem \<Rightarrow> peak_packet \<Rightarrow> nat \<Rightarrow> bool" where
  "app_ok m p slack \<longleftrightarrow>
     (app_len p = 0 \<or> (\<exists>raw. app_raw p = Some raw \<and> raw + unat (app_len p) + slack \<le> length m)) \<and>
     (flow_len p = 0 \<or> (\<exists>raw. flow_raw p = Some raw \<and> raw + unat (flow_len p) \<le> length m))"

lemma app_okE:
  assumes "app_ok m p s" and "\<not> unat (app_len p) < n" and "0 < n"
  obtains raw where "app_raw p = Some raw" "raw + n + s \<le> length m" "raw + unat (app_len p) + s \<le> length m"
  using assms by (force simp: app_ok_def)

text \<open>All detectors start with a length check; behind it the payload can be read.\<close>

lemma safe_by_length:
  assumes "app_ok m p s" and "0 < n"
    and "\<And>raw. \<lbrakk>app_raw p = Some raw; n \<le> unat (app_len p); raw + unat (app_len p) + s \<le> length m\<rbrakk> \<Longrightarrow> f \<noteq> None"
  shows "(if unat (app_len p) < n then Some r else f) \<noteq> None"
  using assms by (force simp: app_ok_def)

lemma guard_safe: "f \<noteq> None \<Longrightarrow> (if b then Some r else f) \<noteq> None"
  by simp

named_theorems detector_defs \<open>payload accessors\<close>

lemmas [detector_defs] = app8_def app_be16_def app_be32_def app_host16_def app_host32_def app_host64_def app_bytes_def

lemmas access_None = bind_eq_None_conv decode_eq_None_iff load8_eq_None_iff

lemma li_match_safe: "app_ok m p s \<Longrightarrow> 0 < n \<Longrightarrow> LI_MATCH_PAYLOAD m p keys n \<noteq> None"
  by (auto simp: LI_MATCH_PAYLOAD_def app_bytes_def access_None simp del: not_None_eq elim!: app_okE)

lemma match_safe: "app_ok m p s \<Longrightarrow> match_or_reject m p keys \<noteq> None"
  using li_match_safe[of m p s 4 keys]
  by (auto simp: match_or_reject_def bind_eq_None_conv simp del: not_None_eq split: option.splits)

lemma keyword_detectors_safe:
  assumes "app_ok m p s"
  shows "peak_li_cvs m p \<noteq> None" "peak_li_sip m p \<noteq> None" "peak_li_ftp m p \<noteq> None" "peak_li_ssh m p \<noteq> None"
    "peak_li_imap m p \<noteq> None" "peak_li_smtp m p \<noteq> None" "peak_li_pop3 m p \<noteq> None" "peak_li_http m p \<noteq> None"
    "peak_li_rtsp m p \<noteq> None" "peak_li_bittorrent m p \<noteq> None" "peak_li_gnutella m p \<noteq> None"
    "peak_li_xmpp m p \<noteq> None" "peak_li_irc m p \<noteq> None"
  using match_safe[OF assms]
  by (simp_all add: peak_li_cvs_def peak_li_sip_def peak_li_ftp_def peak_li_ssh_def peak_li_imap_def
      peak_li_smtp_def peak_li_pop3_def peak_li_http_def peak_li_rtsp_def peak_li_bittorrent_def
      peak_li_gnutella_def peak_li_xmpp_def peak_li_irc_def del: not_None_eq)

text \<open>The remaining detectors, one by one.\<close>

lemma dhcp_safe: "app_ok m p s \<Longrightarrow> peak_li_dhcp m p \<noteq> None"
  unfolding peak_li_dhcp_def Let_def
  by (erule safe_by_length; auto simp: detector_defs access_None simp del: not_None_eq)

lemma rtcp_safe: "app_ok m p s \<Longrightarrow> peak_li_rtcp m p \<noteq> None"
  unfolding peak_li_rtcp_def Let_def
  by (erule safe_by_length; auto simp: detector_defs access_None simp del: not_None_eq)

lemma rtp_safe: "app_ok m p s \<Longrightarrow> peak_li_rtp m p \<noteq> None"
  unfolding peak_li_rtp_def Let_def
  by (erule safe_by_length; auto simp: detector_defs access_None simp del: not_None_eq)

lemma rip_safe: "app_ok m p s \<Longrightarrow> peak_li_rip m p \<noteq> None"
  unfolding peak_li_rip_def Let_def
  by (erule safe_by_length; auto simp: detector_defs access_None simp del: not_None_eq)

lemma dtls_safe: "app_ok m p s \<Longrightarrow> peak_li_dtls m p \<noteq> None"
  unfolding peak_li_dtls_def Let_def
  by (erule safe_by_length; auto simp: detector_defs access_None simp del: not_None_eq)

lemma tls_safe: "app_ok m p s \<Longrightarrow> peak_li_tls m p \<noteq> None"
  unfolding peak_li_tls_def Let_def
  by (erule safe_by_length; auto simp: detector_defs access_None simp del: not_None_eq)

lemma ike_safe: "app_ok m p s \<Longrightarrow> peak_li_ike m p \<noteq> None"
  unfolding peak_li_ike_def Let_def
  by (erule safe_by_length; auto simp: detector_defs access_None simp del: not_None_eq)

lemma bgp_safe: "app_ok m p s \<Longrightarrow> peak_li_bgp m p \<noteq> None"
  unfolding peak_li_bgp_def Let_def
  by (erule safe_by_length; auto simp: detector_defs access_None simp del: not_None_eq)

lemma netflow_v1_safe: "app_ok m p s \<Longrightarrow> peak_li_netflow_v1 m p \<noteq> None"
  unfolding peak_li_netflow_v1_def Let_def
  by (erule safe_by_length; auto simp: detector_defs access_None simp del: not_None_eq)

lemma netflow_v5_safe: "app_ok m p s \<Longrightarrow> peak_li_netflow_v5 m p \<noteq> None"
  unfolding peak_li_netflow_v5_def Let_def
  by (erule safe_by_length; auto simp: detector_defs access_None simp del: not_None_eq)

lemma radius_safe: "app_ok m p s \<Longrightarrow> peak_li_radius m p \<noteq> None"
  unfolding peak_li_radius_def Let_def
  by (erule safe_by_length; auto simp: detector_defs access_None simp del: not_None_eq)

lemma pptp_raw_safe: "app_ok m p s \<Longrightarrow> peak_li_pptp_raw m p \<noteq> None"
  unfolding peak_li_pptp_raw_def Let_def
  by (erule safe_by_length; auto simp: detector_defs access_None simp del: not_None_eq)

lemma l2tp_safe: "app_ok m p s \<Longrightarrow> peak_li_l2tp m p \<noteq> None"
  unfolding peak_li_l2tp_def Let_def
  by (erule safe_by_length; auto simp: detector_defs access_None simp del: not_None_eq)

lemma ntp_safe: "app_ok m p s \<Longrightarrow> peak_li_ntp m p \<noteq> None"
  unfolding peak_li_ntp_def Let_def
  by (erule safe_by_length; auto simp: detector_defs access_None simp del: not_None_eq)

lemma impp_safe: "app_ok m p s \<Longrightarrow> peak_li_impp m p \<noteq> None"
  unfolding peak_li_impp_def Let_def
  by (erule safe_by_length; auto simp: detector_defs access_None simp del: not_None_eq)

lemma syslog_safe: "app_ok m p s \<Longrightarrow> peak_li_syslog m p \<noteq> None"
  unfolding peak_li_syslog_def Let_def
  by (erule safe_by_length; auto simp: detector_defs access_None simp del: not_None_eq)

lemma telnet_safe: "app_ok m p s \<Longrightarrow> peak_li_telnet m p \<noteq> None"
  unfolding peak_li_telnet_def Let_def
  by (erule safe_by_length; auto simp: detector_defs access_None simp del: not_None_eq)

lemma netbios_session_service_safe: "app_ok m p s \<Longrightarrow> peak_li_netbios_session_service m p \<noteq> None"
  unfolding peak_li_netbios_session_service_def Let_def
  by (rule guard_safe, erule safe_by_length; auto simp: detector_defs access_None simp del: not_None_eq)

lemma netbios_datagram_service_safe: "app_ok m p s \<Longrightarrow> peak_li_netbios_datagram_service m p \<noteq> None"
  unfolding peak_li_netbios_datagram_service_def Let_def
  by (rule guard_safe, erule safe_by_length; auto simp: detector_defs access_None simp del: not_None_eq)

lemma netbios_name_service_safe: "app_ok m p s \<Longrightarrow> peak_li_netbios_name_service m p \<noteq> None"
  unfolding peak_li_netbios_name_service_def Let_def
  by (erule safe_by_length; auto simp: detector_defs access_None simp del: not_None_eq)

lemma dns_safe: "app_ok m p s \<Longrightarrow> peak_li_dns m p \<noteq> None"
  unfolding peak_li_dns_def Let_def
  by (erule safe_by_length; auto simp: detector_defs access_None simp del: not_None_eq)

lemma openvpn_safe: "app_ok m p s \<Longrightarrow> peak_li_openvpn m p \<noteq> None"
  unfolding peak_li_openvpn_def Let_def
  by (erule safe_by_length; auto simp: detector_defs access_None simp del: not_None_eq)

lemma netflow_safe: "app_ok m p s \<Longrightarrow> peak_li_netflow m p \<noteq> None"
  unfolding peak_li_netflow_def
  by (auto simp: netflow_v1_safe netflow_v5_safe detector_defs access_None simp del: not_None_eq elim!: app_okE)

lemma netbios_safe: "app_ok m p s \<Longrightarrow> peak_li_netbios m p \<noteq> None"
  unfolding peak_li_netbios_def
  by (simp add: netbios_session_service_safe netbios_datagram_service_safe netbios_name_service_safe
      bind_eq_None_conv del: not_None_eq)

lemma pptp_gre_safe: "app_ok m p s \<Longrightarrow> peak_li_pptp_gre m p \<noteq> None"
  unfolding peak_li_pptp_gre_def app_ok_def
  by (auto simp: access_None simp del: not_None_eq)

lemma pptp_safe: "app_ok m p s \<Longrightarrow> peak_li_pptp m p \<noteq> None"
  unfolding peak_li_pptp_def using pptp_gre_safe pptp_raw_safe by simp

lemma stun_safe: "app_ok m p s \<Longrightarrow> peak_li_stun m p \<noteq> None"
  unfolding peak_li_stun_def using li_match_safe[of m p s 4 "[''RSP/'']"]
  by (auto simp: detector_defs access_None simp del: not_None_eq elim!: app_okE split: option.splits)

lemma strlen_loop_safe:
  assumes "app_ok m p s" and "off + ret < unat (app_len p)"
  shows "\<exists>n. li_strlen_loop m p off ret = Some n \<and> (n = 0 \<or> off + n < unat (app_len p))"
  using assms
proof (induction m p off ret rule: li_strlen_loop.induct)
  case (1 m p off ret)
  from "1.prems" obtain raw where raw: "app_raw p = Some raw" "raw + unat (app_len p) + s \<le> length m"
    by (auto simp: app_ok_def)
  then obtain c where c: "app8 m p (off + ret) = Some c"
    using "1.prems" by (simp add: app8_def load8_def)
  show ?case
    using "1.IH"[OF c] "1.prems" by (subst (1) li_strlen_loop.simps) (auto simp: c)
qed

lemma strlen_safe:
  assumes "app_ok m p s"
  obtains n where "LI_STRLEN m p off = Some n" "n = 0 \<or> off + n < unat (app_len p)"
  using strlen_loop_safe[OF assms, of off 0] that
  by (cases "off < unat (app_len p)") (auto simp: LI_STRLEN_def)

lemma tftp_safe:
  assumes "app_ok m p s"
  shows "peak_li_tftp m p \<noteq> None"
proof -
  obtain fl where fl: "LI_STRLEN m p 2 = Some fl" "fl = 0 \<or> 2 + fl < unat (app_len p)"
    using strlen_safe[OF assms] .
  obtain ml where ml: "LI_STRLEN m p (2 + fl + 1) = Some ml" "ml = 0 \<or> 2 + fl + 1 + ml < unat (app_len p)"
    using strlen_safe[OF assms] .
  show ?thesis
    unfolding peak_li_tftp_def using assms fl ml
    by (auto simp: detector_defs access_None simp del: not_None_eq elim!: app_okE)
qed

text \<open>\<open>ldap\<close> and \<open>snmp\<close> may read one byte behind the payload.\<close>

lemma ldap_safe: "app_ok m p (Suc s) \<Longrightarrow> peak_li_ldap m p \<noteq> None"
  unfolding peak_li_ldap_def Let_def
  by (erule safe_by_length; auto simp: detector_defs access_None simp del: not_None_eq)

lemma snmp_safe: "app_ok m p (Suc s) \<Longrightarrow> peak_li_snmp m p \<noteq> None"
  unfolding peak_li_snmp_def Let_def
  by (erule safe_by_length; auto simp: detector_defs access_None simp del: not_None_eq)


section \<open>The table\<close>

lemmas detectors_safe = keyword_detectors_safe dhcp_safe rtcp_safe rtp_safe rip_safe dtls_safe tls_safe
  ike_safe bgp_safe netflow_safe radius_safe tftp_safe l2tp_safe ntp_safe pptp_safe impp_safe
  syslog_safe telnet_safe netbios_safe dns_safe openvpn_safe stun_safe

lemma apps_safe:
  assumes "app_ok m p (Suc s)" and "app \<in> set apps"
  shows "li_function app m p \<noteq> None"
  using assms(2) detectors_safe[OF assms(1)] ldap_safe[OF assms(1)] snmp_safe[OF assms(1)]
  by (auto simp: apps_def peak_li_iptype_def)

lemma get_loop_safe:
  assumes "\<And>app. app \<in> set l \<Longrightarrow> li_function app m p \<noteq> None"
  shows "get_loop l m p \<noteq> None"
  using assms by (induction l) (auto simp: bind_eq_None_conv simp del: not_None_eq)

lemma get_loop_result:
  assumes "get_loop l m p = Some n"
  shows "n \<in> li_number ` set (filter (\<lambda>app. li_proto_match app p) l) \<or>
    n = (if app_len p \<noteq> 0 then LI_UNDEFINED else LI_UNKNOWN)"
  using assms by (induction l) (auto simp: bind_eq_Some_conv split: if_splits)

lemma test_of_get_loop:
  assumes "get_loop l m p = Some n" and "n \<noteq> LI_UNDEFINED" "n \<noteq> LI_UNKNOWN"
    and "distinct (map li_number (filter (\<lambda>app. li_proto_match app p) l))"
  shows "test_loop l m p n = Some True"
  using assms
proof (induction l)
  case (Cons app l)
  show ?case
  proof (cases "li_proto_match app p")
    case True
    with Cons.prems(1) obtain hit where hit: "li_function app m p = Some hit"
      "if hit then n = li_number app else get_loop l m p = Some n"
      by (auto simp: bind_eq_Some_conv split: if_splits)
    show ?thesis
    proof (cases hit)
      case False
      with hit have "get_loop l m p = Some n" by simp
      with get_loop_result[OF this] Cons.prems True have "li_number app \<noteq> n" by (auto split: if_splits)
      with Cons hit False True show ?thesis by simp
    qed (use hit True in simp)
  qed (use Cons in simp)
qed (auto split: if_splits)

lemma ucast_byte: "(ucast (t :: u8) :: u16) = 256 \<longleftrightarrow> False" "(ucast (t :: u8) :: u16) = 115 \<longleftrightarrow> t = 115"
proof -
  have "unat (ucast t :: u16) = unat t"
    using unsigned_less[of t, where 'a = nat] by (simp add: unsigned_ucast_eq take_bit_eq_mod)
  then show "(ucast t :: u16) = 256 \<longleftrightarrow> False" "(ucast t :: u16) = 115 \<longleftrightarrow> t = 115"
    using unsigned_less[of t, where 'a = nat] by (auto simp: word_unat_eq_iff)
qed

lemma apps_numbers_distinct:
  "distinct (map li_number (filter (\<lambda>app. li_proto app \<noteq> (ucast IPPROTO_L2TP, IPPROTO_MAX)) apps))"
  by code_simp

lemma apps_distinct_per_proto:
  "distinct (map li_number (filter (\<lambda>app. li_proto_match app p) apps))"
proof (cases "net_type p = IPPROTO_L2TP")
  case True
  then show ?thesis by (simp add: apps_def li_proto_match_def)
next
  case False
  then have "filter (\<lambda>app. li_proto_match app p) apps =
      filter (\<lambda>app. li_proto_match app p) (filter (\<lambda>app. li_proto app \<noteq> (ucast IPPROTO_L2TP, IPPROTO_MAX)) apps)"
    unfolding filter_filter by (intro filter_cong) (auto simp: li_proto_match_def ucast_byte)
  with distinct_map_filter[OF apps_numbers_distinct] show ?thesis by metis
qed

lemma peak_li_get_total: "app_ok m p 1 \<Longrightarrow> \<exists>n. peak_li_get m p = Some n"
  using get_loop_safe[of apps m p] apps_safe[of m p 0] by (auto simp: peak_li_get_def)

text \<open>Whatever the payload holds, \<open>peak_li_get\<close> stays inside the buffer and returns, provided one byte
  behind the payload can be read.\<close>

lemma li_get_returns:
  assumes "app_ok m p 1"
  shows "\<exists>n. peak_li_get m p = Some n"
  by (rule peak_li_get_total[OF assms])

text \<open>An application that \<open>peak_li_get\<close> reports is confirmed by \<open>peak_li_test\<close> on the same packet,
  although the table lists L2TP twice.\<close>

lemma li_get_confirmed_by_test:
  assumes "peak_li_get m p = Some n" and "n \<noteq> LI_UNKNOWN" and "n \<noteq> LI_UNDEFINED"
  shows "peak_li_test m p n = Some True"
  using assms test_of_get_loop[OF _ _ _ apps_distinct_per_proto]
  by (auto simp: peak_li_get_def peak_li_test_def split: if_splits)

section \<open>Names and numbers\<close>

lemma apps_lower: "list_all (\<lambda>app. map tolower (li_name app) = li_name app) apps"
  by code_simp

lemma peak_li_number_find:
  "peak_li_number name = (case find (\<lambda>app. map tolower name = li_name app) apps of
     Some app \<Rightarrow> li_number app | None \<Rightarrow> LI_UNKNOWN)"
proof -
  have "find (\<lambda>app. strcaseeq name (li_name app)) apps = find (\<lambda>app. map tolower name = li_name app) apps"
    using apps_lower by (intro find_cong) (auto simp: strcaseeq_def list_all_iff)
  then show ?thesis by (simp add: peak_li_number_def)
qed

lemma apps_first_name:
  "list_all (\<lambda>app. map_option li_number (find (\<lambda>b. li_name app = li_name b) apps) = Some (li_number app)) apps"
  by code_simp

lemma apps_range: "list_all (\<lambda>app. li_number app \<noteq> 0 \<and> li_number app \<le> 40) apps"
  by code_simp

lemma apps_names: "app \<in> set apps \<Longrightarrow> peak_li_number (li_name app) = li_number app"
  using apps_first_name apps_lower by (auto simp: list_all_iff peak_li_number_find split: option.splits)

lemma apps_complete: "list_all (\<lambda>k. of_nat k \<in> set (map li_number apps)) [1..<41]"
  by code_simp

lemma number_of_unknown: "peak_li_number ''unknown'' = LI_UNKNOWN"
  by code_simp

text \<open>\<open>peak_li_number\<close> inverts \<open>peak_li_name\<close>, for \<open>unknown\<close> and the duplicated entry too.\<close>

lemma li_name_number_round_trip:
  assumes "peak_li_name n = Return s"
  shows "peak_li_number s = n"
  using assms apps_names number_of_unknown
  by (auto simp: peak_li_name_def peak_li_data_def list_all_iff find_Some_iff split: if_splits option.splits)

text \<open>\<open>peak_li_name\<close> panics exactly on numbers beyond the last application, so every number of the
  enumeration has a table entry.\<close>

lemma li_name_panics_iff: "peak_li_name n = Panic \<longleftrightarrow> 40 < n"
proof -
  have "n \<in> li_number ` set apps" if "n \<noteq> 0" "n \<le> 40"
  proof -
    have "unat n \<in> set [1..<41]" using that by (auto simp: word_le_nat_alt Suc_le_eq unat_gt_0)
    with apps_complete have "of_nat (unat n) \<in> set (map li_number apps)" unfolding list_all_iff by blast
    then show ?thesis by simp
  qed
  moreover have "n \<notin> li_number ` set apps" if "40 < n"
    using that apps_range by (auto simp: list_all_iff)
  moreover have "peak_li_name n = Panic \<longleftrightarrow> n \<noteq> 0 \<and> n \<notin> li_number ` set apps"
    by (auto simp: peak_li_name_def peak_li_data_def find_None_iff find_Some_iff split: option.splits)
  ultimately show ?thesis by (cases "n = 0") (auto simp: not_le[symmetric])
qed

text \<open>What \<open>peak_li_get\<close> returns has a name.\<close>

lemma peak_li_get_named:
  assumes "peak_li_get m p = Some n"
  shows "\<exists>s. peak_li_name n = Return s"
proof -
  have "n \<in> li_number ` set apps \<or> n = LI_UNDEFINED \<or> n = LI_UNKNOWN"
    using assms get_loop_result[of apps m p n] by (auto simp: peak_li_get_def split: if_splits)
  moreover have "LI_UNDEFINED \<in> li_number ` set apps" by (simp add: apps_def)
  ultimately show ?thesis
    by (auto simp: peak_li_name_def peak_li_data_def find_None_iff split: option.splits)
qed

lemma ucast_16_32_inj: "(ucast (x :: u16) :: u32) = ucast y \<longleftrightarrow> x = y"
proof -
  have "ucast (ucast z :: u32) = z" for z :: u16
    by (rule bit_word_eqI) (simp add: bit_simps)
  then show ?thesis by metis
qed

text \<open>Joining two verdicts keeps the higher one, but a lone \<open>LI_UNDEFINED\<close> stays undecided.\<close>

lemma peak_li_merge_eq:
  "peak_li_merge (a, b) = (if a \<noteq> b \<and> max a b = 1 then LI_UNKNOWN else ucast (max a b))"
proof -
  have "x \<le> 1 \<longleftrightarrow> x = 0 \<or> x = 1" for x :: u16
    by (auto simp: word_le_nat_alt word_unat_eq_iff)
  then show ?thesis
    using ucast_16_32_inj[of _ 0] ucast_16_32_inj[of _ 1]
    by (auto simp: peak_li_merge_def Let_def max_def not_le)
qed

lemma peak_li_merge_commute: "peak_li_merge (a, b) = peak_li_merge (b, a)"
  by (simp add: peak_li_merge_eq max.commute)

section \<open>Witnesses and the missing byte\<close>

definition http_frame :: mem where
  "http_frame = replicate 28 0 @ bytes_of ''GET '' @ [0]"

definition http_packet :: peak_packet where
  "http_packet = udp_packet\<lparr>net_type := IPPROTO_TCP, app_len := 4, flow_len := 12\<rparr>"

lemma http_packet_ok: "app_ok http_frame http_packet 1"
  by (simp add: app_ok_def http_packet_def udp_packet_def http_frame_def bytes_of_def)

lemma http_detected: "peak_li_get http_frame http_packet = Some LI_HTTP"
  by code_simp

lemma li_get_returns_witness: "\<exists>n. peak_li_get http_frame http_packet = Some n"
  by (rule li_get_returns[OF http_packet_ok])

lemma li_get_confirmed_by_test_witness: "peak_li_test http_frame http_packet LI_HTTP = Some True"
  by (rule li_get_confirmed_by_test[OF http_detected]) simp_all

theorem li_name_number_round_trip_witness: "peak_li_number ''http'' = LI_HTTP"
proof -
  have "peak_li_name LI_HTTP = Return ''http''" by code_simp
  then show ?thesis by (rule li_name_number_round_trip)
qed

definition ldap_frame :: mem where
  "ldap_frame = replicate 28 0 @ [0x30, 0x84, 0, 0, 0, 0, 0x02, 0x01, 0x07]"

text \<open>The byte behind the payload is needed: this LDAP message ends where its payload ends, and the
  detector reads behind it.\<close>

lemma ldap_reads_behind_payload:
  "app_ok ldap_frame (http_packet\<lparr>app_len := 9, flow_len := 17\<rparr>) 0 \<and>
   peak_li_get ldap_frame (http_packet\<lparr>app_len := 9, flow_len := 17\<rparr>) = None"
proof
  show "app_ok ldap_frame (http_packet\<lparr>app_len := 9, flow_len := 17\<rparr>) 0"
    by (simp add: app_ok_def http_packet_def udp_packet_def ldap_frame_def)
  show "peak_li_get ldap_frame (http_packet\<lparr>app_len := 9, flow_len := 17\<rparr>) = None"
    by code_simp
qed

end
