(* ===== verification/Peak_Tree.thy ===== *)
theory Peak_Tree
  imports Peak_Prelude
begin

text \<open>
  The red-black tree generated by \<open>RB_GENERATE_INTERNAL\<close> of \<open>src/include/sys/tree.h\<close>. The C tree is a
  pointer structure with parent links; the model is a tree of elements (a client uses addresses),
  and a pointer into it is a zipper: the subtree the pointer stands for and the path of frames back
  to the root. \<open>RB_PARENT(elm)\<close> is the first frame, walking to the parent drops it, and changing a
  link changes the subtree or a frame. A step that would follow a \<open>NULL\<close> pointer is \<open>None\<close>.
  \<open>RB_AUGMENT\<close> is empty in the sources.

  The properties are those the clients rely on: search trees stay sorted, the colour and height
  invariants are kept, and under them no \<open>NULL\<close> pointer is followed.
\<close>

section \<open>Trees and pointers into them\<close>

datatype rb_color = RB_BLACK | RB_RED

lemma color_not [simp]: "c \<noteq> RB_RED \<longleftrightarrow> c = RB_BLACK" "c \<noteq> RB_BLACK \<longleftrightarrow> c = RB_RED"
  by (cases c; simp)+

datatype 'a rb = RbNil | RbNode rb_color "'a rb" 'a "'a rb"

text \<open>\<open>RbL c k r\<close>: the pointer stands in the left child of a node of colour \<open>c\<close> with element \<open>k\<close> and
  right child \<open>r\<close>; \<open>RbR c l k\<close> likewise.\<close>

datatype 'a rb_frame = RbL rb_color 'a "'a rb" | RbR rb_color "'a rb" 'a

fun RB_COLOR :: "'a rb \<Rightarrow> rb_color" where
  "RB_COLOR RbNil = RB_BLACK"
| "RB_COLOR (RbNode c l k r) = c"

fun rb_paint :: "rb_color \<Rightarrow> 'a rb \<Rightarrow> 'a rb" where
  "rb_paint c RbNil = RbNil"
| "rb_paint c (RbNode c' l k r) = RbNode c l k r"

fun rb_up :: "'a rb \<Rightarrow> 'a rb_frame \<Rightarrow> 'a rb" where
  "rb_up t (RbL c k r) = RbNode c t k r"
| "rb_up t (RbR c l k) = RbNode c l k t"

text \<open>The whole tree around a pointer.\<close>

fun rb_plug :: "'a rb \<Rightarrow> 'a rb_frame list \<Rightarrow> 'a rb" where
  "rb_plug t [] = t"
| "rb_plug t (f # fs) = rb_plug (rb_up t f) fs"

fun rb_inorder :: "'a rb \<Rightarrow> 'a list" where
  "rb_inorder RbNil = []"
| "rb_inorder (RbNode c l k r) = rb_inorder l @ k # rb_inorder r"

fun RB_ROTATE_LEFT :: "'a rb \<Rightarrow> 'a rb option" where
  "RB_ROTATE_LEFT (RbNode c l k (RbNode c' l' k' r')) = Some (RbNode c' (RbNode c l k l') k' r')"
| "RB_ROTATE_LEFT t = None"

fun RB_ROTATE_RIGHT :: "'a rb \<Rightarrow> 'a rb option" where
  "RB_ROTATE_RIGHT (RbNode c (RbNode c' l' k' r') k r) = Some (RbNode c' l' k' (RbNode c r' k r))"
| "RB_ROTATE_RIGHT t = None"

section \<open>Searching\<close>

definition RB_EMPTY :: "'a rb \<Rightarrow> bool" where
  "RB_EMPTY t \<longleftrightarrow> t = RbNil"

fun RB_FIND :: "('a \<Rightarrow> 'a \<Rightarrow> int) \<Rightarrow> 'a \<Rightarrow> 'a rb \<Rightarrow> 'a option" where
  "RB_FIND cmp elm RbNil = None"
| "RB_FIND cmp elm (RbNode c l k r) =
     (if cmp elm k < 0 then RB_FIND cmp elm l
      else if cmp elm k > 0 then RB_FIND cmp elm r
      else Some k)"

fun nfind_loop :: "('a \<Rightarrow> 'a \<Rightarrow> int) \<Rightarrow> 'a \<Rightarrow> 'a rb \<Rightarrow> 'a option \<Rightarrow> 'a option" where
  "nfind_loop cmp elm RbNil res = res"
| "nfind_loop cmp elm (RbNode c l k r) res =
     (if cmp elm k < 0 then nfind_loop cmp elm l (Some k)
      else if cmp elm k > 0 then nfind_loop cmp elm r res
      else Some k)"

definition RB_NFIND :: "('a \<Rightarrow> 'a \<Rightarrow> int) \<Rightarrow> 'a \<Rightarrow> 'a rb \<Rightarrow> 'a option" where
  "RB_NFIND cmp elm t = nfind_loop cmp elm t None"

fun minmax_loop :: "int \<Rightarrow> 'a rb \<Rightarrow> 'a option \<Rightarrow> 'a option" where
  "minmax_loop val RbNil parent = parent"
| "minmax_loop val (RbNode c l k r) parent = minmax_loop val (if val < 0 then l else r) (Some k)"

definition RB_MINMAX :: "'a rb \<Rightarrow> int \<Rightarrow> 'a option" where
  "RB_MINMAX t val = minmax_loop val t None"

text \<open>Where an element's pointer stands in the tree (the element is its address, so plain equality).\<close>

fun rb_path :: "'a \<Rightarrow> 'a rb \<Rightarrow> 'a rb_frame list \<Rightarrow> ('a rb \<times> 'a rb_frame list) option" where
  "rb_path elm RbNil fs = None"
| "rb_path elm (RbNode c l k r) fs =
     (if elm = k then Some (RbNode c l k r, fs)
      else case rb_path elm l (RbL c k r # fs) of
        Some z \<Rightarrow> Some z
      | None \<Rightarrow> rb_path elm r (RbR c l k # fs))"

text \<open>\<open>RB_NEXT\<close>: down to the leftmost of the right subtree, or up until coming from a left child.\<close>

fun next_up :: "'a rb_frame list \<Rightarrow> 'a option" where
  "next_up [] = None"
| "next_up (RbL c k r # fs) = Some k"
| "next_up (RbR c l k # fs) = next_up fs"

definition RB_NEXT :: "'a \<Rightarrow> 'a rb \<Rightarrow> 'a option option" where
  "RB_NEXT elm t = do {
     (s, fs) \<leftarrow> rb_path elm t [];
     case s of
       RbNil \<Rightarrow> None
     | RbNode c l k r \<Rightarrow> Some (if r = RbNil then next_up fs else minmax_loop (- 1) r None) }"

section \<open>Insertion\<close>

text \<open>The loop of \<open>RB_INSERT_COLOR\<close>. \<open>elm\<close> and the frames of its parent and grandparent are looked
  at; an iteration that recolours climbs two frames, one that rotates is the last.\<close>

fun RB_INSERT_COLOR :: "'a rb \<Rightarrow> 'a rb_frame list \<Rightarrow> 'a rb option" where
  "RB_INSERT_COLOR elm [] = Some (rb_paint RB_BLACK elm)"
| "RB_INSERT_COLOR elm (parent # []) =
     (if RB_COLOR (rb_up elm parent) = RB_RED then None
      else Some (rb_paint RB_BLACK (rb_up elm parent)))"
| "RB_INSERT_COLOR elm (parent # gparent # fs) =
     (if RB_COLOR (rb_up elm parent) \<noteq> RB_RED
      then Some (rb_paint RB_BLACK (rb_plug elm (parent # gparent # fs)))
      else case gparent of
        RbL gc g tmp \<Rightarrow>
          if RB_COLOR tmp = RB_RED
          then RB_INSERT_COLOR (RbNode RB_RED (rb_paint RB_BLACK (rb_up elm parent)) g (rb_paint RB_BLACK tmp)) fs
          else do {
            p \<leftarrow> (case parent of
                RbR pc l k \<Rightarrow> RB_ROTATE_LEFT (rb_up elm parent)
              | RbL pc k r \<Rightarrow> Some (rb_up elm parent));
            t \<leftarrow> RB_ROTATE_RIGHT (RbNode RB_RED (rb_paint RB_BLACK p) g tmp);
            Some (rb_paint RB_BLACK (rb_plug t fs)) }
      | RbR gc tmp g \<Rightarrow>
          if RB_COLOR tmp = RB_RED
          then RB_INSERT_COLOR (RbNode RB_RED (rb_paint RB_BLACK tmp) g (rb_paint RB_BLACK (rb_up elm parent))) fs
          else do {
            p \<leftarrow> (case parent of
                RbL pc k r \<Rightarrow> RB_ROTATE_RIGHT (rb_up elm parent)
              | RbR pc l k \<Rightarrow> Some (rb_up elm parent));
            t \<leftarrow> RB_ROTATE_LEFT (RbNode RB_RED tmp g (rb_paint RB_BLACK p));
            Some (rb_paint RB_BLACK (rb_plug t fs)) })"

text \<open>The search of \<open>RB_INSERT\<close>: an element with the same key, or the place of the new one.\<close>

fun insert_walk :: "('a \<Rightarrow> 'a \<Rightarrow> int) \<Rightarrow> 'a \<Rightarrow> 'a rb \<Rightarrow> 'a rb_frame list \<Rightarrow> 'a + 'a rb_frame list" where
  "insert_walk cmp elm RbNil fs = Inr fs"
| "insert_walk cmp elm (RbNode c l k r) fs =
     (if cmp elm k < 0 then insert_walk cmp elm l (RbL c k r # fs)
      else if cmp elm k > 0 then insert_walk cmp elm r (RbR c l k # fs)
      else Inl k)"

text \<open>The returned element is the one already there (\<open>None\<close> for \<open>NULL\<close>: inserted).\<close>

definition RB_INSERT :: "('a \<Rightarrow> 'a \<Rightarrow> int) \<Rightarrow> 'a \<Rightarrow> 'a rb \<Rightarrow> ('a option \<times> 'a rb) option" where
  "RB_INSERT cmp elm t =
     (case insert_walk cmp elm t [] of
        Inl k \<Rightarrow> Some (Some k, t)
      | Inr fs \<Rightarrow> do {
          t' \<leftarrow> RB_INSERT_COLOR (RbNode RB_RED RbNil elm RbNil) fs;
          Some (None, t') })"

section \<open>Removal\<close>

text \<open>One iteration of \<open>RB_REMOVE_COLOR\<close> below a black sibling \<open>tmp\<close>: the subtree of the parent, and
  whether the loop goes on there (\<open>elm = parent\<close>) or stops (\<open>break\<close>).\<close>

datatype 'a rb_fix = Climb "'a rb" | Stop "'a rb"

fun fix_left :: "rb_color \<Rightarrow> 'a rb \<Rightarrow> 'a \<Rightarrow> 'a rb \<Rightarrow> 'a rb_fix option" where
  "fix_left pc elm p RbNil = None"
| "fix_left pc elm p (RbNode tc tx t ty) =
     (if RB_COLOR tx = RB_BLACK \<and> RB_COLOR ty = RB_BLACK
      then Some (Climb (RbNode pc elm p (RbNode RB_RED tx t ty)))
      else do {
        tmp \<leftarrow> (if RB_COLOR ty = RB_BLACK
          then RB_ROTATE_RIGHT (RbNode RB_RED (rb_paint RB_BLACK tx) t ty)
          else Some (RbNode tc tx t ty));
        case tmp of
          RbNil \<Rightarrow> None
        | RbNode tc' tx' t' ty' \<Rightarrow> do {
            u \<leftarrow> RB_ROTATE_LEFT (RbNode RB_BLACK elm p (RbNode pc tx' t' (rb_paint RB_BLACK ty')));
            Some (Stop u) } })"

fun fix_right :: "rb_color \<Rightarrow> 'a rb \<Rightarrow> 'a \<Rightarrow> 'a rb \<Rightarrow> 'a rb_fix option" where
  "fix_right pc elm p RbNil = None"
| "fix_right pc elm p (RbNode tc tx t ty) =
     (if RB_COLOR tx = RB_BLACK \<and> RB_COLOR ty = RB_BLACK
      then Some (Climb (RbNode pc (RbNode RB_RED tx t ty) p elm))
      else do {
        tmp \<leftarrow> (if RB_COLOR tx = RB_BLACK
          then RB_ROTATE_LEFT (RbNode RB_RED tx t (rb_paint RB_BLACK ty))
          else Some (RbNode tc tx t ty));
        case tmp of
          RbNil \<Rightarrow> None
        | RbNode tc' tx' t' ty' \<Rightarrow> do {
            u \<leftarrow> RB_ROTATE_RIGHT (RbNode RB_BLACK (RbNode pc (rb_paint RB_BLACK tx') t' ty') p elm);
            Some (Stop u) } })"

text \<open>The start of an iteration: a red sibling is painted black, the parent red, and the parent rotated, so
  that the pointer gets the sibling's inner child as its new sibling and one more frame.\<close>

fun turn_left :: "rb_color \<Rightarrow> 'a rb \<Rightarrow> 'a rb_frame list \<Rightarrow> (rb_color \<times> 'a rb \<times> 'a rb_frame list) option" where
  "turn_left pc RbNil fs = None"
| "turn_left pc (RbNode tc tx t ty) fs =
     (if tc = RB_RED then Some (RB_RED, tx, RbL RB_BLACK t ty # fs)
      else Some (pc, RbNode tc tx t ty, fs))"

fun turn_right :: "rb_color \<Rightarrow> 'a rb \<Rightarrow> 'a rb_frame list \<Rightarrow> (rb_color \<times> 'a rb \<times> 'a rb_frame list) option" where
  "turn_right pc RbNil fs = None"
| "turn_right pc (RbNode tc tx t ty) fs =
     (if tc = RB_RED then Some (RB_RED, ty, RbR RB_BLACK tx t # fs)
      else Some (pc, RbNode tc tx t ty, fs))"

fun_cases turn_leftE: "turn_left pc tmp fs = Some r"
fun_cases turn_rightE: "turn_right pc tmp fs = Some r"

lemma fix_climb_color:
  "fix_left pc elm p tmp = Some (Climb u) \<Longrightarrow> RB_COLOR u = pc"
  "fix_right pc elm p tmp = Some (Climb u) \<Longrightarrow> RB_COLOR u = pc"
proof -
  show "fix_left pc elm p tmp = Some (Climb u) \<Longrightarrow> RB_COLOR u = pc"
    by (cases tmp) (auto split: if_splits Option.bind_split_asm rb.split_asm)
  show "fix_right pc elm p tmp = Some (Climb u) \<Longrightarrow> RB_COLOR u = pc"
    by (cases tmp) (auto split: if_splits Option.bind_split_asm rb.split_asm)
qed

function RB_REMOVE_COLOR :: "'a rb \<Rightarrow> 'a rb_frame list \<Rightarrow> 'a rb option" where
  "RB_REMOVE_COLOR elm [] = Some (rb_paint RB_BLACK elm)"
| "RB_REMOVE_COLOR elm (RbL pc p tmp # fs) =
     (if RB_COLOR elm = RB_RED then Some (rb_plug (rb_paint RB_BLACK elm) (RbL pc p tmp # fs))
      else do {
        (pc', tmp', fs') \<leftarrow> turn_left pc tmp fs;
        r \<leftarrow> fix_left pc' elm p tmp';
        case r of
          Climb u \<Rightarrow> RB_REMOVE_COLOR u fs'
        | Stop u \<Rightarrow> Some (rb_paint RB_BLACK (rb_plug u fs')) })"
| "RB_REMOVE_COLOR elm (RbR pc tmp p # fs) =
     (if RB_COLOR elm = RB_RED then Some (rb_plug (rb_paint RB_BLACK elm) (RbR pc tmp p # fs))
      else do {
        (pc', tmp', fs') \<leftarrow> turn_right pc tmp fs;
        r \<leftarrow> fix_right pc' elm p tmp';
        case r of
          Climb u \<Rightarrow> RB_REMOVE_COLOR u fs'
        | Stop u \<Rightarrow> Some (rb_paint RB_BLACK (rb_plug u fs')) })"
  by pat_completeness auto
termination
  by (relation "measure (\<lambda>(elm, fs). 2 * length fs + (if RB_COLOR elm = RB_BLACK then 1 else 0))")
    (auto dest!: fix_climb_color elim!: turn_leftE turn_rightE split: if_splits)

text \<open>The search for the successor in \<open>RB_REMOVE\<close>: the leftmost node below \<open>elm\<close>, with its path.\<close>

fun leftmost :: "'a rb \<Rightarrow> 'a rb_frame list \<Rightarrow> 'a rb \<times> 'a rb_frame list" where
  "leftmost (RbNode c (RbNode c' l' k' r') k r) fs = leftmost (RbNode c' l' k' r') (RbL c k r # fs)"
| "leftmost t fs = (t, fs)"

text \<open>Unlinking: the child takes the place of the removed node and the colours are fixed if that node was
  black.\<close>

definition rb_unlink :: "rb_color \<Rightarrow> 'a rb \<Rightarrow> 'a rb_frame list \<Rightarrow> 'a rb option" where
  "rb_unlink color child fs =
     (if color = RB_BLACK then RB_REMOVE_COLOR child fs else Some (rb_plug child fs))"

text \<open>With two children, the successor \<open>elm\<close> is unlinked and put, with the colour and the links of
  \<open>old\<close>, in the place of \<open>old\<close>.\<close>

definition RB_REMOVE :: "'a \<Rightarrow> 'a rb \<Rightarrow> 'a rb option" where
  "RB_REMOVE old t = do {
     (s, fs) \<leftarrow> rb_path old t [];
     case s of
       RbNil \<Rightarrow> None
     | RbNode color l k r \<Rightarrow>
         if l = RbNil then rb_unlink color r fs
         else if r = RbNil then rb_unlink color l fs
         else (case leftmost r [] of
             (RbNode c l' elm child, fs') \<Rightarrow> rb_unlink c child (fs' @ RbR color l elm # fs)
           | (RbNil, fs') \<Rightarrow> None) }"

section \<open>Contents\<close>

fun fr_before :: "'a rb_frame list \<Rightarrow> 'a list" where
  "fr_before [] = []"
| "fr_before (RbL c k r # fs) = fr_before fs"
| "fr_before (RbR c l k # fs) = fr_before fs @ rb_inorder l @ [k]"

fun fr_after :: "'a rb_frame list \<Rightarrow> 'a list" where
  "fr_after [] = []"
| "fr_after (RbL c k r # fs) = k # rb_inorder r @ fr_after fs"
| "fr_after (RbR c l k # fs) = fr_after fs"

lemma inorder_plug [simp]: "rb_inorder (rb_plug t fs) = fr_before fs @ rb_inorder t @ fr_after fs"
proof (induction fs arbitrary: t)
  case (Cons f fs)
  then show ?case by (cases f) auto
qed simp

lemma inorder_paint [simp]: "rb_inorder (rb_paint c t) = rb_inorder t"
  by (cases t) auto

lemma inorder_rotate:
  "RB_ROTATE_LEFT t = Some u \<Longrightarrow> rb_inorder u = rb_inorder t"
  "RB_ROTATE_RIGHT t = Some u \<Longrightarrow> rb_inorder u = rb_inorder t"
  by (cases t rule: RB_ROTATE_LEFT.cases, auto) (cases t rule: RB_ROTATE_RIGHT.cases, auto)

lemma inorder_insert_color:
  "RB_INSERT_COLOR elm fs = Some t \<Longrightarrow> rb_inorder t = fr_before fs @ rb_inorder elm @ fr_after fs"
proof (induction elm fs rule: RB_INSERT_COLOR.induct)
  case (2 elm parent)
  then show ?case by (cases parent) (auto split: if_splits)
next
  case (3 elm parent gparent fs)
  show ?case
  proof (cases "RB_COLOR (rb_up elm parent) = RB_RED")
    case True
    with 3 show ?thesis
      by (cases parent; cases gparent)
        (auto split: if_splits simp: bind_eq_Some_conv dest!: inorder_rotate)
  next
    case False
    with 3 show ?thesis by (cases parent; cases gparent) (auto split: if_splits)
  qed
qed auto

fun fix_tree :: "'a rb_fix \<Rightarrow> 'a rb" where
  "fix_tree (Climb u) = u"
| "fix_tree (Stop u) = u"

lemma inorder_fix:
  "fix_left pc elm p tmp = Some r \<Longrightarrow> rb_inorder (fix_tree r) = rb_inorder elm @ p # rb_inorder tmp"
  "fix_right pc elm p tmp = Some r \<Longrightarrow> rb_inorder (fix_tree r) = rb_inorder tmp @ p # rb_inorder elm"
proof -
  show "fix_left pc elm p tmp = Some r \<Longrightarrow> rb_inorder (fix_tree r) = rb_inorder elm @ p # rb_inorder tmp"
    by (cases tmp) (auto split: if_splits Option.bind_split_asm rb.split_asm dest!: inorder_rotate)
  show "fix_right pc elm p tmp = Some r \<Longrightarrow> rb_inorder (fix_tree r) = rb_inorder tmp @ p # rb_inorder elm"
    by (cases tmp) (auto split: if_splits Option.bind_split_asm rb.split_asm dest!: inorder_rotate)
qed

lemma inorder_turn:
  "turn_left pc tmp fs = Some (pc', tmp', fs') \<Longrightarrow>
     fr_before fs' = fr_before fs \<and> p # rb_inorder tmp' @ fr_after fs' = p # rb_inorder tmp @ fr_after fs"
  "turn_right pc tmp fs = Some (pc', tmp', fs') \<Longrightarrow>
     fr_after fs' = fr_after fs \<and> fr_before fs' @ rb_inorder tmp' = fr_before fs @ rb_inorder tmp"
  by (auto elim!: turn_leftE turn_rightE split: if_splits)

lemma remove_color_iteration:
  assumes "RB_REMOVE_COLOR elm (RbL pc p tmp # fs) = Some t" and "RB_COLOR elm = RB_BLACK"
  obtains pc' tmp' fs' r where "turn_left pc tmp fs = Some (pc', tmp', fs')" "fix_left pc' elm p tmp' = Some r"
    "(case r of Climb u \<Rightarrow> RB_REMOVE_COLOR u fs' | Stop u \<Rightarrow> Some (rb_paint RB_BLACK (rb_plug u fs'))) = Some t"
  using assms by (auto simp: bind_eq_Some_conv)

lemma remove_color_iteration':
  assumes "RB_REMOVE_COLOR elm (RbR pc tmp p # fs) = Some t" and "RB_COLOR elm = RB_BLACK"
  obtains pc' tmp' fs' r where "turn_right pc tmp fs = Some (pc', tmp', fs')" "fix_right pc' elm p tmp' = Some r"
    "(case r of Climb u \<Rightarrow> RB_REMOVE_COLOR u fs' | Stop u \<Rightarrow> Some (rb_paint RB_BLACK (rb_plug u fs'))) = Some t"
  using assms by (auto simp: bind_eq_Some_conv)

lemma inorder_remove_color:
  "RB_REMOVE_COLOR elm fs = Some t \<Longrightarrow> rb_inorder t = fr_before fs @ rb_inorder elm @ fr_after fs"
proof (induction elm fs rule: RB_REMOVE_COLOR.induct)
  case (2 elm pc p tmp fs)
  show ?case
  proof (cases "RB_COLOR elm = RB_RED")
    case False
    then have "RB_COLOR elm = RB_BLACK" by simp
    from remove_color_iteration[OF "2.prems" this] obtain pc' tmp' fs' r where st:
      "turn_left pc tmp fs = Some (pc', tmp', fs')" "fix_left pc' elm p tmp' = Some r"
      "(case r of Climb u \<Rightarrow> RB_REMOVE_COLOR u fs' | Stop u \<Rightarrow> Some (rb_paint RB_BLACK (rb_plug u fs'))) = Some t" .
    have "rb_inorder t = fr_before fs' @ rb_inorder (fix_tree r) @ fr_after fs'"
      using st(3) "2.IH"[OF False st(1) refl refl st(2)] by (cases r) auto
    with inorder_turn(1)[OF st(1)] inorder_fix(1)[OF st(2)] show ?thesis by simp
  qed (use "2.prems" in auto)
next
  case (3 elm pc tmp p fs)
  show ?case
  proof (cases "RB_COLOR elm = RB_RED")
    case False
    then have "RB_COLOR elm = RB_BLACK" by simp
    from remove_color_iteration'[OF "3.prems" this] obtain pc' tmp' fs' r where st:
      "turn_right pc tmp fs = Some (pc', tmp', fs')" "fix_right pc' elm p tmp' = Some r"
      "(case r of Climb u \<Rightarrow> RB_REMOVE_COLOR u fs' | Stop u \<Rightarrow> Some (rb_paint RB_BLACK (rb_plug u fs'))) = Some t" .
    have "rb_inorder t = fr_before fs' @ rb_inorder (fix_tree r) @ fr_after fs'"
      using st(3) "3.IH"[OF False st(1) refl refl st(2)] by (cases r) auto
    with inorder_turn(2)[OF st(1)] inorder_fix(2)[OF st(2)] show ?thesis
      by (metis append.assoc append_Cons fr_after.simps(3) fr_before.simps(3) self_append_conv2)
  qed (use "3.prems" in auto)
qed auto

section \<open>Red-black invariants\<close>

fun invc :: "'a rb \<Rightarrow> bool" where
  "invc RbNil = True"
| "invc (RbNode c l k r) \<longleftrightarrow> invc l \<and> invc r \<and> (c = RB_RED \<longrightarrow> RB_COLOR l = RB_BLACK \<and> RB_COLOR r = RB_BLACK)"

fun bheight :: "'a rb \<Rightarrow> nat" where
  "bheight RbNil = 0"
| "bheight (RbNode c l k r) = bheight l + (if c = RB_BLACK then 1 else 0)"

fun invh :: "'a rb \<Rightarrow> bool" where
  "invh RbNil = True"
| "invh (RbNode c l k r) \<longleftrightarrow> invh l \<and> invh r \<and> bheight l = bheight r"

definition rb_ok :: "'a rb \<Rightarrow> bool" where
  "rb_ok t \<longleftrightarrow> invc t \<and> invh t \<and> RB_COLOR t = RB_BLACK"

text \<open>The same for a path: its hole takes trees of black height \<open>n\<close>.\<close>

fun fcolor :: "'a rb_frame \<Rightarrow> rb_color" where
  "fcolor (RbL c k r) = c"
| "fcolor (RbR c l k) = c"

fun sibling :: "'a rb_frame \<Rightarrow> 'a rb" where
  "sibling (RbL c k r) = r"
| "sibling (RbR c l k) = l"

text \<open>\<open>top_color fs\<close>: a red node may not be put below it (a red root neither).\<close>

definition top_color :: "'a rb_frame list \<Rightarrow> rb_color" where
  "top_color fs = (case fs of [] \<Rightarrow> RB_RED | f # _ \<Rightarrow> fcolor f)"

lemma top_color_simps [simp]: "top_color [] = RB_RED" "top_color (f # fs) = fcolor f"
  by (simp_all add: top_color_def)

fun path_ok :: "'a rb_frame list \<Rightarrow> nat \<Rightarrow> bool" where
  "path_ok [] n = True"
| "path_ok (f # fs) n \<longleftrightarrow> invc (sibling f) \<and> invh (sibling f) \<and> bheight (sibling f) = n \<and>
     (fcolor f = RB_RED \<longrightarrow> RB_COLOR (sibling f) = RB_BLACK \<and> top_color fs = RB_BLACK) \<and>
     path_ok fs (n + (if fcolor f = RB_BLACK then 1 else 0))"

lemma rb_ok_plug:
  "rb_ok (rb_plug t fs) \<longleftrightarrow>
     path_ok fs (bheight t) \<and> invc t \<and> invh t \<and> (top_color fs = RB_RED \<longrightarrow> RB_COLOR t = RB_BLACK)"
proof (induction fs arbitrary: t)
  case (Cons f fs)
  show ?case
    unfolding rb_plug.simps Cons.IH by (cases f) (auto split: if_splits)
qed (auto simp: rb_ok_def)

lemma paint_simps [simp]:
  "invh (rb_paint c t) = invh t" "invc t \<Longrightarrow> invc (rb_paint RB_BLACK t)" "RB_COLOR (rb_paint RB_BLACK t) = RB_BLACK"
  by (cases t; simp)+

lemma bheight_paint: "bheight (rb_paint RB_BLACK t) = bheight t + (if RB_COLOR t = RB_RED then 1 else 0)"
  by (cases t) auto

lemma paint_ok: "rb_ok t \<Longrightarrow> rb_ok (rb_paint RB_BLACK t)"
  by (cases t) (auto simp: rb_ok_def)

lemma insert_color_ok:
  assumes "path_ok fs (bheight elm)" and "invc elm" "invh elm" "RB_COLOR elm = RB_RED"
  shows "\<exists>t. RB_INSERT_COLOR elm fs = Some t \<and> rb_ok t"
  using assms
proof (induction elm fs rule: RB_INSERT_COLOR.induct)
  case (1 elm)
  then show ?case by (auto simp: rb_ok_def)
next
  case (2 elm parent)
  then show ?case by (cases parent) (auto simp: rb_ok_def)
next
  case (3 elm parent gparent fs)
  from "3.prems"(4) obtain l k r where elm: "elm = RbNode RB_RED l k r" by (cases elm) auto
  show ?case
  proof (cases "RB_COLOR (rb_up elm parent) = RB_RED")
    case False
    then have "fcolor parent = RB_BLACK" by (cases parent) auto
    with 3 have "rb_ok (rb_plug elm (parent # gparent # fs))" unfolding rb_ok_plug by simp
    with False show ?thesis by (auto intro: paint_ok)
  next
    case True
    note red = this
    show ?thesis
    proof (cases "RB_COLOR (sibling gparent) = RB_RED")
      case True
      show ?thesis
      proof (cases gparent)
        case (RbL gc g tmp)
        let ?e = "RbNode RB_RED (rb_paint RB_BLACK (rb_up elm parent)) g (rb_paint RB_BLACK tmp)"
        have "path_ok fs (bheight ?e) \<and> invc ?e \<and> invh ?e"
          using "3.prems" red True RbL by (cases parent) (auto simp: bheight_paint)
        then have "\<exists>t. RB_INSERT_COLOR ?e fs = Some t \<and> rb_ok t"
          using red True RbL by (intro "3.IH"(1)) auto
        moreover have "RB_INSERT_COLOR elm (parent # gparent # fs) = RB_INSERT_COLOR ?e fs"
          using red True RbL by simp
        ultimately show ?thesis by metis
      next
        case (RbR gc tmp g)
        let ?e = "RbNode RB_RED (rb_paint RB_BLACK tmp) g (rb_paint RB_BLACK (rb_up elm parent))"
        have "path_ok fs (bheight ?e) \<and> invc ?e \<and> invh ?e"
          using "3.prems" red True RbR by (cases parent) (auto simp: bheight_paint)
        then have "\<exists>t. RB_INSERT_COLOR ?e fs = Some t \<and> rb_ok t"
          using red True RbR by (intro "3.IH"(2)) auto
        moreover have "RB_INSERT_COLOR elm (parent # gparent # fs) = RB_INSERT_COLOR ?e fs"
          using red True RbR by simp
        ultimately show ?thesis by metis
      qed
    next
      case False
      with red "3.prems" show ?thesis
        by (cases parent; cases gparent) (auto simp: elm rb_ok_plug intro!: paint_ok)
    qed
  qed
qed


definition fix_ok :: "rb_color \<Rightarrow> nat \<Rightarrow> 'a rb_fix \<Rightarrow> bool" where
  "fix_ok pc n r = (case r of
     Climb u \<Rightarrow> invc (rb_paint RB_BLACK u) \<and> invh u \<and> RB_COLOR u = pc \<and> bheight u = n + (if pc = RB_BLACK then 1 else 0)
   | Stop u \<Rightarrow> invc u \<and> invh u \<and> RB_COLOR u = pc \<and> bheight u = Suc n + (if pc = RB_BLACK then 1 else 0))"

lemma fix_ok_left:
  assumes "invc elm" "invh elm" "RB_COLOR elm = RB_BLACK" "invc tmp" "invh tmp" "RB_COLOR tmp = RB_BLACK"
    and "bheight tmp = Suc (bheight elm)"
  shows "\<exists>r. fix_left pc elm p tmp = Some r \<and> fix_ok pc (bheight elm) r"
proof -
  from assms obtain tx t ty where tmp: "tmp = RbNode RB_BLACK tx t ty" by (cases tmp) auto
  show ?thesis
  proof (cases "RB_COLOR ty = RB_BLACK")
    case True
    then show ?thesis using assms by (cases tx) (auto simp: tmp fix_ok_def)
  next
    case False
    then obtain a k b where "ty = RbNode RB_RED a k b" by (cases ty) auto
    then show ?thesis using assms by (auto simp: tmp fix_ok_def)
  qed
qed

lemma fix_ok_right:
  assumes "invc elm" "invh elm" "RB_COLOR elm = RB_BLACK" "invc tmp" "invh tmp" "RB_COLOR tmp = RB_BLACK"
    and "bheight tmp = Suc (bheight elm)"
  shows "\<exists>r. fix_right pc elm p tmp = Some r \<and> fix_ok pc (bheight elm) r"
proof -
  from assms obtain tx t ty where tmp: "tmp = RbNode RB_BLACK tx t ty" by (cases tmp) auto
  show ?thesis
  proof (cases "RB_COLOR tx = RB_BLACK")
    case True
    then show ?thesis using assms by (cases ty) (auto simp: tmp fix_ok_def)
  next
    case False
    then obtain a k b where "tx = RbNode RB_RED a k b" by (cases tx) auto
    then show ?thesis using assms by (auto simp: tmp fix_ok_def)
  qed
qed

lemma turn_ok:
  "path_ok (RbL pc p tmp # fs) (Suc n) \<Longrightarrow> \<exists>pc' tmp' fs'. turn_left pc tmp fs = Some (pc', tmp', fs') \<and>
     path_ok (RbL pc' p tmp' # fs') (Suc n) \<and> RB_COLOR tmp' = RB_BLACK"
  "path_ok (RbR pc tmp p # fs) (Suc n) \<Longrightarrow> \<exists>pc' tmp' fs'. turn_right pc tmp fs = Some (pc', tmp', fs') \<and>
     path_ok (RbR pc' tmp' p # fs') (Suc n) \<and> RB_COLOR tmp' = RB_BLACK"
  by (cases tmp; auto)+

lemma stop_ok:
  assumes "fix_ok pc n (Stop u)" "path_ok fs (Suc n + (if pc = RB_BLACK then 1 else 0))"
    and "pc = RB_RED \<Longrightarrow> top_color fs = RB_BLACK"
  shows "rb_ok (rb_paint RB_BLACK (rb_plug u fs))"
  using assms by (intro paint_ok; cases pc) (auto simp: fix_ok_def rb_ok_plug)

lemma remove_color_ok:
  assumes "path_ok fs (Suc (bheight elm))" and "invc (rb_paint RB_BLACK elm)" "invh elm"
  shows "\<exists>t. RB_REMOVE_COLOR elm fs = Some t \<and> rb_ok t"
  using assms
proof (induction elm fs rule: RB_REMOVE_COLOR.induct)
  case (1 elm)
  then show ?case by (auto simp: rb_ok_def)
next
  case (2 elm pc p tmp fs)
  show ?case
  proof (cases "RB_COLOR elm = RB_RED")
    case True
    have "rb_ok (rb_plug (rb_paint RB_BLACK elm) (RbL pc p tmp # fs))"
      using "2.prems" True by (simp add: rb_ok_plug bheight_paint del: rb_plug.simps)
    with True show ?thesis by simp
  next
    case False
    then have elm: "RB_COLOR elm = RB_BLACK" "rb_paint RB_BLACK elm = elm" by (cases elm; simp)+
    from turn_ok(1)[OF "2.prems"(1)] obtain pc' tmp' fs' where tn: "turn_left pc tmp fs = Some (pc', tmp', fs')"
      "path_ok (RbL pc' p tmp' # fs') (Suc (bheight elm))" "RB_COLOR tmp' = RB_BLACK" by blast
    with fix_ok_left[of elm tmp' pc' p] "2.prems" elm obtain r
      where r: "fix_left pc' elm p tmp' = Some r" "fix_ok pc' (bheight elm) r" by auto
    show ?thesis
    proof (cases r)
      case (Climb u)
      from r tn Climb have "\<exists>t. RB_REMOVE_COLOR u fs' = Some t \<and> rb_ok t"
        by (intro "2.IH"[OF False tn(1) refl refl r(1)]) (auto simp: fix_ok_def)
      with False tn r Climb show ?thesis by simp
    next
      case (Stop u)
      with r tn have "rb_ok (rb_paint RB_BLACK (rb_plug u fs'))" by (intro stop_ok[of pc' "bheight elm"]) auto
      with False tn r Stop show ?thesis by simp
    qed
  qed
next
  case (3 elm pc tmp p fs)
  show ?case
  proof (cases "RB_COLOR elm = RB_RED")
    case True
    have "rb_ok (rb_plug (rb_paint RB_BLACK elm) (RbR pc tmp p # fs))"
      using "3.prems" True by (simp add: rb_ok_plug bheight_paint del: rb_plug.simps)
    with True show ?thesis by simp
  next
    case False
    then have elm: "RB_COLOR elm = RB_BLACK" "rb_paint RB_BLACK elm = elm" by (cases elm; simp)+
    from turn_ok(2)[OF "3.prems"(1)] obtain pc' tmp' fs' where tn: "turn_right pc tmp fs = Some (pc', tmp', fs')"
      "path_ok (RbR pc' tmp' p # fs') (Suc (bheight elm))" "RB_COLOR tmp' = RB_BLACK" by blast
    with fix_ok_right[of elm tmp' pc' p] "3.prems" elm obtain r
      where r: "fix_right pc' elm p tmp' = Some r" "fix_ok pc' (bheight elm) r" by auto
    show ?thesis
    proof (cases r)
      case (Climb u)
      from r tn Climb have "\<exists>t. RB_REMOVE_COLOR u fs' = Some t \<and> rb_ok t"
        by (intro "3.IH"[OF False tn(1) refl refl r(1)]) (auto simp: fix_ok_def)
      with False tn r Climb show ?thesis by simp
    next
      case (Stop u)
      with r tn have "rb_ok (rb_paint RB_BLACK (rb_plug u fs'))" by (intro stop_ok[of pc' "bheight elm"]) auto
      with False tn r Stop show ?thesis by simp
    qed
  qed
qed

section \<open>Removal of an element\<close>

lemma rb_path_plug:
  "rb_path x t fs = Some (s, fs') \<Longrightarrow> rb_plug s fs' = rb_plug t fs \<and> (\<exists>c l r. s = RbNode c l x r)"
  by (induction t arbitrary: fs) (auto split: if_splits option.splits)

lemma rb_path_None_iff: "rb_path x t fs = None \<longleftrightarrow> x \<notin> set (rb_inorder t)"
proof (induction t arbitrary: fs)
  case (RbNode c l k r)
  from RbNode.IH(1)[of "RbL c k r # fs"] RbNode.IH(2)[of "RbR c l k # fs"] show ?case
    by (auto split: option.split)
qed simp

lemma leftmost_plug: "leftmost t fs = (s, fs') \<Longrightarrow> rb_plug s fs' = rb_plug t fs"
  by (induction t fs rule: leftmost.induct) auto

lemma leftmost_node:
  "t \<noteq> RbNil \<Longrightarrow> leftmost t fs = (s, fs') \<Longrightarrow> \<exists>c k r. s = RbNode c RbNil k r"
  by (induction t fs rule: leftmost.induct) auto

lemma rb_unlink_ok:
  assumes "rb_ok (rb_plug (RbNode c RbNil k child) fs) \<or> rb_ok (rb_plug (RbNode c child k RbNil) fs)"
  shows "\<exists>t. rb_unlink c child fs = Some t \<and> rb_ok t \<and> rb_inorder t = fr_before fs @ rb_inorder child @ fr_after fs"
proof (cases c)
  case RB_BLACK
  with assms have "path_ok fs (Suc (bheight child))" "invc child" "invh child" by (auto simp: rb_ok_plug)
  then obtain t where "RB_REMOVE_COLOR child fs = Some t" "rb_ok t" using remove_color_ok[of fs child] by auto
  then show ?thesis using RB_BLACK inorder_remove_color[of child fs t] by (simp add: rb_unlink_def)
next
  case RB_RED
  with assms have "rb_ok (rb_plug child fs)" by (auto simp: rb_ok_plug)
  with RB_RED show ?thesis by (simp add: rb_unlink_def)
qed

lemma plug_append: "rb_plug t (fs @ gs) = rb_plug (rb_plug t fs) gs"
  by (induction fs arbitrary: t) auto

lemma frames_append:
  "fr_before (fs @ gs) = fr_before gs @ fr_before fs" "fr_after (fs @ gs) = fr_after fs @ fr_after gs"
proof -
  show "fr_before (fs @ gs) = fr_before gs @ fr_before fs" by (induction fs rule: fr_before.induct) auto
  show "fr_after (fs @ gs) = fr_after fs @ fr_after gs" by (induction fs rule: fr_after.induct) auto
qed

text \<open>Colours and heights do not depend on the elements.\<close>

lemma rb_ok_key: "rb_ok (rb_plug (RbNode c l k r) fs) \<Longrightarrow> rb_ok (rb_plug (RbNode c l k' r) fs)"
  unfolding rb_ok_plug by auto

lemma leftmost_before: "leftmost t fs = (s, fs') \<Longrightarrow> fr_before fs' = fr_before fs"
  by (induction t fs rule: leftmost.induct) auto

lemma rb_remove_ok:
  assumes "rb_ok t" and "x \<in> set (rb_inorder t)"
  shows "\<exists>t' as bs. RB_REMOVE x t = Some t' \<and> rb_ok t' \<and> rb_inorder t = as @ x # bs \<and> rb_inorder t' = as @ bs"
proof -
  from assms(2) obtain s fs where path: "rb_path x t [] = Some (s, fs)"
    using rb_path_None_iff[of x t "[]"] by fastforce
  from rb_path_plug[OF this] obtain c l r where s: "s = RbNode c l x r" "rb_plug (RbNode c l x r) fs = t" by auto
  have t: "rb_inorder t = fr_before fs @ rb_inorder l @ x # rb_inorder r @ fr_after fs"
    using s(2)[symmetric] by simp
  show ?thesis
  proof (cases "l = RbNil \<or> r = RbNil")
    case True
    from assms(1) s(2) True obtain t' where "rb_unlink c (if l = RbNil then r else l) fs = Some t'" "rb_ok t'"
      "rb_inorder t' = fr_before fs @ rb_inorder (if l = RbNil then r else l) @ fr_after fs"
      using rb_unlink_ok[of c x "if l = RbNil then r else l" fs] by auto
    with True show ?thesis
      by (intro exI[of _ t'] exI[of _ "fr_before fs @ rb_inorder l"] exI[of _ "rb_inorder r @ fr_after fs"])
        (auto simp: RB_REMOVE_def path s(1) t)
  next
    case False
    obtain s' fs' where lm: "leftmost r [] = (s', fs')" by fastforce
    with leftmost_node[of r "[]" s' fs'] False obtain c' k' child where s': "s' = RbNode c' RbNil k' child" by auto
    have r: "r = rb_plug (RbNode c' RbNil k' child) fs'" using leftmost_plug[OF lm] s' by simp
    have "rb_ok (rb_plug (RbNode c' RbNil k' child) (fs' @ RbR c l k' # fs))"
      using assms(1) rb_ok_key[of c l x r fs k'] s(2) r by (simp add: plug_append)
    with rb_unlink_ok[of c' k' child "fs' @ RbR c l k' # fs"] obtain t' where
      "rb_unlink c' child (fs' @ RbR c l k' # fs) = Some t'" "rb_ok t'"
      "rb_inorder t' = fr_before fs @ rb_inorder l @ k' # fr_before fs' @ rb_inorder child @ fr_after fs' @ fr_after fs"
      by (auto simp: frames_append)
    moreover have "rb_inorder r = k' # fr_before fs' @ rb_inorder child @ fr_after fs'"
      using leftmost_before[OF lm] by (simp add: r)
    ultimately show ?thesis using False
      by (intro exI[of _ t'] exI[of _ "fr_before fs @ rb_inorder l"] exI[of _ "rb_inorder r @ fr_after fs"])
        (auto simp: RB_REMOVE_def path s(1) t lm s')
  qed
qed

section \<open>Insertion of an element\<close>

lemma insert_walk_plug: "insert_walk cmp x t fs = Inr fs' \<Longrightarrow> rb_plug RbNil fs' = rb_plug t fs"
  by (induction cmp x t fs rule: insert_walk.induct) (auto split: if_splits)

lemma insert_walk_find: "RB_FIND cmp x t = (case insert_walk cmp x t fs of Inl k \<Rightarrow> Some k | Inr fs' \<Rightarrow> None)"
  by (induction cmp x t fs rule: insert_walk.induct) auto

lemma rb_insert_found: "RB_FIND cmp x t = Some k \<Longrightarrow> RB_INSERT cmp x t = Some (Some k, t)"
  using insert_walk_find[of cmp x t "[]"] by (auto simp: RB_INSERT_def split: sum.splits)

lemma rb_insert_new:
  assumes "rb_ok t" and "RB_FIND cmp x t = None"
  obtains t' fs where "RB_INSERT cmp x t = Some (None, t')" "rb_ok t'" "insert_walk cmp x t [] = Inr fs"
    "rb_inorder t = fr_before fs @ fr_after fs" "rb_inorder t' = fr_before fs @ x # fr_after fs"
proof -
  from assms(2) obtain fs where fs: "insert_walk cmp x t [] = Inr fs"
    using insert_walk_find[of cmp x t "[]"] by (auto split: sum.splits)
  from insert_walk_plug[OF this] have t: "rb_plug RbNil fs = t" by simp
  with assms(1) have "path_ok fs 0" using rb_ok_plug[of RbNil fs] by simp
  then obtain t' where t': "RB_INSERT_COLOR (RbNode RB_RED RbNil x RbNil) fs = Some t'" "rb_ok t'"
    using insert_color_ok[of fs "RbNode RB_RED RbNil x RbNil"] by auto
  from that[of t' fs] t' fs inorder_insert_color[OF t'(1)] t[symmetric] show thesis
    by (simp add: RB_INSERT_def)
qed

section \<open>Depth\<close>

fun rb_depth :: "'a rb \<Rightarrow> nat" where
  "rb_depth RbNil = 0"
| "rb_depth (RbNode c l k r) = Suc (max (rb_depth l) (rb_depth r))"

lemma depth_bheight: "invc t \<Longrightarrow> invh t \<Longrightarrow> rb_depth t \<le> 2 * bheight t + (if RB_COLOR t = RB_RED then 1 else 0)"
  by (induction t) (auto split: if_splits)

lemma bheight_size: "invh t \<Longrightarrow> 2 ^ bheight t \<le> Suc (length (rb_inorder t))"
  by (induction t) auto

lemma rb_depth_bound: "rb_ok t \<Longrightarrow> 2 ^ rb_depth t \<le> (length (rb_inorder t) + 1)\<^sup>2"
proof -
  assume t: "rb_ok t"
  then have "rb_depth t \<le> 2 * bheight t" using depth_bheight[of t] by (auto simp: rb_ok_def)
  then have "(2 :: nat) ^ rb_depth t \<le> 2 ^ (2 * bheight t)" by (intro power_increasing) auto
  also have "\<dots> = (2 ^ bheight t)\<^sup>2" by (simp add: power_mult mult.commute flip: power_mult)
  also have "\<dots> \<le> (length (rb_inorder t) + 1)\<^sup>2"
    using bheight_size[of t] t by (intro power_mono) (auto simp: rb_ok_def)
  finally show ?thesis .
qed

section \<open>Walking in order\<close>

definition list_head :: "'a list \<Rightarrow> 'a option" where
  "list_head xs = (case xs of [] \<Rightarrow> None | x # _ \<Rightarrow> Some x)"

lemma list_head_simps [simp]: "list_head [] = None" "list_head (x # xs) = Some x"
  by (simp_all add: list_head_def)

lemma inorder_Nil_iff: "rb_inorder t = [] \<longleftrightarrow> t = RbNil"
  by (cases t) auto

lemma list_head_append: "list_head (xs @ ys) = (if xs = [] then list_head ys else list_head xs)"
  by (cases xs) auto

lemma minmax_first: "minmax_loop (- 1) t parent = (if t = RbNil then parent else list_head (rb_inorder t))"
  by (induction t arbitrary: parent) (auto simp: list_head_append inorder_Nil_iff)

lemma next_up_first: "next_up fs = list_head (fr_after fs)"
  by (induction fs rule: next_up.induct) auto

text \<open>\<open>RB_NEXT\<close> of an element is the one behind it.\<close>

lemma rb_next_inorder:
  assumes "distinct (rb_inorder t)" and "rb_inorder t = as @ x # bs"
  shows "RB_NEXT x t = Some (list_head bs)"
proof -
  from assms(2) have "rb_path x t [] \<noteq> None" by (simp add: rb_path_None_iff del: not_None_eq)
  then obtain s fs where p: "rb_path x t [] = Some (s, fs)" by auto
  from rb_path_plug[OF p] obtain c l r where s: "s = RbNode c l x r" "rb_plug (RbNode c l x r) fs = t" by auto
  then have "rb_inorder t = (fr_before fs @ rb_inorder l) @ x # (rb_inorder r @ fr_after fs)" using inorder_plug[of s fs] by simp
  with assms have "bs = rb_inorder r @ fr_after fs"
    using append_Cons_eq_iff[of x as bs "fr_before fs @ rb_inorder l" "rb_inorder r @ fr_after fs"] by auto
  with p s show ?thesis
    by (simp add: RB_NEXT_def minmax_first next_up_first list_head_append inorder_Nil_iff)
qed

lemma rb_min_first: "RB_MINMAX t (- 1) = list_head (rb_inorder t)"
  by (simp add: RB_MINMAX_def minmax_first)

section \<open>Search order\<close>

text \<open>What the tree asks of \<open>cmp\<close> on the elements it holds: a total preorder in the manner of
  \<open>memcmp\<close>.\<close>

context cmp_order
begin

text \<open>\<open>RB_FIND\<close> finds the one element that compares equal.\<close>

lemma find_Some:
  assumes "cmp_sorted (rb_inorder t)" "set (rb_inorder t) \<subseteq> D" "x \<in> D"
  shows "RB_FIND cmp x t = Some k \<longleftrightarrow> k \<in> set (rb_inorder t) \<and> cmp x k = 0"
  using assms
proof (induction t)
  case (RbNode c l k' r)
  have l: "cmp a k' < 0" "a \<in> D" if "a \<in> set (rb_inorder l)" for a
    using that RbNode.prems by (auto simp: sorted_wrt_append)
  have r: "cmp k' a < 0" "a \<in> D" if "a \<in> set (rb_inorder r)" for a
    using that RbNode.prems by (auto simp: sorted_wrt_append)
  have k': "k' \<in> D" using RbNode.prems by simp
  have x: "x \<in> D" by fact
  consider "cmp x k' < 0" | "cmp x k' > 0" | "cmp x k' = 0" by linarith
  then show ?case
  proof cases
    case 1
    then have "cmp x a \<noteq> 0" if "a \<in> set (rb_inorder r)" for a
      using less_trans[of x k' a] r[OF that] k' x by force
    with 1 RbNode show ?thesis by (auto simp: sorted_wrt_append)
  next
    case 2
    then have "cmp x a \<noteq> 0" if "a \<in> set (rb_inorder l)" for a
      using le_less_trans[of x a k'] l[OF that] k' x by force
    with 2 RbNode show ?thesis by (auto simp: sorted_wrt_append)
  next
    case 3
    then have "cmp x a \<noteq> 0" if "a \<in> set (rb_inorder l)" for a
      using le_less_trans[of x a k'] l[OF that] k' x by force
    moreover have "cmp x a \<noteq> 0" if "a \<in> set (rb_inorder r)" for a
      using le_less_trans[of x k' a] r[OF that] k' x 3 by force
    ultimately show ?thesis using 3 by auto
  qed
qed simp

lemma walk_sorted:
  assumes "cmp_sorted (rb_inorder (rb_plug t fs))" "set (rb_inorder (rb_plug t fs)) \<subseteq> D" "x \<in> D"
    and "\<forall>a \<in> set (fr_before fs). cmp a x < 0" "\<forall>b \<in> set (fr_after fs). cmp x b < 0"
    and "insert_walk cmp x t fs = Inr fs'"
  shows "(\<forall>a \<in> set (fr_before fs'). cmp a x < 0) \<and> (\<forall>b \<in> set (fr_after fs'). cmp x b < 0)"
  using assms
proof (induction t arbitrary: fs)
  case (RbNode c l k r)
  have D: "k \<in> D" "set (rb_inorder l) \<subseteq> D" "set (rb_inorder r) \<subseteq> D" "x \<in> D" using RbNode.prems by auto
  have l: "cmp a k < 0" if "a \<in> set (rb_inorder l)" for a
    using that RbNode.prems(1) by (auto simp: sorted_wrt_append)
  have r: "cmp k a < 0" if "a \<in> set (rb_inorder r)" for a
    using that RbNode.prems(1) by (auto simp: sorted_wrt_append)
  show ?case
  proof (cases "cmp x k < 0")
    case True
    have "\<forall>b \<in> set (rb_inorder r). cmp x b < 0" using less_trans[of x k] r D True by (meson order_less_imp_le subsetD)
    with True RbNode.prems show ?thesis by (intro RbNode.IH(1)[of "RbL c k r # fs"]) auto
  next
    case False
    with RbNode.prems(6) have gt: "0 < cmp x k" by (auto split: if_splits)
    then have kx: "cmp k x < 0" using cmp_swap[of x k] D by simp
    then have "\<forall>a \<in> set (rb_inorder l). cmp a x < 0" using less_trans[of _ k x] l D by (meson order_less_imp_le subsetD)
    with False gt kx RbNode.prems show ?thesis by (intro RbNode.IH(2)[of "RbR c l k # fs"]) auto
  qed
qed auto

text \<open>\<open>RB_INSERT\<close> of a new key succeeds, adds the element and keeps the tree sorted and balanced.\<close>

lemma insert_new:
  assumes "rb_ok t" "cmp_sorted (rb_inorder t)" "set (rb_inorder t) \<subseteq> D" "x \<in> D" "RB_FIND cmp x t = None"
  shows "\<exists>t' as bs. RB_INSERT cmp x t = Some (None, t') \<and> rb_ok t' \<and> cmp_sorted (rb_inorder t') \<and>
    rb_inorder t = as @ bs \<and> rb_inorder t' = as @ x # bs"
proof -
  obtain t' fs where t': "RB_INSERT cmp x t = Some (None, t')" "rb_ok t'" "insert_walk cmp x t [] = Inr fs"
    "rb_inorder t = fr_before fs @ fr_after fs" "rb_inorder t' = fr_before fs @ x # fr_after fs"
    using rb_insert_new[OF assms(1,5)] .
  have "(\<forall>a \<in> set (fr_before fs). cmp a x < 0) \<and> (\<forall>b \<in> set (fr_after fs). cmp x b < 0)"
    using walk_sorted[of t "[]" x fs] assms t'(3) by simp
  with assms(2) t' show ?thesis by (auto simp: sorted_wrt_append)
qed

text \<open>\<open>RB_REMOVE\<close> takes out exactly the element.\<close>

lemma remove_elem:
  assumes "rb_ok t" "cmp_sorted (rb_inorder t)" "x \<in> set (rb_inorder t)"
  shows "\<exists>t' as bs. RB_REMOVE x t = Some t' \<and> rb_ok t' \<and> cmp_sorted (rb_inorder t') \<and>
    rb_inorder t = as @ x # bs \<and> rb_inorder t' = as @ bs"
  using rb_remove_ok[OF assms(1,3)] assms(2) by (force simp: sorted_wrt_append)

end

section \<open>Properties\<close>

text \<open>C3. \<open>RB_INSERT\<close> on a balanced tree never follows a \<open>NULL\<close> pointer and leaves a balanced tree: it either
  returns the element that was found and changes nothing, or adds the new element at one place.\<close>

theorem rb_insert_balanced:
  assumes "rb_ok t"
  shows "RB_INSERT cmp x t = Some (RB_FIND cmp x t, t) \<and> RB_FIND cmp x t \<noteq> None \<or>
    (\<exists>t' as bs. RB_INSERT cmp x t = Some (None, t') \<and> RB_FIND cmp x t = None \<and> rb_ok t' \<and>
       rb_inorder t = as @ bs \<and> rb_inorder t' = as @ x # bs)"
proof (cases "RB_FIND cmp x t")
  case None
  from rb_insert_new[OF assms None] None show ?thesis by metis
next
  case (Some k)
  with rb_insert_found[OF Some] show ?thesis by simp
qed

definition sample_tree :: "nat rb" where
  "sample_tree = RbNode RB_BLACK (RbNode RB_BLACK RbNil 1 RbNil) 2 (RbNode RB_BLACK RbNil 3 (RbNode RB_RED RbNil 4 RbNil))"

lemma sample_tree_ok: "rb_ok sample_tree"
  by (simp add: sample_tree_def rb_ok_def)

theorem rb_insert_balanced_witness:
  "\<exists>t' as bs. RB_INSERT (\<lambda>x y. int x - int y) 5 sample_tree = Some (None, t') \<and> rb_ok t' \<and>
     [1, 2, 3, 4] = as @ bs \<and> rb_inorder t' = as @ 5 # bs"
proof -
  have "RB_FIND (\<lambda>x y. int x - int y) 5 sample_tree = None" by (simp add: sample_tree_def)
  moreover have "rb_inorder sample_tree = [1, 2, 3, 4]" by (simp add: sample_tree_def)
  ultimately show ?thesis
    using rb_insert_balanced[OF sample_tree_ok, of "\<lambda>x y. int x - int y" 5] by simp
qed

text \<open>C2. \<open>RB_REMOVE\<close> of an element of a balanced tree never follows a \<open>NULL\<close> pointer, takes out exactly that
  element and leaves a balanced tree.\<close>

theorem rb_remove_balanced:
  assumes "rb_ok t" and "x \<in> set (rb_inorder t)"
  shows "\<exists>t' as bs. RB_REMOVE x t = Some t' \<and> rb_ok t' \<and> rb_inorder t = as @ x # bs \<and> rb_inorder t' = as @ bs"
  by (rule rb_remove_ok[OF assms])

theorem rb_remove_balanced_witness:
  "\<exists>t' as bs. RB_REMOVE 2 sample_tree = Some t' \<and> rb_ok t' \<and> rb_inorder sample_tree = as @ 2 # bs \<and>
     rb_inorder t' = as @ bs"
  by (rule rb_remove_balanced[OF sample_tree_ok]) (simp add: sample_tree_def)

text \<open>A search in a balanced tree of \<open>n\<close> elements takes at most \<open>2 log (n + 1)\<close> comparisons.\<close>

lemma rb_search_depth:
  assumes "rb_ok t"
  shows "2 ^ rb_depth t \<le> (length (rb_inorder t) + 1)\<^sup>2"
  by (rule rb_depth_bound[OF assms])

lemma rb_search_depth_witness: "2 ^ rb_depth sample_tree \<le> (length (rb_inorder sample_tree) + 1)\<^sup>2"
  by (rule rb_search_depth[OF sample_tree_ok])

end
