(* ===== verification/Peak_Prealloc.thy ===== *)
theory Peak_Prealloc
  imports Peak_Prelude
begin

text \<open>
  The chunk allocator of \<open>src/include/peak_prealloc.h\<close>. A pool is the singly linked list of its free
  chunks (their addresses, first to last), the usage counter, the chunk size and the bounds of its
  memory. The links live inside the free chunks; clients never read a free chunk, so the list is kept
  apart from the contents. \<open>malign()\<close>, which provides the memory, is a parameter of \<open>prealloc_init\<close>:
  \<open>None\<close> is its failure, and a block it returns fits into the address space, so the address
  arithmetic does not wrap. The spin lock is held or not; taking a held lock never returns in a single
  thread.

  The locale \<open>chunk_pool\<close> is the contract clients rely on.
\<close>

section \<open>State and operations\<close>

record prealloc_t =
  free :: "nat list"
  used :: u64
  chunk_size :: u64
  mem_start :: nat
  mem_stop :: nat
  locked :: bool

definition prealloc_zero :: prealloc_t where
  "prealloc_zero = \<lparr>free = [], used = 0, chunk_size = 0, mem_start = 0, mem_stop = 0, locked = False\<rparr>"

definition prealloc_valid :: "prealloc_t \<Rightarrow> nat \<Rightarrow> bool" where
  "prealloc_valid self p \<longleftrightarrow> mem_start self \<le> p \<and> p < mem_stop self"

definition prealloc_empty :: "prealloc_t \<Rightarrow> bool" where
  "prealloc_empty self \<longleftrightarrow> free self = []"

definition prealloc_get :: "prealloc_t \<Rightarrow> nat option \<times> prealloc_t" where
  "prealloc_get self =
     (case free self of
        [] \<Rightarrow> (None, self)
      | e # rest \<Rightarrow> (Some e, self\<lparr>free := rest, used := used self + 1\<rparr>))"

definition prealloc_put :: "prealloc_t \<Rightarrow> nat option \<Rightarrow> prealloc_t" where
  "prealloc_put self p =
     (case p of
        None \<Rightarrow> self
      | Some e \<Rightarrow> self\<lparr>free := e # free self, used := used self - 1\<rparr>)"

definition spin_lock :: "prealloc_t \<Rightarrow> prealloc_t outcome" where
  "spin_lock self = (if locked self then Hang else Return (self\<lparr>locked := True\<rparr>))"

definition spin_unlock :: "prealloc_t \<Rightarrow> prealloc_t" where
  "spin_unlock self = self\<lparr>locked := False\<rparr>"

definition prealloc_gets :: "prealloc_t \<Rightarrow> (nat option \<times> prealloc_t) outcome" where
  "prealloc_gets self =
     (case spin_lock self of
        Return self \<Rightarrow> (let (ret, self) = prealloc_get self in Return (ret, spin_unlock self))
      | Panic \<Rightarrow> Panic | Hang \<Rightarrow> Hang)"

definition prealloc_puts :: "prealloc_t \<Rightarrow> nat option \<Rightarrow> prealloc_t outcome" where
  "prealloc_puts self p =
     (case spin_lock self of
        Return self \<Rightarrow> Return (spin_unlock (prealloc_put self p))
      | Panic \<Rightarrow> Panic | Hang \<Rightarrow> Hang)"

text \<open>The loop of \<open>prealloc_init\<close>: each chunk is linked behind the previous one.\<close>

fun link_loop :: "nat \<Rightarrow> nat \<Rightarrow> nat \<Rightarrow> nat list" where
  "link_loop 0 e sz = []"
| "link_loop (Suc i) e sz = (let f = e + sz in f # link_loop i f sz)"

definition prealloc_init :: "u64 \<Rightarrow> u64 \<Rightarrow> nat option \<Rightarrow> bool \<times> prealloc_t" where
  "prealloc_init count sz malign =
     (if count = 0 \<or> sz = 0 then (False, prealloc_zero)
      else if sz AND 0x7 \<noteq> 0 then (False, prealloc_zero)
      else case malign of
        None \<Rightarrow> (False, prealloc_zero)
      | Some start \<Rightarrow>
          (True, prealloc_zero\<lparr>mem_start := start, chunk_size := sz, used := 0, locked := False,
             mem_stop := start + unat count * unat sz,
             free := start # link_loop (unat count - 1) start (unat sz)\<rparr>))"

text \<open>\<open>prealloc_exit\<close>: chunks still in use are a panic.\<close>

definition prealloc_exit :: "prealloc_t \<Rightarrow> unit outcome" where
  "prealloc_exit self = (if used self \<noteq> 0 then Panic else Return ())"

section \<open>The contract\<close>

text \<open>\<open>inv C A s\<close>: the pool \<open>s\<close> has the chunks \<open>C\<close>, of which \<open>A\<close> are handed out.\<close>

locale chunk_pool =
  fixes inv :: "nat set \<Rightarrow> nat set \<Rightarrow> 's \<Rightarrow> bool"
    and empty :: "'s \<Rightarrow> bool"
    and get :: "'s \<Rightarrow> nat option \<times> 's"
    and put :: "'s \<Rightarrow> nat option \<Rightarrow> 's"
    and exit :: "'s \<Rightarrow> unit outcome"
  assumes inv_subset: "inv C A s \<Longrightarrow> A \<subseteq> C \<and> finite C"
    and empty_iff: "inv C A s \<Longrightarrow> empty s \<longleftrightarrow> A = C"
    and get_chunk: "inv C A s \<Longrightarrow> A \<noteq> C \<Longrightarrow> \<exists>a s'. get s = (Some a, s') \<and> a \<in> C - A \<and> inv C (insert a A) s'"
    and get_empty: "inv C C s \<Longrightarrow> get s = (None, s)"
    and put_chunk: "inv C A s \<Longrightarrow> a \<in> A \<Longrightarrow> inv C (A - {a}) (put s (Some a))"
    and exit_ok: "inv C {} s \<Longrightarrow> exit s = Return ()"
begin

text \<open>A chunk given back can be had again, whatever else is in use.\<close>

lemma put_get:
  assumes "inv C A s" and "a \<in> A"
  shows "\<exists>b s'. get (put s (Some a)) = (Some b, s') \<and> b \<in> insert a (C - A) \<and> inv C (insert b (A - {a})) s'"
proof -
  have "A - {a} \<noteq> C" using assms inv_subset[OF assms(1)] by blast
  from get_chunk[OF put_chunk[OF assms] this] show ?thesis by blast
qed

text \<open>Taking chunks one after the other yields different chunks until all are handed out.\<close>

fun take_n :: "nat \<Rightarrow> 's \<Rightarrow> nat list \<times> 's" where
  "take_n 0 s = ([], s)"
| "take_n (Suc n) s = (case get s of
     (None, s') \<Rightarrow> ([], s')
   | (Some a, s') \<Rightarrow> (let (as, s'') = take_n n s' in (a # as, s'')))"

lemma take_n_distinct:
  assumes "inv C A s" and "n \<le> card (C - A)"
  shows "\<exists>as s'. take_n n s = (as, s') \<and> length as = n \<and> distinct as \<and> set as \<subseteq> C - A \<and> inv C (A \<union> set as) s'"
  using assms
proof (induction n arbitrary: A s)
  case (Suc n)
  from Suc.prems have "A \<noteq> C" by auto
  from get_chunk[OF Suc.prems(1) this] obtain a s1
    where a: "get s = (Some a, s1)" "a \<in> C - A" "inv C (insert a A) s1" by blast
  have "C - insert a A = (C - A) - {a}" by blast
  with Suc.prems(2) a(2) inv_subset[OF Suc.prems(1)] have "n \<le> card (C - insert a A)"
    by (simp add: card_Diff_singleton_if)
  from Suc.IH[OF a(3) this] obtain as s2 where "take_n n s1 = (as, s2)" "length as = n" "distinct as"
    "set as \<subseteq> C - insert a A" "inv C (insert a A \<union> set as) s2" by blast
  with a show ?case by auto
qed auto

end

section \<open>The pool meets the contract\<close>

definition prealloc_inv :: "nat set \<Rightarrow> nat set \<Rightarrow> prealloc_t \<Rightarrow> bool" where
  "prealloc_inv C A p \<longleftrightarrow> finite C \<and> A \<subseteq> C \<and> distinct (free p) \<and> set (free p) = C - A \<and> used p = of_nat (card A)"

interpretation prealloc: chunk_pool prealloc_inv prealloc_empty prealloc_get prealloc_put prealloc_exit
proof
  fix C A s
  assume inv: "prealloc_inv C A s"
  then show "A \<subseteq> C \<and> finite C" by (simp add: prealloc_inv_def)
  from inv show "prealloc_empty s \<longleftrightarrow> A = C" by (auto simp: prealloc_inv_def prealloc_empty_def)
  show "\<exists>a s'. prealloc_get s = (Some a, s') \<and> a \<in> C - A \<and> prealloc_inv C (insert a A) s'" if "A \<noteq> C"
  proof -
    from inv that obtain e rest where f: "free s = e # rest"
      by (cases "free s") (auto simp: prealloc_inv_def)
    with inv have "finite A" "e \<notin> A" "e \<in> C" by (auto simp: prealloc_inv_def intro: finite_subset)
    with inv f show ?thesis by (auto simp: prealloc_inv_def prealloc_get_def)
  qed
next
  fix C A s a
  assume inv: "prealloc_inv C A s" and a: "a \<in> A"
  then have "finite A" by (auto simp: prealloc_inv_def intro: finite_subset)
  with a have "card A = Suc (card (A - {a}))" by (metis card.remove)
  then have "of_nat (card A) - 1 = (of_nat (card (A - {a})) :: u64)" by (metis add_diff_cancel_left' of_nat_Suc)
  with inv a show "prealloc_inv C (A - {a}) (prealloc_put s (Some a))"
    by (auto simp: prealloc_inv_def prealloc_put_def)
qed (auto simp: prealloc_inv_def prealloc_get_def prealloc_exit_def)

lemma link_loop_eq: "link_loop n e sz = map (\<lambda>i. e + i * sz) [1..<Suc n]"
proof (induction n arbitrary: e)
  case (Suc n)
  have "[1..<Suc (Suc n)] = 1 # map Suc [1..<Suc n]" by (simp add: map_Suc_upt upt_conv_Cons del: upt_Suc)
  with Suc[of "e + sz"] show ?case by (simp add: Let_def algebra_simps del: upt_Suc)
qed simp

definition pool_chunks :: "nat \<Rightarrow> u64 \<Rightarrow> u64 \<Rightarrow> nat set" where
  "pool_chunks start count sz = (\<lambda>i. start + i * unat sz) ` {..<unat count}"

lemma prealloc_init_inv:
  assumes "prealloc_init count sz (Some start) = (True, p)"
  shows "prealloc_inv (pool_chunks start count sz) {} p" "card (pool_chunks start count sz) = unat count"
proof -
  have nz: "0 < unat count" "0 < unat sz"
    using assms by (auto simp: prealloc_init_def unat_gt_0 split: if_splits)
  have inj: "inj_on (\<lambda>i. start + i * unat sz) A" for A using nz by (auto simp: inj_on_def)
  have "[0..<unat count] = 0 # [1..<unat count]" "Suc (unat count - 1) = unat count"
    using nz by (simp_all add: upt_conv_Cons)
  then have "free p = map (\<lambda>i. start + i * unat sz) [0..<unat count]" "used p = 0"
    using assms by (auto simp: prealloc_init_def link_loop_eq simp del: upt_Suc split: if_splits)
  then show "prealloc_inv (pool_chunks start count sz) {} p"
    using inj by (auto simp: prealloc_inv_def pool_chunks_def distinct_map atLeast0LessThan)
  show "card (pool_chunks start count sz) = unat count"
    using inj by (simp add: pool_chunks_def card_image)
qed

section \<open>Properties\<close>

fun prealloc_take :: "nat \<Rightarrow> prealloc_t \<Rightarrow> nat list \<times> prealloc_t" where
  "prealloc_take 0 s = ([], s)"
| "prealloc_take (Suc n) s = (case prealloc_get s of
     (None, s') \<Rightarrow> ([], s')
   | (Some a, s') \<Rightarrow> (let (as, s'') = prealloc_take n s' in (a # as, s'')))"

lemma prealloc_take_eq: "prealloc_take n s = prealloc.take_n n s"
  by (induction n arbitrary: s) (auto split: prod.splits option.splits)

text \<open>A pool of \<open>count\<close> chunks hands out \<open>count\<close> different chunks of its memory, and nothing more.\<close>

lemma prealloc_hands_out_all:
  assumes "prealloc_init count sz (Some start) = (True, p)"
  shows "\<exists>as p'. prealloc_take (unat count) p = (as, p') \<and> distinct as \<and>
    set as = (\<lambda>i. start + i * unat sz) ` {..<unat count} \<and> prealloc_get p' = (None, p') \<and> used p' = count"
proof -
  let ?C = "pool_chunks start count sz"
  note init = prealloc_init_inv[OF assms]
  have "unat count \<le> card (?C - {})" using init(2) by simp
  from prealloc.take_n_distinct[OF init(1) this] obtain as p' where as: "prealloc_take (unat count) p = (as, p')"
    "length as = unat count" "distinct as" "set as \<subseteq> ?C" "prealloc_inv ?C (set as) p'"
    by (auto simp: prealloc_take_eq)
  moreover have "set as = ?C"
    using as init(2) by (intro card_subset_eq) (auto simp: prealloc_inv_def distinct_card)
  ultimately show ?thesis
    using prealloc.get_empty[of ?C p'] init(2) by (auto simp: pool_chunks_def prealloc_inv_def)
qed

theorem prealloc_hands_out_all_witness:
  "\<exists>p as p'. prealloc_init 3 16 (Some 4096) = (True, p) \<and> prealloc_take 3 p = (as, p') \<and> distinct as \<and>
    set as = (\<lambda>i. 4096 + i * 16) ` {..<3} \<and> prealloc_get p' = (None, p')"
proof -
  define p where "p = snd (prealloc_init 3 16 (Some 4096))"
  have "prealloc_init 3 16 (Some 4096) = (True, p)" by (simp add: p_def prealloc_init_def)
  from prealloc_hands_out_all[OF this] this show ?thesis by auto
qed

end
