(* ===== verification/Peak_Track.thy ===== *)
theory Peak_Track
  imports Peak_Packet Peak_Tree Peak_Prealloc
begin

text \<open>
  The flow tracker, \<open>src/lib/peak_track.c\<close> and \<open>src/lib/peak_track.h\<close>. Flows are chunks of a
  preallocated pool; an explicit store maps an address to the \<open>struct peak_track\<close> there (the
  caller's key object too). The tree \<open>flows\<close> and the time-out queue \<open>tos\<close> hold addresses, so a flow
  is shared between them as in C. \<open>None\<close> is an access through \<open>NULL\<close>, \<open>Panic\<close> a call of \<open>panic()\<close>.
  A \<open>TAILQ\<close> is the list of its elements, first to last.
\<close>

section \<open>Flows and keys\<close>

record peak_track =
  addr :: "netaddr \<times> netaddr"
  port :: "u16 \<times> u16"
  ttype :: u8
  li :: "u16 \<times> u16"
  fid :: u64

definition track_zero :: peak_track where
  "track_zero = \<lparr>addr = (replicate 16 0, replicate 16 0), port = (0, 0), ttype = 0, li = (0, 0), fid = 0\<rparr>"

text \<open>The bytes of \<open>addr\<close>, \<open>port\<close> and \<open>type\<close> as they lie in the packed struct: the key of a flow.\<close>

definition port_bytes :: "u16 \<Rightarrow> u8 list" where
  "port_bytes p = [ucast p, ucast (drop_bit 8 p)]"

definition track_bytes :: "peak_track \<Rightarrow> u8 list" where
  "track_bytes t = fst (addr t) @ snd (addr t) @ port_bytes (fst (port t)) @ port_bytes (snd (port t)) @ [ttype t]"

definition TRACK_SIZE :: nat where
  "TRACK_SIZE = 2 * 16 + 2 * 2 + 1"

definition TRACK_CMP :: "(nat \<Rightarrow> peak_track) \<Rightarrow> nat \<Rightarrow> nat \<Rightarrow> int" where
  "TRACK_CMP store x y = memcmp (track_bytes (store x)) (track_bytes (store y)) TRACK_SIZE"

text \<open>\<open>TRACK_KEY\<close>: the lower address comes first, so both directions of a flow have one key.\<close>

definition TRACK_KEY :: "peak_track \<Rightarrow> peak_packet \<Rightarrow> peak_track" where
  "TRACK_KEY flow packet =
     (let dir = \<not> (netcmp (net_saddr packet) (net_daddr packet) < 0) in
      if dir then
        flow\<lparr>port := (flow_dport packet, flow_sport packet),
             addr := (net_daddr packet, net_saddr packet), ttype := net_type packet\<rparr>
      else
        flow\<lparr>port := (flow_sport packet, flow_dport packet),
             addr := (net_saddr packet, net_daddr packet), ttype := net_type packet\<rparr>)"

section \<open>The tracker\<close>

record peak_tracks =
  flows :: "nat rb"
  tos :: "nat list"
  no_timeout :: u32
  tmem :: prealloc_t

text \<open>The tracker together with the memory and the global state it works on.\<close>

record track_sys =
  tracks :: peak_tracks
  store :: "nat \<Rightarrow> peak_track"
  next_flow_id :: u64
  taudit :: peak_audit

text \<open>A full pool without time-outs fails; otherwise the flow at the head of the queue is recycled.\<close>

definition track_recycle :: "track_sys \<Rightarrow> (bool \<times> track_sys) option" where
  "track_recycle s =
     (if \<not> prealloc_empty (tmem (tracks s)) then Some (True, s)
      else if no_timeout (tracks s) \<noteq> 0 then
        Some (False, s\<lparr>taudit := peak_audit_inc AUDIT_TRACK_FAILED (taudit s)\<rparr>)
      else case tos (tracks s) of
        [] \<Rightarrow> None
      | flow # rest \<Rightarrow> do {
          tree \<leftarrow> RB_REMOVE flow (flows (tracks s));
          Some (True, s\<lparr>
            tracks := (tracks s)\<lparr>tos := rest, flows := tree, tmem := prealloc_put (tmem (tracks s)) (Some flow)\<rparr>,
            taudit := peak_audit_inc AUDIT_TRACK_RECYCLED (taudit s)\<rparr>) })"

text \<open>A chunk is taken, cleared, gets the key of \<open>ref\<close>, and is put into tree and queue.\<close>

definition track_new :: "track_sys \<Rightarrow> nat \<Rightarrow> (nat option \<times> track_sys) outcome option" where
  "track_new s ref =
     (case prealloc_get (tmem (tracks s)) of
        (None, mem) \<Rightarrow> Some Panic
      | (Some flow, mem) \<Rightarrow>
          let cleared = (store s)(flow := track_zero);
              st = cleared(flow := (cleared flow)\<lparr>addr := addr (cleared ref), port := port (cleared ref),
                     ttype := ttype (cleared ref)\<rparr>)
          in do {
            (found, tree) \<leftarrow> RB_INSERT (TRACK_CMP st) flow (flows (tracks s));
            if found \<noteq> None then Some Panic
            else Some (Return (Some flow, s\<lparr>
              store := st(flow := (st flow)\<lparr>fid := next_flow_id s\<rparr>),
              next_flow_id := next_flow_id s + 1,
              tracks := (tracks s)\<lparr>tmem := mem, flows := tree, tos := tos (tracks s) @ [flow]\<rparr>,
              taudit := peak_audit_inc AUDIT_TRACK_ADDED (taudit s)\<rparr>)) })"

definition peak_track_acquire :: "track_sys \<Rightarrow> nat option \<Rightarrow> (nat option \<times> track_sys) outcome option" where
  "peak_track_acquire s ref =
     (case ref of
        None \<Rightarrow> Some (Return (None, s))
      | Some r \<Rightarrow>
          (case RB_FIND (TRACK_CMP (store s)) r (flows (tracks s)) of
             Some flow \<Rightarrow> Some (Return (Some flow,
               s\<lparr>tracks := (tracks s)\<lparr>tos := remove1 flow (tos (tracks s)) @ [flow]\<rparr>\<rparr>))
           | None \<Rightarrow> do {
               (go_on, s) \<leftarrow> track_recycle s;
               if go_on then track_new s r else Some (Return (None, s)) }))"

text \<open>\<open>calloc\<close> and \<open>malign\<close> may fail; \<open>sizeof(struct peak_track)\<close> is 104 on the target.\<close>

abbreviation (input) SIZEOF_PEAK_TRACK :: u64 where "SIZEOF_PEAK_TRACK \<equiv> 104"

definition peak_track_init :: "u64 \<Rightarrow> u32 \<Rightarrow> bool \<Rightarrow> nat option \<Rightarrow> peak_tracks option" where
  "peak_track_init max_flows no_to calloc malign =
     (if \<not> calloc then None
      else case prealloc_init max_flows SIZEOF_PEAK_TRACK malign of
        (False, mem) \<Rightarrow> None
      | (True, mem) \<Rightarrow> Some \<lparr>flows = RbNil, tos = [], no_timeout = no_to, tmem = mem\<rparr>)"

text \<open>\<open>peak_track_exit\<close> takes out the root until the tree is empty; the loop runs on fuel.\<close>

fun exit_loop :: "nat \<Rightarrow> nat rb \<Rightarrow> prealloc_t \<Rightarrow> prealloc_t outcome option" where
  "exit_loop fuel RbNil mem = Some (Return mem)"
| "exit_loop 0 (RbNode c l k r) mem = Some Hang"
| "exit_loop (Suc fuel) (RbNode c l flow r) mem = do {
     tree \<leftarrow> RB_REMOVE flow (RbNode c l flow r);
     exit_loop fuel tree (prealloc_put mem (Some flow)) }"

definition peak_track_exit :: "peak_tracks option \<Rightarrow> unit outcome option" where
  "peak_track_exit self =
     (case self of
        None \<Rightarrow> Some (Return ())
      | Some self \<Rightarrow> do {
          r \<leftarrow> exit_loop (length (rb_inorder (flows self))) (flows self) (tmem self);
          Some (case r of Return mem \<Rightarrow> prealloc_exit mem | Panic \<Rightarrow> Panic | Hang \<Rightarrow> Hang) })"

section \<open>Keys\<close>

definition track_wf :: "peak_track \<Rightarrow> bool" where
  "track_wf t \<longleftrightarrow> length (fst (addr t)) = 16 \<and> length (snd (addr t)) = 16"

definition track_key :: "peak_track \<Rightarrow> (netaddr \<times> netaddr) \<times> (u16 \<times> u16) \<times> u8" where
  "track_key t = (addr t, port t, ttype t)"

lemma track_bytes_length: "track_wf t \<Longrightarrow> length (track_bytes t) = TRACK_SIZE"
  by (simp add: track_bytes_def track_wf_def port_bytes_def TRACK_SIZE_def)

lemma port_bytes_inj: "port_bytes p = port_bytes q \<longleftrightarrow> p = q"
proof -
  have "push_bit 8 (ucast (port_bytes p ! 1)) OR ucast (port_bytes p ! 0) = p" for p
    by (simp add: port_bytes_def word_bytes)
  then show ?thesis by metis
qed

lemma track_bytes_inj:
  assumes "track_wf t" "track_wf u"
  shows "track_bytes t = track_bytes u \<longleftrightarrow> track_key t = track_key u"
proof -
  have len: "length (port_bytes p) = 2" for p by (simp add: port_bytes_def)
  show ?thesis
    using assms by (auto simp: track_bytes_def track_key_def track_wf_def len port_bytes_inj prod_eq_iff)
qed

lemma track_cmp_eq_0:
  assumes "track_wf (st x)" "track_wf (st y)"
  shows "TRACK_CMP st x y = 0 \<longleftrightarrow> track_key (st x) = track_key (st y)"
  using assms track_bytes_inj[OF assms] track_bytes_length[of "st x"] track_bytes_length[of "st y"]
  by (simp add: TRACK_CMP_def memcmp_eq_0_iff)

text \<open>Flow keys are ordered as the tree needs it, in every store.\<close>

interpretation track: cmp_order "TRACK_CMP st" "{a. track_wf (st a)}" for st
proof
  fix x y z
  assume "x \<in> {a. track_wf (st a)}" "y \<in> {a. track_wf (st a)}"
  show "TRACK_CMP st y x < 0 \<longleftrightarrow> 0 < TRACK_CMP st x y"
    using memcmp_swap[of "track_bytes (st y)" "track_bytes (st x)" TRACK_SIZE] by (auto simp: TRACK_CMP_def)
next
  fix x y z
  assume "x \<in> {a. track_wf (st a)}" "y \<in> {a. track_wf (st a)}" "z \<in> {a. track_wf (st a)}"
    "TRACK_CMP st x y \<le> 0" "TRACK_CMP st y z \<le> 0"
  then show "TRACK_CMP st x z \<le> 0"
    unfolding TRACK_CMP_def
    by (intro memcmp_trans_le[of TRACK_SIZE "track_bytes (st x)" "track_bytes (st y)" "track_bytes (st z)"])
      (simp_all add: track_bytes_length)
qed

section \<open>Invariant and abstraction\<close>

definition track_inv :: "nat set \<Rightarrow> track_sys \<Rightarrow> bool" where
  "track_inv C s \<longleftrightarrow> C \<noteq> {} \<and> rb_ok (flows (tracks s)) \<and>
     sorted_wrt (\<lambda>x y. TRACK_CMP (store s) x y < 0) (rb_inorder (flows (tracks s))) \<and>
     set (rb_inorder (flows (tracks s))) = set (tos (tracks s)) \<and> distinct (tos (tracks s)) \<and>
     prealloc_inv C (set (tos (tracks s))) (tmem (tracks s)) \<and>
     (\<forall>a \<in> set (tos (tracks s)). track_wf (store s a))"

text \<open>Seen from outside, the tracker is the list of its flows' keys, least recently used first.\<close>

definition track_abs :: "track_sys \<Rightarrow> ((netaddr \<times> netaddr) \<times> (u16 \<times> u16) \<times> u8) list" where
  "track_abs s = map (\<lambda>a. track_key (store s a)) (tos (tracks s))"

definition lru_acquire :: "nat \<Rightarrow> bool \<Rightarrow> 'k \<Rightarrow> 'k list \<Rightarrow> bool \<times> 'k list" where
  "lru_acquire cap fixed k ks =
     (if k \<in> set ks then (True, remove1 k ks @ [k])
      else if length ks < cap then (True, ks @ [k])
      else if fixed then (False, ks)
      else (True, tl ks @ [k]))"

lemma inv_keys_inj:
  assumes "track_inv C s"
  shows "inj_on (\<lambda>a. track_key (store s a)) (set (tos (tracks s)))"
proof (rule inj_onI, rule ccontr)
  fix x y
  assume xy: "x \<in> set (tos (tracks s))" "y \<in> set (tos (tracks s))" "track_key (store s x) = track_key (store s y)" "x \<noteq> y"
  then have "TRACK_CMP (store s) x y = 0" "TRACK_CMP (store s) y x = 0"
    using assms by (simp_all add: track_inv_def track_cmp_eq_0)
  moreover have "TRACK_CMP (store s) x y < 0 \<or> TRACK_CMP (store s) y x < 0"
    using assms xy unfolding track_inv_def
    by (metis (no_types, lifting) in_set_conv_nth linorder_neqE_nat sorted_wrt_iff_nth_less)
  ultimately show False by simp
qed

lemma map_remove1_inj: "inj_on f (set xs) \<Longrightarrow> x \<in> set xs \<Longrightarrow> map f (remove1 x xs) = remove1 (f x) (map f xs)"
  by (induction xs) (auto simp: inj_on_def)

text \<open>The tree finds the flow with the key of \<open>r\<close>.\<close>

lemma track_find:
  assumes "track_inv C s" and "track_wf (store s r)"
  shows "RB_FIND (TRACK_CMP (store s)) r (flows (tracks s)) = Some k \<longleftrightarrow>
    k \<in> set (tos (tracks s)) \<and> track_key (store s k) = track_key (store s r)"
proof -
  have "set (rb_inorder (flows (tracks s))) \<subseteq> {a. track_wf (store s a)}"
    using assms by (auto simp: track_inv_def)
  with assms track.find_Some[of "store s" "flows (tracks s)" r k] show ?thesis
    by (auto simp: track_inv_def track_cmp_eq_0)
qed

lemma track_touch_inv:
  assumes "track_inv C s" and "flow \<in> set (tos (tracks s))"
  shows "track_inv C (s\<lparr>tracks := (tracks s)\<lparr>tos := remove1 flow (tos (tracks s)) @ [flow]\<rparr>\<rparr>)"
proof -
  have "set (remove1 flow (tos (tracks s)) @ [flow]) = set (tos (tracks s))"
    using assms by (auto simp: track_inv_def set_remove1_eq)
  with assms show ?thesis by (auto simp: track_inv_def set_remove1_eq)
qed

lemma track_recycle_ok:
  assumes inv: "track_inv C s" and nz: "no_timeout (tracks s) = 0" and full: "set (tos (tracks s)) = C"
  shows "\<exists>s'. track_recycle s = Some (True, s') \<and> track_inv C s' \<and> tos (tracks s') = tl (tos (tracks s)) \<and>
    set (tos (tracks s')) \<noteq> C \<and> store s' = store s \<and> no_timeout (tracks s') = 0 \<and>
    next_flow_id s' = next_flow_id s \<and> taudit s' = peak_audit_inc AUDIT_TRACK_RECYCLED (taudit s)"
proof -
  from inv full obtain flow rest where tos: "tos (tracks s) = flow # rest"
    by (cases "tos (tracks s)") (auto simp: track_inv_def)
  then have mem: "flow \<in> set (rb_inorder (flows (tracks s)))" using inv by (auto simp: track_inv_def)
  have set: "set (rb_inorder (flows (tracks s))) \<subseteq> {a. track_wf (store s a)}" using inv by (auto simp: track_inv_def)
  have rb: "rb_ok (flows (tracks s))" "track.cmp_sorted (store s) (rb_inorder (flows (tracks s)))"
    using inv by (auto simp: track_inv_def)
  from track.remove_elem[OF rb mem] obtain t' as bs where t':
    "RB_REMOVE flow (flows (tracks s)) = Some t'" "rb_ok t'"
    "sorted_wrt (\<lambda>x y. TRACK_CMP (store s) x y < 0) (rb_inorder t')"
    "rb_inorder (flows (tracks s)) = as @ flow # bs" "rb_inorder t' = as @ bs" by blast
  have "distinct (rb_inorder (flows (tracks s)))" by (rule track.sorted_distinct[OF rb(2) set])
  moreover have dist: "distinct (flow # rest)" using inv tos by (simp add: track_inv_def)
  ultimately have elems: "set (rb_inorder t') = set rest"
    using inv t'(4,5) tos by (auto simp: track_inv_def)
  have "prealloc_inv C (set (tos (tracks s)) - {flow}) (prealloc_put (tmem (tracks s)) (Some flow))"
    using inv tos by (intro prealloc.put_chunk) (auto simp: track_inv_def)
  with dist have pool: "prealloc_inv C (set rest) (prealloc_put (tmem (tracks s)) (Some flow))" by (simp add: tos)
  have empty: "prealloc_empty (tmem (tracks s))"
    using inv full prealloc.empty_iff[of C C] by (simp add: track_inv_def)
  define s' where "s' = s\<lparr>tracks := (tracks s)\<lparr>tos := rest, flows := t',
      tmem := prealloc_put (tmem (tracks s)) (Some flow)\<rparr>, taudit := peak_audit_inc AUDIT_TRACK_RECYCLED (taudit s)\<rparr>"
  have "C \<noteq> {}" "\<forall>a \<in> set rest. track_wf (store s a)" using inv tos by (simp_all add: track_inv_def)
  then have "track_inv C s'"
    unfolding track_inv_def s'_def using t'(2,3) elems pool dist by simp
  moreover have "track_recycle s = Some (True, s')"
    by (simp add: track_recycle_def empty nz tos t'(1) s'_def)
  moreover have "set rest \<noteq> C" using full dist tos by auto
  ultimately show ?thesis by (intro exI[of _ s']) (simp add: s'_def tos nz)
qed

lemma track_new_ok:
  assumes inv: "track_inv C s" and room: "set (tos (tracks s)) \<noteq> C"
    and ref: "track_wf (store s r)" "r \<notin> C"
    and new: "\<forall>k \<in> set (tos (tracks s)). track_key (store s k) \<noteq> track_key (store s r)"
  shows "\<exists>flow s'. track_new s r = Some (Return (Some flow, s')) \<and> track_inv C s' \<and>
    flow \<in> C - set (tos (tracks s)) \<and> tos (tracks s') = tos (tracks s) @ [flow] \<and>
    (\<forall>a. a \<noteq> flow \<longrightarrow> store s' a = store s a) \<and> track_key (store s' flow) = track_key (store s r) \<and>
    fid (store s' flow) = next_flow_id s \<and> next_flow_id s' = next_flow_id s + 1 \<and>
    taudit s' = peak_audit_inc AUDIT_TRACK_ADDED (taudit s) \<and> no_timeout (tracks s') = no_timeout (tracks s)"
proof -
  let ?tree = "flows (tracks s)"
  from inv have pool: "prealloc_inv C (set (tos (tracks s))) (tmem (tracks s))" by (simp add: track_inv_def)
  from prealloc.get_chunk[OF pool room] obtain flow mem where flow: "prealloc_get (tmem (tracks s)) = (Some flow, mem)"
    "flow \<in> C - set (tos (tracks s))" "prealloc_inv C (insert flow (set (tos (tracks s)))) mem" by blast
  then have "r \<noteq> flow" using ref(2) by auto
  define st where "st = (store s)(flow := track_zero\<lparr>addr := addr (store s r), port := port (store s r), ttype := ttype (store s r)\<rparr>)"
  define st' where "st' = (store s)(flow := (st flow)\<lparr>fid := next_flow_id s\<rparr>)"
  have st: "st a = store s a" "st' a = store s a" if "a \<in> set (tos (tracks s))" for a
    using that flow(2) by (auto simp: st_def st'_def)
  have key: "track_key (st flow) = track_key (store s r)" "track_wf (st flow)"
    using ref(1) by (auto simp: st_def track_key_def track_wf_def)
  have elems: "set (rb_inorder ?tree) = set (tos (tracks s))" using inv by (simp add: track_inv_def)
  have tree: "rb_ok ?tree" "track.cmp_sorted st (rb_inorder ?tree)" "set (rb_inorder ?tree) \<subseteq> {a. track_wf (st a)}"
  proof -
    show "track.cmp_sorted st (rb_inorder ?tree)"
      by (rule sorted_wrt_mono_rel[of _ "\<lambda>x y. TRACK_CMP (store s) x y < 0"])
        (use inv st elems in \<open>auto simp: track_inv_def TRACK_CMP_def\<close>)
  qed (use inv st elems in \<open>auto simp: track_inv_def\<close>)
  have "RB_FIND (TRACK_CMP st) flow ?tree \<noteq> Some k" for k
  proof
    assume "RB_FIND (TRACK_CMP st) flow ?tree = Some k"
    then have k: "k \<in> set (tos (tracks s))" "TRACK_CMP st flow k = 0"
      using track.find_Some[OF tree(2,3), of flow k] key(2) elems by auto
    then have "track_wf (st k)" using tree(3) elems by auto
    with k track_cmp_eq_0[of st flow k] key st(1)[OF k(1)] new show False by auto
  qed
  then have "RB_FIND (TRACK_CMP st) flow ?tree = None" by blast
  from track.insert_new[OF tree _ this] key(2) obtain t' as bs where t': "RB_INSERT (TRACK_CMP st) flow ?tree = Some (None, t')"
    "rb_ok t'" "track.cmp_sorted st (rb_inorder t')" "rb_inorder ?tree = as @ bs" "rb_inorder t' = as @ flow # bs" by blast
  let ?s' = "s\<lparr>store := st', next_flow_id := next_flow_id s + 1,
      tracks := (tracks s)\<lparr>tmem := mem, flows := t', tos := tos (tracks s) @ [flow]\<rparr>,
      taudit := peak_audit_inc AUDIT_TRACK_ADDED (taudit s)\<rparr>"
  have "track_new s r = Some (Return (Some flow, ?s'))"
    using \<open>r \<noteq> flow\<close> t'(1) by (simp add: track_new_def flow(1) Let_def st_def st'_def)
  moreover have "TRACK_CMP st' = TRACK_CMP st"
    by (auto simp: TRACK_CMP_def st'_def st_def track_bytes_def fun_eq_iff)
  then have "track_inv C ?s'"
    using inv flow t' elems st key(2) unfolding track_inv_def
    by (auto simp: st'_def track_wf_def st_def)
  moreover have "track_key (st' flow) = track_key (store s r)" "fid (st' flow) = next_flow_id s"
    using key(1) by (auto simp: st'_def track_key_def)
  ultimately show ?thesis using flow(2) by (intro exI[of _ flow] exI[of _ ?s']) (auto simp: st'_def)
qed

lemma track_recycle_room:
  assumes "track_inv C s" and "set (tos (tracks s)) \<noteq> C"
  shows "track_recycle s = Some (True, s)"
  using assms prealloc.empty_iff[of C "set (tos (tracks s))"] by (simp add: track_recycle_def track_inv_def)

lemma track_recycle_fails:
  assumes "track_inv C s" and "set (tos (tracks s)) = C" and "no_timeout (tracks s) \<noteq> 0"
  shows "track_recycle s = Some (False, s\<lparr>taudit := peak_audit_inc AUDIT_TRACK_FAILED (taudit s)\<rparr>)"
  using assms prealloc.empty_iff[of C C] by (simp add: track_recycle_def track_inv_def)

lemma inv_full_iff:
  assumes "track_inv C s"
  shows "length (tos (tracks s)) < card C \<longleftrightarrow> set (tos (tracks s)) \<noteq> C"
proof -
  have sub: "set (tos (tracks s)) \<subseteq> C" "finite C" "distinct (tos (tracks s))"
    using assms by (auto simp: track_inv_def prealloc_inv_def)
  then have "card (set (tos (tracks s))) = length (tos (tracks s))" by (simp add: distinct_card)
  with sub show ?thesis by (metis card_subset_eq card_mono nat_less_le)
qed

text \<open>What a call of \<open>peak_track_acquire\<close> does, in one statement: it returns, keeps the invariant, and
  acts on the keys as \<open>lru_acquire\<close>.\<close>

definition acquire_post :: "nat set \<Rightarrow> track_sys \<Rightarrow> nat \<Rightarrow> nat option \<Rightarrow> track_sys \<Rightarrow> bool" where
  "acquire_post C s r p s' \<longleftrightarrow> track_inv C s' \<and> no_timeout (tracks s') = no_timeout (tracks s) \<and>
     (p \<noteq> None, track_abs s') = lru_acquire (card C) (no_timeout (tracks s) \<noteq> 0) (track_key (store s r)) (track_abs s) \<and>
     (\<forall>flow. p = Some flow \<longrightarrow> flow \<in> set (tos (tracks s')) \<and> track_key (store s' flow) = track_key (store s r))"

lemma acquire_found:
  assumes inv: "track_inv C s" and "track_wf (store s r)"
    and find: "RB_FIND (TRACK_CMP (store s)) r (flows (tracks s)) = Some flow"
  shows "\<exists>s'. peak_track_acquire s (Some r) = Some (Return (Some flow, s')) \<and> acquire_post C s r (Some flow) s'"
proof -
  let ?s' = "s\<lparr>tracks := (tracks s)\<lparr>tos := remove1 flow (tos (tracks s)) @ [flow]\<rparr>\<rparr>"
  from track_find[OF assms(1,2)] find
  have flow: "flow \<in> set (tos (tracks s))" "track_key (store s flow) = track_key (store s r)" by auto
  have "track_abs ?s' = remove1 (track_key (store s r)) (track_abs s) @ [track_key (store s r)]"
    using map_remove1_inj[OF inv_keys_inj[OF inv] flow(1)] flow(2) by (simp add: track_abs_def)
  moreover have "track_key (store s r) \<in> set (track_abs s)"
    using flow(1) unfolding track_abs_def flow(2)[symmetric] by simp
  ultimately have "acquire_post C s r (Some flow) ?s'"
    using track_touch_inv[OF inv flow(1)] flow by (simp add: acquire_post_def lru_acquire_def)
  moreover have "peak_track_acquire s (Some r) = Some (Return (Some flow, ?s'))"
    using find by (simp add: peak_track_acquire_def)
  ultimately show ?thesis by blast
qed

lemma acquire_missing:
  assumes inv: "track_inv C s" and wf: "track_wf (store s r)" and "r \<notin> C"
    and find: "RB_FIND (TRACK_CMP (store s)) r (flows (tracks s)) = None"
  shows "\<exists>p s'. peak_track_acquire s (Some r) = Some (Return (p, s')) \<and> acquire_post C s r p s'"
proof -
  have new: "\<forall>k \<in> set (tos (tracks s)). track_key (store s k) \<noteq> track_key (store s r)"
    using track_find[OF inv wf] find by auto
  then have abs: "track_key (store s r) \<notin> set (track_abs s)" by (auto simp: track_abs_def)
  have acq: "peak_track_acquire s (Some r) = do {
      (go_on, s) \<leftarrow> track_recycle s; if go_on then track_new s r else Some (Return (None, s)) }"
    using find by (simp add: peak_track_acquire_def)
  have step: "\<exists>p s'. track_new s0 r = Some (Return (p, s')) \<and> p \<noteq> None \<and> track_inv C s' \<and>
      no_timeout (tracks s') = no_timeout (tracks s0) \<and> track_abs s' = track_abs s0 @ [track_key (store s r)] \<and>
      (\<forall>flow. p = Some flow \<longrightarrow> flow \<in> set (tos (tracks s')) \<and> track_key (store s' flow) = track_key (store s r))"
    if s0: "track_inv C s0" "set (tos (tracks s0)) \<noteq> C" "store s0 = store s" "set (tos (tracks s0)) \<subseteq> set (tos (tracks s))" for s0
  proof -
    obtain flow s' where "track_new s0 r = Some (Return (Some flow, s'))" "track_inv C s'"
      "flow \<in> C - set (tos (tracks s0))" "tos (tracks s') = tos (tracks s0) @ [flow]"
      "\<forall>a. a \<noteq> flow \<longrightarrow> store s' a = store s a" "track_key (store s' flow) = track_key (store s r)"
      "no_timeout (tracks s') = no_timeout (tracks s0)"
      using track_new_ok[OF s0(1,2), of r] wf assms(3) new s0(3,4) by auto
    then show ?thesis using s0(3) by (intro exI[of _ "Some flow"] exI[of _ s']) (auto simp: track_abs_def)
  qed
  show ?thesis
  proof (cases "set (tos (tracks s)) = C")
    case False
    with step[OF inv False] abs inv_full_iff[OF inv] track_recycle_room[OF inv False] show ?thesis
      by (auto simp: acq acquire_post_def lru_acquire_def track_abs_def)
  next
    case full: True
    show ?thesis
    proof (cases "no_timeout (tracks s) = 0")
      case True
      from track_recycle_ok[OF inv True full] obtain s1 where s1: "track_recycle s = Some (True, s1)" "track_inv C s1"
        "tos (tracks s1) = tl (tos (tracks s))" "set (tos (tracks s1)) \<noteq> C" "store s1 = store s" "no_timeout (tracks s1) = 0"
        by blast
      have "set (tos (tracks s1)) \<subseteq> set (tos (tracks s))" using s1(3) by (metis list.set_sel(2) subsetI tl_Nil)
      moreover have "track_abs s1 = tl (track_abs s)" by (simp add: track_abs_def s1(3,5) map_tl)
      ultimately show ?thesis
        using step[OF s1(2,4,5)] abs True full s1(1,6) inv_full_iff[OF inv]
        by (auto simp: acq acquire_post_def lru_acquire_def track_abs_def)
    next
      case False
      have "track_inv C (s\<lparr>taudit := x\<rparr>)" for x using inv by (simp add: track_inv_def)
      with False full abs inv_full_iff[OF inv] track_recycle_fails[OF inv full False] show ?thesis
        by (auto simp: acq acquire_post_def lru_acquire_def track_abs_def)
    qed
  qed
qed

lemma acquire_ok:
  assumes "track_inv C s" and "track_wf (store s r)" and "r \<notin> C"
  shows "\<exists>p s'. peak_track_acquire s (Some r) = Some (Return (p, s')) \<and> acquire_post C s r p s'"
  using acquire_found[OF assms(1,2)] acquire_missing[OF assms]
  by (cases "RB_FIND (TRACK_CMP (store s)) r (flows (tracks s))") blast+

section \<open>From start to end\<close>

lemma exit_loop_ok:
  assumes "rb_ok t" "distinct (rb_inorder t)" "prealloc_inv C (set (rb_inorder t)) mem" "length (rb_inorder t) \<le> fuel"
  shows "\<exists>mem'. exit_loop fuel t mem = Some (Return mem') \<and> prealloc_inv C {} mem'"
  using assms
proof (induction fuel arbitrary: t mem)
  case 0
  then show ?case by (cases t) auto
next
  case (Suc fuel)
  show ?case
  proof (cases t)
    case (RbNode c l flow r)
    then have mem: "flow \<in> set (rb_inorder t)" by simp
    from rb_remove_ok[OF Suc.prems(1) mem] obtain t' as bs where t': "RB_REMOVE flow t = Some t'" "rb_ok t'"
      "rb_inorder t = as @ flow # bs" "rb_inorder t' = as @ bs" by blast
    then have "set (rb_inorder t') = set (rb_inorder t) - {flow}" "distinct (rb_inorder t')"
      "length (rb_inorder t') \<le> fuel" using Suc.prems(2,4) by auto
    with prealloc.put_chunk[OF Suc.prems(3) mem] Suc.IH[OF t'(2)] t'(1) RbNode show ?thesis by auto
  qed (use Suc.prems in auto)
qed

lemma track_exit_ok:
  assumes "track_inv C s"
  shows "peak_track_exit (Some (tracks s)) = Some (Return ())"
proof -
  have "set (rb_inorder (flows (tracks s))) \<subseteq> {a. track_wf (store s a)}"
    using assms by (auto simp: track_inv_def)
  then have "distinct (rb_inorder (flows (tracks s)))"
    using assms track.sorted_distinct[of "store s"] by (auto simp: track_inv_def)
  with exit_loop_ok[of "flows (tracks s)" C "tmem (tracks s)" "length (rb_inorder (flows (tracks s)))"] assms
  obtain mem where "exit_loop (length (rb_inorder (flows (tracks s)))) (flows (tracks s)) (tmem (tracks s)) = Some (Return mem)"
    "prealloc_inv C {} mem" by (auto simp: track_inv_def)
  with prealloc.exit_ok show ?thesis by (simp add: peak_track_exit_def)
qed

lemma track_init_inv:
  assumes "peak_track_init cap no_to calloc (Some start) = Some self"
  shows "track_inv (pool_chunks start cap SIZEOF_PEAK_TRACK) \<lparr>tracks = self, store = st, next_flow_id = n, taudit = a\<rparr>"
    "card (pool_chunks start cap SIZEOF_PEAK_TRACK) = unat cap" "tos self = []" "no_timeout self = no_to"
proof -
  from assms obtain mem where mem: "prealloc_init cap SIZEOF_PEAK_TRACK (Some start) = (True, mem)"
    "self = \<lparr>flows = RbNil, tos = [], no_timeout = no_to, tmem = mem\<rparr>"
    by (auto simp: peak_track_init_def split: if_splits prod.splits bool.splits)
  then have "cap \<noteq> 0" by (auto simp: prealloc_init_def split: if_splits)
  with prealloc_init_inv[OF mem(1)] mem(2) show
    "track_inv (pool_chunks start cap SIZEOF_PEAK_TRACK) \<lparr>tracks = self, store = st, next_flow_id = n, taudit = a\<rparr>"
    by (auto simp: track_inv_def rb_ok_def pool_chunks_def unat_eq_0)
  show "card (pool_chunks start cap SIZEOF_PEAK_TRACK) = unat cap" by (rule prealloc_init_inv(2)[OF mem(1)])
  show "tos self = []" "no_timeout self = no_to" using mem(2) by simp_all
qed

text \<open>A caller fills its key object at \<open>r\<close> and asks for the flow, again and again.\<close>

fun track_run :: "track_sys \<Rightarrow> (nat \<times> peak_track) list \<Rightarrow> track_sys outcome option" where
  "track_run s [] = Some (Return s)"
| "track_run s ((r, key) # calls) = do {
     o1 \<leftarrow> peak_track_acquire (s\<lparr>store := (store s)(r := key)\<rparr>) (Some r);
     case o1 of
       Return (p, s) \<Rightarrow> track_run s calls
     | Panic \<Rightarrow> Some Panic
     | Hang \<Rightarrow> Some Hang }"

lemma track_write_ref:
  assumes "track_inv C s" and "r \<notin> C"
  shows "track_inv C (s\<lparr>store := (store s)(r := key)\<rparr>)" "track_abs (s\<lparr>store := (store s)(r := key)\<rparr>) = track_abs s"
proof -
  have ne: "r \<notin> set (tos (tracks s))" "set (rb_inorder (flows (tracks s))) = set (tos (tracks s))"
    using assms by (auto simp: track_inv_def prealloc_inv_def)
  have "sorted_wrt (\<lambda>x y. TRACK_CMP ((store s)(r := key)) x y < 0) (rb_inorder (flows (tracks s)))"
    by (rule sorted_wrt_mono_rel[of _ "\<lambda>x y. TRACK_CMP (store s) x y < 0"])
      (use assms ne in \<open>auto simp: track_inv_def TRACK_CMP_def\<close>)
  with assms(1) ne show "track_inv C (s\<lparr>store := (store s)(r := key)\<rparr>)"
    by (auto simp: track_inv_def)
  show "track_abs (s\<lparr>store := (store s)(r := key)\<rparr>) = track_abs s"
    using ne by (auto simp: track_abs_def)
qed

lemma track_run_ok:
  assumes "track_inv C s" and "\<forall>(r, key) \<in> set calls. r \<notin> C \<and> track_wf key"
  shows "\<exists>s'. track_run s calls = Some (Return s') \<and> track_inv C s' \<and>
    track_abs s' = foldl (\<lambda>ks (r, key). snd (lru_acquire (card C) (no_timeout (tracks s) \<noteq> 0) (track_key key) ks)) (track_abs s) calls"
  using assms
proof (induction calls arbitrary: s)
  case (Cons c calls)
  obtain r key where c: "c = (r, key)" by fastforce
  let ?s = "s\<lparr>store := (store s)(r := key)\<rparr>"
  from Cons.prems(2) c have r: "r \<notin> C" "track_wf (store ?s r)" by auto
  note w = track_write_ref[OF Cons.prems(1) r(1), of key]
  from acquire_ok[OF w(1) r(2,1)] obtain p s1 where s1: "peak_track_acquire ?s (Some r) = Some (Return (p, s1))"
    "acquire_post C ?s r p s1" by blast
  then have inv1: "track_inv C s1" and nt: "no_timeout (tracks s1) = no_timeout (tracks s)"
    and abs: "track_abs s1 = snd (lru_acquire (card C) (no_timeout (tracks s) \<noteq> 0) (track_key key) (track_abs s))"
    using w(2) by (auto simp: acquire_post_def) (metis snd_conv)
  from Cons.IH[OF inv1] Cons.prems(2) obtain s' where s': "track_run s1 calls = Some (Return s')" "track_inv C s'"
    "track_abs s' = foldl (\<lambda>ks (r, key). snd (lru_acquire (card C) (no_timeout (tracks s) \<noteq> 0) (track_key key) ks)) (track_abs s1) calls"
    by (auto simp: nt)
  have "track_run s (c # calls) = Some (Return s')" using s1(1) s'(1) by (simp add: c)
  with s' show ?case by (auto simp: abs c)
qed simp

section \<open>Properties\<close>

text \<open>C1. \<open>peak_track_acquire\<close> implements a least-recently-used table of flow keys. For a key object outside
  the pool it never follows a \<open>NULL\<close> pointer and never panics, keeps the invariant that ties tree,
  queue and pool together, and changes the keys exactly as \<open>lru_acquire\<close> says: a known key moves to
  the end, a new one is appended, a full table drops the oldest key or, without time-outs, refuses.
  The returned flow carries the key that was asked for.\<close>

theorem track_acquire_refines_lru:
  assumes "track_inv C s" and "track_wf (store s r)" and "r \<notin> C"
  shows "\<exists>p s'. peak_track_acquire s (Some r) = Some (Return (p, s')) \<and> track_inv C s' \<and>
    (p \<noteq> None, track_abs s') = lru_acquire (card C) (no_timeout (tracks s) \<noteq> 0) (track_key (store s r)) (track_abs s) \<and>
    (\<forall>flow. p = Some flow \<longrightarrow> flow \<in> set (tos (tracks s')) \<and> track_key (store s' flow) = track_key (store s r))"
  using acquire_ok[OF assms] by (auto simp: acquire_post_def)

definition sample_tracks :: peak_tracks where
  "sample_tracks = the (peak_track_init 2 0 True (Some 4096))"

definition sample_sys :: track_sys where
  "sample_sys = \<lparr>tracks = sample_tracks, store = (\<lambda>a. track_zero), next_flow_id = 0, taudit = audit_zero\<rparr>"

lemma sample_init: "peak_track_init 2 0 True (Some 4096) = Some sample_tracks"
  by (simp add: sample_tracks_def peak_track_init_def prealloc_init_def)

lemma track_zero_wf: "track_wf track_zero"
  by (simp add: track_wf_def track_zero_def)

lemma sample_outside: "0 \<notin> pool_chunks 4096 2 SIZEOF_PEAK_TRACK"
  by (auto simp: pool_chunks_def)

theorem track_acquire_refines_lru_witness:
  "\<exists>p s'. peak_track_acquire sample_sys (Some 0) = Some (Return (p, s')) \<and>
    (p \<noteq> None, track_abs s') = (True, [track_key track_zero])"
proof -
  note init = track_init_inv[OF sample_init]
  have "track_inv (pool_chunks 4096 2 SIZEOF_PEAK_TRACK) sample_sys" unfolding sample_sys_def by (rule init(1))
  from track_acquire_refines_lru[OF this, of 0] init(2,3,4) track_zero_wf sample_outside show ?thesis
    by (auto simp: sample_sys_def track_abs_def lru_acquire_def)
qed

text \<open>C4. Any sequence of calls on a freshly initialised tracker returns without panic, leaves the table the
  sequence of \<open>lru_acquire\<close> steps leaves, with at most \<open>max_flows\<close> flows, and \<open>peak_track_exit\<close> then finds every
  chunk back in the pool.\<close>

theorem track_history_safe:
  assumes "peak_track_init cap no_to calloc (Some start) = Some self"
    and "\<forall>(r, key) \<in> set calls. r \<notin> pool_chunks start cap SIZEOF_PEAK_TRACK \<and> track_wf key"
  shows "\<exists>s'. track_run \<lparr>tracks = self, store = st, next_flow_id = n, taudit = a\<rparr> calls = Some (Return s') \<and>
    track_abs s' = foldl (\<lambda>ks (r, key). snd (lru_acquire (unat cap) (no_to \<noteq> 0) (track_key key) ks)) [] calls \<and>
    length (track_abs s') \<le> unat cap \<and> peak_track_exit (Some (tracks s')) = Some (Return ())"
proof -
  note init = track_init_inv[OF assms(1)]
  from track_run_ok[OF init(1) assms(2), of st n a] obtain s' where s':
    "track_run \<lparr>tracks = self, store = st, next_flow_id = n, taudit = a\<rparr> calls = Some (Return s')"
    "track_inv (pool_chunks start cap SIZEOF_PEAK_TRACK) s'"
    "track_abs s' = foldl (\<lambda>ks (r, key). snd (lru_acquire (unat cap) (no_to \<noteq> 0) (track_key key) ks)) [] calls"
    using init(2-4) by (auto simp: track_abs_def)
  have "length (track_abs s') = card (set (tos (tracks s')))" "set (tos (tracks s')) \<subseteq> pool_chunks start cap SIZEOF_PEAK_TRACK"
    "finite (pool_chunks start cap SIZEOF_PEAK_TRACK)"
    using s'(2) by (auto simp: track_inv_def prealloc_inv_def track_abs_def distinct_card)
  then have "length (track_abs s') \<le> unat cap" using init(2) card_mono by metis
  with s' track_exit_ok[OF s'(2)] show ?thesis by blast
qed

theorem track_history_safe_witness:
  "\<exists>s'. track_run sample_sys [(0, track_zero), (8, track_zero\<lparr>ttype := 6\<rparr>), (0, track_zero\<lparr>ttype := 17\<rparr>)] = Some (Return s') \<and>
    track_abs s' = [track_key (track_zero\<lparr>ttype := 6\<rparr>), track_key (track_zero\<lparr>ttype := 17\<rparr>)] \<and>
    peak_track_exit (Some (tracks s')) = Some (Return ())"
proof -
  let ?calls = "[(0, track_zero), (8, track_zero\<lparr>ttype := 6\<rparr>), (0, track_zero\<lparr>ttype := 17\<rparr>)]"
  have calls: "\<forall>(r, key) \<in> set ?calls. r \<notin> pool_chunks 4096 2 SIZEOF_PEAK_TRACK \<and> track_wf key"
    using track_zero_wf by (auto simp: pool_chunks_def track_wf_def)
  show ?thesis
    using track_history_safe[OF sample_init calls, of "\<lambda>a. track_zero" 0 audit_zero]
    by (auto simp: sample_sys_def lru_acquire_def track_key_def track_zero_def)
qed

text \<open>C36. The key of a flow does not depend on the direction of the packet, unless both ends have the same
  address: then the two directions of a connection with different ports have different keys.\<close>

definition reversed :: "peak_packet \<Rightarrow> peak_packet" where
  "reversed p = p\<lparr>net_saddr := net_daddr p, net_daddr := net_saddr p,
     flow_sport := flow_dport p, flow_dport := flow_sport p\<rparr>"

theorem track_key_direction:
  assumes "length (net_saddr p) = 16" and "length (net_daddr p) = 16"
  shows "TRACK_KEY t (reversed p) = TRACK_KEY t p \<longleftrightarrow> net_saddr p \<noteq> net_daddr p \<or> flow_sport p = flow_dport p"
proof (cases "net_saddr p = net_daddr p")
  case True
  then have "netcmp (net_saddr p) (net_daddr p) = 0" "netcmp (net_daddr p) (net_saddr p) = 0"
    by (simp_all add: netcmp_def)
  then have port: "port (TRACK_KEY t (reversed p)) = (flow_sport p, flow_dport p)"
      "port (TRACK_KEY t p) = (flow_dport p, flow_sport p)"
      "flow_sport p = flow_dport p \<Longrightarrow> TRACK_KEY t (reversed p) = TRACK_KEY t p"
    using True by (simp_all add: TRACK_KEY_def reversed_def)
  then have "TRACK_KEY t (reversed p) = TRACK_KEY t p \<Longrightarrow> flow_sport p = flow_dport p" by (metis prod.inject)
  with port(3) True show ?thesis by blast
next
  case False
  with netcmp_eq_0_iff[OF assms] have "netcmp (net_saddr p) (net_daddr p) \<noteq> 0" by simp
  then show ?thesis
    using False netcmp_swap[of "net_daddr p" "net_saddr p"]
    by (auto simp: TRACK_KEY_def reversed_def Let_def)
qed

theorem track_key_direction_witness:
  "TRACK_KEY track_zero (reversed udp_packet) = TRACK_KEY track_zero udp_packet"
proof -
  have "length (net_saddr udp_packet) = 16" "length (net_daddr udp_packet) = 16" "net_saddr udp_packet \<noteq> net_daddr udp_packet"
    by code_simp+
  then show ?thesis using track_key_direction[of udp_packet track_zero] by simp
qed

end
