(* ===== verification/Peak_Hash.thy ===== *)
theory Peak_Hash
  imports Peak_Prelude
begin

text \<open>
  The hash functions of \<open>src/include/peak_hash.h\<close>. A buffer is the object it points into, the rolling
  hash keeps offsets into it; a read outside is \<open>None\<close>, and so is a shift by the full width of a word, which C
  leaves undefined: \<open>_ROLL_SHIFTN\<close> by zero shifts right by 32 positions.
\<close>

section \<open>FNV-1a and one-at-a-time\<close>

abbreviation (input) FNV_OFFSET_32 :: u32 where "FNV_OFFSET_32 \<equiv> 2166136261"
abbreviation (input) FNV_PRIME_32 :: u32 where "FNV_PRIME_32 \<equiv> 16777619"
abbreviation (input) JOAAT_SALT :: u32 where "JOAAT_SALT \<equiv> 0x5E1F27D3"

fun fnv_loop :: "mem \<Rightarrow> nat \<Rightarrow> nat \<Rightarrow> u32 \<Rightarrow> u32 option" where
  "fnv_loop m p 0 h = Some h"
| "fnv_loop m p (Suc n) h = do {
     b \<leftarrow> load8 m p;
     fnv_loop m (p + 1) n (FNV_PRIME_32 * (h XOR ucast b)) }"

definition hash_fnv32 :: "mem \<Rightarrow> nat \<Rightarrow> u32 \<Rightarrow> u32 option" where
  "hash_fnv32 m buf len = fnv_loop m buf (unat len) FNV_OFFSET_32"

fun joaat_loop :: "mem \<Rightarrow> nat \<Rightarrow> nat \<Rightarrow> u32 \<Rightarrow> u32 option" where
  "joaat_loop m p 0 hash = Some hash"
| "joaat_loop m p (Suc n) hash = do {
     b \<leftarrow> load8 m p;
     let hash = hash + ucast b;
     let hash = hash + push_bit 10 hash;
     let hash = hash XOR drop_bit 6 hash;
     joaat_loop m (p + 1) n hash }"

definition hash_joaat :: "mem \<Rightarrow> nat \<Rightarrow> u32 \<Rightarrow> u32 option" where
  "hash_joaat m buf len = do {
     hash \<leftarrow> joaat_loop m buf (unat len) JOAAT_SALT;
     let hash = hash + push_bit 3 hash;
     let hash = hash XOR drop_bit 11 hash;
     let hash = hash + push_bit 15 hash;
     Some hash }"

section \<open>The rolling hash\<close>

definition hash_roll_values :: "u32 list" where
  "hash_roll_values = [
     0xC3113E7F, 0x4C353C5F, 0x7423810B, 0x258D264E, 0xDAD39DED, 0x75D0B694, 0x98CE1216, 0x93334482,
     0xC5C48EA5, 0xF57E0E8B, 0x5D7F3723, 0x396B1B24, 0xA8883D9F, 0xB2A74A00, 0xF8E171AE, 0x3F01FBAB,
     0x5C1840CB, 0xDDD833C4, 0x8D8CCA34, 0x32EF223A, 0x1A05B871, 0x9A9B6BFC, 0x50406A0C, 0xE7E1FC04,
     0x5E07D7F6, 0x80B83660, 0x20892A62, 0xB2C6FEA6, 0x6CEC7CAA, 0x182F764B, 0x3B0353E7, 0x57FC2520,
     0x4B6812D4, 0xACB654E4, 0x23C75C04, 0xB1DCD731, 0xE3AF0733, 0xF2366D39, 0xC729671B, 0xFF3BE6F2,
     0xABA37E34, 0x3CDAFA38, 0xAAD18D03, 0xA8D35345, 0x08E9A92C, 0xF9324059, 0x42D821BE, 0x1BC152DD,
     0x5588811C, 0x874A1F9A, 0x6E83E9CD, 0xDA6F3AF8, 0x965D4670, 0xA7A565C0, 0x68D8A9AF, 0xFC8FD8FD,
     0x8FF99FF9, 0x4C9B42AE, 0x2D066A8D, 0x4D1802F7, 0x557032B2, 0x12BCF371, 0xDC29D5AE, 0x72EA361F,
     0xE2835B0B, 0xDFC58966, 0x13B0F34D, 0x3FA02BCD, 0xBF282E3D, 0x7DC877F5, 0xF4848A32, 0x861E35F5,
     0x7FFA0D7F, 0x515F2E4E, 0x6B235D5C, 0x55F46E24, 0x35AD2C99, 0x072654A8, 0x05163F0F, 0x9317B11A,
     0xAED1FC10, 0x989444F0, 0xDB3E1814, 0x446C0CF1, 0x660BF511, 0x2F227D3A, 0xFDBA0539, 0xC649E621,
     0x5204D7CE, 0x5FA386D0, 0xE5F22005, 0x97B6C8A1, 0x4AB69EC2, 0x5C7CA70D, 0x39A48EC6, 0x7BACF378,
     0x8D0ED3D1, 0xE39DE582, 0xC5FBE2AB, 0x37E3D2D0, 0x06F44724, 0x73144144, 0xBA57E905, 0xB05B4307,
     0xAEED8D97, 0xA68CCAC4, 0xE30DA57E, 0xED0F194B, 0x8C2B9B7A, 0x814575D5, 0x79588493, 0x81D3712A,
     0x3FA892F2, 0x80F0BB94, 0x44EAF51A, 0x4E05F1D4, 0xFC69F858, 0x775E8D60, 0x22B20DD7, 0x170A87EA,
     0x1077DE52, 0x3D5EC9FB, 0x0B6EB1E5, 0xF2F9CCAF, 0xA76C7DEB, 0xD8C2D873, 0xF438C592, 0x6239FEEC,
     0x26D3D2A9, 0x30F6FADF, 0x4B2984CC, 0x6257F3DA, 0x0E0583E2, 0x143E5E61, 0xBB2732BF, 0x9653217A,
     0x027A84EA, 0x95C9AE8B, 0x89B8B82B, 0x9F286485, 0x29F622FE, 0x52A3196B, 0x8392D95F, 0x33A79167,
     0xF5DEE92A, 0x6E397DB9, 0x11931C01, 0x8DD2CD3B, 0xF9E6003D, 0xAB955AF4, 0xD38725F9, 0xDCF6F8AE,
     0x7667A958, 0xE67AD995, 0xB7CF979A, 0xD88EBE5B, 0x5BA889F0, 0x078BDD90, 0x447238F9, 0x3135F672,
     0x187B95A8, 0x0B7D5751, 0xACD59D2A, 0x9C5D1929, 0x579E5022, 0xEA90499B, 0x59901800, 0x82237DB5,
     0x7A375509, 0xACA9A22A, 0xEC96E649, 0x69339DB0, 0x081D0D9B, 0xD72FB8B9, 0xA4184653, 0xC057321D,
     0xED19CAB9, 0xB48F1E3E, 0xB9DAC51E, 0xDAED2FC7, 0x7598CBBD, 0x208DF346, 0x044BE6EC, 0x1C63E6EB,
     0xA15F64C1, 0xE024A061, 0x68309584, 0x0758A68D, 0xF274E9AE, 0x0ABEA0CC, 0xED4FB267, 0x63D6EC46,
     0x9F28E026, 0xF0694A17, 0x9D6E9115, 0xC4600FAD, 0x5B121E99, 0xD6B4A13B, 0xF5364B8A, 0x8514B254,
     0x0182F8DD, 0xDB09F90B, 0x78C70B32, 0xD8EC3B02, 0x8CD7084D, 0xA4439838, 0x72F35A3D, 0x200B48A5,
     0xE2351444, 0xA5552F5F, 0xD8C1E746, 0x0FE5EF3C, 0xB6A47063, 0x61F4E68B, 0x08FED99B, 0x7E461445,
     0x43CB8380, 0x28BA03C8, 0x21A7A2E2, 0x43437ED6, 0x2A9E6670, 0x89B4A106, 0xC6C2F4EE, 0x9C4063CC,
     0x2FA0DF6C, 0xB54DC409, 0xCF01538F, 0x616431D7, 0x02CB0E4D, 0x44FFF425, 0xAAD5188E, 0x0742E9BC,
     0xFFF41353, 0x130F0A15, 0x787BDC10, 0x4A327B72, 0x702989F7, 0x5F704798, 0x8156A1BB, 0x2BCA3E74,
     0x1911A8C4, 0x5E1F27D3, 0x07949DC7, 0xF24C2056, 0xB4299EE6, 0x9C7045D9, 0xA8BF6307, 0x7454AAD2,
     0x256425E5, 0xD87DEF67, 0xCFE95452, 0xE7548DF7, 0xA84956C7, 0xD8402C60, 0xCFBD0373, 0x6B6CDAFE]"

definition ROLL_SHIFT1 :: "u32 \<Rightarrow> u32" where
  "ROLL_SHIFT1 x = (push_bit 1 x OR drop_bit (32 - 1) x)"

definition ROLL_SHIFTY :: "u32 \<Rightarrow> nat \<Rightarrow> u32 option" where
  "ROLL_SHIFTY x y = (if 32 \<le> y \<or> 32 \<le> 32 - y then None else Some (push_bit y x OR drop_bit (32 - y) x))"

record roll_head =
  rhh_first :: nat
  rhh_next :: nat
  rhh_hash :: u32

definition ROLL_INIT :: "nat \<Rightarrow> roll_head" where
  "ROLL_INIT buf = \<lparr>rhh_first = buf, rhh_next = buf, rhh_hash = 0\<rparr>"

definition roll_value :: "mem \<Rightarrow> nat \<Rightarrow> u32 option" where
  "roll_value m p = do { b \<leftarrow> load8 m p; Some (hash_roll_values ! unat b) }"

definition ROLL_NEXT :: "mem \<Rightarrow> roll_head \<Rightarrow> roll_head option" where
  "ROLL_NEXT m head = do {
     v \<leftarrow> roll_value m (rhh_next head);
     Some (head\<lparr>rhh_hash := ROLL_SHIFT1 (rhh_hash head) XOR v, rhh_next := rhh_next head + 1\<rparr>) }"

fun ROLL_NEXTN :: "mem \<Rightarrow> nat \<Rightarrow> roll_head \<Rightarrow> roll_head option" where
  "ROLL_NEXTN m 0 head = Some head"
| "ROLL_NEXTN m (Suc n) head = do { head \<leftarrow> ROLL_NEXT m head; ROLL_NEXTN m n head }"

definition ROLL_SHIFT :: "mem \<Rightarrow> roll_head \<Rightarrow> roll_head option" where
  "ROLL_SHIFT m head = do {
     let len = (rhh_next head - rhh_first head) mod 32;
     val \<leftarrow> roll_value m (rhh_first head);
     rot \<leftarrow> ROLL_SHIFTY val len;
     v \<leftarrow> roll_value m (rhh_next head);
     Some (head\<lparr>rhh_first := rhh_first head + 1,
       rhh_hash := ROLL_SHIFT1 (rhh_hash head) XOR rot XOR v,
       rhh_next := rhh_next head + 1\<rparr>) }"

fun ROLL_SHIFTN :: "mem \<Rightarrow> nat \<Rightarrow> roll_head \<Rightarrow> roll_head option" where
  "ROLL_SHIFTN m 0 head = Some head"
| "ROLL_SHIFTN m (Suc n) head = do { head \<leftarrow> ROLL_SHIFT m head; ROLL_SHIFTN m n head }"

definition hash_roll :: "mem \<Rightarrow> nat \<Rightarrow> u32 \<Rightarrow> u32 option" where
  "hash_roll m buf len = do {
     head \<leftarrow> ROLL_NEXTN m (unat len) (ROLL_INIT buf);
     Some (rhh_hash head) }"

section \<open>Rolling equals hashing the window\<close>

text \<open>The hash of a list of table values: each value is rotated by its distance from the end.\<close>

fun roll_list :: "u32 \<Rightarrow> u32 list \<Rightarrow> u32" where
  "roll_list h [] = h"
| "roll_list h (v # vs) = roll_list (ROLL_SHIFT1 h XOR v) vs"

lemma roll_list_append: "roll_list h (vs @ ws) = roll_list (roll_list h vs) ws"
  by (induction vs arbitrary: h) auto

lemma bit_beyond: "32 \<le> n \<Longrightarrow> \<not> bit (x :: u32) n"
  using bit_imp_le_length[of x n] by auto

lemma bit_shift1: "bit (ROLL_SHIFT1 x) n \<longleftrightarrow> n < 32 \<and> (if n = 0 then bit x 31 else bit x (n - 1))"
  unfolding ROLL_SHIFT1_def bit_or_iff bit_push_bit_iff bit_drop_bit_eq
  by (cases n) (auto simp: bit_beyond)

lemma shift1_xor: "ROLL_SHIFT1 (x XOR y) = ROLL_SHIFT1 x XOR ROLL_SHIFT1 y"
  by (rule bit_word_eqI) (auto simp: bit_shift1 bit_xor_iff)

lemma roll_list_xor: "roll_list (x XOR y) vs = (ROLL_SHIFT1 ^^ length vs) x XOR roll_list y vs"
proof (induction vs arbitrary: x y)
  case (Cons v vs)
  have "roll_list (x XOR y) (v # vs) = roll_list (ROLL_SHIFT1 x XOR (ROLL_SHIFT1 y XOR v)) vs"
    by (simp add: shift1_xor xor.assoc)
  then show ?case by (simp add: Cons.IH funpow_swap1)
qed simp

lemma bit_shift1_pow: "bit ((ROLL_SHIFT1 ^^ k) x) n \<longleftrightarrow> n < 32 \<and> bit x ((n + 31 * k) mod 32)"
proof (induction k arbitrary: n)
  case 0
  show ?case using bit_beyond[of n x] by (cases "n < 32") auto
next
  case (Suc k)
  have "((n - 1) + 31 * k) mod 32 = (n + 31 * Suc k) mod 32" if "0 < n" "n < 32"
  proof -
    have "n + 31 * Suc k = (n - 1) + 31 * k + 32" using that by simp
    then show ?thesis by (metis mod_add_self2)
  qed
  moreover have "(31 + 31 * k) mod 32 = (0 + 31 * Suc k) mod 32" by simp
  ultimately show ?case by (auto simp: bit_shift1 Suc.IH)
qed

lemma bit_shifty: "y < 32 \<Longrightarrow> n < 32 \<Longrightarrow> bit (push_bit y x OR drop_bit (32 - y) (x :: u32)) n \<longleftrightarrow> bit x ((n + (32 - y)) mod 32)"
  unfolding bit_or_iff bit_push_bit_iff bit_drop_bit_eq
  by (cases "y \<le> n") (auto simp: mod_if bit_beyond algebra_simps)

lemma shifty_eq_pow: "ROLL_SHIFTY x (k mod 32) = (if k mod 32 = 0 then None else Some ((ROLL_SHIFT1 ^^ k) x))"
proof -
  have "push_bit (k mod 32) x OR drop_bit (32 - k mod 32) x = (ROLL_SHIFT1 ^^ k) x"
  proof (rule bit_word_eqI)
  fix n assume "n < LENGTH(32)"
  then have n: "n < 32" by simp
  define q r where "q = k div 32" and "r = k mod 32"
  then have k: "k = 32 * q + r" "r < 32" by simp_all
  then have "n + 31 * k + 32 = (n + (32 - r)) + 32 * (31 * q + r)" by simp
  then have "(n + 31 * k) mod 32 = (n + (32 - k mod 32)) mod 32"
    unfolding r_def by (metis mod_add_self2 mod_mult_self2)
  with n show "bit (push_bit (k mod 32) x OR drop_bit (32 - k mod 32) x) n = bit ((ROLL_SHIFT1 ^^ k) x) n"
    by (simp add: bit_shifty bit_shift1_pow)
  qed
  then show ?thesis using mod_less_divisor[of 32 k] by (auto simp: ROLL_SHIFTY_def not_le)
qed

definition window :: "mem \<Rightarrow> nat \<Rightarrow> nat \<Rightarrow> u32 list" where
  "window m p n = map (\<lambda>b. hash_roll_values ! unat b) (take n (drop p m))"

lemma window_Suc: "p < length m \<Longrightarrow> window m p (Suc n) = (hash_roll_values ! unat (m ! p)) # window m (Suc p) n"
  by (simp add: window_def Cons_nth_drop_Suc[symmetric])

lemma window_snoc: "p + n < length m \<Longrightarrow> window m p (Suc n) = window m p n @ [hash_roll_values ! unat (m ! (p + n))]"
  by (simp add: window_def take_Suc_conv_app_nth)

lemma nextn_window:
  assumes "rhh_next head + n \<le> length m"
  shows "ROLL_NEXTN m n head = Some (head\<lparr>rhh_next := rhh_next head + n,
    rhh_hash := roll_list (rhh_hash head) (window m (rhh_next head) n)\<rparr>)"
  using assms
proof (induction n arbitrary: head)
  case 0
  then show ?case by (simp add: window_def)
next
  case (Suc n)
  then show ?case
    by (simp add: ROLL_NEXT_def roll_value_def load8_def window_Suc)
qed

lemma shift_window:
  assumes "p + n < length m" and "rhh_first head = p" "rhh_next head = p + n"
    and "rhh_hash head = roll_list 0 (window m p n)" and "n mod 32 \<noteq> 0"
  shows "ROLL_SHIFT m head = Some \<lparr>rhh_first = p + 1, rhh_next = p + 1 + n, rhh_hash = roll_list 0 (window m (p + 1) n)\<rparr>"
proof -
  let ?v = "hash_roll_values ! unat (m ! p)" and ?w = "hash_roll_values ! unat (m ! (p + n))"
  have "window m p n @ [?w] = ?v # window m (p + 1) n"
    using assms(1) window_snoc[of p n m] window_Suc[of p m n] by simp
  then have "roll_list 0 (window m p n @ [?w]) = roll_list (?v XOR 0) (window m (p + 1) n)"
    by (simp add: ROLL_SHIFT1_def)
  also have "\<dots> = (ROLL_SHIFT1 ^^ n) ?v XOR roll_list 0 (window m (p + 1) n)"
    using assms(1) roll_list_xor[of ?v 0 "window m (p + 1) n"] by (simp add: window_def)
  finally have "ROLL_SHIFT1 (rhh_hash head) XOR ?w = (ROLL_SHIFT1 ^^ n) ?v XOR roll_list 0 (window m (p + 1) n)"
    by (simp add: roll_list_append assms(4))
  then have "(ROLL_SHIFT1 ^^ n) ?v XOR (ROLL_SHIFT1 (rhh_hash head) XOR ?w) = roll_list 0 (window m (p + 1) n)"
    by (simp flip: xor.assoc)
  then have "ROLL_SHIFT1 (rhh_hash head) XOR (ROLL_SHIFT1 ^^ n) ?v XOR ?w = roll_list 0 (window m (p + 1) n)"
    by (simp only: xor.assoc xor.left_commute)
  with assms shifty_eq_pow[of _ n] show ?thesis
    by (simp add: ROLL_SHIFT_def roll_value_def load8_def)
qed

lemma shift_undefined: "(rhh_next head - rhh_first head) mod 32 = 0 \<Longrightarrow> ROLL_SHIFT m head = None"
  by (simp add: ROLL_SHIFT_def ROLL_SHIFTY_def bind_eq_None_conv)

text \<open>C29. Rolling pays off: starting from the hash of a window whose length is not a multiple of 32, \<open>ROLL_SHIFTN\<close>
  moves to the hash \<open>hash_roll\<close> computes for the shifted window, without reading outside the two windows. For a window whose
  length is a multiple of 32 the first step is undefined.\<close>

theorem roll_shift_equals_hash_roll:
  assumes "p + unat len + k \<le> length m"
  shows "do { head \<leftarrow> ROLL_NEXTN m (unat len) (ROLL_INIT p); head \<leftarrow> ROLL_SHIFTN m k head; Some (rhh_hash head) } =
    (if k = 0 \<or> unat len mod 32 \<noteq> 0 then hash_roll m (p + k) len else None) \<and> hash_roll m (p + k) len \<noteq> None"
proof -
  have shift: "ROLL_SHIFTN m k \<lparr>rhh_first = q, rhh_next = q + n, rhh_hash = roll_list 0 (window m q n)\<rparr> =
      Some \<lparr>rhh_first = q + k, rhh_next = q + k + n, rhh_hash = roll_list 0 (window m (q + k) n)\<rparr>"
    if "n mod 32 \<noteq> 0" "q + n + k \<le> length m" for q n k
    using that(2)
  proof (induction k arbitrary: q)
    case (Suc k)
    have "ROLL_SHIFT m \<lparr>rhh_first = q, rhh_next = q + n, rhh_hash = roll_list 0 (window m q n)\<rparr> =
        Some \<lparr>rhh_first = q + 1, rhh_next = q + 1 + n, rhh_hash = roll_list 0 (window m (q + 1) n)\<rparr>"
      using Suc.prems that(1) by (intro shift_window) auto
    with Suc.prems Suc.IH[of "q + 1"] show ?case by simp
  qed simp
  note facts = assms nextn_window[of "ROLL_INIT p" "unat len" m] nextn_window[of "ROLL_INIT (p + k)" "unat len" m]
  show ?thesis
  proof (cases "unat len mod 32 = 0")
    case False
    with facts shift[of "unat len" p k] show ?thesis by (simp add: hash_roll_def ROLL_INIT_def algebra_simps)
  next
    case True
    with facts shift_undefined[of "\<lparr>rhh_first = p, rhh_next = p + unat len, rhh_hash = roll_list 0 (window m p (unat len))\<rparr>" m]
    show ?thesis by (cases k) (simp_all add: hash_roll_def ROLL_INIT_def algebra_simps)
  qed
qed

theorem roll_shift_equals_hash_roll_witness:
  "do { head \<leftarrow> ROLL_NEXTN [1, 2, 3, 4, 5] (unat (3 :: u32)) (ROLL_INIT 0); head \<leftarrow> ROLL_SHIFTN [1, 2, 3, 4, 5] 2 head;
        Some (rhh_hash head) } = hash_roll [1, 2, 3, 4, 5] (0 + 2) 3"
  using roll_shift_equals_hash_roll[of 0 3 2 "[1, 2, 3, 4, 5]"] by simp

end
