(* ===== verification/Peak_Token.thy ===== *)
theory Peak_Token
  imports Peak_Prelude
begin

text \<open>
  The token bucket of \<open>src/include/peak_token.h\<close> and the clock of \<open>src/include/peak_timeslice.h\<close>.
  Their \<open>int64_t\<close> fields are integers; an operation whose result leaves the range of the type is
  undefined in C and \<open>None\<close> in the model of the bucket. \<open>localtime_r\<close> and \<open>gmtime_r\<close> are parameters of the
  clock, whose arithmetic on times is that of the integers (times within 292 years of the epoch).
\<close>

section \<open>Token bucket\<close>

definition i64 :: "int \<Rightarrow> int option" where
  "i64 x = (if - (2 ^ 63) \<le> x \<and> x < 2 ^ 63 then Some x else None)"

text \<open>C division truncates towards zero.\<close>

definition c_div :: "int \<Rightarrow> int \<Rightarrow> int" where
  "c_div x y = (if (x < 0) = (y < 0) then \<bar>x\<bar> div \<bar>y\<bar> else - (\<bar>x\<bar> div \<bar>y\<bar>))"

record peak_token =
  have_tokens :: int
  max_tokens :: int
  ts_ms :: int
  token_locked :: bool
  ref_count :: u32

definition peak_token_credit_nolock :: "peak_token \<Rightarrow> int \<Rightarrow> int \<Rightarrow> (bool \<times> peak_token) option" where
  "peak_token_credit_nolock self want ts = do {
     credit \<leftarrow> i64 (ts - ts_ms self);
     if max_tokens self = 0 then Some (True, self)
     else do {
       self \<leftarrow> (if credit > 0 then do {
           product \<leftarrow> i64 (credit * max_tokens self);
           sum \<leftarrow> i64 (have_tokens self + c_div product 1000);
           Some (self\<lparr>ts_ms := ts, have_tokens := (if sum > max_tokens self then max_tokens self else sum)\<rparr>) }
         else Some self);
       if want > 0 \<and> have_tokens self \<le> 0 then Some (False, self)
       else do {
         left \<leftarrow> i64 (have_tokens self - want);
         Some (True, self\<lparr>have_tokens := left\<rparr>) } } }"

definition peak_token_credit :: "peak_token \<Rightarrow> int \<Rightarrow> int \<Rightarrow> (bool \<times> peak_token) outcome option" where
  "peak_token_credit self want ts =
     (if token_locked self then Some Hang
      else do {
        (ret, self) \<leftarrow> peak_token_credit_nolock (self\<lparr>token_locked := True\<rparr>) want ts;
        Some (Return (ret, self\<lparr>token_locked := False\<rparr>)) })"

definition peak_token_inc :: "peak_token \<Rightarrow> u32 \<times> peak_token" where
  "peak_token_inc self = (ref_count self + 1, self\<lparr>ref_count := ref_count self + 1\<rparr>)"

definition peak_token_dec :: "peak_token \<Rightarrow> u32 \<times> peak_token" where
  "peak_token_dec self = (ref_count self - 1, self\<lparr>ref_count := ref_count self - 1\<rparr>)"

definition peak_token_init_nolock :: "peak_token \<Rightarrow> int \<Rightarrow> peak_token" where
  "peak_token_init_nolock self limit = self\<lparr>have_tokens := limit, max_tokens := limit, ts_ms := 0\<rparr>"

definition peak_token_init :: "peak_token \<Rightarrow> int \<Rightarrow> peak_token" where
  "peak_token_init self limit = peak_token_init_nolock (self\<lparr>token_locked := False\<rparr>) limit"

text \<open>A sequence of requests (tokens wanted, time stamp), and how much of them is granted.\<close>

fun token_run :: "peak_token \<Rightarrow> (int \<times> int) list \<Rightarrow> int \<Rightarrow> (int \<times> peak_token) outcome option" where
  "token_run self [] granted = Some (Return (granted, self))"
| "token_run self ((want, ts) # reqs) granted = do {
     r \<leftarrow> peak_token_credit self want ts;
     case r of
       Return (ok, self) \<Rightarrow> token_run self reqs (if ok then granted + want else granted)
     | Panic \<Rightarrow> Some Panic
     | Hang \<Rightarrow> Some Hang }"

text \<open>The bucket in normal use, with time stamps up to \<open>horizon\<close>: values for which \<open>credit * max\<close> cannot
  overflow.\<close>

abbreviation (input) "TOKEN_BOUND \<equiv> 2305843009213693952 :: int"

definition token_ok :: "int \<Rightarrow> peak_token \<Rightarrow> bool" where
  "token_ok horizon self \<longleftrightarrow> \<not> token_locked self \<and> 0 < max_tokens self \<and> max_tokens self \<le> TOKEN_BOUND \<and>
     horizon * max_tokens self \<le> TOKEN_BOUND \<and> horizon \<le> TOKEN_BOUND \<and> 0 \<le> ts_ms self \<and> ts_ms self \<le> horizon \<and>
     - TOKEN_BOUND \<le> have_tokens self \<and> have_tokens self \<le> max_tokens self"

definition request_ok :: "int \<Rightarrow> int \<Rightarrow> int \<times> int \<Rightarrow> bool" where
  "request_ok horizon w req \<longleftrightarrow> 0 \<le> fst req \<and> fst req \<le> w \<and> 0 \<le> snd req \<and> snd req \<le> horizon"

lemma i64_Some: "\<bar>x\<bar> \<le> 9223372036854775807 \<Longrightarrow> i64 x = Some x"
  by (simp add: i64_def abs_if split: if_splits)

text \<open>What a positive credit earns is computed without overflow.\<close>

lemma credit_earns:
  assumes "token_ok horizon self" and "ts \<le> horizon" and "0 < ts - ts_ms self"
  defines "p \<equiv> (ts - ts_ms self) * max_tokens self"
  shows "i64 p = Some p" "c_div p 1000 = p div 1000" "0 \<le> p div 1000"
    "i64 (have_tokens self + p div 1000) = Some (have_tokens self + p div 1000)"
proof -
  from assms(1) have b: "0 < max_tokens self" "max_tokens self \<le> TOKEN_BOUND" "horizon * max_tokens self \<le> TOKEN_BOUND"
    "0 \<le> ts_ms self" "- TOKEN_BOUND \<le> have_tokens self" "have_tokens self \<le> max_tokens self"
    by (simp_all add: token_ok_def)
  have "p \<le> horizon * max_tokens self" unfolding p_def using b assms(2) by (intro mult_right_mono) linarith+
  with b(3) have p: "p \<le> TOKEN_BOUND" "0 < p" using b(1) assms(3) by (linarith, simp add: p_def)
  then show "i64 p = Some p" by (intro i64_Some) linarith
  from p show "c_div p 1000 = p div 1000" by (simp add: c_div_def)
  from p have d: "0 \<le> p div 1000" "p div 1000 \<le> p" by linarith+
  then show "0 \<le> p div 1000" by simp
  from d p b show "i64 (have_tokens self + p div 1000) = Some (have_tokens self + p div 1000)"
    by (intro i64_Some) linarith
qed

text \<open>One request: what is granted is paid from the tokens earned since the last time stamp.\<close>

lemma credit_step:
  assumes "token_ok h self" and "request_ok h w (want, ts)" and "w \<le> TOKEN_BOUND"
  shows "\<exists>ok self'. peak_token_credit self want ts = Some (Return (ok, self')) \<and> token_ok h self' \<and>
    max_tokens self' = max_tokens self \<and> ts_ms self' = max ts (ts_ms self) \<and>
    have_tokens self' + (if ok then want else 0) \<le>
      have_tokens self + ((ts_ms self' - ts_ms self) * max_tokens self) div 1000 \<and>
    min (have_tokens self) (1 - w) \<le> have_tokens self'"
proof -
  let ?m = "max_tokens self" and ?c = "ts - ts_ms self"
  from assms have b: "0 < ?m" "?m \<le> TOKEN_BOUND" "0 \<le> ts_ms self" "ts_ms self \<le> h" "h \<le> TOKEN_BOUND"
    "- TOKEN_BOUND \<le> have_tokens self" "have_tokens self \<le> ?m" "\<not> token_locked self"
    "0 \<le> want" "want \<le> w" "0 \<le> ts" "ts \<le> h"
    by (simp_all add: token_ok_def request_ok_def)
  define sum where "sum = have_tokens self + (?c * ?m) div 1000"
  define tok where "tok = (if ?c > 0 then min sum ?m else have_tokens self)"
  have c: "i64 ?c = Some ?c" using b by (intro i64_Some) linarith
  note earn = credit_earns[OF assms(1) b(12)]
  have tok: "have_tokens self \<le> tok" "tok \<le> ?m"
    "tok \<le> have_tokens self + ((max ts (ts_ms self) - ts_ms self) * ?m) div 1000"
    using earn(3) b by (auto simp: tok_def sum_def max_def)
  let ?self' = "self\<lparr>have_tokens := (if want > 0 \<and> tok \<le> 0 then tok else tok - want), ts_ms := max ts (ts_ms self)\<rparr>"
  have i: "i64 (tok - want) = Some (tok - want)" using tok b assms(3) by (intro i64_Some) linarith
  have "peak_token_credit self want ts = Some (Return (\<not> (want > 0 \<and> tok \<le> 0), ?self'))"
  proof (cases "?c > 0")
    case True
    with earn[OF True] b c i show ?thesis
      by (auto simp: peak_token_credit_def peak_token_credit_nolock_def tok_def sum_def min_def max_def)
  next
    case False
    with b c i show ?thesis
      by (auto simp: peak_token_credit_def peak_token_credit_nolock_def tok_def max_def)
  qed
  moreover have "token_ok h ?self'" using assms(1) tok b assms(3) by (auto simp: token_ok_def)
  ultimately show ?thesis using tok b
    by (intro exI[of _ "\<not> (want > 0 \<and> tok \<le> 0)"] exI[of _ ?self']) auto
qed

text \<open>C30. The bucket limits the rate: for any sequence of requests of zero to \<open>w\<close> tokens, with time stamps in any order, the tokens
  granted are at most one full bucket, the tokens of the elapsed time (\<open>max\<close> per 1000 milliseconds), and \<open>w - 1\<close> tokens on credit or
  the debt the bucket starts with, whichever is more. The requests are all answered: as long as bucket, requests and time stamps
  keep within the bounds of \<open>token_ok\<close> and \<open>request_ok\<close>, no arithmetic overflows. Negative requests, which give tokens back, are not
  covered.\<close>

theorem token_rate_limit:
  assumes "token_ok h self" and "\<forall>req \<in> set reqs. request_ok h w req" and "1 \<le> w" "w \<le> TOKEN_BOUND"
  shows "\<exists>granted self'. token_run self reqs 0 = Some (Return (granted, self')) \<and> ts_ms self \<le> ts_ms self' \<and>
    granted \<le> max_tokens self + ((ts_ms self' - ts_ms self) * max_tokens self) div 1000 + max (w - 1) (- have_tokens self)"
proof -
  have run: "\<exists>granted self'. token_run self reqs g = Some (Return (granted, self')) \<and> ts_ms self \<le> ts_ms self' \<and>
      have_tokens self' + granted \<le> have_tokens self + g + ((ts_ms self' - ts_ms self) * max_tokens self) div 1000 \<and>
      min (have_tokens self) (1 - w) \<le> have_tokens self'"
    if "token_ok h self" "\<forall>req \<in> set reqs. request_ok h w req" for g
    using that
  proof (induction reqs arbitrary: self g)
    case (Cons req reqs)
    obtain want ts where req: "req = (want, ts)" by fastforce
    from credit_step[OF Cons.prems(1), of w want ts] Cons.prems(2) req assms(4) obtain ok s1 where
      s1: "peak_token_credit self want ts = Some (Return (ok, s1))" "token_ok h s1" "max_tokens s1 = max_tokens self"
      "ts_ms s1 = max ts (ts_ms self)"
      "have_tokens s1 + (if ok then want else 0) \<le> have_tokens self + ((ts_ms s1 - ts_ms self) * max_tokens self) div 1000"
      "min (have_tokens self) (1 - w) \<le> have_tokens s1" by auto
    from Cons.IH[OF s1(2), of "if ok then g + want else g"] Cons.prems(2) obtain granted s' where
      s': "token_run s1 reqs (if ok then g + want else g) = Some (Return (granted, s'))" "ts_ms s1 \<le> ts_ms s'"
      "have_tokens s' + granted \<le> have_tokens s1 + (if ok then g + want else g) +
         ((ts_ms s' - ts_ms s1) * max_tokens self) div 1000"
      "min (have_tokens s1) (1 - w) \<le> have_tokens s'" by (auto simp: s1(3))
    have "((ts_ms s1 - ts_ms self) * max_tokens self) div 1000 + ((ts_ms s' - ts_ms s1) * max_tokens self) div 1000
        \<le> ((ts_ms s1 - ts_ms self) * max_tokens self + (ts_ms s' - ts_ms s1) * max_tokens self) div 1000"
      by linarith
    also have "\<dots> = ((ts_ms s' - ts_ms self) * max_tokens self) div 1000" by (simp add: algebra_simps)
    finally have "have_tokens s' + granted \<le> have_tokens self + g + ((ts_ms s' - ts_ms self) * max_tokens self) div 1000"
      using s1(5) s'(3) by (auto split: if_splits)
    moreover have "min (have_tokens self) (1 - w) \<le> have_tokens s'" using s1(6) s'(4) by linarith
    ultimately show ?case using s1(1,4) s' by (auto simp: req)
  qed auto
  from run[OF assms(1,2), of 0] obtain granted self' where r: "token_run self reqs 0 = Some (Return (granted, self'))"
    "ts_ms self \<le> ts_ms self'"
    "have_tokens self' + granted \<le> have_tokens self + ((ts_ms self' - ts_ms self) * max_tokens self) div 1000"
    "min (have_tokens self) (1 - w) \<le> have_tokens self'" by auto
  moreover have "have_tokens self \<le> max_tokens self" "0 < max_tokens self" using assms(1) by (simp_all add: token_ok_def)
  ultimately show ?thesis by (intro exI[of _ granted] exI[of _ self']) auto
qed

theorem token_rate_limit_witness:
  "\<exists>granted self'. token_run (peak_token_init \<lparr>have_tokens = 0, max_tokens = 0, ts_ms = 0, token_locked = False, ref_count = 0\<rparr> 100)
     [(60, 10), (60, 20), (60, 500)] 0 = Some (Return (granted, self')) \<and>
     granted \<le> 100 + (ts_ms self' * 100) div 1000 + 59"
  using token_rate_limit[of 1000 "peak_token_init \<lparr>have_tokens = 0, max_tokens = 0, ts_ms = 0, token_locked = False, ref_count = 0\<rparr> 100"
      "[(60, 10), (60, 20), (60, 500)]" 60]
  by (auto simp: token_ok_def request_ok_def peak_token_init_def peak_token_init_nolock_def)

section \<open>Clock\<close>

record 'tm timeslice_t =
  tv_sec :: int
  tv_usec :: int
  mono_usec_off :: int
  mono_msec_off :: int
  mono_sec_off :: int
  mono_usec :: int
  mono_msec :: int
  mono_sec :: int
  local_tm :: 'tm
  gmt_tm :: 'tm
  time_sec :: int

text \<open>\<open>_TIMESLICE_RECALIBRATE(now, prev, off)\<close>: the new \<open>prev\<close> and \<open>off\<close>.\<close>

definition TIMESLICE_RECALIBRATE :: "int \<Rightarrow> int \<Rightarrow> int \<Rightarrow> int \<times> int" where
  "TIMESLICE_RECALIBRATE now prev off =
     (let off = (if now - off < prev then now - prev else off) in (now - off, off))"

definition TIMESLICE_ADVANCE ::
  "(int \<Rightarrow> 'tm) \<Rightarrow> (int \<Rightarrow> 'tm) \<Rightarrow> 'tm timeslice_t \<Rightarrow> int \<times> int \<Rightarrow> 'tm timeslice_t" where
  "TIMESLICE_ADVANCE localtime_r gmtime_r clock timeval =
     (let (sec, usec) = timeval;
          clock = clock\<lparr>tv_usec := usec, tv_sec := sec\<rparr>;
          clock = (if sec \<noteq> time_sec clock
            then clock\<lparr>time_sec := sec, local_tm := localtime_r sec, gmt_tm := gmtime_r sec\<rparr> else clock);
          (s, s_off) = TIMESLICE_RECALIBRATE sec (mono_sec clock) (mono_sec_off clock);
          (ms, ms_off) = TIMESLICE_RECALIBRATE (sec * 1000 + c_div usec 1000) (mono_msec clock) (mono_msec_off clock);
          (us, us_off) = TIMESLICE_RECALIBRATE (sec * 1000 * 1000 + usec) (mono_usec clock) (mono_usec_off clock)
      in clock\<lparr>mono_sec := s, mono_sec_off := s_off, mono_msec := ms, mono_msec_off := ms_off,
           mono_usec := us, mono_usec_off := us_off\<rparr>)"

definition TIMESLICE_CALIBRATE :: "'tm timeslice_t \<Rightarrow> int \<times> int \<Rightarrow> 'tm timeslice_t" where
  "TIMESLICE_CALIBRATE clock timeval =
     (let (sec, usec) = timeval in
      clock\<lparr>mono_sec_off := sec, mono_msec_off := sec * 1000 + c_div usec 1000,
        mono_usec_off := sec * 1000 * 1000 + usec\<rparr>)"

definition TIMESLICE_INIT :: "'tm \<Rightarrow> 'tm timeslice_t" where
  "TIMESLICE_INIT zero_tm = \<lparr>tv_sec = 0, tv_usec = 0, mono_usec_off = 0, mono_msec_off = 0, mono_sec_off = 0,
     mono_usec = 0, mono_msec = 0, mono_sec = 0, local_tm = zero_tm, gmt_tm = zero_tm, time_sec = 0\<rparr>"

lemma recalibrate_mono: "prev \<le> fst (TIMESLICE_RECALIBRATE now prev off)"
  by (simp add: TIMESLICE_RECALIBRATE_def)

lemma recalibrate_forward:
  "TIMESLICE_RECALIBRATE now prev off = (p, o1) \<Longrightarrow> now \<le> now' \<Longrightarrow>
     TIMESLICE_RECALIBRATE now' p o1 = (p + (now' - now), o1)"
  by (auto simp: TIMESLICE_RECALIBRATE_def Let_def split: if_splits)

lemma advance_mono_usec:
  "mono_usec (TIMESLICE_ADVANCE lt gt clock (sec, usec)) =
     fst (TIMESLICE_RECALIBRATE (sec * 1000 * 1000 + usec) (mono_usec clock) (mono_usec_off clock))"
  "mono_usec_off (TIMESLICE_ADVANCE lt gt clock (sec, usec)) =
     snd (TIMESLICE_RECALIBRATE (sec * 1000 * 1000 + usec) (mono_usec clock) (mono_usec_off clock))"
  by (simp_all add: TIMESLICE_ADVANCE_def Let_def split_beta)

text \<open>The clock is monotonic whatever time stamps arrive: none of its three resolutions ever goes back,
  and between two stamps that do not go back it advances by exactly their difference, also after an
  earlier jump backwards was absorbed.\<close>

lemma timeslice_monotonic:
  fixes clock :: "'tm timeslice_t" and tv1 tv2 :: "int \<times> int" and lt gt :: "int \<Rightarrow> 'tm"
  defines "c1 \<equiv> TIMESLICE_ADVANCE lt gt clock tv1"
  defines "c2 \<equiv> TIMESLICE_ADVANCE lt gt c1 tv2"
  shows "mono_sec clock \<le> mono_sec c1 \<and> mono_msec clock \<le> mono_msec c1 \<and> mono_usec clock \<le> mono_usec c1 \<and>
    (fst tv1 * 1000000 + snd tv1 \<le> fst tv2 * 1000000 + snd tv2 \<longrightarrow>
       mono_usec c2 - mono_usec c1 = (fst tv2 * 1000000 + snd tv2) - (fst tv1 * 1000000 + snd tv1))"
proof -
  obtain s1 u1 s2 u2 where tv: "tv1 = (s1, u1)" "tv2 = (s2, u2)" by fastforce
  have "mono_sec clock \<le> mono_sec c1" "mono_msec clock \<le> mono_msec c1" "mono_usec clock \<le> mono_usec c1"
    unfolding c1_def TIMESLICE_ADVANCE_def tv Let_def split_beta by (simp_all add: recalibrate_mono)
  moreover have "mono_usec c2 - mono_usec c1 = (s2 * 1000000 + u2) - (s1 * 1000000 + u1)"
    if "s1 * 1000000 + u1 \<le> s2 * 1000000 + u2"
    using recalibrate_forward[of "s1 * 1000 * 1000 + u1" "mono_usec clock" "mono_usec_off clock" "mono_usec c1" "mono_usec_off c1"
        "s2 * 1000 * 1000 + u2"] that
    by (simp add: c2_def c1_def tv advance_mono_usec prod_eq_iff)
  ultimately show ?thesis by (simp add: tv)
qed

lemma timeslice_monotonic_witness:
  "mono_usec (TIMESLICE_ADVANCE id id (TIMESLICE_ADVANCE id id (TIMESLICE_INIT 0) (5, 0)) (5, 7)) -
     mono_usec (TIMESLICE_ADVANCE id id (TIMESLICE_INIT 0) (5, 0)) = 7"
  using timeslice_monotonic[of "TIMESLICE_INIT 0" id id "(5, 0)" "(5, 7)"] by simp

end
