(* ===== verification/Peak_Stash.thy ===== *)
theory Peak_Stash
  imports Peak_Prelude
begin

text \<open>
  The bounded array of \<open>src/include/peak_stash.h\<close>, into which the matchers push their results. A pointer to
  an element is its index; reading or writing outside \<open>values\<close> is \<open>None\<close>. \<open>qsort(3)\<close> is a parameter of
  \<open>STASH_SORT\<close>. The locale \<open>result_sink\<close> is what the matchers rely on: a push appends while there is room
  and is dropped otherwise.
\<close>

record 'a stash =
  stash_index :: u32
  stash_size :: u32
  stash_values :: "'a list"

definition STASH_DECLARE :: "u32 \<Rightarrow> 'a list \<Rightarrow> 'a stash" where
  "STASH_DECLARE n vs = \<lparr>stash_index = 0, stash_size = n, stash_values = vs\<rparr>"

definition STASH_FULL :: "'a stash \<Rightarrow> bool" where
  "STASH_FULL name \<longleftrightarrow> stash_index name \<ge> stash_size name"

definition STASH_EMPTY :: "'a stash \<Rightarrow> bool" where
  "STASH_EMPTY name \<longleftrightarrow> stash_index name = 0"

definition STASH_COUNT :: "'a stash \<Rightarrow> u32" where
  "STASH_COUNT name = stash_index name"

definition STASH_CLEAR :: "'a stash \<Rightarrow> 'a stash" where
  "STASH_CLEAR name = name\<lparr>stash_index := 0\<rparr>"

definition STASH_PUSH :: "'a \<Rightarrow> 'a stash \<Rightarrow> (nat option \<times> 'a stash) option" where
  "STASH_PUSH x name =
     (if \<not> STASH_FULL name then
        let i = unat (stash_index name) in
        if i < length (stash_values name)
        then Some (Some i, name\<lparr>stash_index := stash_index name + 1, stash_values := (stash_values name)[i := x]\<rparr>)
        else None
      else Some (None, name))"

definition STASH_POP :: "'a stash \<Rightarrow> nat option \<times> 'a stash" where
  "STASH_POP name =
     (if \<not> STASH_EMPTY name
      then (Some (unat (stash_index name - 1)), name\<lparr>stash_index := stash_index name - 1\<rparr>)
      else (None, name))"

text \<open>The loops visit elements by a moving pointer; the model returns what they visit, in order.\<close>

function stash_up :: "'a list \<Rightarrow> nat \<Rightarrow> nat \<Rightarrow> 'a list option" where
  "stash_up vs i n =
     (if i < n then
        (if i < length vs then do { rest \<leftarrow> stash_up vs (Suc i) n; Some (vs ! i # rest) } else None)
      else Some [])"
  by pat_completeness auto
termination by (relation "measure (\<lambda>(vs, i, n). n - i)") auto

fun stash_down :: "'a list \<Rightarrow> nat \<Rightarrow> 'a list option" where
  "stash_down vs 0 = Some []"
| "stash_down vs (Suc i) =
     (if i < length vs then do { rest \<leftarrow> stash_down vs i; Some (vs ! i # rest) } else None)"

definition STASH_FOREACH :: "'a stash \<Rightarrow> 'a list option" where
  "STASH_FOREACH name =
     (if \<not> STASH_EMPTY name then stash_up (stash_values name) 0 (unat (STASH_COUNT name)) else Some [])"

definition STASH_FOREACH_REVERSE :: "'a stash \<Rightarrow> 'a list option" where
  "STASH_FOREACH_REVERSE name =
     (if \<not> STASH_EMPTY name then stash_down (stash_values name) (unat (STASH_COUNT name)) else Some [])"

definition STASH_SORT :: "('a list \<Rightarrow> 'a list) \<Rightarrow> 'a stash \<Rightarrow> 'a stash" where
  "STASH_SORT qsort name =
     (let n = unat (STASH_COUNT name)
      in name\<lparr>stash_values := qsort (take n (stash_values name)) @ drop n (stash_values name)\<rparr>)"

section \<open>Contents and invariant\<close>

definition stash_ok :: "'a stash \<Rightarrow> bool" where
  "stash_ok s \<longleftrightarrow> stash_index s \<le> stash_size s \<and> unat (stash_size s) = length (stash_values s)"

definition stash_list :: "'a stash \<Rightarrow> 'a list" where
  "stash_list s = take (unat (stash_index s)) (stash_values s)"

definition stash_cap :: "'a stash \<Rightarrow> nat" where
  "stash_cap s = length (stash_values s)"

declare stash_up.simps [simp del]

lemma stash_ok_index: "stash_ok s \<Longrightarrow> unat (stash_index s) \<le> length (stash_values s)"
  by (auto simp: stash_ok_def word_le_nat_alt)

lemma stash_list_length: "stash_ok s \<Longrightarrow> length (stash_list s) = unat (stash_index s)"
  using stash_ok_index[of s] by (simp add: stash_list_def)

lemma stash_index_inc:
  assumes "stash_index s < stash_size s"
  shows "unat (stash_index s + 1) = Suc (unat (stash_index s))"
proof -
  have "unat (stash_index s) < unat (stash_size s)" "unat (stash_size s) < 2 ^ 32"
    using assms unsigned_less[of "stash_size s"] by (simp_all add: word_less_nat_alt)
  then show ?thesis by (simp add: unat_word_ariths)
qed

lemma stash_push:
  assumes "stash_ok s"
  shows "\<exists>r s'. STASH_PUSH x s = Some (r, s') \<and> stash_ok s' \<and> stash_cap s' = stash_cap s \<and>
    stash_list s' = take (stash_cap s) (stash_list s @ [x])"
proof (cases "stash_index s < stash_size s")
  case True
  then have i: "unat (stash_index s) < length (stash_values s)" using assms by (auto simp: stash_ok_def word_less_nat_alt)
  have "stash_index s + 1 \<le> stash_size s" using True inc_le by blast
  moreover have "take (Suc (unat (stash_index s))) ((stash_values s)[unat (stash_index s) := x]) = stash_list s @ [x]"
    using i by (simp add: take_Suc_conv_app_nth stash_list_def)
  ultimately show ?thesis using True assms i stash_index_inc[OF True] stash_list_length[OF assms]
    by (auto simp: STASH_PUSH_def STASH_FULL_def stash_ok_def stash_list_def stash_cap_def Let_def)
next
  case False
  then have "unat (stash_index s) = length (stash_values s)"
    using assms by (auto simp: stash_ok_def dest: order_antisym)
  then have "take (stash_cap s) (stash_list s @ [x]) = stash_list s" by (simp add: stash_list_def stash_cap_def)
  with False assms show ?thesis by (auto simp: STASH_PUSH_def STASH_FULL_def)
qed

lemma stash_up_visits: "i \<le> n \<Longrightarrow> n \<le> length vs \<Longrightarrow> stash_up vs i n = Some (drop i (take n vs))"
proof (induction vs i n rule: stash_up.induct)
  case (1 vs i n)
  show ?case
  proof (cases "i < n")
    case True
    with 1 show ?thesis by (subst stash_up.simps) (simp add: Cons_nth_drop_Suc[symmetric])
  next
    case False
    with 1 show ?thesis by (subst stash_up.simps) simp
  qed
qed

lemma stash_down_visits: "n \<le> length vs \<Longrightarrow> stash_down vs n = Some (rev (take n vs))"
  by (induction n) (auto simp: take_Suc_conv_app_nth)

lemma stash_clear: "stash_ok s \<Longrightarrow> stash_ok (STASH_CLEAR s) \<and> stash_list (STASH_CLEAR s) = []"
  by (simp add: stash_ok_def STASH_CLEAR_def stash_list_def)

lemma stash_declare: "unat n = length vs \<Longrightarrow> stash_ok (STASH_DECLARE n vs) \<and> stash_list (STASH_DECLARE n vs) = []"
  by (simp add: stash_ok_def STASH_DECLARE_def stash_list_def)

text \<open>\<open>STASH_POP\<close> removes the last element; the pointer it returns still reaches it.\<close>

lemma stash_pop:
  assumes "stash_ok s" and "stash_list s = xs @ [x]"
  shows "\<exists>i s'. STASH_POP s = (Some i, s') \<and> stash_ok s' \<and> stash_list s' = xs \<and> stash_values s' ! i = x \<and>
    stash_cap s' = stash_cap s \<and> i < stash_cap s"
proof -
  let ?i = "stash_index s - 1"
  have len: "unat (stash_index s) = Suc (length xs)" using stash_list_length[OF assms(1)] assms(2) by simp
  then have nz: "stash_index s \<noteq> 0" by auto
  then have i: "unat ?i = length xs" using len by (simp add: unat_minus_one)
  have bound: "Suc (length xs) \<le> length (stash_values s)" using stash_ok_index[OF assms(1)] len by simp
  have "take (Suc (length xs)) (stash_values s) = xs @ [x]" using assms(2) len by (simp add: stash_list_def)
  with bound have "take (length xs) (stash_values s) = xs" "stash_values s ! length xs = x"
    by (simp_all add: take_Suc_conv_app_nth)
  moreover have "?i \<le> stash_size s"
    using assms(1) i len by (simp add: stash_ok_def word_le_nat_alt)
  ultimately show ?thesis using assms(1) nz i bound
    by (simp add: STASH_POP_def STASH_EMPTY_def stash_ok_def stash_list_def stash_cap_def)
qed

lemma take_append_cong:
  assumes "take n xs = take n ys"
  shows "take n (xs @ zs) = take n (ys @ zs)"
proof (cases "n \<le> length xs")
  case True
  have "min n (length xs) = min n (length ys)" using arg_cong[OF assms, of length] by (simp add: min.commute)
  with assms True show ?thesis by simp
next
  case False
  have "min n (length xs) = min n (length ys)" using arg_cong[OF assms, of length] by (simp add: min.commute)
  with assms False show ?thesis by simp
qed

section \<open>The interface of the matchers\<close>

locale result_sink =
  fixes push :: "'a \<Rightarrow> 's \<Rightarrow> 's option" and content :: "'s \<Rightarrow> 'a list" and cap :: "'s \<Rightarrow> nat" and ok :: "'s \<Rightarrow> bool"
  assumes push_appends: "ok s \<Longrightarrow>
    \<exists>s'. push x s = Some s' \<and> ok s' \<and> cap s' = cap s \<and> content s' = take (cap s) (content s @ [x])"
begin

definition takes :: "'s \<Rightarrow> 'a list \<Rightarrow> 's \<Rightarrow> bool" where
  "takes s xs s' \<longleftrightarrow> ok s' \<and> cap s' = cap s \<and> take (cap s) (content s') = take (cap s) (content s @ xs)"

lemma takes_refl: "ok s \<Longrightarrow> takes s [] s"
  by (simp add: takes_def)

lemma takes_trans: "takes s xs s1 \<Longrightarrow> takes s1 ys s2 \<Longrightarrow> takes s (xs @ ys) s2"
  using take_append_cong[of "cap s" "content s1" "content s @ xs" ys] by (simp add: takes_def)

lemma push_takes: "ok s \<Longrightarrow> \<exists>s'. push x s = Some s' \<and> takes s [x] s'"
  using push_appends[of s x] by (auto simp: takes_def simp del: take_append)

lemma takes_ok: "takes s xs s' \<Longrightarrow> ok s'"
  by (simp add: takes_def)

text \<open>A matcher that pushes only when a condition holds.\<close>

lemma push_if_takes:
  "ok s \<Longrightarrow> \<exists>s'. (if b then push x s else Some s) = Some s' \<and> takes s (if b then [x] else []) s'"
  using push_takes[of s x] takes_refl[of s] by auto

end

text \<open>A push whose returned pointer is ignored, as in the matchers.\<close>

definition stash_push_result :: "'a \<Rightarrow> 'a stash \<Rightarrow> 'a stash option" where
  "stash_push_result x s = map_option snd (STASH_PUSH x s)"

interpretation stash: result_sink stash_push_result stash_list stash_cap stash_ok
proof
  fix s :: "'a stash" and x
  assume "stash_ok s"
  from stash_push[OF this, of x] show "\<exists>s'. stash_push_result x s = Some s' \<and> stash_ok s' \<and> stash_cap s' = stash_cap s \<and>
      stash_list s' = take (stash_cap s) (stash_list s @ [x])"
    by (auto simp: stash_push_result_def)
qed

lemma stash_takes_list:
  assumes "stash_ok s" "stash.takes s xs s'"
  shows "stash_list s' = take (stash_cap s) (stash_list s @ xs)"
proof -
  have "length (stash_list s') \<le> stash_cap s'" by (simp add: stash_list_def stash_cap_def)
  with assms(2) show ?thesis by (simp add: stash.takes_def)
qed

section \<open>Properties\<close>

text \<open>A stash is a bounded stack: pushing onto a stash with room stores the element behind the others,
  the loops visit the elements oldest first and newest first, and popping returns the element pushed
  last and leaves the stash as it was before.\<close>

lemma stash_is_stack:
  assumes "stash_ok s" and "\<not> STASH_FULL s"
  shows "\<exists>i s' s''. STASH_PUSH x s = Some (Some i, s') \<and>
    STASH_FOREACH s' = Some (stash_list s @ [x]) \<and> STASH_FOREACH_REVERSE s' = Some (x # rev (stash_list s)) \<and>
    STASH_POP s' = (Some i, s'') \<and> stash_values s'' ! i = x \<and> stash_ok s'' \<and> stash_list s'' = stash_list s"
proof -
  from stash_push[OF assms(1), of x] obtain r s' where s': "STASH_PUSH x s = Some (r, s')" "stash_ok s'"
    "stash_cap s' = stash_cap s" "stash_list s' = take (stash_cap s) (stash_list s @ [x])" by blast
  have lt: "unat (stash_index s) < stash_cap s"
    using assms by (auto simp: STASH_FULL_def stash_ok_def stash_cap_def not_le word_less_nat_alt)
  then have l': "stash_list s' = stash_list s @ [x]" using s'(4) stash_list_length[OF assms(1)] by simp
  have r: "r = Some (unat (stash_index s))"
    using s'(1) assms(2) by (auto simp: STASH_PUSH_def Let_def split: if_splits)
  from stash_pop[OF s'(2) l'] obtain i s'' where p: "STASH_POP s' = (Some i, s'')" "stash_ok s''"
    "stash_list s'' = stash_list s" "stash_values s'' ! i = x" by blast
  have n: "unat (stash_index s') = Suc (unat (stash_index s))"
    using stash_list_length[OF s'(2)] stash_list_length[OF assms(1)] l' by simp
  then have nz: "stash_index s' \<noteq> 0" by auto
  with p(1) n have "i = unat (stash_index s)" by (auto simp: STASH_POP_def STASH_EMPTY_def unat_minus_one)
  moreover have "STASH_FOREACH s' = Some (stash_list s')" "STASH_FOREACH_REVERSE s' = Some (rev (stash_list s'))"
    using nz stash_ok_index[OF s'(2)]
    by (simp_all add: STASH_FOREACH_def STASH_FOREACH_REVERSE_def STASH_EMPTY_def STASH_COUNT_def
        stash_up_visits stash_down_visits stash_list_def)
  ultimately show ?thesis using s'(1) r p l' by auto
qed

theorem stash_is_stack_witness:
  "\<exists>i s' s''. STASH_PUSH (7 :: u32) (STASH_DECLARE 2 [0, 0]) = Some (Some i, s') \<and>
    STASH_FOREACH s' = Some [7] \<and> STASH_FOREACH_REVERSE s' = Some [7] \<and>
    STASH_POP s' = (Some i, s'') \<and> stash_values s'' ! i = 7 \<and> stash_ok s'' \<and> stash_list s'' = []"
  using stash_is_stack[of "STASH_DECLARE 2 [0, 0]" "7 :: u32"]
  by (simp add: STASH_DECLARE_def stash_ok_def STASH_FULL_def stash_list_def)

end
