(* ===== verification/Peak_Page.thy ===== *)
theory Peak_Page
  imports Peak_Prelude
begin

text \<open>
  The page lists of \<open>src/include/peak_page.h\<close>: a chain of arrays of at most \<open>num\<close> elements that together
  form one sorted list. A page is the list of its first \<open>count\<close> elements, the chain through \<open>moar\<close> the list
  of its pages, the \<open>NULL\<close> root the empty chain; a pointer to an element is its page number and its
  position there. Reading an element that no page holds is \<open>None\<close>. \<open>alloc\<close> tells whether the call of
  \<open>alloc_fun\<close> that an insertion makes returns memory.
\<close>

type_synonym 'a pages = "'a list list"

definition page_elem :: "'a list \<Rightarrow> nat \<Rightarrow> 'a option" where
  "page_elem p i = (if i < length p then Some (p ! i) else None)"

definition page_at :: "'a pages \<Rightarrow> nat \<times> nat \<Rightarrow> 'a option" where
  "page_at root loc = (if fst loc < length root then page_elem (root ! fst loc) (snd loc) else None)"

section \<open>Traversal\<close>

definition PAGE_MIN :: "'a pages \<Rightarrow> (nat \<times> nat) option" where
  "PAGE_MIN root = (if root \<noteq> [] then Some (0, 0) else None)"

definition PAGE_MAX :: "'a pages \<Rightarrow> (nat \<times> nat) option" where
  "PAGE_MAX root =
     (if root \<noteq> [] then Some (length root - 1, length (last root) - 1) else None)"

definition PAGE_NEXT :: "'a pages \<Rightarrow> nat \<times> nat \<Rightarrow> (nat \<times> nat) option" where
  "PAGE_NEXT root loc =
     (let (k, i) = loc in
      if i < length (root ! k) - 1 then Some (k, i + 1)
      else if k + 1 < length root then Some (k + 1, 0) else None)"

text \<open>\<open>PAGE_FOREACH\<close> as the list of the elements it visits from a position on; each step is one
  \<open>PAGE_NEXT\<close>, so the number of elements is fuel enough.\<close>

fun page_walk :: "nat \<Rightarrow> 'a pages \<Rightarrow> (nat \<times> nat) option \<Rightarrow> 'a list option" where
  "page_walk n root None = Some []"
| "page_walk 0 root (Some loc) = None"
| "page_walk (Suc n) root (Some loc) = do {
     x \<leftarrow> page_at root loc;
     xs \<leftarrow> page_walk n root (PAGE_NEXT root loc);
     Some (x # xs) }"

definition PAGE_FOREACH :: "'a pages \<Rightarrow> 'a list option" where
  "PAGE_FOREACH root = page_walk (length (concat root)) root (PAGE_MIN root)"

section \<open>Search\<close>

fun find_scan :: "('a \<Rightarrow> 'a \<Rightarrow> int) \<Rightarrow> 'a \<Rightarrow> 'a list \<Rightarrow> nat option" where
  "find_scan cmp_fun x [] = None"
| "find_scan cmp_fun x (y # ys) = (if cmp_fun x y = 0 then Some 0 else map_option Suc (find_scan cmp_fun x ys))"

fun PAGE_FIND :: "('a \<Rightarrow> 'a \<Rightarrow> int) \<Rightarrow> 'a \<Rightarrow> 'a pages \<Rightarrow> (nat \<times> nat) option option" where
  "PAGE_FIND cmp_fun x [] = Some None"
| "PAGE_FIND cmp_fun x (page # moar) = do {
     y \<leftarrow> page_elem page 0;
     if cmp_fun x y < 0 then Some None
     else do {
       z \<leftarrow> page_elem page (length page - 1);
       if cmp_fun x z > 0 then map_option (map_option (apfst Suc)) (PAGE_FIND cmp_fun x moar)
       else Some (map_option (Pair 0) (find_scan cmp_fun x page)) } }"

section \<open>Insertion\<close>

text \<open>The first element that is not smaller: whether it is equal, and where it is.\<close>

fun insert_scan :: "('a \<Rightarrow> 'a \<Rightarrow> int) \<Rightarrow> 'a \<Rightarrow> 'a list \<Rightarrow> (bool \<times> nat) option" where
  "insert_scan cmp_fun x [] = None"
| "insert_scan cmp_fun x (y # ys) =
     (if cmp_fun x y = 0 then Some (True, 0)
      else if cmp_fun x y < 0 then Some (False, 0)
      else map_option (apsnd Suc) (insert_scan cmp_fun x ys))"

fun insert_search :: "('a \<Rightarrow> 'a \<Rightarrow> int) \<Rightarrow> 'a \<Rightarrow> 'a pages \<Rightarrow> (bool \<times> nat \<times> nat) option option" where
  "insert_search cmp_fun x [] = Some None"
| "insert_search cmp_fun x (page # moar) = do {
     y \<leftarrow> page_elem page 0;
     if cmp_fun x y < 0 then Some (Some (False, 0, 0))
     else do {
       z \<leftarrow> page_elem page (length page - 1);
       if cmp_fun x z > 0 then map_option (map_option (apsnd (apfst Suc))) (insert_search cmp_fun x moar)
       else Some (map_option (apsnd (Pair 0)) (insert_scan cmp_fun x page)) } }"

text \<open>Moving the tail of a page by one and storing the element; the page must have room.\<close>

definition page_put :: "nat \<Rightarrow> 'a \<Rightarrow> nat \<Rightarrow> 'a list \<Rightarrow> 'a list option" where
  "page_put num x pos page =
     (if pos \<le> length page \<and> length page < num then Some (take pos page @ x # drop pos page) else None)"

text \<open>Insertion at a known place, with the biased split of a full page.\<close>

definition page_place ::
  "nat \<Rightarrow> bool \<Rightarrow> 'a \<Rightarrow> nat \<Rightarrow> nat \<Rightarrow> 'a pages \<Rightarrow> ((nat \<times> nat) option \<times> 'a pages) option" where
  "page_place num alloc x k pos root =
     (let page = root ! k; split = (num + 1) div 2 in
      if length page = num then
        (if alloc then
           (if pos \<ge> split then do {
              let new = take (num - split) (drop split page);
              let page = take split page;
              new \<leftarrow> page_put num x (pos - split) new;
              Some (Some (k + 1, pos - split), take k root @ page # new # drop (k + 1) root) }
            else do {
              let new = take split (drop (num - split) page);
              let page = take (num - split) page;
              page \<leftarrow> page_put num x pos page;
              Some (Some (k, pos), take k root @ page # new # drop (k + 1) root) })
         else Some (None, root))
      else do {
        page \<leftarrow> page_put num x pos page;
        Some (Some (k, pos), root[k := page]) })"

definition PAGE_INSERT ::
  "nat \<Rightarrow> ('a \<Rightarrow> 'a \<Rightarrow> int) \<Rightarrow> bool \<Rightarrow> 'a \<Rightarrow> 'a pages \<Rightarrow> ((nat \<times> nat) option \<times> 'a pages) option" where
  "PAGE_INSERT num cmp_fun alloc x root = do {
     found \<leftarrow> insert_search cmp_fun x root;
     case found of
       Some (True, loc) \<Rightarrow> Some (Some loc, root)
     | Some (False, k, pos) \<Rightarrow> page_place num alloc x k pos root
     | None \<Rightarrow>
         (if root \<noteq> [] then page_place num alloc x (length root - 1) (length (last root)) root
          else if alloc then do { page \<leftarrow> page_put num x 0 []; Some (Some (0, 0), [page]) }
          else Some (None, root)) }"

text \<open>\<open>PAGE_COLLAPSE\<close> frees page after page: the pages freed, in order, and the new root.\<close>

fun PAGE_COLLAPSE :: "'a pages \<Rightarrow> 'a list list \<times> 'a pages" where
  "PAGE_COLLAPSE [] = ([], [])"
| "PAGE_COLLAPSE (page # moar) = (let (freed, root) = PAGE_COLLAPSE moar in (page # freed, root))"

section \<open>Splitting and placing\<close>

definition pages_shape :: "nat \<Rightarrow> 'a pages \<Rightarrow> bool" where
  "pages_shape num root \<longleftrightarrow> (\<forall>p \<in> set root. p \<noteq> [] \<and> length p \<le> num)"

lemma page_put_middle:
  "length as + length bs < num \<Longrightarrow> page_put num x (length as) (as @ bs) = Some (as @ x # bs)"
  by (simp add: page_put_def)

lemma page_at_middle [simp]: "page_at (Ps @ (as @ x # bs) # Qs) (length Ps, length as) = Some x"
  by (simp add: page_at_def page_elem_def)

text \<open>Placing an element between \<open>as\<close> and \<open>bs\<close> of one page.\<close>

lemma page_place_middle:
  assumes "0 < num" and "pages_shape num (Ps @ (as @ bs) # Qs)"
    and "alloc \<or> length (as @ bs) < num"
  shows "\<exists>loc root'. page_place num alloc x (length Ps) (length as) (Ps @ (as @ bs) # Qs) = Some (Some loc, root') \<and>
    page_at root' loc = Some x \<and> pages_shape num root' \<and> concat root' = concat Ps @ as @ x # bs @ concat Qs"
proof (cases "length (as @ bs) = num")
  case False
  with assms have len: "length as + length bs < num" by (auto simp: pages_shape_def)
  let ?root' = "Ps @ (as @ x # bs) # Qs"
  have "page_place num alloc x (length Ps) (length as) (Ps @ (as @ bs) # Qs) = Some (Some (length Ps, length as), ?root')"
    using False page_put_middle[OF len] by (simp add: page_place_def)
  moreover have "pages_shape num ?root'" using assms(2) len by (auto simp: pages_shape_def)
  ultimately show ?thesis by auto
next
  case full: True
  with assms have alloc: alloc by simp
  let ?s = "(num + 1) div 2"
  show ?thesis
  proof (cases "length as \<ge> ?s")
    case True
    let ?p = "take ?s as" and ?q = "drop ?s as"
    let ?root' = "Ps @ ?p # (?q @ x # bs) # Qs"
    have put: "page_put num x (length as - ?s) (?q @ bs) = Some (?q @ x # bs)"
      using page_put_middle[of ?q bs num x] full True assms(1) by auto
    have new: "take (num - ?s) (drop ?s (as @ bs)) = ?q @ bs" using full True by simp
    have "page_place num alloc x (length Ps) (length as) (Ps @ (as @ bs) # Qs) =
        Some (Some (length Ps + 1, length as - ?s), ?root')"
      using full alloc True put new by (simp add: page_place_def Let_def)
    moreover have "page_at ?root' (length Ps + 1, length as - ?s) = Some x"
      using page_at_middle[of "Ps @ [?p]" ?q x bs Qs] by simp
    moreover have "pages_shape num ?root'"
    proof -
      have s: "0 < ?s" "?s \<le> num" using assms(1) by linarith+
      then have "?p \<noteq> []" "length ?p \<le> num" "length (?q @ x # bs) \<le> num" using full True by auto
      with assms(2) show ?thesis by (auto simp: pages_shape_def simp del: length_append)
    qed
    moreover have "concat ?root' = concat Ps @ as @ x # bs @ concat Qs" by simp
    ultimately show ?thesis by blast
  next
    case False
    then have le: "length as \<le> num - ?s" by linarith
    let ?n = "num - ?s - length as"
    let ?p = "take ?n bs" and ?q = "drop ?n bs"
    let ?root' = "Ps @ (as @ x # ?p) # ?q # Qs"
    have put: "page_put num x (length as) (as @ ?p) = Some (as @ x # ?p)"
      using page_put_middle[of as ?p num x] full False le assms(1) by auto
    have page: "take (num - ?s) (as @ bs) = as @ ?p" using le by simp
    have new: "take ?s (drop (num - ?s) (as @ bs)) = ?q" using full le by simp
    have "page_place num alloc x (length Ps) (length as) (Ps @ (as @ bs) # Qs) =
        Some (Some (length Ps, length as), ?root')"
      using full alloc False put page new by (simp add: page_place_def Let_def)
    moreover have "pages_shape num ?root'"
      using assms(1,2) full False le by (auto simp: pages_shape_def)
    moreover have "concat ?root' = concat Ps @ as @ x # bs @ concat Qs"
    proof -
      have "concat ?root' = concat Ps @ as @ x # (?p @ ?q) @ concat Qs" by simp
      then show ?thesis by (simp only: append_take_drop_id)
    qed
    ultimately show ?thesis using page_at_middle[of Ps as x ?p "?q # Qs"] by blast
  qed
qed

lemma page_place_no_memory:
  "length (as @ bs) = num \<Longrightarrow> page_place num False x (length Ps) (length as) (Ps @ (as @ bs) # Qs) =
     Some (None, Ps @ (as @ bs) # Qs)"
  by (simp add: page_place_def)

section \<open>Traversal visits the elements in order\<close>

lemma page_next_inside: "PAGE_NEXT (Ps @ (as @ y # z # bs) # Qs) (length Ps, length as) = Some (length Ps, Suc (length as))"
  by (simp add: PAGE_NEXT_def)

lemma page_next_page: "PAGE_NEXT (Ps @ (as @ [y]) # Q # Qs) (length Ps, length as) = Some (Suc (length Ps), 0)"
  by (simp add: PAGE_NEXT_def)

lemma page_next_end: "PAGE_NEXT (Ps @ [as @ [y]]) (length Ps, length as) = None"
  by (simp add: PAGE_NEXT_def)

lemma page_walk_visits:
  assumes "pages_shape num Qs" and "n = length (y # bs @ concat Qs)"
  shows "page_walk n (Ps @ (as @ y # bs) # Qs) (Some (length Ps, length as)) = Some (y # bs @ concat Qs)"
  using assms
proof (induction n arbitrary: Ps as y bs Qs)
  case (Suc n)
  consider z bs' where "bs = z # bs'" | "bs = []" "Qs = []" | z zs Qs' where "bs = []" "Qs = (z # zs) # Qs'"
    using Suc.prems(1) by (cases bs; cases Qs; cases "hd Qs") (auto simp: pages_shape_def)
  then show ?case
  proof cases
    case 1
    with Suc.IH[of Qs z bs' Ps "as @ [y]"] Suc.prems page_next_inside[of Ps as y z bs' Qs] show ?thesis by simp
  next
    case 2
    with page_next_end[of Ps as y] Suc.prems show ?thesis by simp
  next
    case 3
    with Suc.IH[of Qs' z zs "Ps @ [as @ [y]]" "[]"] Suc.prems page_next_page[of Ps as y "z # zs" Qs'] show ?thesis
      by (simp add: pages_shape_def)
  qed
qed simp

lemma page_foreach: "pages_shape num root \<Longrightarrow> PAGE_FOREACH root = Some (concat root)"
proof (cases root)
  case (Cons p ps)
  assume "pages_shape num root"
  with Cons obtain y ys where "p = y # ys" "pages_shape num ps" by (cases p) (auto simp: pages_shape_def)
  with page_walk_visits[of num ps _ y ys "[]" "[]"] Cons show ?thesis by (simp add: PAGE_FOREACH_def PAGE_MIN_def)
qed (simp add: PAGE_FOREACH_def PAGE_MIN_def)

lemma page_collapse: "PAGE_COLLAPSE root = (root, [])"
  by (induction root) auto

section \<open>Pages as one sorted list\<close>

lemma concat_page_decomp:
  "y \<in> set (concat root) \<Longrightarrow> \<exists>Ps as bs Qs. root = Ps @ (as @ y # bs) # Qs"
  by (metis in_set_conv_decomp set_concat UN_iff)

locale page_order = cmp_order cmp D
  for cmp :: "'a \<Rightarrow> 'a \<Rightarrow> int" and D :: "'a set" +
  fixes num :: nat
  assumes num_pos: "0 < num"
begin

definition pages_ok :: "'a pages \<Rightarrow> bool" where
  "pages_ok root \<longleftrightarrow> pages_shape num root \<and> cmp_sorted (concat root) \<and> set (concat root) \<subseteq> D"

lemma pages_okD:
  assumes "pages_ok (p # ps)"
  shows "p \<noteq> []" "cmp_sorted p" "set p \<subseteq> D" "pages_ok ps" "\<forall>y \<in> set p. \<forall>z \<in> set (concat ps). cmp y z < 0"
  using assms by (auto simp: pages_ok_def pages_shape_def sorted_wrt_append)

text \<open>The last element of a page decides where to go on.\<close>

lemma beyond_page:
  assumes "pages_ok (p # ps)" and "x \<in> D" and "cmp x (last p) > 0"
  shows "\<forall>y \<in> set p. cmp y x < 0"
proof
  fix y assume y: "y \<in> set p"
  note p = pages_okD[OF assms(1)]
  have lp: "last p \<in> set p" using p(1) by simp
  have "cmp (last p) x < 0" using assms(2,3) lp p(3) cmp_swap[of x "last p"] by auto
  moreover have "cmp y (last p) \<le> 0"
  proof (cases "y = last p")
    case True
    then show ?thesis using cmp_swap[of y y] lp p(3) by force
  next
    case False
    with y p(1) have "y \<in> set (butlast p)" by (metis append_butlast_last_id in_set_butlast_appendI insert_iff list.simps(15) rotate1.simps(2) set_rotate1)
    moreover have "cmp_sorted (butlast p @ [last p])" using p(1,2) by simp
    ultimately show ?thesis by (auto simp: sorted_wrt_append)
  qed
  ultimately show "cmp y x < 0" using le_less_trans[of y "last p" x] y lp p(3) assms(2) by blast
qed

lemma before_page:
  assumes "cmp_sorted (y # ys)" "set (y # ys) \<subseteq> D" "x \<in> D" "cmp x y < 0"
  shows "\<forall>z \<in> set (y # ys). cmp x z < 0"
  using assms less_trans[of x y] by (auto intro: order_less_imp_le)

lemma page_ends:
  assumes "p \<noteq> []"
  shows "page_elem p 0 = Some (hd p)" "page_elem p (length p - 1) = Some (last p)"
  using assms by (auto simp: page_elem_def hd_conv_nth last_conv_nth)

text \<open>\<open>PAGE_FIND\<close> never leaves the pages and finds the element that compares equal, if there is one.\<close>

lemma find_scan_Some: "find_scan cmp x p = Some i \<Longrightarrow> i < length p \<and> cmp x (p ! i) = 0"
  by (induction p arbitrary: i) (auto split: if_splits)

lemma find_scan_None: "find_scan cmp x p = None \<longleftrightarrow> (\<forall>y \<in> set p. cmp x y \<noteq> 0)"
  by (induction p) auto

lemma page_find:
  assumes "pages_ok root" and "x \<in> D"
  shows "\<exists>r. PAGE_FIND cmp x root = Some r \<and>
    (case r of None \<Rightarrow> \<forall>y \<in> set (concat root). cmp x y \<noteq> 0
     | Some loc \<Rightarrow> \<exists>y. page_at root loc = Some y \<and> cmp x y = 0)"
  using assms(1)
proof (induction root)
  case (Cons p ps)
  note p = pages_okD[OF Cons.prems]
  obtain r where r: "PAGE_FIND cmp x ps = Some r" "case r of None \<Rightarrow> \<forall>y \<in> set (concat ps). cmp x y \<noteq> 0
     | Some loc \<Rightarrow> \<exists>y. page_at ps loc = Some y \<and> cmp x y = 0" using Cons.IH[OF p(4)] by blast
  consider "cmp x (hd p) < 0" | "cmp x (hd p) \<ge> 0" "cmp x (last p) > 0" | "cmp x (hd p) \<ge> 0" "cmp x (last p) \<le> 0"
    by linarith
  then show ?case
  proof cases
    case 1
    have "cmp_sorted (hd p # tl p @ concat ps)" "set (hd p # tl p @ concat ps) \<subseteq> D"
      using Cons.prems p(1) by (cases p; simp add: pages_ok_def)+
    from before_page[OF this assms(2) 1] p(1) have "\<forall>z \<in> set (concat (p # ps)). cmp x z < 0" by (cases p) auto
    with 1 page_ends[OF p(1)] show ?thesis by force
  next
    case 2
    have "\<forall>y \<in> set p. cmp x y \<noteq> 0"
      using beyond_page[OF Cons.prems assms(2) 2(2)] cmp_swap[OF assms(2)] p(3) by fastforce
    with 2 r page_ends[OF p(1)] show ?thesis
      by (cases r) (auto simp: page_at_def split: if_splits)
  next
    case 3
    have "cmp x z < 0" if "z \<in> set (concat ps)" for z
    proof -
      have "z \<in> D" "last p \<in> D" "cmp (last p) z < 0" using that p Cons.prems by (auto simp: pages_ok_def)
      with le_less_trans[of x "last p" z] 3(2) assms(2) show ?thesis by simp
    qed
    then have "\<forall>z \<in> set (concat ps). cmp x z \<noteq> 0" by force
    moreover have "PAGE_FIND cmp x (p # ps) = Some (map_option (Pair 0) (find_scan cmp x p))"
      using 3 page_ends[OF p(1)] by simp
    ultimately show ?thesis using find_scan_None[of x p] find_scan_Some[of x p]
      by (cases "find_scan cmp x p") (auto simp: page_at_def page_elem_def simp del: PAGE_FIND.simps)
  qed
qed simp

text \<open>Where \<open>PAGE_INSERT\<close> goes: to an equal element, or between the smaller and the larger ones.\<close>

lemma insert_scan_Some:
  assumes "insert_scan cmp x p = Some (d, i)" and "cmp_sorted p" "set p \<subseteq> D" "x \<in> D"
  shows "\<exists>as y bs. p = as @ y # bs \<and> length as = i \<and> (\<forall>a \<in> set as. cmp x a > 0) \<and>
    (if d then cmp x y = 0 else cmp x y < 0)"
  using assms(1,2,3)
proof (induction p arbitrary: i)
  case (Cons y ys)
  show ?case
  proof (cases "cmp x y \<le> 0")
    case True
    with Cons.prems have "i = 0 \<and> (if d then cmp x y = 0 else cmp x y < 0)" by (auto split: if_splits)
    then show ?thesis by (intro exI[of _ "[]"]) auto
  next
    case False
    with Cons.prems obtain j where j: "insert_scan cmp x ys = Some (d, j)" "i = Suc j" by (auto split: if_splits)
    from Cons.IH[OF j(1)] Cons.prems obtain as z bs where "ys = as @ z # bs" "length as = j"
      "\<forall>a \<in> set as. cmp x a > 0" "if d then cmp x z = 0 else cmp x z < 0" by auto
    with False j(2) show ?thesis by (intro exI[of _ "y # as"] exI[of _ z] exI[of _ bs]) auto
  qed
qed simp

lemma insert_scan_total:
  assumes "p \<noteq> []" and "cmp x (last p) \<le> 0"
  shows "insert_scan cmp x p \<noteq> None"
  using assms by (induction p) (auto split: if_splits)

definition smaller :: "'a list \<Rightarrow> 'a \<Rightarrow> bool" where
  "smaller as x \<longleftrightarrow> (\<forall>a \<in> set as. cmp a x < 0)"

definition larger :: "'a \<Rightarrow> 'a list \<Rightarrow> bool" where
  "larger x bs \<longleftrightarrow> (\<forall>b \<in> set bs. cmp x b < 0)"

definition lands :: "'a pages \<Rightarrow> 'a \<Rightarrow> bool \<Rightarrow> nat \<Rightarrow> nat \<Rightarrow> bool" where
  "lands root x d k i \<longleftrightarrow> (\<exists>Ps as y bs Qs. root = Ps @ (as @ y # bs) # Qs \<and> length Ps = k \<and> length as = i \<and>
     (if d then cmp x y = 0 else smaller (concat Ps @ as) x \<and> larger x (y # bs @ concat Qs)))"

lemma landsI:
  "if d then cmp x y = 0 else smaller (concat Ps @ as) x \<and> larger x (y # bs @ concat Qs) \<Longrightarrow>
     lands (Ps @ (as @ y # bs) # Qs) x d (length Ps) (length as)"
  unfolding lands_def by blast

lemma insert_search_spec:
  assumes "pages_ok root" and "x \<in> D"
  shows "\<exists>r. insert_search cmp x root = Some r \<and>
    (case r of None \<Rightarrow> smaller (concat root) x
     | Some (d, k, i) \<Rightarrow> lands root x d k i)"
  using assms(1)
proof (induction root)
  case Nil
  show ?case by (simp add: smaller_def)
next
  case (Cons p ps)
  note p = pages_okD[OF Cons.prems]
  have D: "set (concat (p # ps)) \<subseteq> D" "cmp_sorted (concat (p # ps))" using Cons.prems by (auto simp: pages_ok_def)
  note ends = page_ends[OF p(1)]
  consider "cmp x (hd p) < 0" | "cmp x (hd p) \<ge> 0" "cmp x (last p) > 0" | "cmp x (hd p) \<ge> 0" "cmp x (last p) \<le> 0"
    by linarith
  then show ?case
  proof cases
    case 1
    then have "larger x (hd p # tl p @ concat ps)"
      unfolding larger_def using p(1) D by (intro before_page[OF _ _ assms(2)]) (cases p; simp)+
    then have "lands ([] @ ([] @ hd p # tl p) # ps) x False (length ([] :: 'a pages)) (length ([] :: 'a list))"
      by (intro landsI) (simp add: smaller_def)
    with p(1) have "lands (p # ps) x False 0 0" by simp
    with 1 ends show ?thesis by simp
  next
    case 2
    have p': "smaller p x" using beyond_page[OF Cons.prems assms(2) 2(2)] by (simp add: smaller_def)
    from Cons.IH[OF p(4)] obtain r where r: "insert_search cmp x ps = Some r"
      "case r of None \<Rightarrow> smaller (concat ps) x
       | Some (d, k, i) \<Rightarrow> lands ps x d k i" by blast
    have search: "insert_search cmp x (p # ps) = Some (map_option (apsnd (apfst Suc)) r)" using 2 ends r(1) by simp
    show ?thesis
    proof (cases r)
      case None
      with search r(2) p' show ?thesis by (auto simp: smaller_def)
    next
      case (Some t)
      obtain d k i where t: "t = (d, k, i)" by (cases t)
      from r(2)[unfolded Some t] obtain Ps as y bs Qs where *: "ps = Ps @ (as @ y # bs) # Qs" "length Ps = k" "length as = i"
        "if d then cmp x y = 0 else smaller (concat Ps @ as) x \<and> larger x (y # bs @ concat Qs)" by (auto simp: lands_def)
      have "if d then cmp x y = 0 else smaller (concat (p # Ps) @ as) x \<and> larger x (y # bs @ concat Qs)"
        using *(4) p' by (auto simp: smaller_def split: if_splits)
      from landsI[OF this] have "lands (p # ps) x d (Suc k) i" using *(1-3) by simp
      with search Some t show ?thesis by simp
    qed
  next
    case 3
    from insert_scan_total[OF p(1) 3(2)] obtain d i where scan: "insert_scan cmp x p = Some (d, i)" by auto
    from insert_scan_Some[OF scan p(2,3) assms(2)] obtain as y bs where *: "p = as @ y # bs" "length as = i"
      "\<forall>a \<in> set as. cmp x a > 0" "if d then cmp x y = 0 else cmp x y < 0" by blast
    have "smaller as x" using *(1,3) p(3) cmp_swap[OF assms(2)] by (auto simp: smaller_def)
    moreover have "larger x (y # bs @ concat ps)" if "cmp x y < 0"
      unfolding larger_def using *(1) D that by (intro before_page[OF _ _ assms(2)]) (auto simp: sorted_wrt_append)
    ultimately have "if d then cmp x y = 0 else smaller (concat [] @ as) x \<and> larger x (y # bs @ concat ps)"
      using *(4) by auto
    from landsI[OF this] have "lands (p # ps) x d 0 i" using *(1,2) by simp
    with 3 ends scan show ?thesis by simp
  qed
qed

text \<open>\<open>PAGE_INSERT\<close>: an equal element is returned; otherwise, when memory is granted if needed, the element
  is stored at its place of the sorted list; when it is not, nothing changes.\<close>

definition inserted :: "'a \<Rightarrow> 'a pages \<Rightarrow> nat \<times> nat \<Rightarrow> 'a pages \<Rightarrow> bool" where
  "inserted x root loc root' \<longleftrightarrow> pages_ok root' \<and> page_at root' loc = Some x \<and>
     (\<exists>as bs. concat root = as @ bs \<and> concat root' = as @ x # bs \<and> smaller as x \<and> larger x bs)"

lemma place_inserts:
  assumes "pages_ok (Ps @ (as @ bs) # Qs)" and "x \<in> D" and "smaller (concat Ps @ as) x" "larger x (bs @ concat Qs)"
    and "length as = i" "length Ps = k"
  shows "\<exists>r root'. page_place num alloc x k i (Ps @ (as @ bs) # Qs) = Some (r, root') \<and>
    (case r of None \<Rightarrow> root' = Ps @ (as @ bs) # Qs \<and> \<not> alloc | Some loc \<Rightarrow> inserted x (Ps @ (as @ bs) # Qs) loc root')"
proof (cases "alloc \<or> length (as @ bs) < num")
  case True
  have shape: "pages_shape num (Ps @ (as @ bs) # Qs)" using assms(1) by (simp add: pages_ok_def)
  from page_place_middle[OF num_pos shape True, of x] obtain loc root' where
    *: "page_place num alloc x (length Ps) (length as) (Ps @ (as @ bs) # Qs) = Some (Some loc, root')"
    "page_at root' loc = Some x" "pages_shape num root'" "concat root' = concat Ps @ as @ x # bs @ concat Qs" by blast
  have "cmp_sorted (concat root')" "set (concat root') \<subseteq> D"
    using assms(1-4) unfolding *(4) by (auto simp: pages_ok_def sorted_wrt_append smaller_def larger_def)
  then have "inserted x (Ps @ (as @ bs) # Qs) loc root'"
    unfolding inserted_def pages_ok_def using *(2-4) assms(3,4)
    by (intro conjI exI[of _ "concat Ps @ as"] exI[of _ "bs @ concat Qs"]) auto
  with *(1) assms(5,6) show ?thesis by auto
next
  case False
  with assms(1) have "length (as @ bs) = num" "alloc = False" by (auto simp: pages_ok_def pages_shape_def)
  with page_place_no_memory[of as bs num x Ps Qs] assms(5,6) show ?thesis by auto
qed

lemma page_insert:
  assumes "pages_ok root" and "x \<in> D"
  shows "\<exists>r root'. PAGE_INSERT num cmp alloc x root = Some (r, root') \<and>
    (case r of None \<Rightarrow> root' = root \<and> \<not> alloc
     | Some loc \<Rightarrow> (root' = root \<and> (\<exists>y. page_at root loc = Some y \<and> cmp x y = 0)) \<or> inserted x root loc root')"
proof -
  from insert_search_spec[OF assms] obtain r where r: "insert_search cmp x root = Some r"
    "case r of None \<Rightarrow> smaller (concat root) x
     | Some (d, k, i) \<Rightarrow> lands root x d k i" by blast
  show ?thesis
  proof (cases r)
    case (Some t)
    then obtain d k i where t: "r = Some (d, k, i)" by (cases t) auto
    from r(2)[unfolded t] obtain Ps as y bs Qs where *: "root = Ps @ (as @ y # bs) # Qs" "length Ps = k" "length as = i"
      "if d then cmp x y = 0 else smaller (concat Ps @ as) x \<and> larger x (y # bs @ concat Qs)" by (auto simp: lands_def)
    show ?thesis
    proof (cases d)
      case True
      have "page_at root (k, i) = Some y" unfolding *(1) *(2,3)[symmetric] by (rule page_at_middle)
      with True t r(1) *(4) show ?thesis by (auto simp: PAGE_INSERT_def)
    next
      case False
      then have "PAGE_INSERT num cmp alloc x root = page_place num alloc x k i root" using t r(1) by (simp add: PAGE_INSERT_def)
      with place_inserts[of Ps as "y # bs" Qs x i k alloc] False assms * show ?thesis by (fastforce split: option.splits)
    qed
  next
    case None
    with r(2) have small: "smaller (concat root) x" by simp
    show ?thesis
    proof (cases root rule: rev_cases)
      case Nil
      then show ?thesis using None r(1) num_pos assms(2)
        by (cases alloc) (auto simp: PAGE_INSERT_def page_put_def inserted_def pages_ok_def pages_shape_def page_at_def
            page_elem_def smaller_def larger_def)
    next
      case (snoc Ps p)
      then have "PAGE_INSERT num cmp alloc x root = page_place num alloc x (length Ps) (length p) root"
        using None r(1) by (simp add: PAGE_INSERT_def)
      with place_inserts[of Ps p "[]" "[]" x "length p" "length Ps" alloc] snoc small assms show ?thesis
        by (fastforce simp: larger_def split: option.splits)
    qed
  qed
qed

end

end
