(* ===== verification/Peak_String.thy ===== *)
theory Peak_String
  imports Peak_Page Peak_Stash
begin

text \<open>
  The multi-pattern matcher of \<open>src/lib/peak_string.c\<close>: a trie whose nodes keep their children in page lists.
  A node is a value that contains its pages of children; \<open>memmove\<close> of nodes inside pages moves their
  subtrees along, as it does in C. The patterns and inputs are the bytes they consist of, shorter than
  4 GiB. \<open>alloc n\<close> tells whether \<open>malloc\<close> grants memory to the n-th insertion of a call.
\<close>

section \<open>Data\<close>

datatype peak_strings =
  PeakStrings (string_next: "peak_strings pages") (string_result: "u32 list") (string_character: int)

abbreviation (input) "STRING_METHOD_FLOATING \<equiv> 0 :: nat"
abbreviation (input) "STRING_METHOD_LEFT \<equiv> 1 :: nat"
abbreviation (input) "STRING_METHOD_RIGHT \<equiv> 2 :: nat"
abbreviation (input) "STRING_METHOD_EXACT \<equiv> 3 :: nat"
abbreviation (input) "STRING_METHOD_MAX \<equiv> 4 :: nat"
abbreviation (input) "STRING_WILDCARD \<equiv> 256 :: int"
abbreviation (input) "STRING_PAGE \<equiv> 5 :: nat"
abbreviation (input) "STRING_LEFT \<equiv> 1 :: u32"
abbreviation (input) "STRING_RIGHT \<equiv> 2 :: u32"
abbreviation (input) "STRING_NOCASE \<equiv> 4 :: u32"

definition string_nocase :: "u8 \<Rightarrow> int" where
  "string_nocase c =
     (if 97 \<le> c \<and> c \<le> 122 then 257 + (uint c - 97)
      else if 65 \<le> c \<and> c \<le> 90 then 257 + (uint c - 65)
      else 0)"

definition STRING_CMP :: "peak_strings \<Rightarrow> peak_strings \<Rightarrow> int" where
  "STRING_CMP x y = string_character x - string_character y"

text \<open>The node on the stack that is searched for or inserted.\<close>

definition string_ref :: "int \<Rightarrow> peak_strings" where
  "string_ref ch = PeakStrings [] (replicate STRING_METHOD_MAX 0) ch"

text \<open>The root as \<open>calloc\<close> leaves it, unless it fails.\<close>

definition string_zero :: peak_strings where
  "string_zero = PeakStrings [] (replicate STRING_METHOD_MAX 0) 0"

definition peak_string_init :: "bool \<Rightarrow> peak_strings option" where
  "peak_string_init alloc = (if alloc then Some string_zero else None)"

section \<open>Search\<close>

definition peak_string_match :: "peak_strings \<Rightarrow> nat \<Rightarrow> bool \<Rightarrow> u32 stash \<Rightarrow> (bool \<times> u32 stash) option" where
  "peak_string_match node len start st = do {
     let r = string_result node;
     st \<leftarrow> (if r ! STRING_METHOD_FLOATING \<noteq> 0 then stash_push_result (r ! STRING_METHOD_FLOATING) st else Some st);
     st \<leftarrow> (if r ! STRING_METHOD_LEFT \<noteq> 0 \<and> start then stash_push_result (r ! STRING_METHOD_LEFT) st else Some st);
     st \<leftarrow> (if r ! STRING_METHOD_RIGHT \<noteq> 0 \<and> len = 0 then stash_push_result (r ! STRING_METHOD_RIGHT) st else Some st);
     st \<leftarrow> (if r ! STRING_METHOD_EXACT \<noteq> 0 \<and> start \<and> len = 0 then stash_push_result (r ! STRING_METHOD_EXACT) st
           else Some st);
     Some (len = 0, st) }"

text \<open>\<open>PAGE_FIND\<close> in the children of a node, and the element found.\<close>

definition string_lookup :: "peak_strings \<Rightarrow> int \<Rightarrow> peak_strings option option" where
  "string_lookup node ch = do {
     found \<leftarrow> PAGE_FIND STRING_CMP (string_ref ch) (string_next node);
     case found of
       None \<Rightarrow> Some None
     | Some loc \<Rightarrow> map_option Some (page_at (string_next node) loc) }"

text \<open>One of the three attempts of \<open>_peak_string_find\<close>, which differ in the character looked for: whether
  the function returns at once, and the stash.\<close>

definition string_try ::
  "(peak_strings \<Rightarrow> u32 stash \<Rightarrow> u32 stash option) \<Rightarrow> peak_strings \<Rightarrow> int \<Rightarrow> nat \<Rightarrow> bool \<Rightarrow> u32 stash \<Rightarrow>
   (bool \<times> u32 stash) option" where
  "string_try recurse node ch len start st = do {
     found \<leftarrow> string_lookup node ch;
     case found of
       None \<Rightarrow> Some (False, st)
     | Some n \<Rightarrow> do {
         (done, st) \<leftarrow> peak_string_match n len start st;
         if done then Some (True, st)
         else do { st \<leftarrow> recurse n st; Some (False, st) } } }"

fun string_find_rec :: "peak_strings \<Rightarrow> mem \<Rightarrow> bool \<Rightarrow> u32 stash \<Rightarrow> u32 stash option" where
  "string_find_rec node [] start st = None"
| "string_find_rec node (c # buf) start st = do {
     let recurse = (\<lambda>n st. string_find_rec n buf start st);
     (done, st) \<leftarrow> string_try recurse node (uint c) (length buf) start st;
     if done then Some st
     else do {
       (done, st) \<leftarrow> string_try recurse node STRING_WILDCARD (length buf) start st;
       if done then Some st
       else if string_nocase c \<noteq> 0 then do {
         (done, st) \<leftarrow> string_try recurse node (string_nocase c) (length buf) start st;
         Some st }
       else Some st } }"

fun string_find_loop :: "peak_strings \<Rightarrow> mem \<Rightarrow> bool \<Rightarrow> u32 stash \<Rightarrow> u32 stash option" where
  "string_find_loop root [] first st = Some st"
| "string_find_loop root (c # buf) first st = do {
     st \<leftarrow> string_find_rec root (c # buf) first st;
     string_find_loop root buf False st }"

definition peak_string_find :: "peak_strings \<Rightarrow> mem \<Rightarrow> u32 stash \<Rightarrow> u32 stash option" where
  "peak_string_find root buf st = do {
     (done, st) \<leftarrow> peak_string_match root (length buf) True st;
     if done then Some st else string_find_loop root buf True st }"

section \<open>Adding patterns\<close>

text \<open>The character of the trie for the front of a pattern, and the rest of the pattern.\<close>

definition string_char :: "u32 \<Rightarrow> u8 \<Rightarrow> mem \<Rightarrow> int \<times> mem" where
  "string_char flags c buf =
     (if c = 63 then (STRING_WILDCARD, buf)
      else
        let (c, buf) = (if c = 92 \<and> buf \<noteq> [] \<and> (hd buf = 63 \<or> hd buf = 92) then (hd buf, tl buf) else (c, buf));
            nocase = string_nocase c
        in (if flags AND STRING_NOCASE \<noteq> 0 \<and> nocase \<noteq> 0 then nocase else uint c, buf))"

definition string_method :: "u32 \<Rightarrow> nat" where
  "string_method flags =
     (if flags AND STRING_LEFT \<noteq> 0 \<and> flags AND STRING_RIGHT \<noteq> 0 then STRING_METHOD_EXACT
      else if flags AND STRING_LEFT \<noteq> 0 then STRING_METHOD_LEFT
      else if flags AND STRING_RIGHT \<noteq> 0 then STRING_METHOD_RIGHT
      else STRING_METHOD_FLOATING)"

definition string_set_result :: "u32 \<Rightarrow> nat \<Rightarrow> peak_strings \<Rightarrow> u32 \<times> peak_strings" where
  "string_set_result res method node =
     (let r = string_result node;
          r = (if r ! method = 0 then r[method := res] else r)
      in (r ! method, PeakStrings (string_next node) r (string_character node)))"

definition page_set :: "'a pages \<Rightarrow> nat \<times> nat \<Rightarrow> 'a \<Rightarrow> 'a pages" where
  "page_set root loc x = root[fst loc := (root ! fst loc)[snd loc := x]]"

lemma string_char_shorter [termination_simp]:
  "(ch, rest) = string_char flags c buf \<Longrightarrow> length rest < Suc (length buf)"
  by (auto simp: string_char_def Let_def split: if_splits prod.splits)

fun string_add_loop ::
  "(nat \<Rightarrow> bool) \<Rightarrow> nat \<Rightarrow> u32 \<Rightarrow> u32 \<Rightarrow> mem \<Rightarrow> peak_strings \<Rightarrow> (u32 \<times> peak_strings) option" where
  "string_add_loop alloc n flags res [] node = Some (string_set_result res (string_method flags) node)"
| "string_add_loop alloc n flags res (c # buf) node =
     (case string_char flags c buf of (ch, rest) \<Rightarrow> do {
        (found, pages) \<leftarrow> PAGE_INSERT STRING_PAGE STRING_CMP (alloc n) (string_ref ch) (string_next node);
        case found of
          None \<Rightarrow> Some (0, PeakStrings pages (string_result node) (string_character node))
        | Some loc \<Rightarrow> do {
            child \<leftarrow> page_at pages loc;
            (ret, child) \<leftarrow> string_add_loop alloc (n + 1) flags res rest child;
            Some (ret, PeakStrings (page_set pages loc child) (string_result node) (string_character node)) } })"

definition peak_string_add ::
  "(nat \<Rightarrow> bool) \<Rightarrow> peak_strings \<Rightarrow> u32 \<Rightarrow> mem option \<Rightarrow> u32 \<Rightarrow> (u32 \<times> peak_strings) option" where
  "peak_string_add alloc root res buf flags =
     (case buf of
        None \<Rightarrow> Some (0, root)
      | Some buf \<Rightarrow> string_add_loop alloc 0 flags res buf root)"

section \<open>Release\<close>

text \<open>The pages that \<open>_peak_string_exit\<close> frees, those of the children first.\<close>

fun string_exit_rec :: "peak_strings \<Rightarrow> peak_strings list list" where
  "string_exit_rec (PeakStrings pages r c) =
     concat (map (\<lambda>p. concat (map string_exit_rec p)) pages) @ fst (PAGE_COLLAPSE pages)"

definition peak_string_exit :: "peak_strings option \<Rightarrow> peak_strings list list" where
  "peak_string_exit root = (case root of None \<Rightarrow> [] | Some root \<Rightarrow> string_exit_rec root)"

section \<open>Children and the pattern table\<close>

interpretation string: page_order STRING_CMP UNIV STRING_PAGE
  by unfold_locales (auto simp: STRING_CMP_def)

fun string_ok :: "peak_strings \<Rightarrow> bool" where
  "string_ok (PeakStrings pages r c) \<longleftrightarrow>
     length r = STRING_METHOD_MAX \<and> string.pages_ok pages \<and> (\<forall>p \<in> set pages. \<forall>n \<in> set p. string_ok n)"

definition string_child :: "peak_strings \<Rightarrow> int \<Rightarrow> peak_strings option" where
  "string_child node ch = find (\<lambda>n. string_character n = ch) (concat (string_next node))"

text \<open>The result registered for a path of characters and a method, 0 when there is none.\<close>

fun string_at :: "peak_strings \<Rightarrow> int list \<Rightarrow> nat \<Rightarrow> u32" where
  "string_at node [] m = string_result node ! m"
| "string_at node (ch # p) m = (case string_child node ch of None \<Rightarrow> 0 | Some n \<Rightarrow> string_at n p m)"

fun string_path :: "u32 \<Rightarrow> mem \<Rightarrow> int list" where
  "string_path flags [] = []"
| "string_path flags (c # buf) = (case string_char flags c buf of (ch, rest) \<Rightarrow> ch # string_path flags rest)"

lemma cmp_ref: "STRING_CMP (string_ref ch) n = 0 \<longleftrightarrow> string_character n = ch"
  by (auto simp: STRING_CMP_def string_ref_def)

lemma page_at_in: "page_at root loc = Some y \<Longrightarrow> y \<in> set (concat root)"
  by (auto simp: page_at_def page_elem_def split: if_splits) (meson nth_mem)

lemma string_find_unique:
  assumes "string.cmp_sorted xs" and "n \<in> set xs"
  shows "find (\<lambda>x. string_character x = string_character n) xs = Some n"
  using assms by (induction xs) (auto simp: STRING_CMP_def)

lemma string_okD:
  assumes "string_ok node"
  shows "length (string_result node) = 4" "string.pages_ok (string_next node)"
    "n \<in> set (concat (string_next node)) \<Longrightarrow> string_ok n"
  using assms by (cases node; auto)+

lemma string_lookup_child:
  assumes "string_ok node"
  shows "string_lookup node ch = Some (string_child node ch)"
proof -
  note ok = string_okD(2)[OF assms]
  from string.page_find[OF ok, of "string_ref ch"] obtain r where r: "PAGE_FIND STRING_CMP (string_ref ch) (string_next node) = Some r"
    "case r of None \<Rightarrow> \<forall>y \<in> set (concat (string_next node)). STRING_CMP (string_ref ch) y \<noteq> 0
     | Some loc \<Rightarrow> \<exists>y. page_at (string_next node) loc = Some y \<and> STRING_CMP (string_ref ch) y = 0" by auto
  show ?thesis
  proof (cases r)
    case None
    with r show ?thesis by (auto simp: string_lookup_def string_child_def cmp_ref find_None_iff2)
  next
    case (Some loc)
    with r obtain y where y: "page_at (string_next node) loc = Some y" "string_character y = ch" by (auto simp: cmp_ref)
    from string_find_unique[OF _ page_at_in[OF y(1)]] ok y(2) have "string_child node ch = Some y"
      by (auto simp: string_child_def string.pages_ok_def)
    with Some r(1) y(1) show ?thesis by (simp add: string_lookup_def)
  qed
qed

lemma string_child_ok:
  assumes "string_ok node" and "string_child node ch = Some n"
  shows "string_ok n" "string_character n = ch"
proof -
  from assms(2) have "n \<in> set (concat (string_next node))" "string_character n = ch"
    by (auto simp: string_child_def find_Some_iff in_set_conv_nth simp del: set_concat)
  with string_okD(3)[OF assms(1)] show "string_ok n" "string_character n = ch" by blast+
qed

section \<open>What adding a pattern changes\<close>

lemma set_result_at:
  assumes "string_ok node" and "m < 4" and "string_set_result res m node = (ret, node')"
  shows "string_ok node'" "string_character node' = string_character node"
    "ret = (if string_at node [] m = 0 then res else string_at node [] m)"
    "string_at node' p m' = (if p = [] \<and> m' = m then ret else string_at node p m')"
proof -
  obtain pages r c where n: "node = PeakStrings pages r c" by (cases node)
  have len: "length r = 4" using assms(1) n by simp
  from assms(3) have ret: "ret = (if r ! m = 0 then res else r ! m)"
    and node': "node' = PeakStrings pages (if r ! m = 0 then r[m := res] else r) c"
    using len assms(2) by (auto simp: string_set_result_def Let_def n)
  show "string_ok node'" "string_character node' = string_character node"
    "ret = (if string_at node [] m = 0 then res else string_at node [] m)"
    using assms(1) by (simp_all add: n ret node')
  show "string_at node' p m' = (if p = [] \<and> m' = m then ret else string_at node p m')"
    using len assms(2) by (cases p) (auto simp: n ret node' string_child_def nth_list_update)
qed

lemma concat_page_set:
  assumes "page_at root loc = Some y"
  shows "\<exists>as bs. concat root = as @ y # bs \<and> concat (page_set root loc z) = as @ z # bs"
    "map length (page_set root loc z) = map length root"
proof -
  obtain k i where loc: "loc = (k, i)" by fastforce
  from assms loc have k: "k < length root" "i < length (root ! k)" "root ! k ! i = y"
    by (auto simp: page_at_def page_elem_def split: if_splits)
  let ?Ps = "take k root" and ?Qs = "drop (Suc k) root" and ?as = "take i (root ! k)" and ?bs = "drop (Suc i) (root ! k)"
  have "root ! k = ?as @ y # ?bs" using id_take_nth_drop[OF k(2)] k(3) by simp
  with id_take_nth_drop[OF k(1)] have "concat root = concat (?Ps @ (?as @ y # ?bs) # ?Qs)" by simp
  moreover have "page_set root loc z = ?Ps @ (?as @ z # ?bs) # ?Qs"
    using k by (simp add: page_set_def loc upd_conv_take_nth_drop)
  ultimately show "\<exists>as bs. concat root = as @ y # bs \<and> concat (page_set root loc z) = as @ z # bs"
    by (intro exI[of _ "concat ?Ps @ ?as"] exI[of _ "?bs @ concat ?Qs"]) simp
  show "map length (page_set root loc z) = map length root"
    using k by (simp add: page_set_def loc map_update list_update_same_conv)
qed

lemma pages_shape_lengths:
  "pages_shape num root \<longleftrightarrow> (\<forall>n \<in> set (map length root). 0 < n \<and> n \<le> num)"
  by (auto simp: pages_shape_def)

lemma find_middle:
  assumes "string.cmp_sorted (as @ n # bs)"
  shows "find (\<lambda>x. string_character x = ch) (as @ n # bs) =
    (if ch = string_character n then Some n else find (\<lambda>x. string_character x = ch) (as @ bs))"
  using assms by (induction as) (auto simp: STRING_CMP_def)

lemma sorted_same_characters:
  "map string_character xs = map string_character ys \<Longrightarrow> string.cmp_sorted xs \<longleftrightarrow> string.cmp_sorted ys"
  using sorted_wrt_map[of "(<)" string_character xs] sorted_wrt_map[of "(<)" string_character ys]
  by (simp add: STRING_CMP_def)

lemma string_at_pages:
  "string_at (PeakStrings pages r c) (ch # p) m =
     (case find (\<lambda>n. string_character n = ch) (concat pages) of None \<Rightarrow> 0 | Some n \<Rightarrow> string_at n p m)"
  by (simp add: string_child_def)

lemma string_at_ref: "m < 4 \<Longrightarrow> string_at (string_ref ch) p m = 0"
  by (cases p) (auto simp: string_ref_def string_child_def)

text \<open>After the insertion into the children, the child for the character exists, and the table is as it was.\<close>

lemma string_insert_child:
  assumes "string_ok node"
  shows "\<exists>r pages. PAGE_INSERT STRING_PAGE STRING_CMP alloc (string_ref ch) (string_next node) = Some (r, pages) \<and>
    (case r of None \<Rightarrow> pages = string_next node \<and> \<not> alloc
     | Some loc \<Rightarrow> \<exists>child. page_at pages loc = Some child \<and> string_character child = ch \<and>
         string_ok (PeakStrings pages (string_result node) (string_character node)) \<and>
         (\<forall>p m. m < 4 \<longrightarrow> string_at (PeakStrings pages (string_result node) (string_character node)) p m = string_at node p m))"
proof -
  note ok = string_okD[OF assms]
  from string.page_insert[OF ok(2) UNIV_I, of alloc "string_ref ch"] obtain r pages where
    ins: "PAGE_INSERT STRING_PAGE STRING_CMP alloc (string_ref ch) (string_next node) = Some (r, pages)"
    "case r of None \<Rightarrow> pages = string_next node \<and> \<not> alloc
     | Some loc \<Rightarrow> (pages = string_next node \<and> (\<exists>y. page_at (string_next node) loc = Some y \<and> STRING_CMP (string_ref ch) y = 0)) \<or>
         string.inserted (string_ref ch) (string_next node) loc pages" by blast
  show ?thesis
  proof (cases r)
    case (Some loc)
    with ins(2) consider y where "pages = string_next node" "page_at pages loc = Some y" "string_character y = ch"
      | "string.inserted (string_ref ch) (string_next node) loc pages" by (auto simp: cmp_ref)
    then show ?thesis
    proof cases
      case 1
      with ins(1) Some assms show ?thesis by (cases node) auto
    next
      case 2
      then obtain as bs where ab: "concat (string_next node) = as @ bs" "concat pages = as @ string_ref ch # bs"
        "string.smaller as (string_ref ch)" "string.larger (string_ref ch) bs"
        and pages: "string.pages_ok pages" "page_at pages loc = Some (string_ref ch)" by (auto simp: string.inserted_def)
      have "find (\<lambda>n. string_character n = ch) (as @ bs) = None"
        using ab(3,4) by (fastforce simp: find_None_iff string.smaller_def string.larger_def STRING_CMP_def string_ref_def)
      moreover have "string.cmp_sorted (as @ string_ref ch # bs)" using pages(1) ab(2) by (simp add: string.pages_ok_def)
      ultimately have "string_at (PeakStrings pages (string_result node) (string_character node)) p m = string_at node p m"
        if "m < 4" for p m
        using that ab(1,2) string_at_ref[OF that, of ch]
        by (cases p; cases node) (auto simp: string_at_pages find_middle string_ref_def simp del: string_at.simps(2) split: option.splits)
      moreover have "string_ok n" if "n \<in> set (concat pages)" for n
        using that ok(3) ab by (auto simp: string_ref_def string.pages_ok_def pages_shape_def simp del: set_concat)
      then have "string_ok (PeakStrings pages (string_result node) (string_character node))"
        using pages(1) ok(1) by auto
      ultimately show ?thesis using ins(1) Some pages(2) by (auto simp: string_ref_def)
    qed
  qed (use ins in auto)
qed

text \<open>Replacing a child by one for the same character changes the table below that character only.\<close>

lemma string_replace_child:
  assumes "string_ok (PeakStrings pages r c)" and "page_at pages loc = Some child" "string_ok child'"
    and "string_character child' = string_character child"
  defines "node' \<equiv> PeakStrings (page_set pages loc child') r c"
  shows "string_ok node'"
    "string_at node' (ch # p) m = (if ch = string_character child then string_at child' p m
       else string_at (PeakStrings pages r c) (ch # p) m)"
    "string_at (PeakStrings pages r c) (string_character child # p) m = string_at child p m"
proof -
  from concat_page_set[OF assms(2), of child'] obtain as bs where
    ab: "concat pages = as @ child # bs" "concat (page_set pages loc child') = as @ child' # bs"
    and len: "map length (page_set pages loc child') = map length pages" by blast
  have ok4: "\<forall>n \<in> set (concat pages). string_ok n" using assms(1) by auto
  have ok: "length r = 4" "pages_shape 5 pages" "string.cmp_sorted (as @ child # bs)"
    using assms(1) ab(1) by (auto simp: string.pages_ok_def)
  then have sorted': "string.cmp_sorted (as @ child' # bs)"
    using sorted_same_characters[of "as @ child' # bs" "as @ child # bs"] assms(4) by simp
  have "\<forall>n \<in> set (concat (page_set pages loc child')). string_ok n"
    using ok4 assms(3) unfolding ab by auto
  moreover have "string.pages_ok (page_set pages loc child')"
    using ok(2) len sorted' ab(2) by (simp add: string.pages_ok_def pages_shape_lengths)
  ultimately show "string_ok node'" using ok(1) by (simp add: node'_def)
  show "string_at node' (ch # p) m = (if ch = string_character child then string_at child' p m
       else string_at (PeakStrings pages r c) (ch # p) m)"
    "string_at (PeakStrings pages r c) (string_character child # p) m = string_at child p m"
    unfolding node'_def string_at_pages ab find_middle[OF sorted'] find_middle[OF ok(3)] using assms(4) by auto
qed

text \<open>What a call of \<open>peak_string_add\<close> does to the table: it registers the result under the path of the
  pattern unless there is one, or nothing at all.\<close>

definition string_added :: "int list \<Rightarrow> nat \<Rightarrow> u32 \<Rightarrow> peak_strings \<Rightarrow> u32 \<Rightarrow> peak_strings \<Rightarrow> bool" where
  "string_added path method res node ret node' \<longleftrightarrow>
     ret = (if string_at node path method = 0 then res else string_at node path method) \<and>
     (\<forall>p m. m < 4 \<longrightarrow> string_at node' p m = (if p = path \<and> m = method then ret else string_at node p m))"

definition string_kept :: "peak_strings \<Rightarrow> u32 \<Rightarrow> peak_strings \<Rightarrow> bool" where
  "string_kept node ret node' \<longleftrightarrow> ret = 0 \<and> (\<forall>p m. m < 4 \<longrightarrow> string_at node' p m = string_at node p m)"

lemma string_method_less: "string_method flags < 4"
  by (simp add: string_method_def)

lemma string_add_loop_spec:
  assumes "string_ok node"
  shows "\<exists>ret node'. string_add_loop alloc n flags res buf node = Some (ret, node') \<and> string_ok node' \<and>
    string_character node' = string_character node \<and>
    (string_added (string_path flags buf) (string_method flags) res node ret node' \<or>
     (\<exists>k. \<not> alloc k) \<and> string_kept node ret node')"
  using assms
proof (induction alloc n flags res buf node rule: string_add_loop.induct)
  case (1 alloc n flags res node)
  obtain ret node' where r: "string_set_result res (string_method flags) node = (ret, node')" by fastforce
  from set_result_at[OF 1 string_method_less r] show ?case by (auto simp: r string_added_def)
next
  case (2 alloc n flags res c buf node)
  obtain ch rest where ch: "string_char flags c buf = (ch, rest)" by fastforce
  let ?node = "\<lambda>pages. PeakStrings pages (string_result node) (string_character node)"
  from string_insert_child[OF "2.prems", of "alloc n" ch] obtain r pages where
    ins: "PAGE_INSERT STRING_PAGE STRING_CMP (alloc n) (string_ref ch) (string_next node) = Some (r, pages)"
    "case r of None \<Rightarrow> pages = string_next node \<and> \<not> alloc n
     | Some loc \<Rightarrow> \<exists>child. page_at pages loc = Some child \<and> string_character child = ch \<and> string_ok (?node pages) \<and>
         (\<forall>p m. m < 4 \<longrightarrow> string_at (?node pages) p m = string_at node p m)" by blast
  show ?case
  proof (cases r)
    case None
    with ins "2.prems" show ?thesis by (auto simp: ch string_kept_def)
  next
    case (Some loc)
    with ins obtain child where child: "page_at pages loc = Some child" "string_character child = ch"
      "string_ok (?node pages)" "\<forall>p m. m < 4 \<longrightarrow> string_at (?node pages) p m = string_at node p m" by auto
    have "string_ok child" using string_okD(3)[OF child(3)] page_at_in[OF child(1)] by simp
    from "2.IH"[OF ch[symmetric] ins(1)[unfolded Some] refl refl child(1) this] obtain ret child' where
      c': "string_add_loop alloc (n + 1) flags res rest child = Some (ret, child')" "string_ok child'"
      "string_character child' = string_character child"
      "string_added (string_path flags rest) (string_method flags) res child ret child' \<or>
       (\<exists>k. \<not> alloc k) \<and> string_kept child ret child'" by blast
    note repl = string_replace_child[OF child(3,1) c'(2,3)]
    let ?node' = "?node (page_set pages loc child')"
    have old: "string_at node (ch # p) m = string_at child p m" if "m < 4" for p m
      using repl(3)[of p m] child(2,4) that by (simp del: string_at.simps(2))
    have new: "string_at ?node' p m = (case p of [] \<Rightarrow> string_at node p m
        | a # q \<Rightarrow> if a = ch then string_at child' q m else string_at node p m)" if "m < 4" for p m
      using repl(2) child(2,4) that by (cases p) (simp_all del: string_at.simps(2))
    have "string_add_loop alloc n flags res (c # buf) node = Some (ret, ?node')"
      using ins(1) Some child(1) c'(1) by (simp add: ch)
    moreover have "string_added (string_path flags (c # buf)) (string_method flags) res node ret ?node' \<or>
        (\<exists>k. \<not> alloc k) \<and> string_kept node ret ?node'"
      using c'(4)
    proof
      assume a: "string_added (string_path flags rest) (string_method flags) res child ret child'"
      have "string_added (ch # string_path flags rest) (string_method flags) res node ret ?node'"
        using a old[OF string_method_less] new old unfolding string_added_def
        by (auto simp del: string_at.simps(2) split: list.splits)
      then show ?thesis by (simp add: ch)
    next
      assume "(\<exists>k. \<not> alloc k) \<and> string_kept child ret child'"
      with new old show ?thesis unfolding string_kept_def
        by (auto simp del: string_at.simps(2) split: list.splits)
    qed
    ultimately show ?thesis using repl(1) by (intro exI[of _ ret] exI[of _ ?node']) simp
  qed
qed

section \<open>What a search reports\<close>

definition char_ok :: "int \<Rightarrow> u8 \<Rightarrow> bool" where
  "char_ok ch c \<longleftrightarrow> ch = uint c \<or> ch = STRING_WILDCARD \<or> (string_nocase c \<noteq> 0 \<and> ch = string_nocase c)"

definition method_ok :: "nat \<Rightarrow> bool \<Rightarrow> bool \<Rightarrow> bool" where
  "method_ok m left right \<longleftrightarrow> m < 4 \<and> (m = STRING_METHOD_LEFT \<longrightarrow> left) \<and> (m = STRING_METHOD_RIGHT \<longrightarrow> right) \<and>
     (m = STRING_METHOD_EXACT \<longrightarrow> left \<and> right)"

text \<open>The path \<open>p\<close> matches at the front of \<open>buf\<close> and has the result \<open>h\<close> for method \<open>m\<close>.\<close>

definition string_hit :: "peak_strings \<Rightarrow> mem \<Rightarrow> bool \<Rightarrow> int list \<Rightarrow> nat \<Rightarrow> u32 \<Rightarrow> bool" where
  "string_hit node buf start p m h \<longleftrightarrow> length p \<le> length buf \<and> list_all2 char_ok p (take (length p) buf) \<and>
     method_ok m start (length p = length buf) \<and> h = string_at node p m \<and> h \<noteq> 0"

text \<open>The matches that are not lost to the early return: those that end before the input does, or with a
  literal character.\<close>

definition string_safe :: "int list \<Rightarrow> mem \<Rightarrow> bool" where
  "string_safe p buf \<longleftrightarrow> p \<noteq> [] \<and> (length p < length buf \<or> last p = uint (buf ! (length p - 1)))"

lemma less_4: "(m :: nat) < 4 \<longleftrightarrow> m = 0 \<or> m = 1 \<or> m = 2 \<or> m = 3"
  by auto

lemma ex_method:
  "(\<exists>m. method_ok m l r \<and> Q m) \<longleftrightarrow> Q 0 \<or> (l \<and> Q 1) \<or> (r \<and> Q 2) \<or> (l \<and> r \<and> Q 3)"
  unfolding method_ok_def less_4 by (simp add: conj_disj_distribR ex_disj_distrib)

lemma set_if_single: "set (if b then [x] else []) = {y. b \<and> y = x}"
  by (cases b) simp_all

lemma string_match_spec:
  assumes "stash_ok st"
  shows "\<exists>hs st'. peak_string_match node len start st = Some (len = 0, st') \<and> stash.takes st hs st' \<and>
    set hs = {h. \<exists>m. method_ok m start (len = 0) \<and> h = string_result node ! m \<and> h \<noteq> 0}"
proof -
  let ?r = "string_result node"
  let ?b0 = "?r ! 0 \<noteq> 0" and ?b1 = "?r ! 1 \<noteq> 0 \<and> start" and ?b2 = "?r ! 2 \<noteq> 0 \<and> len = 0"
    and ?b3 = "?r ! 3 \<noteq> 0 \<and> start \<and> len = 0"
  let ?h = "\<lambda>b m. if b then [?r ! m] else []"
  obtain s0 where s0: "(if ?b0 then stash_push_result (?r ! 0) st else Some st) = Some s0" "stash.takes st (?h ?b0 0) s0"
    using stash.push_if_takes[OF assms] by blast
  obtain s1 where s1: "(if ?b1 then stash_push_result (?r ! 1) s0 else Some s0) = Some s1" "stash.takes s0 (?h ?b1 1) s1"
    using stash.push_if_takes[OF stash.takes_ok[OF s0(2)]] by blast
  obtain s2 where s2: "(if ?b2 then stash_push_result (?r ! 2) s1 else Some s1) = Some s2" "stash.takes s1 (?h ?b2 2) s2"
    using stash.push_if_takes[OF stash.takes_ok[OF s1(2)]] by blast
  obtain s3 where s3: "(if ?b3 then stash_push_result (?r ! 3) s2 else Some s2) = Some s3" "stash.takes s2 (?h ?b3 3) s3"
    using stash.push_if_takes[OF stash.takes_ok[OF s2(2)]] by blast
  have "peak_string_match node len start st = Some (len = 0, s3)"
    unfolding peak_string_match_def Let_def s0(1) bind.bind_lunit s1(1) s2(1) s3(1) by simp
  moreover have "stash.takes st (?h ?b0 0 @ ?h ?b1 1 @ ?h ?b2 2 @ ?h ?b3 3) s3"
    using stash.takes_trans[OF s0(2) stash.takes_trans[OF s1(2) stash.takes_trans[OF s2(2) s3(2)]]] .
  moreover have "set (?h ?b0 0 @ ?h ?b1 1 @ ?h ?b2 2 @ ?h ?b3 3) =
      {h. \<exists>m. method_ok m start (len = 0) \<and> h = ?r ! m \<and> h \<noteq> 0}"
    unfolding ex_method set_append set_if_single by (intro set_eqI) (simp only: Un_iff mem_Collect_eq, fast)
  ultimately show ?thesis by blast
qed

lemma string_hit_Cons:
  "string_hit node (c # buf) start (ch # p) m h \<longleftrightarrow>
     char_ok ch c \<and> (\<exists>n. string_child node ch = Some n \<and> string_hit n buf start p m h)"
  by (auto simp: string_hit_def split: option.splits)

lemma string_hit_Nil:
  "string_hit node buf start [] m h \<longleftrightarrow> method_ok m start (buf = []) \<and> h = string_result node ! m \<and> h \<noteq> 0"
  by (auto simp: string_hit_def)

text \<open>What a recursive search of a subtree reports.\<close>

definition reports :: "peak_strings \<Rightarrow> mem \<Rightarrow> bool \<Rightarrow> u32 list \<Rightarrow> bool" where
  "reports node buf start hs \<longleftrightarrow>
     (\<forall>h \<in> set hs. \<exists>p m. p \<noteq> [] \<and> string_hit node buf start p m h) \<and>
     (\<forall>p m h. string_hit node buf start p m h \<and> string_safe p buf \<longrightarrow> h \<in> set hs)"

text \<open>The matches through the child for \<open>ch\<close> are reported.\<close>

definition covers :: "peak_strings \<Rightarrow> u8 \<Rightarrow> mem \<Rightarrow> bool \<Rightarrow> int \<Rightarrow> u32 list \<Rightarrow> bool" where
  "covers node c buf start ch hs \<longleftrightarrow>
     (\<forall>p m h. string_hit node (c # buf) start (ch # p) m h \<and> (p = [] \<or> string_safe p buf) \<longrightarrow> h \<in> set hs)"

lemma covers_append: "covers node c buf start ch hs \<or> covers node c buf start ch hs' \<Longrightarrow> covers node c buf start ch (hs @ hs')"
  by (auto simp: covers_def)

definition string_sound :: "peak_strings \<Rightarrow> u8 \<Rightarrow> mem \<Rightarrow> bool \<Rightarrow> u32 list \<Rightarrow> bool" where
  "string_sound node c buf start hs \<longleftrightarrow> (\<forall>h \<in> set hs. \<exists>ch p m. string_hit node (c # buf) start (ch # p) m h)"

lemma sound_append: "string_sound node c buf start hs \<Longrightarrow> string_sound node c buf start hs' \<Longrightarrow> string_sound node c buf start (hs @ hs')"
  by (auto simp: string_sound_def)

lemma reportsI:
  assumes "string_sound node c buf start hs" and "covers node c buf start (uint c) hs"
    and "buf \<noteq> [] \<Longrightarrow> covers node c buf start STRING_WILDCARD hs"
    and "buf \<noteq> [] \<Longrightarrow> string_nocase c \<noteq> 0 \<Longrightarrow> covers node c buf start (string_nocase c) hs"
  shows "reports node (c # buf) start hs"
proof -
  have "h \<in> set hs" if hit: "string_hit node (c # buf) start p m h" and safe: "string_safe p (c # buf)" for p m h
  proof -
    obtain ch q where p: "p = ch # q" using safe by (cases p) (auto simp: string_safe_def)
    from hit p have ch: "char_ok ch c" by (simp add: string_hit_Cons)
    from safe p have q: "q = [] \<or> string_safe q buf" by (auto simp: string_safe_def nth_Cons' split: if_splits)
    have "buf \<noteq> [] \<or> ch = uint c"
      using hit safe p by (cases q) (auto simp: string_safe_def string_hit_def)
    with ch assms(2-4) have "covers node c buf start ch hs" by (auto simp: char_ok_def)
    with hit p q show ?thesis by (auto simp: covers_def)
  qed
  with assms(1) show ?thesis unfolding reports_def string_sound_def by blast
qed

lemma string_try_spec:
  assumes node: "string_ok node" and st: "stash_ok st" and ch: "char_ok ch c"
    and rec: "\<And>n st. string_ok n \<Longrightarrow> stash_ok st \<Longrightarrow> buf \<noteq> [] \<Longrightarrow>
      \<exists>hs st'. recurse n st = Some st' \<and> stash.takes st hs st' \<and> reports n buf start hs"
  shows "\<exists>hs st'. string_try recurse node ch (length buf) start st = Some (string_child node ch \<noteq> None \<and> buf = [], st') \<and>
    stash.takes st hs st' \<and>
    string_sound node c buf start hs \<and> covers node c buf start ch hs"
proof (cases "string_child node ch")
  case None
  then show ?thesis using stash.takes_refl[OF st] string_lookup_child[OF node, of ch]
    by (intro exI[of _ "[]"] exI[of _ st]) (auto simp: string_try_def string_hit_Cons covers_def string_sound_def)
next
  case (Some n)
  note n = string_child_ok[OF node Some]
  from string_match_spec[OF st, of n "length buf" start] obtain hs st1 where
    m: "peak_string_match n (length buf) start st = Some (buf = [], st1)" "stash.takes st hs st1"
    "set hs = {h. \<exists>m. method_ok m start (buf = []) \<and> h = string_result n ! m \<and> h \<noteq> 0}" by auto
  show ?thesis
  proof (cases "buf = []")
    case True
    have hit: "string_hit n [] start p m h \<longleftrightarrow> p = [] \<and> method_ok m start True \<and> h = string_result n ! m \<and> h \<noteq> 0" for p m h
      by (cases p) (auto simp: string_hit_def)
    have "string_try recurse node ch (length buf) start st = Some (string_child node ch \<noteq> None \<and> buf = [], st1)"
      using True m(1) Some string_lookup_child[OF node, of ch] by (simp add: string_try_def)
    moreover have "string_sound node c buf start hs"
      unfolding string_sound_def
    proof
      fix h assume "h \<in> set hs"
      with m(3) True obtain k where "method_ok k start True" "h = string_result n ! k" "h \<noteq> 0" by auto
      with hit[of "[]" k h] have "string_hit n [] start [] k h" by simp
      with True Some ch show "\<exists>ch p m. string_hit node (c # buf) start (ch # p) m h"
        by (intro exI[of _ ch] exI[of _ "[]"] exI[of _ k]) (simp add: string_hit_Cons)
    qed
    moreover have "covers node c buf start ch hs"
      using True m(3) Some hit unfolding covers_def string_hit_Cons by auto
    ultimately show ?thesis using m(2) by blast
  next
    case False
    from rec[OF n(1) stash.takes_ok[OF m(2)] False] obtain hs2 st2 where
      r: "recurse n st1 = Some st2" "stash.takes st1 hs2 st2" "reports n buf start hs2" by blast
    have "string_try recurse node ch (length buf) start st = Some (string_child node ch \<noteq> None \<and> buf = [], st2)"
      using False m(1) r(1) Some string_lookup_child[OF node, of ch] by (simp add: string_try_def)
    moreover have "\<exists>p m. string_hit node (c # buf) start (ch # p) m h" if "h \<in> set (hs @ hs2)" for h
    proof -
      from that consider "h \<in> set hs" | "h \<in> set hs2" by auto
      then have "\<exists>p m. string_hit n buf start p m h"
      proof cases
        case 1
        then show ?thesis using m(3) string_hit_Nil[of n buf start _ h] by blast
      next
        case 2
        then show ?thesis using r(3) unfolding reports_def by blast
      qed
      with Some ch show ?thesis by (auto simp: string_hit_Cons)
    qed
    moreover have "h \<in> set (hs @ hs2)"
      if "string_hit node (c # buf) start (ch # p) m h" "p = [] \<or> string_safe p buf" for p m h
      using that Some \<open>set hs = _\<close> r(3) by (auto simp: string_hit_Cons reports_def string_hit_Nil)
    ultimately show ?thesis unfolding covers_def string_sound_def using stash.takes_trans[OF m(2) r(2)]
      by (intro exI[of _ "hs @ hs2"] exI[of _ st2]) blast
  qed
qed

lemma string_find_rec_spec:
  assumes "string_ok node" "stash_ok st" "buf \<noteq> []"
  shows "\<exists>hs st'. string_find_rec node buf start st = Some st' \<and> stash.takes st hs st' \<and> reports node buf start hs"
  using assms
proof (induction buf arbitrary: node st)
  case (Cons c buf)
  let ?rec = "\<lambda>n st. string_find_rec n buf start st"
  let ?attempt = "\<lambda>ch st. string_try ?rec node ch (length buf) start st"
  let ?done = "\<lambda>ch. string_child node ch \<noteq> None \<and> buf = []"
  let ?sound = "string_sound node c buf start"
  let ?covers = "covers node c buf start"
  have attempt: "\<exists>hs st'. ?attempt ch st = Some (?done ch, st') \<and> stash.takes st hs st' \<and> ?sound hs \<and> ?covers ch hs"
    if "stash_ok st" "char_ok ch c" for ch st
    using string_try_spec[OF Cons.prems(1) that Cons.IH] by blast
  have ok: "char_ok (uint c) c" "char_ok STRING_WILDCARD c" "string_nocase c \<noteq> 0 \<Longrightarrow> char_ok (string_nocase c) c"
    by (simp_all add: char_ok_def)
  obtain h1 s1 where t1: "?attempt (uint c) st = Some (?done (uint c), s1)" "stash.takes st h1 s1" "?sound h1"
    "?covers (uint c) h1" using attempt[OF Cons.prems(2) ok(1)] by blast
  obtain h2 s2 where t2: "?attempt STRING_WILDCARD s1 = Some (?done STRING_WILDCARD, s2)" "stash.takes s1 h2 s2"
    "?sound h2" "?covers STRING_WILDCARD h2" using attempt[OF stash.takes_ok[OF t1(2)] ok(2)] by blast
  have t12: "stash.takes st (h1 @ h2) s2" using stash.takes_trans[OF t1(2) t2(2)] .
  consider "?done (uint c)" | "\<not> ?done (uint c)" "?done STRING_WILDCARD \<or> string_nocase c = 0"
    | "\<not> ?done (uint c)" "\<not> ?done STRING_WILDCARD" "string_nocase c \<noteq> 0" by blast
  then show ?case
  proof cases
    case 1
    then have "string_find_rec node (c # buf) start st = Some s1" unfolding string_find_rec.simps(2) Let_def t1(1) by simp
    moreover have "reports node (c # buf) start h1" by (rule reportsI) (use 1 t1(3,4) in simp_all)
    ultimately show ?thesis using t1(2) by blast
  next
    case 2
    then have "string_find_rec node (c # buf) start st = Some s2" using t1(1) t2(1) by (auto simp: Let_def)
    moreover have "reports node (c # buf) start (h1 @ h2)"
      by (rule reportsI) (use 2 t1(3,4) t2(3,4) in \<open>auto intro: sound_append covers_append\<close>)
    ultimately show ?thesis using t12 by blast
  next
    case 3
    obtain h3 s3 where t3: "?attempt (string_nocase c) s2 = Some (?done (string_nocase c), s3)" "stash.takes s2 h3 s3"
      "?sound h3" "?covers (string_nocase c) h3"
      using attempt[OF stash.takes_ok[OF t2(2)] ok(3)[OF 3(3)]] by blast
    have "string_find_rec node (c # buf) start st = Some s3" using 3 t1(1) t2(1) t3(1) by (auto simp: Let_def)
    moreover have "reports node (c # buf) start ((h1 @ h2) @ h3)"
      by (rule reportsI) (use t1(3,4) t2(3,4) t3(3,4) in \<open>auto intro: sound_append covers_append\<close>)
    ultimately show ?thesis using stash.takes_trans[OF t12 t3(2)] by blast
  qed
qed simp

text \<open>The positions of a search: the path matches the bytes from \<open>i\<close> on.\<close>

definition string_occurs :: "peak_strings \<Rightarrow> mem \<Rightarrow> nat \<Rightarrow> int list \<Rightarrow> nat \<Rightarrow> u32 \<Rightarrow> bool" where
  "string_occurs root buf i p m h \<longleftrightarrow> i + length p \<le> length buf \<and> list_all2 char_ok p (take (length p) (drop i buf)) \<and>
     method_ok m (i = 0) (i + length p = length buf) \<and> h = string_at root p m \<and> h \<noteq> 0"

lemma string_occurs_0: "string_occurs root buf 0 p m h \<longleftrightarrow> string_hit root buf True p m h"
  by (simp add: string_occurs_def string_hit_def)

lemma string_find_loop_spec:
  assumes "string_ok root" "stash_ok st"
  shows "\<exists>hs st'. string_find_loop root buf first st = Some st' \<and> stash.takes st hs st' \<and>
    (\<forall>h \<in> set hs. \<exists>i p m. i \<le> length buf \<and> p \<noteq> [] \<and> string_hit root (drop i buf) (first \<and> i = 0) p m h) \<and>
    (\<forall>i p m h. string_hit root (drop i buf) (first \<and> i = 0) p m h \<and> string_safe p (drop i buf) \<longrightarrow> h \<in> set hs)"
  using assms(2)
proof (induction buf arbitrary: first st)
  case Nil
  have "\<not> (string_hit root [] b p m h \<and> string_safe p [])" for b p m h
    by (auto simp: string_hit_def string_safe_def)
  with stash.takes_refl[OF Nil] show ?case by (intro exI[of _ "[]"] exI[of _ st]) auto
next
  case (Cons c buf)
  obtain h1 s1 where 1: "string_find_rec root (c # buf) first st = Some s1" "stash.takes st h1 s1" "reports root (c # buf) first h1"
    using string_find_rec_spec[OF assms(1) Cons.prems, of "c # buf" first] by blast
  obtain h2 s2 where 2: "string_find_loop root buf False s1 = Some s2" "stash.takes s1 h2 s2"
    "\<forall>h \<in> set h2. \<exists>i p m. i \<le> length buf \<and> p \<noteq> [] \<and> string_hit root (drop i buf) False p m h"
    "\<forall>i p m h. string_hit root (drop i buf) False p m h \<and> string_safe p (drop i buf) \<longrightarrow> h \<in> set h2"
    using Cons.IH[OF stash.takes_ok[OF 1(2)], of False] by auto
  have "\<exists>i p m. i \<le> length (c # buf) \<and> p \<noteq> [] \<and> string_hit root (drop i (c # buf)) (first \<and> i = 0) p m h"
    if "h \<in> set (h1 @ h2)" for h
  proof (cases "h \<in> set h1")
    case True
    with 1(3) show ?thesis unfolding reports_def by (intro exI[of _ 0]) simp
  next
    case False
    with that 2(3) obtain i p m where "i \<le> length buf" "p \<noteq> []" "string_hit root (drop i buf) False p m h" by auto
    then show ?thesis by (intro exI[of _ "Suc i"] exI[of _ p] exI[of _ m]) simp
  qed
  moreover have "h \<in> set (h1 @ h2)"
    if "string_hit root (drop i (c # buf)) (first \<and> i = 0) p m h" "string_safe p (drop i (c # buf))" for i p m h
  proof (cases i)
    case 0
    with that 1(3) show ?thesis by (auto simp: reports_def)
  next
    case (Suc j)
    with that 2(4) show ?thesis by auto
  qed
  moreover have "string_find_loop root (c # buf) first st = Some s2" using 1(1) 2(1) by simp
  ultimately show ?case using stash.takes_trans[OF 1(2) 2(2)]
    by (intro exI[of _ "h1 @ h2"] exI[of _ s2]) blast
qed

lemma hit_occurs:
  "i \<le> length buf \<Longrightarrow> p \<noteq> [] \<Longrightarrow> string_hit root (drop i buf) (i = 0) p m h \<longleftrightarrow> string_occurs root buf i p m h"
  by (auto simp: string_hit_def string_occurs_def method_ok_def)

lemma string_find_spec:
  assumes "string_ok root" "stash_ok st"
  shows "\<exists>hs st'. peak_string_find root buf st = Some st' \<and> stash.takes st hs st' \<and>
    (\<forall>h \<in> set hs. \<exists>i p m. string_occurs root buf i p m h) \<and>
    (\<forall>i p m h. string_occurs root buf i p m h \<and> string_safe p (drop i buf) \<longrightarrow> h \<in> set hs)"
proof -
  obtain h0 s0 where 0: "peak_string_match root (length buf) True st = Some (buf = [], s0)" "stash.takes st h0 s0"
    "set h0 = {h. \<exists>m. method_ok m True (buf = []) \<and> h = string_result root ! m \<and> h \<noteq> 0}"
    using string_match_spec[OF assms(2), of root "length buf" True] by auto
  have root: "\<exists>i p m. string_occurs root buf i p m h" if "h \<in> set h0" for h
  proof -
    from that 0(3) obtain m where "method_ok m True (buf = [])" "h = string_result root ! m" "h \<noteq> 0" by auto
    then have "string_hit root buf True [] m h" by (simp add: string_hit_Nil)
    then show ?thesis unfolding string_occurs_0[symmetric] by blast
  qed
  show ?thesis
  proof (cases "buf = []")
    case True
    have "\<not> (string_occurs root [] i p m h \<and> string_safe p [])" for i p m h
      by (auto simp: string_occurs_def string_safe_def)
    with True 0 root show ?thesis by (intro exI[of _ h0] exI[of _ s0]) (auto simp: peak_string_find_def)
  next
    case False
    obtain h1 s1 where 1: "string_find_loop root buf True s0 = Some s1" "stash.takes s0 h1 s1"
      "\<forall>h \<in> set h1. \<exists>i p m. i \<le> length buf \<and> p \<noteq> [] \<and> string_hit root (drop i buf) (i = 0) p m h"
      "\<forall>i p m h. string_hit root (drop i buf) (i = 0) p m h \<and> string_safe p (drop i buf) \<longrightarrow> h \<in> set h1"
      using string_find_loop_spec[OF assms(1) stash.takes_ok[OF 0(2)], of buf True] by auto
    have "\<exists>i p m. string_occurs root buf i p m h" if "h \<in> set (h0 @ h1)" for h
      using that root 1(3) hit_occurs[of _ buf _ root] by (metis Un_iff set_append)
    moreover have "h \<in> set (h0 @ h1)" if "string_occurs root buf i p m h" "string_safe p (drop i buf)" for i p m h
    proof -
      have "i \<le> length buf" "p \<noteq> []" using that by (auto simp: string_occurs_def string_safe_def)
      with that 1(4) hit_occurs[of i buf p root m h] show ?thesis by auto
    qed
    moreover have "peak_string_find root buf st = Some s1" using False 0(1) 1(1) by (simp add: peak_string_find_def)
    ultimately show ?thesis using stash.takes_trans[OF 0(2) 1(2)] by (intro exI[of _ "h0 @ h1"] exI[of _ s1]) blast
  qed
qed

section \<open>Properties\<close>

lemma string_init_ok: "string_ok string_zero"
  by (simp add: string_zero_def string.pages_ok_def pages_shape_def)

text \<open>\<open>PAGE_INSERT\<close> keeps the children of a node one sorted list spread over pages of one to five elements:
  it returns the element that compares equal if there is one, otherwise it stores the new element at
  its place and returns where it is, splitting a full page; only when memory is refused it returns
  \<open>NULL\<close>, and then nothing has changed.\<close>

lemma page_insert_keeps_sorted:
  assumes "string.pages_ok root"
  shows "\<exists>r root'. PAGE_INSERT STRING_PAGE STRING_CMP alloc x root = Some (r, root') \<and> string.pages_ok root' \<and>
    (case r of
       None \<Rightarrow> root' = root \<and> \<not> alloc
     | Some loc \<Rightarrow>
         (root' = root \<and> (\<exists>y. page_at root loc = Some y \<and> string_character y = string_character x)) \<or>
         (page_at root' loc = Some x \<and> (\<exists>as bs. concat root = as @ bs \<and> concat root' = as @ x # bs)))"
proof -
  from string.page_insert[OF assms UNIV_I, of alloc x] obtain r root' where
    r: "PAGE_INSERT STRING_PAGE STRING_CMP alloc x root = Some (r, root')"
    "case r of None \<Rightarrow> root' = root \<and> \<not> alloc
     | Some loc \<Rightarrow> (root' = root \<and> (\<exists>y. page_at root loc = Some y \<and> STRING_CMP x y = 0)) \<or> string.inserted x root loc root'"
    by blast
  have "STRING_CMP x y = 0 \<longleftrightarrow> string_character y = string_character x" for y by (auto simp: STRING_CMP_def)
  with r assms show ?thesis by (intro exI[of _ r] exI[of _ root'], cases r) (auto simp: string.inserted_def)
qed

lemma page_insert_keeps_sorted_witness:
  "\<exists>r root'. PAGE_INSERT STRING_PAGE STRING_CMP True (string_ref 7) [] = Some (r, root') \<and> string.pages_ok root'"
  using page_insert_keeps_sorted[of "[]" True "string_ref 7"] by (auto simp: string.pages_ok_def pages_shape_def)

text \<open>C14. \<open>peak_string_add\<close> is an insertion into a table from patterns and anchoring methods to results: the
  result is registered unless there is one already, which is then returned, and no other entry
  changes; if memory runs out on the way, 0 is returned and no entry changes. The trie stays well
  formed.\<close>

theorem string_add_registers:
  assumes "string_ok root"
  shows "\<exists>ret root'. peak_string_add alloc root res (Some buf) flags = Some (ret, root') \<and> string_ok root' \<and>
    (string_added (string_path flags buf) (string_method flags) res root ret root' \<or>
     (\<exists>k. \<not> alloc k) \<and> string_kept root ret root')"
  using string_add_loop_spec[OF assms, of alloc 0 flags res buf] by (auto simp: peak_string_add_def)

theorem string_add_registers_witness:
  "\<exists>ret root'. peak_string_add (\<lambda>_. True) string_zero 9 (Some [97, 98]) 0 = Some (ret, root') \<and> string_ok root' \<and>
    string_added [97, 98] 0 9 string_zero ret root'"
  using string_add_registers[OF string_init_ok, of "\<lambda>_. True" 9 "[97, 98]" 0]
  by (simp add: string_char_def string_method_def)

lemma string_path_literal: "63 \<notin> set buf \<Longrightarrow> 92 \<notin> set buf \<Longrightarrow> string_path 0 buf = map uint buf"
  by (induction buf) (auto simp: string_char_def)

text \<open>C13. A search never leaves the input or the stash and reports only true matches: each result pushed is
  registered for a pattern that matches the input at some position in the way its method asks for.
  And it reports every match that ends before the input does or ends with a literal character, as
  far as the stash has room.\<close>

theorem string_find_reports:
  assumes "string_ok root" "stash_ok st"
  shows "\<exists>hs st'. peak_string_find root buf st = Some st' \<and> stash_ok st' \<and>
    stash_list st' = take (stash_cap st) (stash_list st @ hs) \<and>
    (\<forall>h \<in> set hs. \<exists>i p m. string_occurs root buf i p m h) \<and>
    (\<forall>i p m h. string_occurs root buf i p m h \<and> string_safe p (drop i buf) \<longrightarrow> h \<in> set hs)"
  using string_find_spec[OF assms, of buf] stash_takes_list[OF assms(2)] stash.takes_ok by blast

text \<open>The trie that holds the pattern \<open>a\<close>, searched for in the input \<open>a\<close>.\<close>

theorem string_find_reports_witness:
  "\<exists>root hs st'. peak_string_add (\<lambda>_. True) string_zero 9 (Some [97]) 0 = Some (9, root) \<and>
    peak_string_find root [97] (STASH_DECLARE 1 [0]) = Some st' \<and> stash_list st' = take 1 hs \<and> 9 \<in> set hs"
proof -
  have st: "stash_ok (STASH_DECLARE 1 [0])" "stash_list (STASH_DECLARE 1 [0]) = []" "stash_cap (STASH_DECLARE 1 [0]) = 1"
    by (simp_all add: stash_declare) (simp add: STASH_DECLARE_def stash_cap_def)
  have path: "string_path 0 [97] = map uint [97::8 word]" by (rule string_path_literal) simp_all
  from string_add_loop_spec[OF string_init_ok, of "\<lambda>_. True" 0 0 9 "[97]"] obtain ret root where
    add: "peak_string_add (\<lambda>_. True) string_zero 9 (Some [97]) 0 = Some (ret, root)" "string_ok root"
    "string_added (map uint [97::8 word]) STRING_METHOD_FLOATING 9 string_zero ret root"
    by (auto simp only: peak_string_add_def path string_method_def) auto
  have at: "string_at string_zero (map uint [97::8 word]) STRING_METHOD_FLOATING = 0" by (simp add: string_zero_def string_child_def)
  then have ret: "ret = 9" "string_at root (map uint [97::8 word]) STRING_METHOD_FLOATING = 9" using add(3)
    by (simp_all add: string_added_def del: list.map string_at.simps)
  have "string_occurs root [97] 0 (map uint [97::8 word]) STRING_METHOD_FLOATING 9"
    using ret(2) by (simp add: string_occurs_def method_ok_def char_ok_def)
  moreover have "string_safe (map uint [97::8 word]) (drop 0 [97])" by (simp add: string_safe_def)
  ultimately show ?thesis using string_find_reports[OF add(2) st(1), of "[97]"] add(1) ret(1) unfolding st append_Nil by blast
qed

text \<open>C15. Patterns that were added are found: if memory is available, a pattern without wildcards and escapes that has no result for
  floating matches yet is registered with any result \<open>res\<close> other than zero, and a search in an input that contains its bytes then
  reports \<open>res\<close>, whatever else the trie holds. It is in the stash afterwards if the stash has room for all that the search
  reports; otherwise what does not fit is lost.\<close>

theorem string_add_then_find:
  assumes "string_ok root" "stash_ok st" and "res \<noteq> 0" "buf \<noteq> []" "63 \<notin> set buf" "92 \<notin> set buf"
    and "string_at root (map uint buf) STRING_METHOD_FLOATING = 0"
  shows "\<exists>root' hs st'. peak_string_add (\<lambda>_. True) root res (Some buf) 0 = Some (res, root') \<and>
    peak_string_find root' (pre @ buf @ post) st = Some st' \<and>
    stash_list st' = take (stash_cap st) (stash_list st @ hs) \<and> res \<in> set hs \<and>
    (if length (stash_list st) + length hs \<le> stash_cap st then res \<in> set (stash_list st') else True)"
proof -
  note path = string_path_literal[OF assms(5,6)]
  from string_add_loop_spec[OF assms(1), of "\<lambda>_. True" 0 0 res buf] obtain ret root' where
    add: "peak_string_add (\<lambda>_. True) root res (Some buf) 0 = Some (ret, root')" "string_ok root'"
    "string_added (map uint buf) STRING_METHOD_FLOATING res root ret root'"
    by (auto simp: peak_string_add_def path string_method_def)
  have ret: "ret = res" "string_at root' (map uint buf) STRING_METHOD_FLOATING = res"
    using add(3) assms(7) by (auto simp: string_added_def)
  let ?in = "pre @ buf @ post"
  from string_find_spec[OF add(2) assms(2), of ?in] obtain hs st' where
    find: "peak_string_find root' ?in st = Some st'" "stash.takes st hs st'"
    "\<forall>i p m h. string_occurs root' ?in i p m h \<and> string_safe p (drop i ?in) \<longrightarrow> h \<in> set hs" by blast
  have "string_occurs root' ?in (length pre) (map uint buf) STRING_METHOD_FLOATING res"
    using ret(2) assms(3) by (auto simp: string_occurs_def method_ok_def char_ok_def list_all2_map1 intro: list_all2_refl)
  moreover have "string_safe (map uint buf) (drop (length pre) ?in)"
    using assms(4) by (auto simp: string_safe_def last_conv_nth nth_append)
  ultimately have "res \<in> set hs" using find(3) by blast
  moreover note stash_takes_list[OF assms(2) find(2)]
  ultimately show ?thesis using add(1) find(1) ret(1) by (intro exI[of _ root'] exI[of _ hs] exI[of _ st']) simp
qed

theorem string_add_then_find_witness:
  "\<exists>root' hs st'. peak_string_add (\<lambda>_. True) string_zero 9 (Some [97, 98]) 0 = Some (9, root') \<and>
    peak_string_find root' ([120] @ [97, 98] @ []) (STASH_DECLARE 2 [0, 0]) = Some st' \<and>
    stash_list st' = take 2 hs \<and> 9 \<in> set hs \<and> (if length hs \<le> 2 then 9 \<in> set (stash_list st') else True)"
proof -
  have st: "stash_ok (STASH_DECLARE 2 [0, 0])" "stash_list (STASH_DECLARE 2 [0, 0]) = []" "stash_cap (STASH_DECLARE 2 [0, 0]) = 2"
    by (simp_all add: stash_declare) (simp add: STASH_DECLARE_def stash_cap_def)
  have at: "string_at string_zero (map uint [97, 98]) STRING_METHOD_FLOATING = 0"
    by (simp add: string_zero_def string_child_def)
  show ?thesis using string_add_then_find[OF string_init_ok st(1) _ _ _ _ at, of 9 "[120]" "[]"] unfolding st append_Nil by simp
qed

text \<open>A match can get lost: after adding the patterns \<open>a\<close> and \<open>?\<close>, the input \<open>a\<close> matches both, but the search
  returns as soon as the literal child has consumed the last byte and never looks at the wildcard.\<close>

lemma string_find_loses_wildcard:
  "\<exists>r1 root st. peak_string_add (\<lambda>_. True) string_zero 1 (Some [97]) 0 = Some (1, r1) \<and>
     peak_string_add (\<lambda>_. True) r1 2 (Some [63]) 0 = Some (2, root) \<and>
     string_occurs root [97] 0 [STRING_WILDCARD] STRING_METHOD_FLOATING 2 \<and>
     peak_string_find root [97] (STASH_DECLARE 4 [0, 0, 0, 0]) = Some st \<and> stash_list st = [1]"
proof -
  let ?n = "\<lambda>r ch. PeakStrings [] [r, 0, 0, 0] ch"
  let ?root = "PeakStrings [[?n 1 97, ?n 2 256]] [0, 0, 0, 0] 0"
  let ?st = "\<lparr>stash_index = 1, stash_size = 4, stash_values = [1, 0, 0, 0]\<rparr> :: u32 stash"
  have "peak_string_add (\<lambda>_. True) string_zero 1 (Some [97]) 0 = Some (1, PeakStrings [[?n 1 97]] [0, 0, 0, 0] 0)"
    by code_simp
  moreover have "peak_string_add (\<lambda>_. True) (PeakStrings [[?n 1 97]] [0, 0, 0, 0] 0) 2 (Some [63]) 0 = Some (2, ?root)"
    by code_simp
  moreover have "string_occurs ?root [97] 0 [STRING_WILDCARD] STRING_METHOD_FLOATING 2" by code_simp
  moreover have "peak_string_find ?root [97] (STASH_DECLARE 4 [0, 0, 0, 0]) = Some ?st" by code_simp
  moreover have "stash_list ?st = [1]" by code_simp
  ultimately show ?thesis by blast
qed

end
