(* ===== verification/Peak_Alloc.thy ===== *)
theory Peak_Alloc
  imports Peak_Type
begin

text \<open>
  The guarded allocator of \<open>src/include/peak_alloc.h\<close>: every block carries its size and a magic value in
  front of the user's bytes and the magic value again behind them.

  The heap is the bytes of the address space and the blocks that \<open>malloc(3)\<close> and \<open>posix_memalign(3)\<close> have
  handed out and \<open>free(3)\<close> has not taken back. Which address they return is a parameter of every
  operation that calls them, \<open>None\<close> being \<open>NULL\<close>; \<open>fresh_block\<close> is what their manual pages promise of it.
  The \<open>name\<close> argument of the \<open>ALLOC_\<close> macros is a datatype. The result \<open>None\<close> of an operation is undefined
  behaviour: an access outside the memory, \<open>free(3)\<close> of something that is no block.
\<close>

section \<open>Heap and C library\<close>

record heap =
  heap_mem :: mem
  heap_blocks :: "nat \<rightharpoonup> nat"

definition libc_malloc :: "ptr \<Rightarrow> nat \<Rightarrow> heap \<Rightarrow> ptr \<times> heap" where
  "libc_malloc a n s =
     (case a of None \<Rightarrow> (None, s) | Some h \<Rightarrow> (Some h, s\<lparr>heap_blocks := (heap_blocks s)(h \<mapsto> n)\<rparr>))"

definition libc_free :: "ptr \<Rightarrow> heap \<Rightarrow> heap option" where
  "libc_free a s =
     (case a of
        None \<Rightarrow> Some s
      | Some h \<Rightarrow> if heap_blocks s h = None then None else Some (s\<lparr>heap_blocks := (heap_blocks s)(h := None)\<rparr>))"

definition mem_set :: "mem \<Rightarrow> nat \<Rightarrow> u8 \<Rightarrow> nat \<Rightarrow> mem option" where
  "mem_set m p v n = (if p + n \<le> length m then Some (take p m @ replicate n v @ drop (p + n) m) else None)"

definition mem_cpy :: "mem \<Rightarrow> nat \<Rightarrow> nat \<Rightarrow> nat \<Rightarrow> mem option" where
  "mem_cpy m dst src n =
     (if dst + n \<le> length m \<and> src + n \<le> length m
      then Some (take dst m @ take n (drop src m) @ drop (dst + n) m) else None)"

definition mem_strlen :: "mem \<Rightarrow> nat \<Rightarrow> nat option" where
  "mem_strlen m p = (let s = takeWhile (\<lambda>c. c \<noteq> 0) (drop p m) in if p + length s < length m then Some (length s) else None)"

section \<open>Macros\<close>

abbreviation (input) "SIZE_MAX \<equiv> 0xFFFFFFFFFFFFFFFF :: u64"
abbreviation (input) "ALLOC_CACHELINE \<equiv> 64 :: u64"
abbreviation (input) "MUL_NO_OVERFLOW \<equiv> 0x100000000 :: u64"

definition ALLOC_ALIGN :: "u64 \<Rightarrow> u64 \<Rightarrow> u64" where
  "ALLOC_ALIGN x y = x + y - (if x mod y \<noteq> 0 then x mod y else y)"

definition ALLOC_CACHEALIGN :: "u64 \<Rightarrow> u64" where
  "ALLOC_CACHEALIGN x = ALLOC_ALIGN x ALLOC_CACHELINE"

datatype alloc_ret = ALLOC_HEALTHY | ALLOC_UNDERFLOW | ALLOC_OVERFLOW

definition ALLOC_ERROR :: "alloc_ret \<Rightarrow> unit outcome" where
  "ALLOC_ERROR x = (case x of ALLOC_HEALTHY \<Rightarrow> Return () | ALLOC_UNDERFLOW \<Rightarrow> Panic | ALLOC_OVERFLOW \<Rightarrow> Panic)"

datatype alloc_name = Malloc | Malign

fun sizeof_head :: "alloc_name \<Rightarrow> nat" where
  "sizeof_head Malloc = 16"
| "sizeof_head Malign = 64"

fun ALLOC_VALUE :: "alloc_name \<Rightarrow> u64" where
  "ALLOC_VALUE Malign = 0x9B97A6B5C4D3E2F1"
| "ALLOC_VALUE Malloc = 0xD12E3D4C5B6A7989"

definition ALLOC_PAD :: "alloc_name \<Rightarrow> u64" where
  "ALLOC_PAD name = of_nat (sizeof_head name) + 8"

definition ALLOC_MAGIC :: "nat \<Rightarrow> ptr" where
  "ALLOC_MAGIC x = (if x < 8 then None else Some (x - 8))"

definition ALLOC_HEAD :: "alloc_name \<Rightarrow> nat \<Rightarrow> ptr" where
  "ALLOC_HEAD name x = (if x < sizeof_head name then None else Some (x - sizeof_head name))"

definition ALLOC_USER :: "alloc_name \<Rightarrow> nat \<Rightarrow> nat" where
  "ALLOC_USER name h = h + sizeof_head name"

definition ALLOC_SIZE :: "mem \<Rightarrow> nat \<Rightarrow> u64 option" where
  "ALLOC_SIZE m h = peak_le64dec m h"

definition ALLOC_TAIL :: "alloc_name \<Rightarrow> mem \<Rightarrow> nat \<Rightarrow> nat option" where
  "ALLOC_TAIL name m h = do { sz \<leftarrow> ALLOC_SIZE m h; Some (ALLOC_USER name h + unat sz) }"

definition ALLOC_INIT :: "alloc_name \<Rightarrow> mem \<Rightarrow> nat \<Rightarrow> u64 \<Rightarrow> mem option" where
  "ALLOC_INIT name m h sz = do {
     m \<leftarrow> peak_le64enc m h sz;
     m \<leftarrow> peak_le64enc m (h + sizeof_head name - 8) (ALLOC_VALUE name);
     t \<leftarrow> ALLOC_TAIL name m h;
     peak_le64enc m t (ALLOC_VALUE name) }"

section \<open>Operations\<close>

text \<open>\<open>_peak_finalise_malloc\<close>, \<open>_peak_finalise_malign\<close>, \<open>_peak_mcheck_malloc\<close> and \<open>_peak_mcheck_malign\<close> differ in
  the name only.\<close>

definition peak_finalise :: "alloc_name \<Rightarrow> u64 \<Rightarrow> nat \<Rightarrow> heap \<Rightarrow> (ptr \<times> heap) option" where
  "peak_finalise name sz h s = do {
     m \<leftarrow> ALLOC_INIT name (heap_mem s) h sz;
     Some (Some (ALLOC_USER name h), s\<lparr>heap_mem := m\<rparr>) }"

definition mcheck_name :: "alloc_name \<Rightarrow> nat \<Rightarrow> heap \<Rightarrow> alloc_ret option" where
  "mcheck_name name p s = do {
     h \<leftarrow> ALLOC_HEAD name p;
     t \<leftarrow> ALLOC_TAIL name (heap_mem s) h;
     v \<leftarrow> peak_le64dec (heap_mem s) t;
     Some (if ALLOC_VALUE name \<noteq> v then ALLOC_OVERFLOW else ALLOC_HEALTHY) }"

definition peak_malloc :: "ptr \<Rightarrow> u64 \<Rightarrow> heap \<Rightarrow> (ptr \<times> heap) option" where
  "peak_malloc a sz s =
     (if sz = 0 then Some (None, s)
      else if sz > SIZE_MAX - ALLOC_PAD Malloc then Some (None, s)
      else case libc_malloc a (unat (sz + ALLOC_PAD Malloc)) s of
        (None, s) \<Rightarrow> Some (None, s)
      | (Some h, s) \<Rightarrow> peak_finalise Malloc sz h s)"

text \<open>The test in front of every multiplication of \<open>count\<close> and \<open>size\<close>.\<close>

definition mul_overflows :: "u64 \<Rightarrow> u64 \<Rightarrow> bool" where
  "mul_overflows count sz \<longleftrightarrow> (count \<ge> MUL_NO_OVERFLOW \<or> sz \<ge> MUL_NO_OVERFLOW) \<and> count > 0 \<and> SIZE_MAX div count < sz"

definition peak_calloc :: "ptr \<Rightarrow> u64 \<Rightarrow> u64 \<Rightarrow> heap \<Rightarrow> (ptr \<times> heap) option" where
  "peak_calloc a count sz s =
     (if mul_overflows count sz then Some (None, s)
      else do {
        let sz = sz * count;
        (p, s) \<leftarrow> peak_malloc a sz s;
        case p of
          None \<Rightarrow> Some (None, s)
        | Some p \<Rightarrow> do {
            m \<leftarrow> mem_set (heap_mem s) p 0 (unat sz);
            Some (Some p, s\<lparr>heap_mem := m\<rparr>) } })"

definition realloc_raw :: "ptr \<Rightarrow> ptr \<Rightarrow> u64 \<Rightarrow> heap \<Rightarrow> (ptr \<times> heap) option" where
  "realloc_raw a p sz s = do {
     (h, old) \<leftarrow> (case p of
         None \<Rightarrow> Some (None, 0)
       | Some p \<Rightarrow> do { h \<leftarrow> ALLOC_HEAD Malloc p; old \<leftarrow> ALLOC_SIZE (heap_mem s) h; Some (Some h, old) });
     if sz \<noteq> 0 then do {
       (new_ptr, s) \<leftarrow> peak_malloc a sz s;
       case new_ptr of
         None \<Rightarrow> Some (None, s)
       | Some q \<Rightarrow> do {
           let n = (if old < sz then old else sz);
           m \<leftarrow> (if n \<noteq> 0 then do { h \<leftarrow> h; mem_cpy (heap_mem s) q (ALLOC_USER Malloc h) (unat n) } else Some (heap_mem s));
           s \<leftarrow> libc_free h (s\<lparr>heap_mem := m\<rparr>);
           Some (new_ptr, s) } }
     else do {
       s \<leftarrow> libc_free h s;
       Some (None, s) } }"

definition with_check :: "ptr \<Rightarrow> heap \<Rightarrow> 'a option \<Rightarrow> 'a outcome option" where
  "with_check p s f =
     (case p of
        None \<Rightarrow> map_option Return f
      | Some p \<Rightarrow> do {
          r \<leftarrow> mcheck_name Malloc p s;
          case ALLOC_ERROR r of Return _ \<Rightarrow> map_option Return f | Panic \<Rightarrow> Some Panic | Hang \<Rightarrow> Some Hang })"

definition peak_realloc :: "ptr \<Rightarrow> ptr \<Rightarrow> u64 \<Rightarrow> heap \<Rightarrow> (ptr \<times> heap) outcome option" where
  "peak_realloc a p sz s = with_check p s (realloc_raw a p sz s)"

definition reallocarray_raw :: "ptr \<Rightarrow> ptr \<Rightarrow> u64 \<Rightarrow> u64 \<Rightarrow> heap \<Rightarrow> (ptr \<times> heap) option" where
  "reallocarray_raw a p count sz s =
     (if mul_overflows count sz then Some (None, s) else realloc_raw a p (sz * count) s)"

definition peak_reallocarray :: "ptr \<Rightarrow> ptr \<Rightarrow> u64 \<Rightarrow> u64 \<Rightarrow> heap \<Rightarrow> (ptr \<times> heap) outcome option" where
  "peak_reallocarray a p count sz s = with_check p s (reallocarray_raw a p count sz s)"

definition peak_strdup :: "ptr \<Rightarrow> nat \<Rightarrow> heap \<Rightarrow> (ptr \<times> heap) option" where
  "peak_strdup a s1 s = do {
     n \<leftarrow> mem_strlen (heap_mem s) s1;
     (s2, s) \<leftarrow> peak_malloc a (of_nat (n + 1)) s;
     case s2 of
       None \<Rightarrow> Some (None, s)
     | Some q \<Rightarrow> do {
         n \<leftarrow> mem_strlen (heap_mem s) s1;
         m \<leftarrow> mem_cpy (heap_mem s) q s1 (n + 1);
         Some (s2, s\<lparr>heap_mem := m\<rparr>) } }"

definition peak_malign :: "ptr \<Rightarrow> u64 \<Rightarrow> u64 \<Rightarrow> heap \<Rightarrow> (ptr \<times> heap) option" where
  "peak_malign a count sz s =
     (if sz = 0 then Some (None, s)
      else if mul_overflows count sz then Some (None, s)
      else
        let sz = sz * count
        in if sz > SIZE_MAX - ALLOC_CACHELINE - ALLOC_PAD Malign then Some (None, s)
           else case libc_malloc a (unat (ALLOC_CACHEALIGN sz + ALLOC_PAD Malign)) s of
             (None, s) \<Rightarrow> Some (None, s)
           | (Some h, s) \<Rightarrow> peak_finalise Malign sz h s)"

definition free_raw :: "ptr \<Rightarrow> bool \<Rightarrow> heap \<Rightarrow> (alloc_ret \<times> heap) option" where
  "free_raw p really_free s =
     (case p of
        None \<Rightarrow> Some (ALLOC_HEALTHY, s)
      | Some p \<Rightarrow> do {
          a \<leftarrow> ALLOC_MAGIC p;
          v \<leftarrow> peak_le64dec (heap_mem s) a;
          if v = ALLOC_VALUE Malloc then do {
            ret \<leftarrow> mcheck_name Malloc p s;
            s \<leftarrow> (if really_free \<and> ret = ALLOC_HEALTHY then libc_free (ALLOC_HEAD Malloc p) s else Some s);
            Some (ret, s) }
          else if v = ALLOC_VALUE Malign then do {
            ret \<leftarrow> mcheck_name Malign p s;
            s \<leftarrow> (if really_free \<and> ret = ALLOC_HEALTHY then libc_free (ALLOC_HEAD Malign p) s else Some s);
            Some (ret, s) }
          else Some (ALLOC_UNDERFLOW, s) })"

definition peak_mcheck :: "ptr \<Rightarrow> heap \<Rightarrow> unit outcome option" where
  "peak_mcheck p s = do { (r, s) \<leftarrow> free_raw p False s; Some (ALLOC_ERROR r) }"

definition peak_free :: "ptr \<Rightarrow> heap \<Rightarrow> heap outcome option" where
  "peak_free p s = do {
     (r, s) \<leftarrow> free_raw p True s;
     Some (case ALLOC_ERROR r of Return _ \<Rightarrow> Return s | Panic \<Rightarrow> Panic | Hang \<Rightarrow> Hang) }"

text \<open>Without the guards, \<open>malign\<close> rounds up and \<open>reallocarray\<close> hands the product to \<open>realloc(3)\<close>.\<close>

definition malign_plain :: "ptr \<Rightarrow> u64 \<Rightarrow> u64 \<Rightarrow> heap \<Rightarrow> ptr \<times> heap" where
  "malign_plain a count sz s =
     (if sz = 0 then (None, s)
      else if mul_overflows count sz then (None, s)
      else if sz * count > SIZE_MAX - ALLOC_CACHELINE then (None, s)
      else libc_malloc a (unat (ALLOC_CACHEALIGN (sz * count))) s)"

definition reallocarray_plain :: "(ptr \<Rightarrow> u64 \<Rightarrow> ptr) \<Rightarrow> ptr \<Rightarrow> u64 \<Rightarrow> u64 \<Rightarrow> ptr" where
  "reallocarray_plain realloc p count sz = (if mul_overflows count sz then None else realloc p (sz * count))"

section \<open>The product test is exact\<close>

lemma mul_overflows_iff: "mul_overflows count sz \<longleftrightarrow> 2 ^ 64 \<le> unat count * unat sz"
proof -
  let ?c = "unat count" and ?s = "unat sz"
  have "SIZE_MAX div count < sz \<longleftrightarrow> (2 ^ 64 - 1) div ?c < ?s"
    by (simp add: word_less_nat_alt unat_div)
  moreover have "(2 ^ 64 - 1) div ?c < ?s \<longleftrightarrow> 2 ^ 64 \<le> ?c * ?s" if "0 < ?c"
  proof -
    have "(2 ^ 64 - 1) div ?c < ?s \<longleftrightarrow> 2 ^ 64 - 1 < ?s * ?c" using that by (simp only: div_less_iff_less_mult)
    then show ?thesis by (simp add: mult.commute less_eq_Suc_le)
  qed
  moreover have "MUL_NO_OVERFLOW \<le> count \<or> MUL_NO_OVERFLOW \<le> sz" if "2 ^ 64 \<le> ?c * ?s"
  proof (rule ccontr)
    assume "\<not> (MUL_NO_OVERFLOW \<le> count \<or> MUL_NO_OVERFLOW \<le> sz)"
    then have "?c < 2 ^ 32" "?s < 2 ^ 32" by (simp_all add: not_le word_less_nat_alt)
    then have "?c * ?s < 2 ^ 32 * 2 ^ 32" by (intro mult_strict_mono') auto
    with that show False by simp
  qed
  moreover have "0 < count \<longleftrightarrow> 0 < ?c" by (simp add: word_less_nat_alt)
  ultimately show ?thesis unfolding mul_overflows_def by (metis mult_is_0 not_numeral_le_zero gr0I power_not_zero zero_neq_numeral le_zero_eq)
qed

lemma product_exact: "\<not> mul_overflows count sz \<Longrightarrow> unat (sz * count) = unat count * unat sz"
  by (simp add: mul_overflows_iff unat_word_ariths mult.commute)

section \<open>Guarded blocks\<close>

text \<open>What the C library promises of a block it returns: it lies in memory and apart from the blocks in use.\<close>

definition fresh_block :: "heap \<Rightarrow> nat \<Rightarrow> nat \<Rightarrow> bool" where
  "fresh_block s h n \<longleftrightarrow> h + n \<le> length (heap_mem s) \<and> heap_blocks s h = None \<and>
     (\<forall>b k. heap_blocks s b = Some k \<longrightarrow> b + k \<le> h \<or> h + n \<le> b)"

text \<open>A pointer to \<open>n\<close> bytes with intact guards inside a block.\<close>

definition guarded :: "alloc_name \<Rightarrow> heap \<Rightarrow> nat \<Rightarrow> nat \<Rightarrow> bool" where
  "guarded name s p n \<longleftrightarrow> sizeof_head name \<le> p \<and> p + n + 8 \<le> length (heap_mem s) \<and>
     (\<exists>k. heap_blocks s (p - sizeof_head name) = Some k \<and> sizeof_head name + n + 8 \<le> k) \<and>
     map_option unat (peak_le64dec (heap_mem s) (p - sizeof_head name)) = Some n \<and>
     peak_le64dec (heap_mem s) (p - 8) = Some (ALLOC_VALUE name) \<and>
     peak_le64dec (heap_mem s) (p + n) = Some (ALLOC_VALUE name)"

lemma head_room: "16 \<le> sizeof_head name"
  by (cases name) simp_all

lemma alloc_init_guards:
  assumes "h + sizeof_head name + unat sz + 8 \<le> length m"
  shows "\<exists>m'. ALLOC_INIT name m h sz = Some m' \<and> length m' = length m \<and> peak_le64dec m' h = Some sz \<and>
    peak_le64dec m' (h + sizeof_head name - 8) = Some (ALLOC_VALUE name) \<and>
    peak_le64dec m' (h + sizeof_head name + unat sz) = Some (ALLOC_VALUE name) \<and>
    (\<forall>i. i < h \<or> h + sizeof_head name + unat sz + 8 \<le> i \<longrightarrow> m' ! i = m ! i)"
proof -
  note hd = head_room[of name]
  obtain m1 where m1: "peak_le64enc m h sz = Some m1" "peak_le64dec m1 h = Some sz" "length m1 = length m"
    using assms by (elim le64.round_trip[of h m sz, rotated]) simp
  have b1: "h + sizeof_head name - 8 + 8 \<le> length m1" using assms m1(3) hd by simp
  obtain m2 where m2: "peak_le64enc m1 (h + sizeof_head name - 8) (ALLOC_VALUE name) = Some m2"
    "peak_le64dec m2 (h + sizeof_head name - 8) = Some (ALLOC_VALUE name)" "length m2 = length m"
    using le64.round_trip[OF b1, of "ALLOC_VALUE name"] m1(3) by metis
  have b2: "h + sizeof_head name + unat sz + 8 \<le> length m2" using assms m2(3) by simp
  obtain m3 where m3: "peak_le64enc m2 (h + sizeof_head name + unat sz) (ALLOC_VALUE name) = Some m3"
    "peak_le64dec m3 (h + sizeof_head name + unat sz) = Some (ALLOC_VALUE name)" "length m3 = length m"
    using le64.round_trip[OF b2, of "ALLOC_VALUE name"] m2(3) by metis
  have d2: "peak_le64dec m2 h = Some sz" using le64.dec_other[OF m2(1), of h] m1(2) hd by simp
  have d3: "peak_le64dec m3 h = Some sz" "peak_le64dec m3 (h + sizeof_head name - 8) = Some (ALLOC_VALUE name)"
    using le64.dec_other[OF m3(1), of h] le64.dec_other[OF m3(1), of "h + sizeof_head name - 8"] d2 m2(2) hd by simp_all
  have "ALLOC_INIT name m h sz = Some m3"
    using m1(1) m2(1) d2 m3(1) by (simp add: ALLOC_INIT_def ALLOC_TAIL_def ALLOC_SIZE_def ALLOC_USER_def)
  moreover have "m3 ! i = m ! i" if "i < h \<or> h + sizeof_head name + unat sz + 8 \<le> i" for i
    using that hd le64.enc_frame[OF m1(1), of i] le64.enc_frame[OF m2(1), of i] le64.enc_frame[OF m3(1), of i] by auto
  ultimately show ?thesis using d3 m3 by auto
qed

lemma finalise_guards:
  assumes "h + sizeof_head name + unat sz + 8 \<le> h + k" "h + k \<le> length (heap_mem s)" "heap_blocks s h = Some k"
  shows "\<exists>m. peak_finalise name sz h s = Some (Some (h + sizeof_head name), s\<lparr>heap_mem := m\<rparr>) \<and>
    length m = length (heap_mem s) \<and> guarded name (s\<lparr>heap_mem := m\<rparr>) (h + sizeof_head name) (unat sz) \<and>
    (\<forall>i. i < h \<or> h + k \<le> i \<longrightarrow> m ! i = heap_mem s ! i)"
proof -
  from alloc_init_guards[of h name sz "heap_mem s"] assms obtain m where
    "ALLOC_INIT name (heap_mem s) h sz = Some m" "length m = length (heap_mem s)" "peak_le64dec m h = Some sz"
    "peak_le64dec m (h + sizeof_head name - 8) = Some (ALLOC_VALUE name)"
    "peak_le64dec m (h + sizeof_head name + unat sz) = Some (ALLOC_VALUE name)"
    "\<forall>i. i < h \<or> h + sizeof_head name + unat sz + 8 \<le> i \<longrightarrow> m ! i = heap_mem s ! i" by auto
  with assms show ?thesis
    by (intro exI[of _ m]) (auto simp: peak_finalise_def guarded_def ALLOC_USER_def)
qed

lemma guarded_check:
  assumes "guarded name s p n"
  shows "mcheck_name name p s = Some ALLOC_HEALTHY" "free_raw (Some p) r s =
    Some (ALLOC_HEALTHY, if r then s\<lparr>heap_blocks := (heap_blocks s)(p - sizeof_head name := None)\<rparr> else s)"
proof -
  from assms have g: "sizeof_head name \<le> p" "heap_blocks s (p - sizeof_head name) \<noteq> None"
    "peak_le64dec (heap_mem s) (p - 8) = Some (ALLOC_VALUE name)" "peak_le64dec (heap_mem s) (p + n) = Some (ALLOC_VALUE name)"
    by (auto simp: guarded_def)
  from assms obtain sz where sz: "peak_le64dec (heap_mem s) (p - sizeof_head name) = Some sz" "unat sz = n"
    by (auto simp: guarded_def)
  show c: "mcheck_name name p s = Some ALLOC_HEALTHY"
    using g sz by (simp add: mcheck_name_def ALLOC_HEAD_def ALLOC_TAIL_def ALLOC_SIZE_def ALLOC_USER_def)
  have "8 \<le> p" using g(1) head_room[of name] by linarith
  then show "free_raw (Some p) r s = Some (ALLOC_HEALTHY, if r then s\<lparr>heap_blocks := (heap_blocks s)(p - sizeof_head name := None)\<rparr> else s)"
    using g c by (cases name) (auto simp: free_raw_def ALLOC_MAGIC_def ALLOC_HEAD_def libc_free_def)
qed

lemma guarded_frame:
  assumes g: "guarded name s q n" and "heap_blocks s' (q - sizeof_head name) = heap_blocks s (q - sizeof_head name)"
    and len: "length (heap_mem s') = length (heap_mem s)"
    and same: "\<And>i. q - sizeof_head name \<le> i \<Longrightarrow> i < q + n + 8 \<Longrightarrow> heap_mem s' ! i = heap_mem s ! i"
  shows "guarded name s' q n"
proof -
  note hd = head_room[of name]
  have head: "sizeof_head name \<le> q" using g by (simp add: guarded_def)
  have d: "peak_le64dec (heap_mem s') a = peak_le64dec (heap_mem s) a" if "q - sizeof_head name \<le> a" "a + 8 \<le> q + n + 8" for a
    using that same len by (intro le64.dec_local) auto
  have "q - sizeof_head name + 8 \<le> q + n + 8" "q - sizeof_head name \<le> q - 8" "q - 8 + 8 \<le> q + n + 8" using head hd by linarith+
  then have "peak_le64dec (heap_mem s') (q - sizeof_head name) = peak_le64dec (heap_mem s) (q - sizeof_head name)"
    "peak_le64dec (heap_mem s') (q - 8) = peak_le64dec (heap_mem s) (q - 8)" "peak_le64dec (heap_mem s') (q + n) = peak_le64dec (heap_mem s) (q + n)"
    by (intro d; simp)+
  with assms(1-3) show ?thesis by (simp add: guarded_def)
qed

section \<open>The allocator contract\<close>

text \<open>What the clients of \<open>malloc\<close>, \<open>calloc\<close> and \<open>malign\<close> rely on: a request \<open>r\<close> for \<open>total r\<close> bytes asks the C
  library for \<open>block r\<close> bytes, and only those are written.\<close>

locale guarded_alloc =
  fixes alloc :: "ptr \<Rightarrow> 'r \<Rightarrow> heap \<Rightarrow> (ptr \<times> heap) option" and name :: alloc_name
    and total :: "'r \<Rightarrow> nat" and block :: "'r \<Rightarrow> nat"
  assumes no_memory: "alloc None r s = Some (None, s)"
    and grant: "fresh_block s h (block r) \<Longrightarrow> alloc (Some h) r s = Some (None, s) \<or>
      (\<exists>s'. alloc (Some h) r s = Some (Some (h + sizeof_head name), s') \<and> guarded name s' (h + sizeof_head name) (total r) \<and>
        heap_blocks s' = (heap_blocks s)(h \<mapsto> block r) \<and> length (heap_mem s') = length (heap_mem s) \<and>
        (\<forall>i. i < h \<or> h + block r \<le> i \<longrightarrow> heap_mem s' ! i = heap_mem s ! i))"
begin

text \<open>The blocks of other allocations, whatever allocator made them, stay guarded.\<close>

lemma keeps_guarded:
  assumes fresh: "fresh_block s h (block r)" and alloc: "alloc (Some h) r s = Some (Some p, s')" and g: "guarded name' s q n"
  shows "guarded name' s' q n" "i < q + n \<Longrightarrow> q \<le> i \<Longrightarrow> heap_mem s' ! i = heap_mem s ! i"
proof -
  let ?b = "q - sizeof_head name'"
  from grant[OF fresh] alloc have s': "heap_blocks s' = (heap_blocks s)(h \<mapsto> block r)" "length (heap_mem s') = length (heap_mem s)"
    "\<And>i. i < h \<or> h + block r \<le> i \<Longrightarrow> heap_mem s' ! i = heap_mem s ! i" by auto
  from g obtain k where k: "heap_blocks s ?b = Some k" "sizeof_head name' + n + 8 \<le> k" "sizeof_head name' \<le> q"
    by (auto simp: guarded_def)
  with fresh have apart: "?b + k \<le> h \<or> h + block r \<le> ?b" "?b \<noteq> h" unfolding fresh_block_def by (blast, force)
  have same: "heap_mem s' ! i = heap_mem s ! i" if "?b \<le> i" "i < q + n + 8" for i
    using that apart(1) k(2,3) by (intro s'(3)) linarith
  show "guarded name' s' q n" by (rule guarded_frame[OF g]) (use same apart(2) s'(1,2) in auto)
  show "i < q + n \<Longrightarrow> q \<le> i \<Longrightarrow> heap_mem s' ! i = heap_mem s ! i" using same k(3) by simp
qed

text \<open>A block can be released at once, after which the heap has the blocks it had.\<close>

lemma release:
  assumes fresh: "fresh_block s h (block r)" and alloc: "alloc (Some h) r s = Some (Some p, s')"
  shows "\<exists>s''. peak_free (Some p) s' = Some (Return s'') \<and> heap_blocks s'' = heap_blocks s"
proof -
  from grant[OF fresh] alloc have s': "p = h + sizeof_head name" "guarded name s' p (total r)"
    "heap_blocks s' = (heap_blocks s)(h \<mapsto> block r)" by auto
  from fresh have "(heap_blocks s)(h := None) = heap_blocks s" by (auto simp: fresh_block_def)
  with guarded_check(2)[OF s'(2), of True] s'(1,3) show ?thesis by (simp add: peak_free_def ALLOC_ERROR_def)
qed

end

section \<open>The allocators meet the contract\<close>

lemma malloc_pad: "sz \<le> SIZE_MAX - ALLOC_PAD Malloc \<longleftrightarrow> unat sz + 24 < 2 ^ 64"
  by (simp add: ALLOC_PAD_def word_le_nat_alt) arith

lemma malloc_grants:
  assumes fresh: "fresh_block s h (unat sz + 24)" and sz: "sz \<noteq> 0" "unat sz + 24 < 2 ^ 64"
  shows "\<exists>m. peak_malloc (Some h) sz s = Some (Some (h + 16), s\<lparr>heap_blocks := (heap_blocks s)(h \<mapsto> unat sz + 24), heap_mem := m\<rparr>) \<and>
    length m = length (heap_mem s) \<and>
    guarded Malloc (s\<lparr>heap_blocks := (heap_blocks s)(h \<mapsto> unat sz + 24), heap_mem := m\<rparr>) (h + 16) (unat sz) \<and>
    (\<forall>i. i < h \<or> h + (unat sz + 24) \<le> i \<longrightarrow> m ! i = heap_mem s ! i)"
proof -
  let ?s = "s\<lparr>heap_blocks := (heap_blocks s)(h \<mapsto> unat sz + 24)\<rparr>"
  have "unat (sz + ALLOC_PAD Malloc) = unat sz + 24" using sz(2) by (simp add: ALLOC_PAD_def unat_word_ariths)
  moreover have "\<not> SIZE_MAX - ALLOC_PAD Malloc < sz" using malloc_pad[of sz] sz(2) by (simp add: not_less)
  ultimately have "peak_malloc (Some h) sz s = peak_finalise Malloc sz h ?s" using sz(1) by (simp add: peak_malloc_def libc_malloc_def)
  with finalise_guards[of h Malloc sz "unat sz + 24" ?s] fresh show ?thesis by (auto simp: fresh_block_def)
qed

lemma malloc_refuses: "sz = 0 \<or> \<not> unat sz + 24 < 2 ^ 64 \<Longrightarrow> peak_malloc a sz s = Some (None, s)"
  using malloc_pad[of sz] by (auto simp: peak_malloc_def not_less)

interpretation malloc: guarded_alloc peak_malloc Malloc unat "\<lambda>sz. unat sz + 24"
proof unfold_locales
  show "peak_malloc None r s = Some (None, s)" for r s by (simp add: peak_malloc_def libc_malloc_def)
  show "peak_malloc (Some h) r s = Some (None, s) \<or>
      (\<exists>s'. peak_malloc (Some h) r s = Some (Some (h + sizeof_head Malloc), s') \<and> guarded Malloc s' (h + sizeof_head Malloc) (unat r) \<and>
        heap_blocks s' = (heap_blocks s)(h \<mapsto> unat r + 24) \<and> length (heap_mem s') = length (heap_mem s) \<and>
        (\<forall>i. i < h \<or> h + (unat r + 24) \<le> i \<longrightarrow> heap_mem s' ! i = heap_mem s ! i))"
    if "fresh_block s h (unat r + 24)" for s h and r :: u64
  proof (cases "r = 0 \<or> \<not> unat r + 24 < 2 ^ 64")
    case False
    with malloc_grants[OF that] show ?thesis by auto
  qed (simp add: malloc_refuses)
qed

lemma guarded_user_write:
  assumes "guarded name s p n" "length m = length (heap_mem s)" "\<And>i. i < p \<or> p + n \<le> i \<Longrightarrow> m ! i = heap_mem s ! i"
  shows "guarded name (s\<lparr>heap_mem := m\<rparr>) p n"
proof -
  note hd = head_room[of name]
  have head: "sizeof_head name \<le> p" using assms(1) by (simp add: guarded_def)
  have d: "peak_le64dec m a = peak_le64dec (heap_mem s) a" if "a + 8 \<le> p \<or> p + n \<le> a" for a
    using that assms(2,3) by (intro le64.dec_local) auto
  have "p - sizeof_head name + 8 \<le> p" "p - 8 + 8 \<le> p" using head hd by linarith+
  then have "peak_le64dec m (p - sizeof_head name) = peak_le64dec (heap_mem s) (p - sizeof_head name)"
    "peak_le64dec m (p - 8) = peak_le64dec (heap_mem s) (p - 8)" "peak_le64dec m (p + n) = peak_le64dec (heap_mem s) (p + n)"
    by (intro d; simp)+
  with assms(1,2) show ?thesis by (simp add: guarded_def)
qed

lemma mem_set_spec:
  assumes "p + n \<le> length m"
  shows "\<exists>m'. mem_set m p v n = Some m' \<and> length m' = length m \<and> (\<forall>i < n. m' ! (p + i) = v) \<and>
    (\<forall>i. i < p \<or> p + n \<le> i \<longrightarrow> m' ! i = m ! i)"
  using assms by (auto simp: mem_set_def nth_append)

lemma mem_cpy_spec:
  assumes "dst + n \<le> length m" "src + n \<le> length m"
  shows "\<exists>m'. mem_cpy m dst src n = Some m' \<and> length m' = length m \<and> (\<forall>i < n. m' ! (dst + i) = m ! (src + i)) \<and>
    (\<forall>i. i < dst \<or> dst + n \<le> i \<longrightarrow> m' ! i = m ! i)"
  using assms by (auto simp: mem_cpy_def nth_append)

lemma calloc_grants:
  assumes fresh: "fresh_block s h (unat count * unat sz + 24)" and sz: "unat count * unat sz \<noteq> 0" "unat count * unat sz + 24 < 2 ^ 64"
  shows "\<exists>m. peak_calloc (Some h) count sz s = Some (Some (h + 16), s\<lparr>heap_blocks := (heap_blocks s)(h \<mapsto> unat count * unat sz + 24), heap_mem := m\<rparr>) \<and>
    length m = length (heap_mem s) \<and>
    guarded Malloc (s\<lparr>heap_blocks := (heap_blocks s)(h \<mapsto> unat count * unat sz + 24), heap_mem := m\<rparr>) (h + 16) (unat count * unat sz) \<and>
    (\<forall>i < unat count * unat sz. m ! (h + 16 + i) = 0) \<and>
    (\<forall>i. i < h \<or> h + (unat count * unat sz + 24) \<le> i \<longrightarrow> m ! i = heap_mem s ! i)"
proof -
  have no: "\<not> mul_overflows count sz" using sz(2) by (simp add: mul_overflows_iff)
  note eq = product_exact[OF no]
  have "sz * count \<noteq> 0" using eq sz(1) by (metis unat_0)
  from malloc_grants[of s h "sz * count"] this fresh sz(2) obtain m where
    m: "peak_malloc (Some h) (sz * count) s = Some (Some (h + 16), s\<lparr>heap_blocks := (heap_blocks s)(h \<mapsto> unat count * unat sz + 24), heap_mem := m\<rparr>)"
    "length m = length (heap_mem s)"
    "guarded Malloc (s\<lparr>heap_blocks := (heap_blocks s)(h \<mapsto> unat count * unat sz + 24), heap_mem := m\<rparr>) (h + 16) (unat count * unat sz)"
    "\<And>i. i < h \<or> h + (unat count * unat sz + 24) \<le> i \<Longrightarrow> m ! i = heap_mem s ! i" unfolding eq by auto
  have "h + 16 + unat count * unat sz \<le> length m" using fresh m(2) by (simp add: fresh_block_def)
  from mem_set_spec[OF this, of 0] obtain m' where m': "mem_set m (h + 16) 0 (unat count * unat sz) = Some m'" "length m' = length m"
    "\<forall>i < unat count * unat sz. m' ! (h + 16 + i) = 0" "\<And>i. i < h + 16 \<or> h + 16 + unat count * unat sz \<le> i \<Longrightarrow> m' ! i = m ! i" by blast
  have "peak_calloc (Some h) count sz s = Some (Some (h + 16), s\<lparr>heap_blocks := (heap_blocks s)(h \<mapsto> unat count * unat sz + 24), heap_mem := m'\<rparr>)"
    using no m(1) m'(1) by (simp add: peak_calloc_def eq Let_def)
  moreover have "guarded Malloc (s\<lparr>heap_blocks := (heap_blocks s)(h \<mapsto> unat count * unat sz + 24), heap_mem := m'\<rparr>) (h + 16) (unat count * unat sz)"
    using guarded_user_write[OF m(3), of m'] m'(2,4) by simp
  moreover have "m' ! i = heap_mem s ! i" if "i < h \<or> h + (unat count * unat sz + 24) \<le> i" for i
    using that m(4)[OF that] m'(4)[of i] by auto
  ultimately show ?thesis using m(2) m'(2,3) by auto
qed

lemma calloc_refuses:
  assumes "unat count * unat sz = 0 \<or> \<not> unat count * unat sz + 24 < 2 ^ 64"
  shows "peak_calloc a count sz s = Some (None, s)"
proof (cases "mul_overflows count sz")
  case False
  note eq = product_exact[OF False]
  have "sz * count = 0 \<or> \<not> unat (sz * count) + 24 < 2 ^ 64" using assms unfolding eq by (auto simp: unat_eq_0)
  from malloc_refuses[OF this] False show ?thesis by (simp add: peak_calloc_def Let_def)
qed (simp add: peak_calloc_def)

interpretation calloc: guarded_alloc "\<lambda>a (count, sz). peak_calloc a count sz" Malloc
  "\<lambda>(count, sz). unat count * unat sz" "\<lambda>(count, sz). unat count * unat sz + 24"
proof unfold_locales
  show "(case r of (count, sz) \<Rightarrow> peak_calloc None count sz) s = Some (None, s)" for r s
    by (auto simp: peak_calloc_def Let_def malloc.no_memory split: prod.split)
  show "(case r of (count, sz) \<Rightarrow> peak_calloc (Some h) count sz) s = Some (None, s) \<or>
      (\<exists>s'. (case r of (count, sz) \<Rightarrow> peak_calloc (Some h) count sz) s = Some (Some (h + sizeof_head Malloc), s') \<and>
        guarded Malloc s' (h + sizeof_head Malloc) (case r of (count, sz) \<Rightarrow> unat count * unat sz) \<and>
        heap_blocks s' = (heap_blocks s)(h \<mapsto> case r of (count, sz) \<Rightarrow> unat count * unat sz + 24) \<and>
        length (heap_mem s') = length (heap_mem s) \<and>
        (\<forall>i. i < h \<or> h + (case r of (count, sz) \<Rightarrow> unat count * unat sz + 24) \<le> i \<longrightarrow> heap_mem s' ! i = heap_mem s ! i))"
    if "fresh_block s h (case r of (count, sz) \<Rightarrow> unat count * unat sz + 24)" for s h and r :: "u64 \<times> u64"
  proof (cases r)
    case (Pair count sz)
    show ?thesis
    proof (cases "unat count * unat sz = 0 \<or> \<not> unat count * unat sz + 24 < 2 ^ 64")
      case True
      then show ?thesis using calloc_refuses[of count sz] Pair by simp
    next
      case False
      with calloc_grants[of s h count sz] that Pair show ?thesis by auto
    qed
  qed
qed

lemma round_up_64: "(n + 63) div 64 * 64 = (if n mod 64 = 0 then n else n + 64 - n mod (64 :: nat))"
proof -
  define q r where "q = n div 64" and "r = n mod 64"
  have n: "n = r + q * 64" and r: "r < 64" by (simp_all add: q_def r_def)
  have "(n + 63) div 64 = q + (r + 63) div 64" unfolding n by simp
  moreover have "(r + 63) div 64 = (if r = 0 then 0 else 1)" using r by (auto intro!: div_nat_eqI)
  ultimately show ?thesis using n r by (simp flip: r_def)
qed

lemma unat_cachealign:
  assumes "unat sz + 136 < 2 ^ 64"
  shows "unat (ALLOC_CACHEALIGN sz + ALLOC_PAD Malign) = (unat sz + 63) div 64 * 64 + 72"
proof -
  let ?n = "unat sz"
  have mod: "unat (sz mod 64) = ?n mod 64" by (simp add: unat_mod)
  have lt: "?n mod 64 < 64" by simp
  have "unat (ALLOC_CACHEALIGN sz) = (?n + 63) div 64 * 64"
  proof (cases "sz mod 64 = 0")
    case True
    then have z: "?n mod 64 = 0" using mod by simp
    then have "(?n + 63) div 64 * 64 = ?n" by (simp only: round_up_64 simp_thms if_True)
    then show ?thesis using True by (simp add: ALLOC_CACHEALIGN_def ALLOC_ALIGN_def)
  next
    case False
    then have nz: "?n mod 64 \<noteq> 0" using mod by (metis unat_eq_0)
    have "unat (sz + 64) = ?n + 64" using assms by (simp add: unat_word_ariths)
    moreover have "sz mod 64 \<le> sz + 64" using calculation mod lt by (simp add: word_le_nat_alt)
    ultimately have "unat (sz + 64 - sz mod 64) = ?n + 64 - ?n mod 64" using mod by (simp add: unat_sub)
    moreover have "?n + 64 - ?n mod 64 = (?n + 63) div 64 * 64" using nz by (simp only: round_up_64 if_False)
    ultimately show ?thesis using False by (simp add: ALLOC_CACHEALIGN_def ALLOC_ALIGN_def)
  qed
  moreover have "(?n + 63) div 64 * 64 \<le> ?n + 63" by simp
  ultimately show ?thesis using assms by (simp add: ALLOC_PAD_def unat_word_ariths)
qed

lemma malign_pad: "sz \<le> SIZE_MAX - ALLOC_CACHELINE - ALLOC_PAD Malign \<longleftrightarrow> unat sz + 136 < 2 ^ 64"
  by (simp add: ALLOC_PAD_def word_le_nat_alt) arith

definition malign_block :: "u64 \<Rightarrow> u64 \<Rightarrow> nat" where
  "malign_block count sz = (unat count * unat sz + 63) div 64 * 64 + 72"

lemma malign_grants:
  assumes fresh: "fresh_block s h (malign_block count sz)" and sz: "sz \<noteq> 0" "unat count * unat sz + 136 < 2 ^ 64"
  shows "\<exists>m. peak_malign (Some h) count sz s = Some (Some (h + 64), s\<lparr>heap_blocks := (heap_blocks s)(h \<mapsto> malign_block count sz), heap_mem := m\<rparr>) \<and>
    length m = length (heap_mem s) \<and>
    guarded Malign (s\<lparr>heap_blocks := (heap_blocks s)(h \<mapsto> malign_block count sz), heap_mem := m\<rparr>) (h + 64) (unat count * unat sz) \<and>
    (\<forall>i. i < h \<or> h + malign_block count sz \<le> i \<longrightarrow> m ! i = heap_mem s ! i)"
proof -
  let ?k = "malign_block count sz"
  let ?s = "s\<lparr>heap_blocks := (heap_blocks s)(h \<mapsto> ?k)\<rparr>"
  have no: "\<not> mul_overflows count sz" using sz(2) by (simp add: mul_overflows_iff)
  note eq = product_exact[OF no]
  have "unat (ALLOC_CACHEALIGN (sz * count) + ALLOC_PAD Malign) = ?k"
    using unat_cachealign[of "sz * count"] sz(2) by (simp add: eq malign_block_def)
  moreover have "\<not> SIZE_MAX - ALLOC_CACHELINE - ALLOC_PAD Malign < sz * count"
    using malign_pad[of "sz * count"] sz(2) by (simp add: eq not_less)
  ultimately have "peak_malign (Some h) count sz s = peak_finalise Malign (sz * count) h ?s"
    using sz(1) no by (simp add: peak_malign_def libc_malloc_def Let_def)
  moreover have "unat count * unat sz \<le> (unat count * unat sz + 63) div 64 * 64"
    unfolding round_up_64 using mod_less_divisor[of 64 "unat count * unat sz"] by (simp add: less_imp_le)
  then have "h + sizeof_head Malign + unat (sz * count) + 8 \<le> h + ?k" by (simp add: eq malign_block_def)
  ultimately show ?thesis using finalise_guards[of h Malign "sz * count" ?k ?s] fresh by (auto simp: eq fresh_block_def)
qed

lemma malign_refuses:
  assumes "sz = 0 \<or> \<not> unat count * unat sz + 136 < 2 ^ 64"
  shows "peak_malign a count sz s = Some (None, s)"
proof (cases "mul_overflows count sz")
  case False
  with assms malign_pad[of "sz * count"] show ?thesis by (auto simp: peak_malign_def product_exact not_less Let_def)
qed (simp add: peak_malign_def)

interpretation malign: guarded_alloc "\<lambda>a (count, sz). peak_malign a count sz" Malign
  "\<lambda>(count, sz). unat count * unat sz" "\<lambda>(count, sz). malign_block count sz"
proof unfold_locales
  show "(case r of (count, sz) \<Rightarrow> peak_malign None count sz) s = Some (None, s)" for r s
    by (auto simp: peak_malign_def Let_def libc_malloc_def split: prod.split)
  show "(case r of (count, sz) \<Rightarrow> peak_malign (Some h) count sz) s = Some (None, s) \<or>
      (\<exists>s'. (case r of (count, sz) \<Rightarrow> peak_malign (Some h) count sz) s = Some (Some (h + sizeof_head Malign), s') \<and>
        guarded Malign s' (h + sizeof_head Malign) (case r of (count, sz) \<Rightarrow> unat count * unat sz) \<and>
        heap_blocks s' = (heap_blocks s)(h \<mapsto> case r of (count, sz) \<Rightarrow> malign_block count sz) \<and>
        length (heap_mem s') = length (heap_mem s) \<and>
        (\<forall>i. i < h \<or> h + (case r of (count, sz) \<Rightarrow> malign_block count sz) \<le> i \<longrightarrow> heap_mem s' ! i = heap_mem s ! i))"
    if "fresh_block s h (case r of (count, sz) \<Rightarrow> malign_block count sz)" for s h and r :: "u64 \<times> u64"
  proof (cases r)
    case (Pair count sz)
    show ?thesis
    proof (cases "sz = 0 \<or> \<not> unat count * unat sz + 136 < 2 ^ 64")
      case True
      then show ?thesis using malign_refuses[of sz count] Pair by simp
    next
      case False
      with malign_grants[of s h count sz] that Pair show ?thesis by auto
    qed
  qed
qed

section \<open>Overwritten guards\<close>

lemma le32dec_bytes:
  assumes "peak_le32dec m p = Some v"
  shows "m ! p = ucast v" "m ! (p + 1) = ucast (drop_bit 8 v)" "m ! (p + 2) = ucast (drop_bit 16 v)" "m ! (p + 3) = ucast (drop_bit 24 v)"
proof -
  have "v = push_bit 24 (ucast (m ! (p + 3))) OR push_bit 16 (ucast (m ! (p + 2))) OR push_bit 8 (ucast (m ! (p + 1))) OR ucast (m ! p)"
    using assms by (auto simp: peak_le32dec_def load8_def bind_eq_Some_conv split: if_splits)
  with join_bytes[where a = "m ! p" and b = "m ! (p + 1)" and c = "m ! (p + 2)" and d = "m ! (p + 3)"]
  show "m ! p = ucast v" "m ! (p + 1) = ucast (drop_bit 8 v)" "m ! (p + 2) = ucast (drop_bit 16 v)" "m ! (p + 3) = ucast (drop_bit 24 v)"
    by simp_all
qed

lemma le32dec_inj:
  assumes "peak_le32dec m p = Some v" "peak_le32dec m' p = Some v" "p \<le> i" "i < p + 4"
  shows "m ! i = m' ! i"
proof -
  from assms(3,4) consider "i = p" | "i = p + 1" | "i = p + 2" | "i = p + 3" by linarith
  then show ?thesis by cases (simp_all only: le32dec_bytes[OF assms(1)] le32dec_bytes[OF assms(2)])
qed

lemma le64dec_inj:
  assumes "peak_le64dec m p = Some v" "peak_le64dec m' p = Some v" "p \<le> i" "i < p + 8"
  shows "m ! i = m' ! i"
proof -
  have parts: "ucast (push_bit 32 (ucast hi) OR ucast lo :: u64) = lo" "ucast (drop_bit 32 (push_bit 32 (ucast hi) OR ucast lo :: u64)) = hi"
    for hi lo :: u32 by (rule bit_word_eqI; auto simp: bit_simps dest: bit_imp_le_length)+
  have d: "peak_le32dec x p = Some (ucast v)" "peak_le32dec x (p + 4) = Some (ucast (drop_bit 32 v))" if "peak_le64dec x p = Some v" for x
    using that parts by (auto simp: peak_le64dec_def bind_eq_Some_conv)
  show ?thesis
  proof (cases "i < p + 4")
    case True
    then show ?thesis using le32dec_inj[OF d(1)[OF assms(1)] d(1)[OF assms(2)] assms(3)] by simp
  next
    case False
    then show ?thesis using le32dec_inj[OF d(2)[OF assms(1)] d(2)[OF assms(2)], of i] assms(4) by simp
  qed
qed

lemma le64dec_changed:
  assumes "length m' = length m" and "peak_le64dec m p = Some v"
  shows "peak_le64dec m' p = Some v \<longleftrightarrow> (\<forall>i \<in> {p..<p + 8}. m' ! i = m ! i)"
proof
  show "\<forall>i \<in> {p..<p + 8}. m' ! i = m ! i" if "peak_le64dec m' p = Some v" using le64dec_inj[OF that assms(2)] by simp
  show "peak_le64dec m' p = Some v" if "\<forall>i \<in> {p..<p + 8}. m' ! i = m ! i"
    using le64.dec_local[of m' m p] that assms by simp
qed

section \<open>Properties\<close>

text \<open>C11. The guards catch the writes they are meant to catch: after any change of memory that leaves the size
  field of a block of \<open>malloc\<close> alone, \<open>free\<close> releases the block if the eight bytes in front of the user's bytes and the
  eight bytes behind them are unchanged, and panics if not, the only exception being a magic value
  overwritten with that of \<open>malign\<close>.\<close>

theorem malloc_guards_detect:
  assumes "fresh_block s h (unat sz + 24)" and "peak_malloc (Some h) sz s = Some (Some p, s')"
    and "length m = length (heap_mem s')" and "\<forall>i \<in> {p - 16..<p - 8}. m ! i = heap_mem s' ! i"
    and "peak_le64dec m (p - 8) \<noteq> Some (ALLOC_VALUE Malign)"
  shows "peak_free (Some p) (s'\<lparr>heap_mem := m\<rparr>) =
    Some (if \<forall>i \<in> {p - 8..<p} \<union> {p + unat sz..<p + unat sz + 8}. m ! i = heap_mem s' ! i
          then Return (s'\<lparr>heap_mem := m, heap_blocks := heap_blocks s\<rparr>) else Panic)"
proof -
  from malloc.grant[OF assms(1)] assms(2) have g: "p = h + 16" "guarded Malloc s' p (unat sz)"
    "heap_blocks s' = (heap_blocks s)(h \<mapsto> unat sz + 24)" by auto
  have blocks: "(heap_blocks s')(h := None) = heap_blocks s" using assms(1) g(3) by (auto simp: fresh_block_def)
  from g(2) obtain v where v: "peak_le64dec (heap_mem s') (p - 16) = Some v" "unat v = unat sz"
    and magic: "peak_le64dec (heap_mem s') (p - 8) = Some (ALLOC_VALUE Malloc)"
    and tail: "peak_le64dec (heap_mem s') (p + unat sz) = Some (ALLOC_VALUE Malloc)"
    and room: "p + unat sz + 8 \<le> length (heap_mem s')" by (auto simp: guarded_def)
  have d: "peak_le64dec m (p - 16) = Some v" using le64dec_changed[OF assms(3) v(1)] assms(4) g(1) by simp
  have p8: "p - 8 + 8 = p" using g(1) by simp
  have M: "peak_le64dec m (p - 8) = Some (ALLOC_VALUE Malloc) \<longleftrightarrow> (\<forall>i \<in> {p - 8..<p}. m ! i = heap_mem s' ! i)"
    using le64dec_changed[OF assms(3) magic] unfolding p8 .
  have T: "peak_le64dec m (p + unat sz) = Some (ALLOC_VALUE Malloc) \<longleftrightarrow> (\<forall>i \<in> {p + unat sz..<p + unat sz + 8}. m ! i = heap_mem s' ! i)"
    by (rule le64dec_changed[OF assms(3) tail])
  have "length m \<ge> p - 8 + 8" using room assms(3) g(1) by simp
  then obtain w where w: "peak_le64dec m (p - 8) = Some w" using decode_eq_None_iff(5)[of m "p - 8"] by fastforce
  obtain t where t: "peak_le64dec m (p + unat sz) = Some t" using decode_eq_None_iff(5)[of m "p + unat sz"] room assms(3) by fastforce
  have "peak_free (Some p) (s'\<lparr>heap_mem := m\<rparr>) = Some (if w = ALLOC_VALUE Malloc \<and> t = ALLOC_VALUE Malloc
      then Return (s'\<lparr>heap_mem := m, heap_blocks := (heap_blocks s')(h := None)\<rparr>) else Panic)"
    using g(1,3) d v(2) w t assms(5)
    by (auto simp: peak_free_def free_raw_def ALLOC_MAGIC_def mcheck_name_def ALLOC_HEAD_def ALLOC_TAIL_def ALLOC_SIZE_def
        ALLOC_USER_def ALLOC_ERROR_def libc_free_def simp del: ALLOC_VALUE.simps)
  then show ?thesis using M T w t unfolding blocks ball_Un by (simp del: ALLOC_VALUE.simps)
qed

definition sample_heap :: heap where
  "sample_heap = \<lparr>heap_mem = replicate 256 0x55, heap_blocks = Map.empty\<rparr>"

lemma sample_fresh: "h + n \<le> 256 \<Longrightarrow> fresh_block sample_heap h n"
  by (simp add: fresh_block_def sample_heap_def)

lemma sample_malloc:
  "\<exists>s'. peak_malloc (Some 8) 10 sample_heap = Some (Some 24, s') \<and> heap_mem s' ! 34 = 0x89 \<and> length (heap_mem s') = 256 \<and>
    peak_le64dec ((heap_mem s')[34 := 0]) 16 = Some (ALLOC_VALUE Malloc)"
proof -
  have "map_option (\<lambda>(p, s). (p, heap_mem s ! 34, length (heap_mem s), peak_le64dec ((heap_mem s)[34 := 0]) 16))
      (peak_malloc (Some 8) 10 sample_heap) = Some (Some 24, 0x89, 256, Some (ALLOC_VALUE Malloc))" by code_simp
  then show ?thesis by auto
qed

theorem malloc_guards_detect_witness:
  "\<exists>s'. peak_malloc (Some 8) 10 sample_heap = Some (Some 24, s') \<and> peak_free (Some 24) s' \<noteq> Some Panic \<and>
    peak_free (Some 24) (s'\<lparr>heap_mem := (heap_mem s')[34 := 0]\<rparr>) = Some Panic"
proof -
  from sample_malloc obtain s' where s': "peak_malloc (Some 8) 10 sample_heap = Some (Some 24, s')" "heap_mem s' ! 34 = 0x89"
    "length (heap_mem s') = 256" "peak_le64dec ((heap_mem s')[34 := 0]) 16 = Some (ALLOC_VALUE Malloc)" by blast
  have f: "fresh_block sample_heap 8 (unat (10 :: u64) + 24)" by (rule sample_fresh) simp
  from malloc.release[OF f s'(1)] have "peak_free (Some 24) s' \<noteq> Some Panic" by auto
  moreover have "peak_free (Some 24) (s'\<lparr>heap_mem := (heap_mem s')[34 := 0]\<rparr>) = Some Panic"
    using malloc_guards_detect[OF f s'(1), of "(heap_mem s')[34 := 0]"] s'(2-4) by (auto simp: atLeastLessThan_iff Bex_def)
  ultimately show ?thesis using s'(1) by blast
qed

text \<open>\<open>calloc\<close> refuses an empty request and every request whose size does not fit with its guards, the product
  being computed without wrapping; otherwise, given memory, it returns \<open>count * size\<close> zero bytes in a block of
  exactly that size and 24 bytes of guards, and writes nothing outside it.\<close>

lemma calloc_exact:
  assumes "fresh_block s h (unat count * unat sz + 24)"
  defines "n \<equiv> unat count * unat sz"
  shows "if n = 0 \<or> 2 ^ 64 \<le> n + 24 then peak_calloc (Some h) count sz s = Some (None, s)
    else \<exists>m. peak_calloc (Some h) count sz s = Some (Some (h + 16), s\<lparr>heap_blocks := (heap_blocks s)(h \<mapsto> n + 24), heap_mem := m\<rparr>) \<and>
      length m = length (heap_mem s) \<and> (\<forall>i < n. m ! (h + 16 + i) = 0) \<and>
      (\<forall>i. i < h \<or> h + (n + 24) \<le> i \<longrightarrow> m ! i = heap_mem s ! i)"
proof (cases "n = 0 \<or> 2 ^ 64 \<le> n + 24")
  case True
  then show ?thesis using calloc_refuses[of count sz] by (auto simp: n_def not_less)
next
  case False
  then have "n \<noteq> 0" "n + 24 < 2 ^ 64" by auto
  from calloc_grants[OF assms(1) this[unfolded n_def]] False show ?thesis unfolding n_def by auto
qed

lemma calloc_exact_witness:
  "\<exists>m. peak_calloc (Some 8) 3 5 sample_heap = Some (Some 24, sample_heap\<lparr>heap_blocks := [8 \<mapsto> 39], heap_mem := m\<rparr>) \<and> m ! 24 = 0"
proof -
  from calloc_exact[OF sample_fresh, of 8 3 5] obtain m where
    "peak_calloc (Some 8) 3 5 sample_heap = Some (Some 24, sample_heap\<lparr>heap_blocks := [8 \<mapsto> 39], heap_mem := m\<rparr>)" "\<forall>i < 15. m ! (24 + i) = 0"
    by (auto simp: sample_heap_def)
  moreover from this(2) have "m ! 24 = 0" by (metis add_0_right zero_less_numeral)
  ultimately show ?thesis by blast
qed

text \<open>\<open>realloc\<close> of a guarded block, given memory, moves it: the new block has the first bytes of the old one, as
  many as fit, the old one is released, and all other guarded blocks and their bytes stay as they were.\<close>

lemma realloc_keeps_contents:
  assumes g: "guarded Malloc s p n" and fresh: "fresh_block s h (unat sz + 24)" and sz: "sz \<noteq> 0" "unat sz + 24 < 2 ^ 64"
  shows "\<exists>s'. peak_realloc (Some h) (Some p) sz s = Some (Return (Some (h + 16), s')) \<and> guarded Malloc s' (h + 16) (unat sz) \<and>
    heap_blocks s' = (heap_blocks s)(h \<mapsto> unat sz + 24, p - 16 := None) \<and>
    (\<forall>i < min n (unat sz). heap_mem s' ! (h + 16 + i) = heap_mem s ! (p + i)) \<and>
    (\<forall>name q k. guarded name s q k \<and> q - sizeof_head name \<noteq> p - 16 \<longrightarrow>
       guarded name s' q k \<and> (\<forall>i < k. heap_mem s' ! (q + i) = heap_mem s ! (q + i)))"
proof -
  let ?B = "(heap_blocks s)(h \<mapsto> unat sz + 24)" and ?k = "min n (unat sz)"
  from malloc_grants[OF fresh sz] obtain m where
    m: "peak_malloc (Some h) sz s = Some (Some (h + 16), s\<lparr>heap_blocks := ?B, heap_mem := m\<rparr>)" "length m = length (heap_mem s)"
      "guarded Malloc (s\<lparr>heap_blocks := ?B, heap_mem := m\<rparr>) (h + 16) (unat sz)" by auto
  note keeps = malloc.keeps_guarded[OF fresh m(1)]
  from g obtain v where v: "peak_le64dec (heap_mem s) (p - 16) = Some v" "unat v = n" "16 \<le> p" "p + n + 8 \<le> length (heap_mem s)"
    "heap_blocks s (p - 16) \<noteq> None" by (auto simp: guarded_def)
  have ph: "p - 16 \<noteq> h" using fresh v(5) by (auto simp: fresh_block_def)
  define w where "w = (if v < sz then v else sz)"
  have n: "unat w = ?k" using v(2) by (auto simp: w_def word_less_nat_alt)
  have "h + 16 + ?k \<le> length m" "p + ?k \<le> length m" using v(4) fresh m(2) by (auto simp: fresh_block_def)
  from mem_cpy_spec[OF this] obtain m' where m': "mem_cpy m (h + 16) p ?k = Some m'" "length m' = length m"
    "\<forall>i < ?k. m' ! (h + 16 + i) = m ! (p + i)" "\<And>i. i < h + 16 \<or> h + 16 + ?k \<le> i \<Longrightarrow> m' ! i = m ! i" by blast
  have cpy: "w = 0 \<Longrightarrow> m' = m" using m'(1) n by (auto simp: mem_cpy_def split: if_splits)
  let ?s' = "s\<lparr>heap_blocks := ?B, heap_mem := m', heap_blocks := ?B(p - 16 := None)\<rparr>"
  have "realloc_raw (Some h) (Some p) sz s = Some (Some (h + 16), ?s')"
    using v(1,3,5) sz(1) m(1) cpy ph m'(1)
    by (cases "w = 0") (auto simp: realloc_raw_def ALLOC_HEAD_def ALLOC_SIZE_def ALLOC_USER_def libc_free_def n simp flip: w_def)
  then have "peak_realloc (Some h) (Some p) sz s = Some (Return (Some (h + 16), ?s'))"
    by (simp add: peak_realloc_def with_check_def guarded_check(1)[OF g] ALLOC_ERROR_def)
  moreover have "guarded Malloc ?s' (h + 16) (unat sz)"
    by (rule guarded_frame[OF guarded_user_write[OF m(3), of m']]) (use m(2) m'(2,4) ph in auto)
  moreover have "heap_mem ?s' ! (h + 16 + i) = heap_mem s ! (p + i)" if "i < ?k" for i
    using m'(3) that keeps(2)[OF g, of "p + i"] by simp
  moreover have "guarded name ?s' q k \<and> (\<forall>i < k. heap_mem ?s' ! (q + i) = heap_mem s ! (q + i))"
    if q: "guarded name s q k" "q - sizeof_head name \<noteq> p - 16" for name q k
  proof -
    let ?b = "q - sizeof_head name"
    from q(1) obtain l where l: "heap_blocks s ?b = Some l" "sizeof_head name + k + 8 \<le> l" "sizeof_head name \<le> q" by (auto simp: guarded_def)
    then have apart: "?b + l \<le> h \<or> h + (unat sz + 24) \<le> ?b" "?b \<noteq> h" using fresh unfolding fresh_block_def by (blast, force)
    have same: "m' ! i = m ! i" if "?b \<le> i" "i < q + k + 8" for i
      using that apart(1) l(2,3) by (intro m'(4)) linarith
    have "guarded name ?s' q k" by (rule guarded_frame[OF keeps(1)[OF q(1)]]) (use q(2) same m'(2) in auto)
    moreover have "m' ! (q + i) = heap_mem s ! (q + i)" if "i < k" for i using that same[of "q + i"] keeps(2)[OF q(1), of "q + i"] by simp
    ultimately show ?thesis by simp
  qed
  ultimately show ?thesis by (intro exI[of _ ?s']) auto
qed

lemma realloc_keeps_contents_witness:
  "\<exists>s s'. guarded Malloc s 24 10 \<and> peak_realloc (Some 64) (Some 24) 20 s = Some (Return (Some 80, s')) \<and>
    heap_mem s' ! 80 = heap_mem s ! 24 \<and> heap_blocks s' = [64 \<mapsto> 44]"
proof -
  have f: "fresh_block sample_heap 8 (unat (10 :: u64) + 24)" by (rule sample_fresh) simp
  from malloc_grants[OF f] obtain m where m: "guarded Malloc (sample_heap\<lparr>heap_blocks := [8 \<mapsto> 34], heap_mem := m\<rparr>) 24 10"
    "length m = 256" by (auto simp: sample_heap_def)
  let ?s = "sample_heap\<lparr>heap_blocks := [8 \<mapsto> 34], heap_mem := m\<rparr>"
  have "fresh_block ?s 64 (unat (20 :: u64) + 24)" by (simp add: fresh_block_def m(2))
  from realloc_keeps_contents[OF m(1) this] obtain s' where s': "peak_realloc (Some 64) (Some 24) 20 ?s = Some (Return (Some 80, s'))"
    "heap_blocks s' = [8 \<mapsto> 34, 64 \<mapsto> 44](8 := None)" "\<forall>i < 10. heap_mem s' ! (80 + i) = heap_mem ?s ! (24 + i)" by auto
  from s'(3)[rule_format, of 0] have "heap_mem s' ! 80 = heap_mem ?s ! 24" by simp
  moreover have "heap_blocks s' = [64 \<mapsto> 44]" unfolding s'(2) by auto
  ultimately show ?thesis using m(1) s'(1) by blast
qed

end
