(* ===== verification/Peak_Stream.thy ===== *)
theory Peak_Stream
  imports Peak_Tree Peak_Prealloc Peak_Alloc
begin

text \<open>
  The stream buffers of \<open>src/lib/peak_stream.c\<close>: pages of one memory block, the free ones in a red-black
  tree, handed out in runs of consecutive pages that form the buffer of a stream.

  A page is named by its number, its address being \<open>page_mem + number * page_size\<close>; a \<open>buf\<close> pointer is its
  offset from \<open>page_mem\<close>, a 64-bit number. The header of a free page, written over its contents, is kept
  in a store of its own (\<open>page_hdr\<close>) apart from the bytes of the pages in use (\<open>page_bytes\<close>); the stream
  references live in \<open>stream_at\<close>, indexed by the chunk addresses of the pool \<open>references\<close>. The local
  variable \<open>ref\<close> of \<open>__peak_stream_reclaim\<close> has the header behind the last page. The tree keeps the
  difference of two indices in an \<open>int\<close>, which orders the pages only if there are fewer than \<open>2 ^ 31\<close>; that is
  part of the invariant.

  \<open>None\<close> is a use of \<open>NULL\<close> or of an unlinked tree node. The loops over the tree have its size as fuel.
\<close>

section \<open>State\<close>

abbreviation (input) "STREAM_MAGIC \<equiv> 0xEF05BA06CD07FA08 :: u64"
abbreviation (input) "STREAM_ERROR \<equiv> - 1 :: int"
abbreviation (input) "SIZEOF_STREAM_PAGE \<equiv> 56 :: u64"
abbreviation (input) "SIZEOF_STREAM \<equiv> 32 :: u64"

record peak_stream_page =
  magic :: u64
  index :: int
  magic2 :: u64

record peak_stream =
  page_cnt :: int
  page_no :: int
  data_len :: u64
  data_buf :: u64

record peak_streams =
  page_tree :: "nat rb"
  references :: prealloc_t
  page_count :: u64
  page_size :: u64
  page_hdr :: "nat \<Rightarrow> peak_stream_page"
  page_bytes :: "nat \<Rightarrow> u8"
  stream_at :: "nat \<Rightarrow> peak_stream"

definition STREAM_PAGE :: "peak_streams \<Rightarrow> int \<Rightarrow> u64" where
  "STREAM_PAGE self n = of_int n * page_size self"

text \<open>The difference is an \<open>ssize_t\<close>; the tree assigns it to an \<open>int\<close>.\<close>

definition STREAM_CMP :: "(nat \<Rightarrow> peak_stream_page) \<Rightarrow> nat \<Rightarrow> nat \<Rightarrow> int" where
  "STREAM_CMP hdr x y = sint (word_of_int (index (hdr x) - index (hdr y)) :: 32 word)"

definition STREAM_SETUP :: "int \<Rightarrow> peak_stream_page" where
  "STREAM_SETUP n = \<lparr>magic = STREAM_MAGIC, index = n, magic2 = STREAM_MAGIC\<rparr>"

definition STREAM_CHECK :: "peak_stream_page \<Rightarrow> bool" where
  "STREAM_CHECK p \<longleftrightarrow> \<not> (magic p \<noteq> STREAM_MAGIC \<or> magic2 p \<noteq> STREAM_MAGIC)"

section \<open>Finding and taking pages\<close>

fun probe_loop :: "nat \<Rightarrow> (nat \<Rightarrow> peak_stream_page) \<Rightarrow> nat rb \<Rightarrow> nat option \<Rightarrow> nat option \<Rightarrow> int \<Rightarrow> int \<Rightarrow> int option" where
  "probe_loop 0 hdr t base nxt count stop = None"
| "probe_loop (Suc n) hdr t base nxt count stop =
     (case nxt of
        None \<Rightarrow> Some count
      | Some p \<Rightarrow>
          if count = stop then Some count
          else do {
            b \<leftarrow> base;
            if index (hdr p) \<noteq> index (hdr b) + count then Some count
            else do {
              nxt \<leftarrow> RB_NEXT p t;
              probe_loop n hdr t base nxt (count + 1) stop } })"

definition tree_fuel :: "'a rb \<Rightarrow> nat" where
  "tree_fuel t = Suc (length (rb_inorder t))"

definition peak_stream_probe :: "peak_streams \<Rightarrow> nat option \<Rightarrow> int \<Rightarrow> int option" where
  "peak_stream_probe self base stop =
     probe_loop (tree_fuel (page_tree self)) (page_hdr self) (page_tree self) base base 0 stop"

fun unhook_loop :: "nat \<Rightarrow> peak_streams \<Rightarrow> nat option \<Rightarrow> peak_streams outcome option" where
  "unhook_loop 0 self page = Some (Return self)"
| "unhook_loop (Suc i) self page =
     (case page of
        None \<Rightarrow> None
      | Some p \<Rightarrow>
          if \<not> STREAM_CHECK (page_hdr self p) then Some Panic
          else do {
            nxt \<leftarrow> RB_NEXT p (page_tree self);
            t \<leftarrow> RB_REMOVE p (page_tree self);
            unhook_loop i (self\<lparr>page_tree := t\<rparr>) nxt })"

definition peak_stream_unhook :: "peak_streams \<Rightarrow> nat option \<Rightarrow> int \<Rightarrow> peak_streams outcome option" where
  "peak_stream_unhook self page n = unhook_loop (nat n) self page"

definition stream_reclaim2 :: "peak_streams \<Rightarrow> peak_stream \<Rightarrow> int \<Rightarrow> (int \<times> peak_streams) outcome option" where
  "stream_reclaim2 self stream n = do {
     let ref = unat (page_count self);
     let hdr = (page_hdr self)(ref := (page_hdr self ref)\<lparr>index := page_no stream + page_cnt stream\<rparr>);
     let page = RB_FIND (STREAM_CMP hdr) ref (page_tree self);
     probed \<leftarrow> peak_stream_probe self page n;
     if n > probed then Some (Return (STREAM_ERROR, self))
     else obind (peak_stream_unhook self page n) (\<lambda>self. Some (Return (page_no stream, self))) }"

fun next_n :: "nat \<Rightarrow> nat rb \<Rightarrow> nat option \<Rightarrow> nat option option" where
  "next_n 0 t page = Some page"
| "next_n (Suc j) t page = (case page of None \<Rightarrow> None | Some p \<Rightarrow> do { nxt \<leftarrow> RB_NEXT p t; next_n j t nxt })"

text \<open>The search for a run of pages: the first page of it, or \<open>NULL\<close> at the end of the list.\<close>

fun claim_loop :: "nat \<Rightarrow> peak_streams \<Rightarrow> nat option \<Rightarrow> int \<Rightarrow> nat option option" where
  "claim_loop 0 self page n = None"
| "claim_loop (Suc fuel) self page n = do {
     i \<leftarrow> peak_stream_probe self page n;
     if n \<le> i then Some page
     else do {
       page \<leftarrow> next_n (nat i) (page_tree self) page;
       case page of
         None \<Rightarrow> Some None
       | Some p \<Rightarrow> claim_loop fuel self (Some p) n } }"

definition stream_claim2 :: "peak_streams \<Rightarrow> int \<Rightarrow> (int \<times> peak_streams) outcome option" where
  "stream_claim2 self n = do {
     page \<leftarrow> claim_loop (tree_fuel (page_tree self)) self (RB_MINMAX (page_tree self) (- 1)) n;
     case page of
       None \<Rightarrow> (if n \<le> 0 then None else Some (Return (STREAM_ERROR, self)))
     | Some p \<Rightarrow> obind (peak_stream_unhook self (Some p) n) (\<lambda>self. Some (Return (index (page_hdr self p), self))) }"

section \<open>Claim and release\<close>

definition stream_zero :: peak_stream where
  "stream_zero = \<lparr>page_cnt = 0, page_no = 0, data_len = 0, data_buf = 0\<rparr>"

definition peak_stream_get :: "peak_streams \<Rightarrow> (nat \<times> peak_streams) outcome option" where
  "peak_stream_get self =
     (case prealloc_get (references self) of
        (None, pool) \<Rightarrow> Some Panic
      | (Some r, pool) \<Rightarrow>
          Some (Return (r, self\<lparr>references := pool, stream_at := (stream_at self)(r := stream_zero)\<rparr>)))"

text \<open>The end of \<open>_peak_stream_claim\<close>: the pages are there and the reference gets them.\<close>

definition stream_grant ::
  "peak_streams \<Rightarrow> nat option \<Rightarrow> int \<Rightarrow> int \<Rightarrow> u64 \<Rightarrow> (bool \<times> nat option \<times> peak_streams) outcome option" where
  "stream_grant self ref no n sz =
     (if no = STREAM_ERROR then Some (Return (False, ref, self))
      else obind (case ref of Some r \<Rightarrow> Some (Return (r, self)) | None \<Rightarrow> peak_stream_get self)
        (\<lambda>(r, self).
          let stream = stream_at self r;
              stream = stream\<lparr>data_buf := STREAM_PAGE self no, page_cnt := page_cnt stream + n, page_no := no,
                data_len := data_len stream + sz\<rparr>
          in Some (Return (True, Some r, self\<lparr>stream_at := (stream_at self)(r := stream)\<rparr>))))"

definition stream_claim1 ::
  "peak_streams \<Rightarrow> nat option \<Rightarrow> u64 \<Rightarrow> (bool \<times> nat option \<times> peak_streams) outcome option" where
  "stream_claim1 self ref sz =
     (if sz = 0 then Some (Return (True, ref, self))
      else case ref of
        None \<Rightarrow>
          if RB_EMPTY (page_tree self) then Some (Return (False, ref, self))
          else
            let n = sint (ALLOC_ALIGN sz (page_size self) div page_size self)
            in obind (stream_claim2 self n) (\<lambda>(no, self). stream_grant self ref no n sz)
      | Some r \<Rightarrow>
          let stream = stream_at self r;
              n = sint (ALLOC_ALIGN (sz + data_len stream) (page_size self) div page_size self - of_int (page_cnt stream))
          in
            if n = 0 then
              Some (Return (True, ref, self\<lparr>stream_at := (stream_at self)(r := stream\<lparr>data_len := data_len stream + sz\<rparr>)\<rparr>))
            else obind (stream_reclaim2 self stream n) (\<lambda>(no, self). stream_grant self ref no n sz))"

definition stream_page_release :: "peak_streams \<Rightarrow> int \<Rightarrow> peak_streams outcome option" where
  "stream_page_release self no = do {
     let p = nat no;
     let self = self\<lparr>page_hdr := (page_hdr self)(p := STREAM_SETUP no)\<rparr>;
     (dup, t) \<leftarrow> RB_INSERT (STREAM_CMP (page_hdr self)) p (page_tree self);
     (case dup of Some _ \<Rightarrow> Some Panic | None \<Rightarrow> Some (Return (self\<lparr>page_tree := t\<rparr>))) }"

text \<open>The loop of \<open>peak_stream_release\<close> on the pages, the stream and the remaining size; the page counter
  goes down with every round.\<close>

fun release_loop :: "nat \<Rightarrow> peak_streams \<Rightarrow> peak_stream \<Rightarrow> u64 \<Rightarrow> u64 \<Rightarrow> (peak_streams \<times> peak_stream \<times> u64) outcome option" where
  "release_loop 0 self stream adj sz = Some (Return (self, stream, sz))"
| "release_loop (Suc n) self stream adj sz =
     (if adj + sz \<ge> page_size self then
        obind (stream_page_release self (page_no stream)) (\<lambda>self.
          release_loop n self
            (stream\<lparr>data_buf := data_buf stream + page_size self, data_len := data_len stream - page_size self,
               page_cnt := page_cnt stream - 1, page_no := page_no stream + 1\<rparr>)
            adj (sz - page_size self))
      else Some (Return (self, stream, sz)))"

definition peak_stream_release ::
  "peak_streams \<Rightarrow> nat option \<Rightarrow> u64 \<Rightarrow> (nat option \<times> peak_streams) outcome option" where
  "peak_stream_release self ref sz =
     (case ref of
        None \<Rightarrow> Some (Return (ref, self))
      | Some r \<Rightarrow>
          if sz = 0 then Some (Return (ref, self))
          else
            let stream = stream_at self r;
                adj = data_buf stream - STREAM_PAGE self (page_no stream)
            in obind (release_loop (nat (page_cnt stream)) self stream adj sz) (\<lambda>(self, stream, sz).
              let stream = stream\<lparr>data_buf := data_buf stream + sz, data_len := data_len stream - sz\<rparr>;
                  self = self\<lparr>stream_at := (stream_at self)(r := stream)\<rparr>
              in if data_len stream = 0
                 then Some (Return (None, self\<lparr>references := prealloc_put (references self) (Some r)\<rparr>))
                 else Some (Return (ref, self))))"

text \<open>\<open>memcpy\<close> between two places of the page memory.\<close>

definition page_memcpy :: "(nat \<Rightarrow> u8) \<Rightarrow> nat \<Rightarrow> nat \<Rightarrow> nat \<Rightarrow> nat \<Rightarrow> u8" where
  "page_memcpy f dst src n = (\<lambda>a. if dst \<le> a \<and> a < dst + n then f (src + (a - dst)) else f a)"

definition peak_stream_claim ::
  "peak_streams \<Rightarrow> nat option \<Rightarrow> u64 \<Rightarrow> (bool \<times> nat option \<times> peak_streams) outcome option" where
  "peak_stream_claim self ref sz =
     obind (stream_claim1 self ref sz) (\<lambda>(ret, ref, self).
       case ref of
         None \<Rightarrow> Some (Return (ret, ref, self))
       | Some r \<Rightarrow>
           if ret then Some (Return (ret, ref, self))
           else obind (stream_claim1 self None (data_len (stream_at self r) + sz)) (\<lambda>(ret, retry, self).
             if ret then
               (case retry of
                  None \<Rightarrow> None
                | Some q \<Rightarrow>
                    let s = stream_at self r;
                        self = self\<lparr>page_bytes := page_memcpy (page_bytes self) (unat (data_buf (stream_at self q)))
                          (unat (data_buf s)) (unat (data_len s))\<rparr>
                    in obind (peak_stream_release self (Some r) (data_len s)) (\<lambda>(_, self). Some (Return (ret, Some q, self))))
             else Some (Return (ret, ref, self))))"

section \<open>Set-up\<close>

fun init_loop :: "nat \<Rightarrow> nat \<Rightarrow> peak_streams \<Rightarrow> peak_streams outcome option" where
  "init_loop i 0 self = Some (Return self)"
| "init_loop i (Suc n) self = obind (stream_page_release self (int i)) (init_loop (Suc i) n)"

text \<open>\<open>calloc\<close>, \<open>malign\<close> for the pages and \<open>malign\<close> for the references are parameters; \<open>hdr\<close>, \<open>bytes\<close> and \<open>store\<close> are
  what the memory they return holds.\<close>

definition peak_stream_init ::
  "u64 \<Rightarrow> u64 \<Rightarrow> bool \<Rightarrow> bool \<Rightarrow> nat option \<Rightarrow> (nat \<Rightarrow> peak_stream_page) \<Rightarrow> (nat \<Rightarrow> u8) \<Rightarrow> (nat \<Rightarrow> peak_stream) \<Rightarrow>
   peak_streams option outcome option" where
  "peak_stream_init count sz calloc malign refs hdr bytes store =
     (if count = 0 \<or> sz AND 0x7 \<noteq> 0 \<or> sz < SIZEOF_STREAM_PAGE \<or> \<not> calloc \<or> \<not> malign then Some (Return None)
      else case prealloc_init count SIZEOF_STREAM refs of
        (False, _) \<Rightarrow> Some (Return None)
      | (True, pool) \<Rightarrow>
          obind (init_loop 0 (unat count) \<lparr>page_tree = RbNil, references = pool, page_count = count, page_size = sz,
              page_hdr = hdr, page_bytes = bytes, stream_at = store\<rparr>) (\<lambda>self. Some (Return (Some self))))"

definition peak_stream_exit :: "peak_streams option \<Rightarrow> unit outcome" where
  "peak_stream_exit self = (case self of None \<Rightarrow> Return () | Some self \<Rightarrow> prealloc_exit (references self))"

section \<open>The free pages as a sorted list\<close>

text \<open>The tree holds free pages in order, with intact headers that carry their numbers.\<close>

definition tree_inv :: "peak_streams \<Rightarrow> bool" where
  "tree_inv self \<longleftrightarrow> unat (page_count self) < 2 ^ 31 \<and> rb_ok (page_tree self) \<and> sorted_wrt (<) (rb_inorder (page_tree self)) \<and>
     (\<forall>p \<in> set (rb_inorder (page_tree self)). p < unat (page_count self) \<and> page_hdr self p = STREAM_SETUP (int p))"

definition free_pages :: "peak_streams \<Rightarrow> nat list" where
  "free_pages self = rb_inorder (page_tree self)"

definition index_ok :: "(nat \<Rightarrow> peak_stream_page) \<Rightarrow> nat \<Rightarrow> bool" where
  "index_ok hdr p \<longleftrightarrow> 0 \<le> index (hdr p) \<and> index (hdr p) < 2 ^ 31"

lemma stream_cmp_diff: "index_ok hdr x \<Longrightarrow> index_ok hdr y \<Longrightarrow> STREAM_CMP hdr x y = index (hdr x) - index (hdr y)"
proof -
  assume ok: "index_ok hdr x" "index_ok hdr y"
  define d where "d = index (hdr x) - index (hdr y)"
  have "- (2 ^ 31) \<le> d" "d < 2 ^ 31" using ok by (auto simp: d_def index_ok_def)
  then have "sint (word_of_int d :: 32 word) = d" by (simp add: sint_sbintrunc' signed_take_bit_int_eq_self)
  then show ?thesis by (simp only: STREAM_CMP_def d_def)
qed

interpretation stream: cmp_order "STREAM_CMP hdr" "{p. index_ok hdr p}" for hdr
  by unfold_locales (auto simp: stream_cmp_diff)

lemma stream_sorted_iff:
  assumes "\<forall>p \<in> set xs. index (hdr p) = int p \<and> p < 2 ^ 31"
  shows "stream.cmp_sorted hdr xs \<longleftrightarrow> sorted_wrt (<) xs"
proof -
  have "STREAM_CMP hdr x y < 0 \<longleftrightarrow> x < y" if "x \<in> set xs" "y \<in> set xs" for x y
    using assms that by (subst stream_cmp_diff) (auto simp: index_ok_def)
  then show ?thesis by (auto intro: sorted_wrt_mono_rel[rotated])
qed

lemma sorted_less_distinct: "sorted_wrt (<) (xs :: nat list) \<Longrightarrow> distinct xs"
  by (induction xs) auto

lemma tree_invD:
  assumes "tree_inv self"
  shows "sorted_wrt (<) (free_pages self)" "distinct (free_pages self)" "rb_ok (page_tree self)"
    "p \<in> set (free_pages self) \<Longrightarrow> p < unat (page_count self)"
    "p \<in> set (free_pages self) \<Longrightarrow> page_hdr self p = STREAM_SETUP (int p)" "unat (page_count self) < 2 ^ 31"
  using assms by (auto simp: tree_inv_def free_pages_def sorted_less_distinct)

lemma setup_simps [simp]: "index (STREAM_SETUP n) = n" "STREAM_CHECK (STREAM_SETUP n)"
  by (simp_all add: STREAM_SETUP_def STREAM_CHECK_def)

text \<open>The number of consecutive pages at the front, counted from a page.\<close>

fun run_from :: "nat \<Rightarrow> nat list \<Rightarrow> nat" where
  "run_from b [] = 0"
| "run_from b (x # xs) = (if x = b then Suc (run_from (Suc b) xs) else 0)"

lemma run_from_le: "run_from b xs \<le> length xs"
  by (induction xs arbitrary: b) auto

lemma run_from_take: "take (run_from b xs) xs = [b..<b + run_from b xs]"
  by (induction xs arbitrary: b) (auto simp: upt_conv_Cons)

lemma run_from_stop: "run_from b xs < length xs \<Longrightarrow> xs ! run_from b xs \<noteq> b + run_from b xs"
proof (induction xs arbitrary: b)
  case (Cons x xs)
  from Cons.IH[of "Suc b"] Cons.prems show ?case by (auto split: if_splits)
qed simp

lemma run_from_take_n: "n \<le> run_from b xs \<Longrightarrow> \<exists>zs. xs = [b..<b + n] @ zs"
proof -
  assume n: "n \<le> run_from b xs"
  have "take n xs = take n (take (run_from b xs) xs)" using n by simp
  also have "\<dots> = [b..<b + n]" using n by (simp add: run_from_take)
  finally show ?thesis by (metis append_take_drop_id)
qed

lemma run_from_upt: "n \<le> run_from b ([b..<b + n] @ zs)"
proof (induction n arbitrary: b)
  case (Suc n)
  from Suc[of "Suc b"] show ?case by (simp add: upt_conv_Cons del: upt_Suc)
qed simp

lemma probe_loop_run:
  assumes inv: "tree_inv self" and "free_pages self = as @ xs" and "length xs < fuel" and "c \<le> stop"
    and "page_hdr self b = STREAM_SETUP (int b)"
  shows "probe_loop fuel (page_hdr self) (page_tree self) (Some b) (list_head xs) (int c) (int stop) =
    Some (int (min stop (c + run_from (b + c) xs)))"
  using assms(2-4)
proof (induction fuel arbitrary: as xs c)
  case (Suc fuel)
  show ?case
  proof (cases xs)
    case Nil
    with Suc.prems show ?thesis by simp
  next
    case (Cons x ys)
    have x: "page_hdr self x = STREAM_SETUP (int x)" using tree_invD(5)[OF inv] Suc.prems(1) Cons by simp
    have nxt: "RB_NEXT x (page_tree self) = Some (list_head ys)"
      using rb_next_inorder[of "page_tree self" as x ys] tree_invD(2)[OF inv] Suc.prems(1) Cons by (simp add: free_pages_def)
    consider "c = stop" | "c \<noteq> stop" "x \<noteq> b + c" | "c < stop" "x = b + c" using Suc.prems(3) by fastforce
    then show ?thesis
    proof cases
      case 2
      then have "int x \<noteq> int b + int c" by linarith
      with 2 Cons x assms(5) Suc.prems(3) show ?thesis by simp
    next
      case 3
      with Suc.IH[of "as @ [x]" ys "Suc c"] Suc.prems Cons x assms(5) nxt show ?thesis by (simp add: algebra_simps)
    qed (simp add: Cons)
  qed
qed simp

lemma probe_run:
  assumes "tree_inv self" and "free_pages self = as @ xs"
  shows "peak_stream_probe self (list_head xs) (int stop) =
    Some (int (case xs of [] \<Rightarrow> 0 | x # _ \<Rightarrow> min stop (run_from x xs)))"
proof (cases xs)
  case Nil
  then show ?thesis by (simp add: peak_stream_probe_def tree_fuel_def)
next
  case (Cons x ys)
  have fuel: "length xs < tree_fuel (page_tree self)" using assms(2) by (simp add: tree_fuel_def free_pages_def)
  have "page_hdr self x = STREAM_SETUP (int x)" using tree_invD(5)[OF assms(1), of x] assms(2) Cons by simp
  from probe_loop_run[OF assms fuel _ this, of 0 stop] Cons show ?thesis by (simp add: peak_stream_probe_def)
qed

lemma next_n_skip:
  assumes "tree_inv self" and "free_pages self = as @ xs" and "k \<le> length xs"
  shows "next_n k (page_tree self) (list_head xs) = Some (list_head (drop k xs))"
  using assms(2,3)
proof (induction k arbitrary: as xs)
  case (Suc k)
  then obtain x ys where xs: "xs = x # ys" by (cases xs) auto
  have "RB_NEXT x (page_tree self) = Some (list_head ys)"
    using rb_next_inorder[of "page_tree self" as x ys] tree_invD(2)[OF assms(1)] Suc.prems(1) xs by (simp add: free_pages_def)
  with Suc.IH[of "as @ [x]" ys] Suc.prems xs show ?case by simp
qed simp

section \<open>First fit\<close>

lemma no_run_skip:
  assumes "sorted_wrt (<) xs" and "k = run_from b xs" and "b \<le> hd xs" and "k < n" and "{p..<p + n} \<subseteq> set xs"
  shows "{p..<p + n} \<subseteq> set (drop k xs)"
proof -
  have xs: "xs = [b..<b + k] @ drop k xs" using run_from_take[of b xs] assms(2) by (metis append_take_drop_id)
  have later: "b + k < q" if "q \<in> set (drop k xs)" for q
  proof -
    from that have k: "k < length xs" by (cases "k < length xs") auto
    have hd: "drop k xs = xs ! k # drop (Suc k) xs" using k by (simp add: Cons_nth_drop_Suc)
    have "b + k \<le> xs ! k"
    proof (cases k)
      case 0
      with assms(3) k show ?thesis by (simp add: hd_conv_nth)
    next
      case (Suc j)
      have "b + j \<in> set [b..<b + k]" using Suc by simp
      then have "b + j < xs ! k" using assms(1) xs hd by (metis sorted_wrt_append list.set_intros(1))
      with Suc show ?thesis by simp
    qed
    with run_from_stop[of b xs] assms(2) k have "b + k < xs ! k" by auto
    moreover have "xs ! k \<le> q" using that hd assms(1) xs by (metis order.order_iff_strict set_ConsD sorted_wrt.simps(2) sorted_wrt_append)
    ultimately show ?thesis by simp
  qed
  have elems: "q \<in> {b..<b + k} \<union> set (drop k xs)" if "q \<in> set xs" for q
    using that xs by (metis Un_iff set_append set_upt)
  show ?thesis
  proof
    fix q assume q: "q \<in> {p..<p + n}"
    have "\<not> p < b + k"
    proof
      assume "p < b + k"
      moreover have "b \<le> p"
        using elems[of p] assms(4,5) later[of p] by (fastforce simp: subset_eq)
      ultimately have "b + k \<in> {p..<p + n}" using assms(4) by auto
      with assms(5) elems[of "b + k"] later[of "b + k"] show False by auto
    qed
    with q assms(5) elems[of q] show "q \<in> set (drop k xs)" by auto
  qed
qed

text \<open>\<open>__peak_stream_claim\<close> finds the first run of free pages that is long enough, if there is one.\<close>

lemma claim_loop_first_fit:
  assumes inv: "tree_inv self" and "0 < n" and "free_pages self = as @ xs" and "length xs < fuel"
  shows "\<exists>r. claim_loop fuel self (list_head xs) (int n) = Some r \<and>
    (case r of None \<Rightarrow> \<not> (\<exists>p. {p..<p + n} \<subseteq> set xs)
     | Some p \<Rightarrow> \<exists>ys zs. xs = ys @ [p..<p + n] @ zs)"
  using assms(3,4)
proof (induction fuel arbitrary: as xs)
  case (Suc fuel)
  show ?case
  proof (cases xs)
    case Nil
    with probe_run[OF inv Suc.prems(1), of n] assms(2) show ?thesis by auto
  next
    case (Cons x ys)
    let ?k = "run_from x xs"
    have probe: "peak_stream_probe self (Some x) (int n) = Some (int (min n ?k))"
      using probe_run[OF inv Suc.prems(1), of n] Cons by simp
    show ?thesis
    proof (cases "n \<le> ?k")
      case True
      then obtain zs where "xs = [] @ [x..<x + n] @ zs" using run_from_take_n by fastforce
      then have "\<exists>ys zs. xs = ys @ [x..<x + n] @ zs" by blast
      moreover have "claim_loop (Suc fuel) self (list_head xs) (int n) = Some (Some x)" using True probe Cons by simp
      ultimately show ?thesis by (intro exI[of _ "Some x"]) simp
    next
      case False
      have k: "0 < ?k" "?k \<le> length xs" using Cons run_from_le[of x xs] by auto
      have free: "free_pages self = (as @ take ?k xs) @ drop ?k xs" using Suc.prems(1) by simp
      have sorted: "sorted_wrt (<) xs" using tree_invD(1)[OF inv] Suc.prems(1) by (simp add: sorted_wrt_append)
      have "length (drop ?k xs) < fuel" using k Suc.prems(2) by simp
      from Suc.IH[OF free this] obtain r where r: "claim_loop fuel self (list_head (drop ?k xs)) (int n) = Some r"
        "case r of None \<Rightarrow> \<not> (\<exists>p. {p..<p + n} \<subseteq> set (drop ?k xs))
         | Some p \<Rightarrow> \<exists>ys zs. drop ?k xs = ys @ [p..<p + n] @ zs" by blast
      have probe': "peak_stream_probe self (list_head xs) (int n) = Some (int ?k)"
        using probe False Cons by (simp add: min_def)
      have step: "claim_loop (Suc fuel) self (list_head xs) (int n) =
          (case list_head (drop ?k xs) of None \<Rightarrow> Some None | Some p \<Rightarrow> claim_loop fuel self (Some p) (int n))"
        using False by (simp add: probe' next_n_skip[OF inv Suc.prems(1) k(2)])
      have none: "\<not> (\<exists>p. {p..<p + n} \<subseteq> set xs)" if "\<not> (\<exists>p. {p..<p + n} \<subseteq> set (drop ?k xs))"
        using no_run_skip[OF sorted refl _ _, of x n] that False Cons by fastforce
      show ?thesis
      proof (cases "drop ?k xs")
        case Nil
        then have "\<not> (\<exists>p. {p..<p + n} \<subseteq> set (drop ?k xs))" using assms(2) by (auto simp: subset_eq)
        with none Nil step show ?thesis by (intro exI[of _ None]) simp
      next
        case (Cons y zs)
        have loop: "claim_loop (Suc fuel) self (list_head xs) (int n) = Some r"
          using step Cons r(1) by simp
        show ?thesis
        proof (cases r)
          case None
          with loop none r(2) show ?thesis by simp
        next
          case (Some p)
          with r(2) obtain us vs where "drop ?k xs = us @ [p..<p + n] @ vs" by auto
          then have "xs = (take ?k xs @ us) @ [p..<p + n] @ vs" by (metis append.assoc append_take_drop_id)
          then have "\<exists>ys zs. xs = ys @ [p..<p + n] @ zs" by blast
          with loop Some show ?thesis by (intro exI[of _ "Some p"]) (simp del: claim_loop.simps)
        qed
      qed
    qed
  qed
qed simp

lemma sorted_drop_mid: "sorted_wrt (<) (as @ xs @ bs) \<Longrightarrow> sorted_wrt (<) (as @ (bs :: nat list))"
  by (auto simp: sorted_wrt_append)

lemma unhook_run:
  assumes "tree_inv self" and "free_pages self = as @ [p..<p + n] @ bs"
  shows "\<exists>t. unhook_loop n self (list_head ([p..<p + n] @ bs)) = Some (Return (self\<lparr>page_tree := t\<rparr>)) \<and>
    tree_inv (self\<lparr>page_tree := t\<rparr>) \<and> rb_inorder t = as @ bs"
  using assms
proof (induction n arbitrary: self p)
  case 0
  then show ?case by (intro exI[of _ "page_tree self"]) (simp add: free_pages_def)
next
  case (Suc n)
  have upt: "[p..<p + Suc n] = p # [Suc p..<Suc p + n]" by (simp add: upt_conv_Cons del: upt_Suc)
  have free: "rb_inorder (page_tree self) = as @ p # ([Suc p..<Suc p + n] @ bs)"
    using Suc.prems(2) unfolding free_pages_def upt by simp
  note inv = tree_invD[OF Suc.prems(1)]
  have hdr: "page_hdr self p = STREAM_SETUP (int p)" using inv(5)[of p] free by (simp add: free_pages_def)
  have nxt: "RB_NEXT p (page_tree self) = Some (list_head ([Suc p..<Suc p + n] @ bs))"
    using rb_next_inorder[OF _ free] inv(2) by (simp add: free_pages_def del: upt_Suc)
  have "p \<in> set (rb_inorder (page_tree self))" using free by simp
  from rb_remove_ok[OF inv(3) this] obtain t as' bs' where t: "RB_REMOVE p (page_tree self) = Some t" "rb_ok t"
    "rb_inorder (page_tree self) = as' @ p # bs'" "rb_inorder t = as' @ bs'" by blast
  have "as' = as \<and> bs' = [Suc p..<Suc p + n] @ bs"
    using inv(2) free t(3) append_Cons_eq_iff[of p as "[Suc p..<Suc p + n] @ bs" as' bs'] by (auto simp: free_pages_def simp del: upt_Suc)
  with t(4) have in_t: "rb_inorder t = as @ [Suc p..<Suc p + n] @ bs" by simp
  let ?self = "self\<lparr>page_tree := t\<rparr>"
  have "sorted_wrt (<) (rb_inorder t)" using inv(1) free sorted_drop_mid[of as "[p]"] unfolding in_t free_pages_def by simp
  moreover have "\<forall>q \<in> set (rb_inorder t). q < unat (page_count self) \<and> page_hdr self q = STREAM_SETUP (int q)"
    using inv(4,5) free unfolding in_t free_pages_def by (auto simp del: upt_Suc)
  ultimately have "tree_inv ?self" using t(2) inv(6) by (simp add: tree_inv_def)
  from Suc.IH[OF this, of "Suc p"] in_t obtain t' where
    t': "unhook_loop n ?self (list_head ([Suc p..<Suc p + n] @ bs)) = Some (Return (?self\<lparr>page_tree := t'\<rparr>))"
    "tree_inv (?self\<lparr>page_tree := t'\<rparr>)" "rb_inorder t' = as @ bs" by (auto simp: free_pages_def)
  have "unhook_loop (Suc n) self (Some p) = Some (Return (self\<lparr>page_tree := t'\<rparr>))"
    using hdr nxt t(1) t'(1) by (simp del: upt_Suc)
  with t'(2,3) show ?case unfolding upt by (intro exI[of _ t']) (simp del: unhook_loop.simps upt_Suc)
qed

text \<open>A page outside the tree goes back into it.\<close>

lemma page_release_inserts:
  assumes "tree_inv self" and "p < unat (page_count self)" and "p \<notin> set (free_pages self)"
  shows "\<exists>t. stream_page_release self (int p) =
      Some (Return (self\<lparr>page_hdr := (page_hdr self)(p := STREAM_SETUP (int p)), page_tree := t\<rparr>)) \<and>
    tree_inv (self\<lparr>page_hdr := (page_hdr self)(p := STREAM_SETUP (int p)), page_tree := t\<rparr>) \<and>
    set (rb_inorder t) = insert p (set (free_pages self))"
proof -
  let ?hdr = "(page_hdr self)(p := STREAM_SETUP (int p))" and ?t = "page_tree self"
  note inv = tree_invD[OF assms(1)]
  have hdr: "\<forall>q \<in> set (rb_inorder ?t). ?hdr q = STREAM_SETUP (int q)" using inv(5) assms(3) by (auto simp: free_pages_def)
  have small: "\<forall>q \<in> insert p (set (rb_inorder ?t)). q < 2 ^ 31"
    using inv(4,6) assms(2) unfolding free_pages_def by (metis insert_iff order_less_trans)
  have ok: "index_ok ?hdr p" "set (rb_inorder ?t) \<subseteq> {q. index_ok ?hdr q}" using small hdr by (auto simp: index_ok_def)
  have sorted: "stream.cmp_sorted ?hdr (rb_inorder ?t)"
    using stream_sorted_iff[of "rb_inorder ?t" ?hdr] hdr inv(1) small by (simp add: free_pages_def)
  have "RB_FIND (STREAM_CMP ?hdr) p ?t \<noteq> Some q" for q
  proof
    assume "RB_FIND (STREAM_CMP ?hdr) p ?t = Some q"
    then have "q \<in> set (rb_inorder ?t)" "STREAM_CMP ?hdr p q = 0" using stream.find_Some[OF sorted ok(2), of p q] ok(1) by auto
    moreover from this hdr have "?hdr q = STREAM_SETUP (int q)" by blast
    moreover have "index_ok ?hdr q" using ok(2) calculation(1) by blast
    ultimately show False using assms(3) stream_cmp_diff[OF ok(1), of q] by (simp add: free_pages_def)
  qed
  then have "RB_FIND (STREAM_CMP ?hdr) p ?t = None" by auto
  from stream.insert_new[OF inv(3) sorted ok(2) _ this] ok(1) obtain t as bs where t: "RB_INSERT (STREAM_CMP ?hdr) p ?t = Some (None, t)"
    "rb_ok t" "stream.cmp_sorted ?hdr (rb_inorder t)" "rb_inorder ?t = as @ bs" "rb_inorder t = as @ p # bs" by auto
  have hdr': "\<forall>q \<in> set (rb_inorder t). ?hdr q = STREAM_SETUP (int q) \<and> q < 2 ^ 31" using hdr small t(4,5) by auto
  have "tree_inv (self\<lparr>page_hdr := ?hdr, page_tree := t\<rparr>)"
    using t(2,3) hdr' stream_sorted_iff[of "rb_inorder t" ?hdr] inv(4,6) assms(2) t(4,5)
    by (auto simp: tree_inv_def free_pages_def)
  moreover have "set (rb_inorder t) = insert p (set (free_pages self))" using t(4,5) by (auto simp: free_pages_def)
  moreover have "stream_page_release self (int p) = Some (Return (self\<lparr>page_hdr := ?hdr, page_tree := t\<rparr>))"
    using t(1) by (simp add: stream_page_release_def)
  ultimately show ?thesis by blast
qed

section \<open>The invariant of the pool\<close>

definition stream_pages :: "peak_stream \<Rightarrow> nat set" where
  "stream_pages s = {nat (page_no s)..<nat (page_no s) + nat (page_cnt s)}"

text \<open>A stream in use: its data begin \<open>off\<close> bytes into its first page and end in its last one.\<close>

definition stream_ok :: "peak_streams \<Rightarrow> peak_stream \<Rightarrow> nat \<Rightarrow> bool" where
  "stream_ok self s off \<longleftrightarrow> 0 \<le> page_no s \<and> 0 < page_cnt s \<and> nat (page_no s) + nat (page_cnt s) \<le> unat (page_count self) \<and>
     off < unat (page_size self) \<and> data_buf s = STREAM_PAGE self (page_no s) + of_nat off \<and> 0 < unat (data_len s) \<and>
     (nat (page_cnt s) - 1) * unat (page_size self) < off + unat (data_len s) \<and>
     off + unat (data_len s) \<le> nat (page_cnt s) * unat (page_size self)"

definition stream_geometry :: "peak_streams \<Rightarrow> bool" where
  "stream_geometry self \<longleftrightarrow> 0 < unat (page_size self) \<and> unat (page_count self) * unat (page_size self) < 2 ^ 62"

definition streams_inv :: "nat set \<Rightarrow> nat set \<Rightarrow> peak_streams \<Rightarrow> bool" where
  "streams_inv C L self \<longleftrightarrow> stream_geometry self \<and> tree_inv self \<and> prealloc_inv C L (references self) \<and>
     unat (page_count self) \<le> card C \<and>
     (\<forall>r \<in> L. (\<exists>off. stream_ok self (stream_at self r) off) \<and> stream_pages (stream_at self r) \<inter> set (free_pages self) = {}) \<and>
     (\<forall>r \<in> L. \<forall>q \<in> L. r \<noteq> q \<longrightarrow> stream_pages (stream_at self r) \<inter> stream_pages (stream_at self q) = {})"

lemma streams_invD:
  assumes "streams_inv C L self"
  shows "stream_geometry self" "tree_inv self" "prealloc_inv C L (references self)" "unat (page_count self) \<le> card C"
    "r \<in> L \<Longrightarrow> \<exists>off. stream_ok self (stream_at self r) off"
    "r \<in> L \<Longrightarrow> stream_pages (stream_at self r) \<inter> set (free_pages self) = {}"
    "r \<in> L \<Longrightarrow> q \<in> L \<Longrightarrow> r \<noteq> q \<Longrightarrow> stream_pages (stream_at self r) \<inter> stream_pages (stream_at self q) = {}"
  using assms unfolding streams_inv_def by blast+

text \<open>As long as there is a page that no stream owns, there is a reference for one more stream.\<close>

lemma reference_left:
  assumes inv: "streams_inv C L self" and p: "p < unat (page_count self)" "\<forall>r \<in> L. p \<notin> stream_pages (stream_at self r)"
  shows "L \<noteq> C"
proof
  assume LC: "L = C"
  let ?f = "\<lambda>r. nat (page_no (stream_at self r))"
  have mem: "?f r \<in> stream_pages (stream_at self r) \<and> ?f r < unat (page_count self)" if "r \<in> L" for r
    using streams_invD(5)[OF inv that] by (auto simp: stream_ok_def stream_pages_def)
  have "inj_on ?f L"
  proof (rule inj_onI)
    fix r q assume r: "r \<in> L" "q \<in> L" "?f r = ?f q"
    then show "r = q" using mem[of r] mem[of q] streams_invD(7)[OF inv, of r q] by auto
  qed
  moreover have "?f ` L \<subseteq> {..<unat (page_count self)} - {p}" using mem p(2) by fastforce
  ultimately have "card L \<le> card ({..<unat (page_count self)} - {p})" by (intro card_inj_on_le) auto
  also have "\<dots> < unat (page_count self)" using p(1) by simp
  finally show False using streams_invD(4)[OF inv] LC by simp
qed

text \<open>An operation changes one stream, whose pages then come from its old ones and the free ones.\<close>

lemma streams_inv_update:
  assumes inv: "streams_inv C L self" and same: "page_count self' = page_count self" "page_size self' = page_size self"
    and tree: "tree_inv self'" and pool: "prealloc_inv C L' (references self')" and L': "L' \<subseteq> insert r L"
    and at: "stream_at self' = (stream_at self)(r := s)"
    and new: "r \<in> L' \<Longrightarrow> (\<exists>off. stream_ok self' s off) \<and> stream_pages s \<inter> set (free_pages self') = {} \<and>
      stream_pages s \<subseteq> set (free_pages self) \<union> (if r \<in> L then stream_pages (stream_at self r) else {})"
    and free: "set (free_pages self') \<subseteq> set (free_pages self) \<union> (if r \<in> L then stream_pages (stream_at self r) else {})"
  shows "streams_inv C L' self'"
proof -
  note I = streams_invD[OF inv]
  have ok: "stream_ok self' x off \<longleftrightarrow> stream_ok self x off" for x off by (simp add: stream_ok_def STREAM_PAGE_def same)
  let ?own = "if r \<in> L then stream_pages (stream_at self r) else {}"
  have other: "q \<in> L" "stream_at self' q = stream_at self q" "stream_pages (stream_at self q) \<inter> (set (free_pages self) \<union> ?own) = {}"
    if "q \<in> L'" "q \<noteq> r" for q
  proof -
    show q: "q \<in> L" using that L' by blast
    show "stream_at self' q = stream_at self q" using that(2) by (simp add: at)
    show "stream_pages (stream_at self q) \<inter> (set (free_pages self) \<union> ?own) = {}"
      using I(6)[OF q] I(7)[OF q _ that(2)] by (auto split: if_splits)
  qed
  have "(\<exists>off. stream_ok self' (stream_at self' q) off) \<and> stream_pages (stream_at self' q) \<inter> set (free_pages self') = {}" if "q \<in> L'" for q
  proof (cases "q = r")
    case True
    with new that show ?thesis by (simp add: at)
  next
    case False
    from other[OF that False] I(5)[of q] free show ?thesis by (auto simp: ok)
  qed
  moreover have "stream_pages (stream_at self' p) \<inter> stream_pages (stream_at self' q) = {}" if "p \<in> L'" "q \<in> L'" "p \<noteq> q" for p q
  proof -
    have apart: "stream_pages s \<inter> stream_pages (stream_at self x) = {}" if "r \<in> L'" "x \<in> L'" "x \<noteq> r" for x
      using other(3)[OF that(2,3)] new[OF that(1)] by blast
    consider "p = r" | "q = r" | "p \<noteq> r" "q \<noteq> r" by blast
    then show ?thesis
    proof cases
      case 1
      with that apart[of q] other(2)[of q] show ?thesis by (simp add: at)
    next
      case 2
      with that apart[of p] other(2)[of p] show ?thesis by (simp add: at Int_commute)
    next
      case 3
      with that other[of p] other[of q] I(7)[of p q] show ?thesis by simp
    qed
  qed
  moreover have "stream_geometry self'" "unat (page_count self') \<le> card C" using I(1,4) by (simp_all add: stream_geometry_def same)
  ultimately show ?thesis using tree pool unfolding streams_inv_def by blast
qed

section \<open>Sizes in pages\<close>

definition pages_for :: "nat \<Rightarrow> nat \<Rightarrow> nat" where
  "pages_for sz ps = (sz + ps - 1) div ps"

lemma pages_for_bounds:
  assumes "0 < sz" "0 < ps"
  shows "0 < pages_for sz ps" "(pages_for sz ps - 1) * ps < sz" "sz \<le> pages_for sz ps * ps"
proof -
  let ?P = "pages_for sz ps" and ?m = "(sz + ps - 1) mod ps"
  have "sz + ps - 1 = ?P * ps + ?m" by (simp add: pages_for_def)
  then have eq: "sz + ps = ?P * ps + ?m + 1" using assms(1) by linarith
  have m: "?m < ps" using assms(2) by simp
  show pos: "0 < ?P" using assms by (simp add: pages_for_def div_greater_zero_iff)
  then have "ps \<le> ?P * ps" by simp
  with eq show "(?P - 1) * ps < sz" unfolding diff_mult_distrib by linarith
  from eq m show "sz \<le> ?P * ps" by linarith
qed

lemma pages_for_unique:
  assumes "(n - 1) * ps < sz" "sz \<le> n * ps" "0 < sz" "0 < ps"
  shows "pages_for sz ps = n"
proof -
  note b = pages_for_bounds[OF assms(3,4)]
  have "0 < n" using assms(2,3) by (cases n) auto
  have "n - 1 < pages_for sz ps" using assms(1) b(3) by (metis mult_less_cancel2 order_less_le_trans)
  moreover have "pages_for sz ps - 1 < n" using assms(2) b(2) by (metis mult_less_cancel2 order_less_le_trans)
  ultimately show ?thesis using \<open>0 < n\<close> b(1) by simp
qed

lemma alloc_align_pages:
  assumes "0 < unat sz" "0 < unat ps" "unat sz + unat ps < 2 ^ 63"
  shows "unat (ALLOC_ALIGN sz ps div ps) = pages_for (unat sz) (unat ps)"
proof -
  let ?s = "unat sz" and ?p = "unat ps"
  let ?d = "if ?s mod ?p \<noteq> 0 then ?s mod ?p else ?p"
  have m: "unat (sz mod ps) = ?s mod ?p" by (simp add: unat_mod)
  have d: "unat (if sz mod ps \<noteq> 0 then sz mod ps else ps) = ?d"
  proof -
    have "sz mod ps = 0 \<longleftrightarrow> ?s mod ?p = 0" by (simp only: m[symmetric] unat_eq_zero)
    then show ?thesis using m by (cases "sz mod ps = 0") simp_all
  qed
  have dle: "?d \<le> ?p" using assms(2) by (auto intro: less_imp_le)
  have add: "unat (sz + ps) = ?s + ?p" using assms(3) by (simp add: unat_word_ariths)
  have "unat (ALLOC_ALIGN sz ps) = ?s + ?p - ?d"
    using dle d add by (simp add: ALLOC_ALIGN_def unat_sub word_le_nat_alt)
  moreover have "(?s + ?p - ?d) div ?p = pages_for ?s ?p"
  proof (rule pages_for_unique[symmetric])
    have dvd: "?p dvd (?s + ?p - ?d)"
    proof (cases "?s mod ?p = 0")
      case True
      then show ?thesis by (simp add: mod_eq_0_iff_dvd)
    next
      case False
      have "?s = ?s div ?p * ?p + ?s mod ?p" by simp
      moreover have "?d = ?s mod ?p" using False by simp
      ultimately have "?s + ?p - ?d = ?s div ?p * ?p + ?p" by linarith
      then show ?thesis by simp
    qed
    then have eq: "(?s + ?p - ?d) div ?p * ?p = ?s + ?p - ?d" by simp
    have "?d \<ge> 1" using assms(2) by auto
    then show "?s \<le> (?s + ?p - ?d) div ?p * ?p" "((?s + ?p - ?d) div ?p - 1) * ?p < ?s"
      unfolding eq diff_mult_distrib using dle assms(1,2) by auto
  qed (use assms in auto)
  ultimately show ?thesis by (simp add: unat_div)
qed

section \<open>A fresh stream\<close>

lemma geometry_keep: "stream_geometry (self\<lparr>page_tree := t\<rparr>) = stream_geometry self"
  "stream_ok (self\<lparr>page_tree := t\<rparr>) s off = stream_ok self s off"
  by (simp_all add: stream_geometry_def stream_ok_def STREAM_PAGE_def)

lemma claim2_first_fit:
  assumes inv: "tree_inv self" and "0 < n"
  shows "(stream_claim2 self (int n) = Some (Return (STREAM_ERROR, self)) \<and> \<not> (\<exists>p. {p..<p + n} \<subseteq> set (free_pages self))) \<or>
    (\<exists>p t. stream_claim2 self (int n) = Some (Return (int p, self\<lparr>page_tree := t\<rparr>)) \<and> tree_inv (self\<lparr>page_tree := t\<rparr>) \<and>
       {p..<p + n} \<subseteq> set (free_pages self) \<and> set (rb_inorder t) = set (free_pages self) - {p..<p + n})"
proof -
  have fuel: "length (free_pages self) < tree_fuel (page_tree self)" by (simp add: tree_fuel_def free_pages_def)
  from claim_loop_first_fit[OF assms _ fuel, of "[]"] obtain r where
    r: "claim_loop (tree_fuel (page_tree self)) self (RB_MINMAX (page_tree self) (- 1)) (int n) = Some r"
    "case r of None \<Rightarrow> \<not> (\<exists>p. {p..<p + n} \<subseteq> set (free_pages self))
     | Some p \<Rightarrow> \<exists>ys zs. free_pages self = ys @ [p..<p + n] @ zs" by (auto simp: rb_min_first free_pages_def)
  show ?thesis
  proof (cases r)
    case None
    with r assms(2) show ?thesis by (simp add: stream_claim2_def)
  next
    case (Some p)
    with r(2) obtain ys zs where f: "free_pages self = ys @ [p..<p + n] @ zs" by auto
    from unhook_run[OF inv f] obtain t where t: "unhook_loop n self (list_head ([p..<p + n] @ zs)) = Some (Return (self\<lparr>page_tree := t\<rparr>))"
      "tree_inv (self\<lparr>page_tree := t\<rparr>)" "rb_inorder t = ys @ zs" by blast
    have hd: "list_head ([p..<p + n] @ zs) = Some p" using assms(2) by (simp add: upt_conv_Cons)
    have "page_hdr self p = STREAM_SETUP (int p)" using tree_invD(5)[OF inv, of p] f assms(2) by auto
    then have "stream_claim2 self (int n) = Some (Return (int p, self\<lparr>page_tree := t\<rparr>))"
      using r(1) Some t(1) hd by (simp add: stream_claim2_def peak_stream_unhook_def)
    moreover have "set (rb_inorder t) = set (free_pages self) - {p..<p + n}"
      using t(3) f tree_invD(2)[OF inv] by auto
    ultimately show ?thesis using t(2) f by auto
  qed
qed

text \<open>What a successful fresh claim leaves behind.\<close>

definition fresh_stream :: "peak_streams \<Rightarrow> nat \<Rightarrow> u64 \<Rightarrow> nat \<Rightarrow> peak_streams \<Rightarrow> bool" where
  "fresh_stream self r sz n self' \<longleftrightarrow> (\<exists>p. {p..<p + n} \<subseteq> set (free_pages self) \<and>
     set (free_pages self') = set (free_pages self) - {p..<p + n} \<and>
     stream_at self' = (stream_at self)(r := \<lparr>page_cnt = int n, page_no = int p, data_len = sz, data_buf = STREAM_PAGE self (int p)\<rparr>) \<and>
     page_bytes self' = page_bytes self \<and> page_count self' = page_count self \<and> page_size self' = page_size self)"

lemma claim1_fresh:
  assumes inv: "streams_inv C L self" and sz: "0 < unat sz" "unat sz + unat (page_size self) < 2 ^ 63"
  defines "n \<equiv> pages_for (unat sz) (unat (page_size self))"
  shows "(stream_claim1 self None sz = Some (Return (False, None, self)) \<and> \<not> (\<exists>p. {p..<p + n} \<subseteq> set (free_pages self))) \<or>
    (\<exists>r self'. stream_claim1 self None sz = Some (Return (True, Some r, self')) \<and> r \<in> C - L \<and>
       streams_inv C (insert r L) self' \<and> fresh_stream self r sz n self')"
proof -
  note I = streams_invD[OF inv]
  have ps: "0 < unat (page_size self)" using I(1) by (simp add: stream_geometry_def)
  note n = pages_for_bounds[OF sz(1) ps, folded n_def]
  have al: "unat (ALLOC_ALIGN sz (page_size self) div page_size self) = n"
    using alloc_align_pages[OF sz(1) ps sz(2)] by (simp add: n_def)
  have "n \<le> unat sz + unat (page_size self)" by (simp add: n_def pages_for_def) (meson div_le_dividend le_trans diff_le_self)
  then have sint: "sint (ALLOC_ALIGN sz (page_size self) div page_size self) = int n"
    using sint_small[of "ALLOC_ALIGN sz (page_size self) div page_size self"] sz(2) unfolding al by linarith
  have nz: "sz \<noteq> 0" using sz(1) by auto
  show ?thesis
  proof (cases "RB_EMPTY (page_tree self)")
    case True
    then have "free_pages self = []" by (cases "page_tree self") (auto simp: RB_EMPTY_def free_pages_def)
    moreover from this have "\<not> {p..<p + n} \<subseteq> set (free_pages self)" for p using n(1) by (auto simp: subset_eq)
    ultimately show ?thesis using True nz by (simp add: stream_claim1_def)
  next
    case False
    have step: "stream_claim1 self None sz = obind (stream_claim2 self (int n)) (\<lambda>(no, self). stream_grant self None no (int n) sz)"
      using False nz sint by (simp add: stream_claim1_def Let_def)
    from claim2_first_fit[OF I(2) n(1)] consider
      "stream_claim2 self (int n) = Some (Return (STREAM_ERROR, self))" "\<not> (\<exists>p. {p..<p + n} \<subseteq> set (free_pages self))"
      | p t where "stream_claim2 self (int n) = Some (Return (int p, self\<lparr>page_tree := t\<rparr>))" "tree_inv (self\<lparr>page_tree := t\<rparr>)"
        "{p..<p + n} \<subseteq> set (free_pages self)" "set (rb_inorder t) = set (free_pages self) - {p..<p + n}" by blast
    then show ?thesis
    proof cases
      case 1
      with step show ?thesis by (simp add: stream_grant_def)
    next
      case 2
      let ?self = "self\<lparr>page_tree := t\<rparr>"
      have p: "p \<in> set (free_pages self)" using 2(3) n(1) by auto
      then have "L \<noteq> C" using reference_left[OF inv tree_invD(4)[OF I(2) p]] I(6) by auto
      from prealloc.get_chunk[OF I(3) this] obtain r pool where r: "prealloc_get (references self) = (Some r, pool)"
        "r \<in> C - L" "prealloc_inv C (insert r L) pool" by blast
      let ?s = "\<lparr>page_cnt = int n, page_no = int p, data_len = sz, data_buf = STREAM_PAGE self (int p)\<rparr>"
      let ?self' = "self\<lparr>page_tree := t, references := pool, stream_at := (stream_at self)(r := ?s)\<rparr>"
      have "stream_claim1 self None sz = Some (Return (True, Some r, ?self'))"
        using 2(1) r(1) unfolding step by (simp add: stream_grant_def peak_stream_get_def stream_zero_def STREAM_PAGE_def Let_def)
      moreover have "fresh_stream self r sz n ?self'" using 2(3,4) by (auto simp: fresh_stream_def free_pages_def)
      moreover have "streams_inv C (insert r L) ?self'"
      proof (rule streams_inv_update[OF inv])
        have "p + n - 1 \<in> {p..<p + n}" using n(1) by simp
        then have "p + n - 1 < unat (page_count self)" using 2(3) tree_invD(4)[OF I(2)] by blast
        then have "stream_ok ?self' ?s 0" using n sz(1) ps by (simp add: stream_ok_def STREAM_PAGE_def)
        moreover have "stream_pages ?s = {p..<p + n}" by (simp add: stream_pages_def)
        ultimately show "(\<exists>off. stream_ok ?self' ?s off) \<and> stream_pages ?s \<inter> set (free_pages ?self') = {} \<and>
            stream_pages ?s \<subseteq> set (free_pages self) \<union> (if r \<in> L then stream_pages (stream_at self r) else {})"
          using 2(3,4) by (auto simp: free_pages_def)
        show "set (free_pages ?self') \<subseteq> set (free_pages self) \<union> (if r \<in> L then stream_pages (stream_at self r) else {})"
          using 2(4) by (auto simp: free_pages_def)
      qed (use 2(2) r(3) in \<open>auto simp: tree_inv_def\<close>)
      ultimately show ?thesis using r(2) by blast
    qed
  qed
qed

section \<open>Growing a stream in place\<close>

text \<open>The additional pages are the ones right behind the stream.\<close>

lemma reclaim2_behind:
  assumes inv: "tree_inv self" and "0 < n" and q: "page_no s + page_cnt s = int q" and count: "q \<le> unat (page_count self)"
  shows "(stream_reclaim2 self s (int n) = Some (Return (STREAM_ERROR, self)) \<and> \<not> {q..<q + n} \<subseteq> set (free_pages self)) \<or>
    (\<exists>t. stream_reclaim2 self s (int n) = Some (Return (page_no s, self\<lparr>page_tree := t\<rparr>)) \<and> tree_inv (self\<lparr>page_tree := t\<rparr>) \<and>
       {q..<q + n} \<subseteq> set (free_pages self) \<and> set (rb_inorder t) = set (free_pages self) - {q..<q + n})"
proof -
  let ?ref = "unat (page_count self)"
  let ?hdr = "(page_hdr self)(?ref := (page_hdr self ?ref)\<lparr>index := int q\<rparr>)"
  let ?page = "RB_FIND (STREAM_CMP ?hdr) ?ref (page_tree self)"
  note I = tree_invD[OF inv]
  have hdr: "\<forall>p \<in> set (free_pages self). index (?hdr p) = int p" using I(4,5) by (metis fun_upd_apply nless_le setup_simps(1))
  have small: "\<forall>p \<in> set (free_pages self). index (?hdr p) = int p \<and> p < 2 ^ 31" using hdr I(4,6) by (meson order_less_trans)
  have sorted: "stream.cmp_sorted ?hdr (rb_inorder (page_tree self))"
    using stream_sorted_iff[OF small] I(1) unfolding free_pages_def by blast
  have ok: "index_ok ?hdr ?ref" "set (rb_inorder (page_tree self)) \<subseteq> {p. index_ok ?hdr p}"
    using count I(6) small unfolding free_pages_def index_ok_def by auto
  have find: "?page = Some k \<longleftrightarrow> k = q \<and> q \<in> set (free_pages self)" for k
  proof -
    have ref: "index (?hdr ?ref) = int q" by simp
    have "STREAM_CMP ?hdr ?ref k = int q - int k" if "k \<in> set (free_pages self)"
      using bspec[OF hdr that] ref stream_cmp_diff[OF ok(1), of k] ok(2) that unfolding free_pages_def by (metis mem_Collect_eq subsetD)
    then show ?thesis using stream.find_Some[OF sorted ok(2), of ?ref k] ok(1) by (auto simp: free_pages_def)
  qed
  show ?thesis
  proof (cases "q \<in> set (free_pages self)")
    case False
    then have "?page = None" using find by auto
    moreover have "peak_stream_probe self None (int n) = Some 0" by (simp add: peak_stream_probe_def tree_fuel_def)
    moreover have "\<not> {q..<q + n} \<subseteq> set (free_pages self)" using False assms(2) by (auto simp: subset_eq)
    ultimately show ?thesis using assms(2) q by (simp add: stream_reclaim2_def Let_def)
  next
    case True
    then have page: "?page = Some q" using find by simp
    from True obtain as bs where f: "free_pages self = as @ q # bs" by (meson split_list)
    let ?k = "run_from q (q # bs)"
    have probe: "peak_stream_probe self (Some q) (int n) = Some (int (min n ?k))"
      using probe_run[OF inv f, of n] by simp
    show ?thesis
    proof (cases "n \<le> ?k")
      case False
      have "\<not> {q..<q + n} \<subseteq> set (free_pages self)"
      proof
        assume sub: "{q..<q + n} \<subseteq> set (free_pages self)"
        have so: "sorted_wrt (<) (as @ q # bs)" using I(1) f by simp
        then have "{q..<q + n} \<subseteq> set (q # bs)" using sub f by (auto simp: sorted_wrt_append) fastforce
        from no_run_skip[of "q # bs" ?k q n q] this so False have "q \<in> set (drop ?k (q # bs))"
          using assms(2) by (auto simp: sorted_wrt_append)
        then have "q \<in> set bs" using in_set_dropD[of q "?k - 1" bs] by simp
        with so show False by (auto simp: sorted_wrt_append)
      qed
      with False page probe q show ?thesis by (simp add: stream_reclaim2_def Let_def min_def)
    next
      case True
      then obtain zs where zs: "q # bs = [q..<q + n] @ zs" using run_from_take_n by blast
      with f have f': "free_pages self = as @ [q..<q + n] @ zs" by simp
      from unhook_run[OF inv f'] obtain t where t: "unhook_loop n self (list_head ([q..<q + n] @ zs)) = Some (Return (self\<lparr>page_tree := t\<rparr>))"
        "tree_inv (self\<lparr>page_tree := t\<rparr>)" "rb_inorder t = as @ zs" by blast
      have hd: "list_head ([q..<q + n] @ zs) = Some q" using assms(2) by (simp add: upt_conv_Cons)
      have "stream_reclaim2 self s (int n) = Some (Return (page_no s, self\<lparr>page_tree := t\<rparr>))"
        using True page probe q t(1) hd by (simp add: stream_reclaim2_def Let_def min_def peak_stream_unhook_def)
      moreover have "set (rb_inorder t) = set (free_pages self) - {q..<q + n}"
        using t(3) f' I(2) by auto
      ultimately show ?thesis using t(2) f' by auto
    qed
  qed
qed

text \<open>The number of pages a stream has to grow by.\<close>

lemma grow_pages:
  assumes sok: "stream_ok self s 0" and ps: "0 < unat (page_size self)" and sz: "0 < unat sz" "unat sz + unat (data_len s) + unat (page_size self) < 2 ^ 63"
  shows "\<exists>n. sint (ALLOC_ALIGN (sz + data_len s) (page_size self) div page_size self - of_int (page_cnt s)) = int n \<and>
    nat (page_cnt s) + n = pages_for (unat sz + unat (data_len s)) (unat (page_size self))"
proof -
  let ?ps = "unat (page_size self)" and ?len = "unat sz + unat (data_len s)"
  define m where "m = pages_for ?len ?ps"
  define c where "c = nat (page_cnt s)"
  have len: "unat (sz + data_len s) = ?len" using sz(2) by (simp add: unat_word_ariths)
  have lpos: "0 < ?len" using sz(1) by simp
  note mb = pages_for_bounds[OF lpos ps, folded m_def]
  have c: "page_cnt s = int c" "0 < c" using sok by (auto simp: c_def stream_ok_def)
  have "(c - 1) * ?ps < ?len" using sok by (simp add: stream_ok_def c_def)
  with mb(3) have "(c - 1) * ?ps < m * ?ps" by linarith
  then have "c - 1 < m" by simp
  then have cm: "c \<le> m" by linarith
  have mle: "m \<le> ?len + ?ps" unfolding m_def pages_for_def by (meson div_le_dividend le_trans diff_le_self)
  have al: "unat (ALLOC_ALIGN (sz + data_len s) (page_size self) div page_size self) = m"
    using alloc_align_pages[of "sz + data_len s" "page_size self"] len lpos ps sz(2) by (simp add: m_def)
  have "unat (of_int (page_cnt s) :: u64) = c" using c(1) cm mle sz(2) by (simp add: unat_of_nat_small)
  then have "unat (ALLOC_ALIGN (sz + data_len s) (page_size self) div page_size self - of_int (page_cnt s)) = m - c"
    using al cm by (simp add: unat_sub word_le_nat_alt)
  then have "sint (ALLOC_ALIGN (sz + data_len s) (page_size self) div page_size self - of_int (page_cnt s)) = int (m - c)"
    using sint_small[of "ALLOC_ALIGN (sz + data_len s) (page_size self) div page_size self - of_int (page_cnt s)"]
      mle sz(2) by simp
  with cm show ?thesis by (intro exI[of _ "m - c"]) (simp add: m_def c_def)
qed

text \<open>The stream with the pages behind it added.\<close>

lemma grow_inv:
  assumes inv: "streams_inv C L self" and r: "r \<in> L" and s: "s = stream_at self r" "stream_ok self s 0"
    and sz: "0 < unat sz" "unat sz + unat (data_len s) + unat (page_size self) < 2 ^ 63"
    and n: "nat (page_cnt s) + n = pages_for (unat sz + unat (data_len s)) (unat (page_size self))"
    and q: "q = nat (page_no s) + nat (page_cnt s)" and tree: "tree_inv (self\<lparr>page_tree := t\<rparr>)"
    and took: "{q..<q + n} \<subseteq> set (free_pages self)" "set (rb_inorder t) = set (free_pages self) - {q..<q + n}"
  defines "s' \<equiv> s\<lparr>page_cnt := page_cnt s + int n, data_len := data_len s + sz\<rparr>"
  defines "self' \<equiv> self\<lparr>page_tree := t, stream_at := (stream_at self)(r := s')\<rparr>"
  shows "streams_inv C L self' \<and> stream_ok self' s' 0"
proof
  note I = streams_invD[OF inv]
  have ps: "0 < unat (page_size self)" using I(1) by (simp add: stream_geometry_def)
  have lpos: "0 < unat sz + unat (data_len s)" using sz(1) by simp
  note mb = pages_for_bounds[OF lpos ps, folded n]
  have c: "0 < page_cnt s" "0 \<le> page_no s" using s(2) by (auto simp: stream_ok_def)
  have fit: "q + n \<le> unat (page_count self)"
  proof (cases "n = 0")
    case True
    then show ?thesis using s(2) by (simp add: stream_ok_def q)
  next
    case False
    then have "q + n - 1 \<in> set (free_pages self)" using took(1) by (auto simp: subset_eq)
    then have "q + n - 1 < unat (page_count self)" by (rule tree_invD(4)[OF I(2)])
    then show ?thesis using False by linarith
  qed
  have cnt: "nat (page_cnt s + int n) = nat (page_cnt s) + n" "nat (int n + page_cnt s) = n + nat (page_cnt s)" using c by simp_all
  have "unat (data_len s + sz) = unat (data_len s) + unat sz" using sz(2) by (simp add: unat_word_ariths)
  then show ok: "stream_ok self' s' 0"
    using s(2) fit mb lpos c by (simp add: stream_ok_def STREAM_PAGE_def self'_def s'_def cnt q add.commute add.left_commute)
  have pages: "stream_pages s' = stream_pages s \<union> {q..<q + n}" using c by (auto simp: stream_pages_def s'_def q nat_add_distrib)
  have free: "set (free_pages self') = set (free_pages self) - {q..<q + n}" using took(2) by (simp add: free_pages_def self'_def)
  show "streams_inv C L self'"
  proof (rule streams_inv_update[OF inv])
    show "(\<exists>off. stream_ok self' s' off) \<and> stream_pages s' \<inter> set (free_pages self') = {} \<and>
        stream_pages s' \<subseteq> set (free_pages self) \<union> (if r \<in> L then stream_pages (stream_at self r) else {})"
      using ok I(6)[OF r] r took(1) unfolding pages free s(1)[symmetric] by auto
  qed (use tree I(3) free in \<open>auto simp: self'_def tree_inv_def s(1)\<close>)
qed

lemma claim1_grow:
  assumes inv: "streams_inv C L self" and r: "r \<in> L" and sok: "stream_ok self (stream_at self r) 0"
    and sz: "0 < unat sz" "unat sz + unat (data_len (stream_at self r)) + unat (page_size self) < 2 ^ 63"
  shows "stream_claim1 self (Some r) sz = Some (Return (False, Some r, self)) \<or>
    (\<exists>self' n. stream_claim1 self (Some r) sz = Some (Return (True, Some r, self')) \<and> streams_inv C L self' \<and>
       stream_at self' = (stream_at self)(r := (stream_at self r)\<lparr>page_cnt := page_cnt (stream_at self r) + int n,
         data_len := data_len (stream_at self r) + sz\<rparr>) \<and>
       set (free_pages self') \<subseteq> set (free_pages self) \<and>
       page_bytes self' = page_bytes self \<and> page_count self' = page_count self \<and> page_size self' = page_size self \<and>
       stream_ok self' (stream_at self' r) 0)"
proof -
  note I = streams_invD[OF inv]
  let ?s = "stream_at self r" and ?q = "nat (page_no (stream_at self r)) + nat (page_cnt (stream_at self r))"
  have ps: "0 < unat (page_size self)" using I(1) by (simp add: stream_geometry_def)
  from grow_pages[OF sok ps sz] obtain n where
    sint: "sint (ALLOC_ALIGN (sz + data_len ?s) (page_size self) div page_size self - of_int (page_cnt ?s)) = int n"
    and n: "nat (page_cnt ?s) + n = pages_for (unat sz + unat (data_len ?s)) (unat (page_size self))" by blast
  have nz: "sz \<noteq> 0" using sz(1) by auto
  let ?s' = "?s\<lparr>page_cnt := page_cnt ?s + int n, data_len := data_len ?s + sz\<rparr>"
  note keep = grow_inv[OF inv r refl sok sz n refl]
  show ?thesis
  proof (cases "n = 0")
    case True
    have "stream_claim1 self (Some r) sz = Some (Return (True, Some r, self\<lparr>page_tree := page_tree self, stream_at := (stream_at self)(r := ?s')\<rparr>))"
      using True sint nz by (simp add: stream_claim1_def Let_def)
    moreover have "streams_inv C L (self\<lparr>page_tree := page_tree self, stream_at := (stream_at self)(r := ?s')\<rparr>) \<and>
      stream_ok (self\<lparr>page_tree := page_tree self, stream_at := (stream_at self)(r := ?s')\<rparr>) ?s' 0"
      using True I(2) by (intro keep) (simp_all add: free_pages_def)
    ultimately show ?thesis
      by (intro disjI2 exI[of _ "self\<lparr>page_tree := page_tree self, stream_at := (stream_at self)(r := ?s')\<rparr>"] exI[of _ n])
        (simp add: free_pages_def)
  next
    case False
    have q: "page_no ?s + page_cnt ?s = int ?q" "?q \<le> unat (page_count self)" using sok by (auto simp: stream_ok_def)
    have step: "stream_claim1 self (Some r) sz = obind (stream_reclaim2 self ?s (int n)) (\<lambda>(no, self). stream_grant self (Some r) no (int n) sz)"
      using False nz sint by (simp add: stream_claim1_def Let_def)
    have buf: "data_buf ?s = STREAM_PAGE self (page_no ?s)" "page_no ?s \<noteq> - 1" using sok by (auto simp: stream_ok_def)
    from reclaim2_behind[OF I(2) _ q] False consider "stream_reclaim2 self ?s (int n) = Some (Return (STREAM_ERROR, self))"
      | t where "stream_reclaim2 self ?s (int n) = Some (Return (page_no ?s, self\<lparr>page_tree := t\<rparr>))" "tree_inv (self\<lparr>page_tree := t\<rparr>)"
        "{?q..<?q + n} \<subseteq> set (free_pages self)" "set (rb_inorder t) = set (free_pages self) - {?q..<?q + n}" by blast
    then show ?thesis
    proof cases
      case 1
      with step show ?thesis by (simp add: stream_grant_def)
    next
      case 2
      have "?s\<lparr>data_buf := of_int (page_no ?s) * page_size self, page_cnt := a, data_len := b\<rparr> = ?s\<lparr>page_cnt := a, data_len := b\<rparr>" for a b
        using buf(1) by (cases ?s) (simp add: STREAM_PAGE_def)
      then have "stream_claim1 self (Some r) sz = Some (Return (True, Some r, self\<lparr>page_tree := t, stream_at := (stream_at self)(r := ?s')\<rparr>))"
        using 2(1) buf(2) unfolding step by (simp add: stream_grant_def STREAM_PAGE_def Let_def)
      with keep[OF 2(2-4)] 2(4) show ?thesis
        by (intro disjI2 exI[of _ "self\<lparr>page_tree := t, stream_at := (stream_at self)(r := ?s')\<rparr>"] exI[of _ n])
          (simp add: free_pages_def)
    qed
  qed
qed

section \<open>Releasing data\<close>

lemma release_loop_spec:
  assumes "tree_inv self" and "0 < unat (page_size self)" and "page_no s = int a" and "a + n \<le> unat (page_count self)"
    and "{a..<a + n} \<inter> set (free_pages self) = {}" and "k = min n (unat (adj + sz) div unat (page_size self))"
  shows "\<exists>hdr t. release_loop n self s adj sz = Some (Return (self\<lparr>page_hdr := hdr, page_tree := t\<rparr>,
      s\<lparr>data_buf := data_buf s + of_nat k * page_size self, data_len := data_len s - of_nat k * page_size self,
        page_cnt := page_cnt s - int k, page_no := page_no s + int k\<rparr>, sz - of_nat k * page_size self)) \<and>
    tree_inv (self\<lparr>page_hdr := hdr, page_tree := t\<rparr>) \<and> set (rb_inorder t) = set (free_pages self) \<union> {a..<a + k}"
  using assms
proof (induction n arbitrary: self s sz a k)
  case 0
  then show ?case by (intro exI[of _ "page_hdr self"] exI[of _ "page_tree self"]) (simp add: free_pages_def)
next
  case (Suc n)
  let ?ps = "page_size self"
  show ?case
  proof (cases "adj + sz \<ge> ?ps")
    case False
    then have "k = 0" using Suc.prems(2,6) by (simp add: word_less_nat_alt not_le)
    with False Suc.prems(1) show ?thesis
      by (intro exI[of _ "page_hdr self"] exI[of _ "page_tree self"]) (simp add: free_pages_def)
  next
    case True
    then have ge: "unat ?ps \<le> unat (adj + sz)" by (simp add: word_le_nat_alt)
    define j where "j = min n (unat (adj + (sz - ?ps)) div unat ?ps)"
    have "unat (adj + (sz - ?ps)) = unat (adj + sz) - unat ?ps"
      using unat_sub[OF True] by (simp add: algebra_simps)
    then have "unat (adj + sz) div unat ?ps = Suc (unat (adj + (sz - ?ps)) div unat ?ps)"
      using ge Suc.prems(2) by (simp add: le_div_geq)
    then have k: "k = Suc j" using Suc.prems(6) by (simp add: j_def)
    have "a \<in> {a..<a + Suc n}" by simp
    then have a: "a < unat (page_count self)" "a \<notin> set (free_pages self)" using Suc.prems(4,5) by (simp, blast)
    from page_release_inserts[OF Suc.prems(1) a] obtain t where
      t: "stream_page_release self (int a) = Some (Return (self\<lparr>page_hdr := (page_hdr self)(a := STREAM_SETUP (int a)), page_tree := t\<rparr>))"
      "tree_inv (self\<lparr>page_hdr := (page_hdr self)(a := STREAM_SETUP (int a)), page_tree := t\<rparr>)"
      "set (rb_inorder t) = insert a (set (free_pages self))" by blast
    let ?self = "self\<lparr>page_hdr := (page_hdr self)(a := STREAM_SETUP (int a)), page_tree := t\<rparr>"
    let ?s = "s\<lparr>data_buf := data_buf s + ?ps, data_len := data_len s - ?ps, page_cnt := page_cnt s - 1, page_no := page_no s + 1\<rparr>"
    have "{Suc a..<Suc a + n} \<subseteq> {a..<a + Suc n}" "a \<notin> {Suc a..<Suc a + n}" by auto
    moreover have fs: "set (free_pages ?self) = insert a (set (free_pages self))" using t(3) by (simp add: free_pages_def)
    ultimately have "{Suc a..<Suc a + n} \<inter> set (free_pages ?self) = {}" using Suc.prems(5) unfolding fs by blast
    from Suc.IH[OF t(2) _ _ _ this, of ?s j "sz - ?ps"] Suc.prems(2-4) obtain hdr t' where
      r: "release_loop n ?self ?s adj (sz - ?ps) = Some (Return (?self\<lparr>page_hdr := hdr, page_tree := t'\<rparr>,
        ?s\<lparr>data_buf := data_buf ?s + of_nat j * ?ps, data_len := data_len ?s - of_nat j * ?ps,
          page_cnt := page_cnt ?s - int j, page_no := page_no ?s + int j\<rparr>, sz - ?ps - of_nat j * ?ps))"
      "tree_inv (?self\<lparr>page_hdr := hdr, page_tree := t'\<rparr>)" "set (rb_inorder t') = set (rb_inorder t) \<union> {Suc a..<Suc a + j}"
      by (auto simp: j_def free_pages_def)
    have "release_loop (Suc n) self s adj sz = release_loop n ?self ?s adj (sz - ?ps)"
      using True t(1) Suc.prems(3) by simp
    moreover have run: "{a..<a + k} = insert a {Suc a..<Suc a + j}" using k by auto
    then have "set (rb_inorder t') = set (free_pages self) \<union> {a..<a + k}" unfolding r(3) t(3) run by blast
    ultimately show ?thesis using r(1,2)
      by (intro exI[of _ hdr] exI[of _ t']) (simp add: k algebra_simps)
  qed
qed

text \<open>What is left of a stream after a part of it was released.\<close>

lemma release_rest_ok:
  assumes sok: "stream_ok self s off" and lt: "unat sz < unat (data_len s)"
  defines "ps \<equiv> unat (page_size self)"
  defines "k \<equiv> (off + unat sz) div ps"
  defines "s' \<equiv> s\<lparr>page_cnt := page_cnt s - int k, page_no := page_no s + int k, data_buf := data_buf s + sz, data_len := data_len s - sz\<rparr>"
  shows "stream_ok self s' ((off + unat sz) mod ps) \<and> k < nat (page_cnt s)"
proof -
  define a where "a = nat (page_no s)"
  define c where "c = nat (page_cnt s)"
  have S: "page_no s = int a" "page_cnt s = int c" "0 < c" "a + c \<le> unat (page_count self)" "off < ps"
    "data_buf s = STREAM_PAGE self (int a) + of_nat off" "(c - 1) * ps < off + unat (data_len s)" "off + unat (data_len s) \<le> c * ps"
    using sok unfolding stream_ok_def ps_def by (auto simp: a_def c_def)
  have ps: "0 < ps" using S(5) by simp
  have len: "unat (data_len s - sz) = unat (data_len s) - unat sz" using lt by (simp add: unat_sub word_le_nat_alt)
  have split: "off + unat sz = k * ps + (off + unat sz) mod ps" by (simp add: k_def)
  have "k * ps < c * ps" using S(8) lt split by linarith
  then have kc: "k < c" by simp
  have end': "(off + unat sz) mod ps + unat (data_len s - sz) = off + unat (data_len s) - k * ps"
    using split lt unfolding len by linarith
  have cnt: "nat (page_cnt s') = c - k" "nat (page_no s') = a + k" using S(1,2) kc by (simp_all add: s'_def nat_diff_distrib nat_add_distrib)
  have "of_nat off + sz = (of_nat (off + unat sz) :: u64)" by simp
  also have "\<dots> = of_nat k * of_nat ps + of_nat ((off + unat sz) mod ps)" by (subst split) simp
  finally have "of_nat off + sz = of_nat k * page_size self + of_nat ((off + unat sz) mod ps)" by (simp add: ps_def)
  then have buf: "data_buf s' = STREAM_PAGE self (page_no s') + of_nat ((off + unat sz) mod ps)"
    using S(1,6) by (simp add: s'_def STREAM_PAGE_def algebra_simps)
  have "k * ps \<le> (c - 1) * ps" using kc by (intro mult_right_mono) auto
  with S(7) have "(c - 1) * ps - k * ps < off + unat (data_len s) - k * ps" by linarith
  moreover have "(c - k - 1) * ps = (c - 1) * ps - k * ps" by (simp add: diff_mult_distrib)
  ultimately have "(nat (page_cnt s') - 1) * ps < (off + unat sz) mod ps + unat (data_len s')" using end' cnt(1) by (simp add: s'_def)
  moreover have "(off + unat sz) mod ps + unat (data_len s') \<le> nat (page_cnt s') * ps"
    using S(8) end' cnt(1) by (simp add: s'_def diff_mult_distrib)
  moreover have "0 \<le> page_no s'" "0 < page_cnt s'" "nat (page_no s') + nat (page_cnt s') \<le> unat (page_count self)"
    using S(1-4) kc unfolding cnt by (simp_all add: s'_def)
  moreover have "0 < unat (data_len s')" using lt len by (simp add: s'_def)
  moreover have "(off + unat sz) mod ps < ps" using ps by simp
  ultimately show ?thesis using buf kc unfolding stream_ok_def ps_def c_def by blast
qed

lemma release_pages:
  assumes inv: "streams_inv C L self" and r: "r \<in> L" and s: "s = stream_at self r" and sok: "stream_ok self s off" and sz: "unat sz \<le> unat (data_len s)"
  defines "k \<equiv> (off + unat sz) div unat (page_size self)"
  shows "k \<le> nat (page_cnt s) \<and> (\<exists>hdr t. release_loop (nat (page_cnt s)) self s (data_buf s - STREAM_PAGE self (page_no s)) sz =
      Some (Return (self\<lparr>page_hdr := hdr, page_tree := t\<rparr>,
        s\<lparr>data_buf := data_buf s + of_nat k * page_size self, data_len := data_len s - of_nat k * page_size self,
          page_cnt := page_cnt s - int k, page_no := page_no s + int k\<rparr>, sz - of_nat k * page_size self)) \<and>
    tree_inv (self\<lparr>page_hdr := hdr, page_tree := t\<rparr>) \<and>
    set (rb_inorder t) = set (free_pages self) \<union> {nat (page_no s)..<nat (page_no s) + k})"
proof -
  note I = streams_invD[OF inv]
  let ?ps = "unat (page_size self)" and ?a = "nat (page_no s)" and ?c = "nat (page_cnt s)"
  have S: "page_no s = int ?a" "?a + ?c \<le> unat (page_count self)" "off < ?ps" "off + unat (data_len s) \<le> ?c * ?ps"
    "data_buf s - STREAM_PAGE self (page_no s) = of_nat off" using sok by (auto simp: stream_ok_def)
  have ps: "0 < ?ps" using S(3) by simp
  have "unat (page_count self) * ?ps < 2 ^ 62" using I(1) by (simp add: stream_geometry_def)
  moreover have "?c * ?ps \<le> unat (page_count self) * ?ps" using S(2) by (intro mult_right_mono) auto
  ultimately have small: "off + unat sz < 2 ^ 62" using S(4) sz by linarith
  then have "unat (of_nat off + sz) = off + unat sz" by (simp add: unat_word_ariths unat_of_nat)
  moreover have "(off + unat sz) div ?ps \<le> ?c * ?ps div ?ps" using S(4) sz by (intro div_le_mono) simp
  then have kc: "k \<le> ?c" using ps by (simp add: k_def)
  ultimately have kmin: "k = min ?c (unat (of_nat off + sz) div ?ps)" by (simp add: k_def)
  have "{?a..<?a + ?c} \<inter> set (free_pages self) = {}" using I(6)[OF r] unfolding s[symmetric] stream_pages_def .
  from release_loop_spec[OF I(2) ps S(1,2) this kmin] kc S(5) show ?thesis by simp
qed

lemma release_spec:
  assumes inv: "streams_inv C L self" and r: "r \<in> L" and sok: "stream_ok self (stream_at self r) off"
    and sz: "0 < unat sz" "unat sz \<le> unat (data_len (stream_at self r))"
  defines "s \<equiv> stream_at self r" and "ps \<equiv> unat (page_size self)"
  defines "k \<equiv> (off + unat sz) div ps" and "whole \<equiv> sz = data_len s"
  shows "\<exists>self'. peak_stream_release self (Some r) sz = Some (Return (if whole then None else Some r, self')) \<and>
    streams_inv C (if whole then L - {r} else L) self' \<and>
    set (free_pages self') = set (free_pages self) \<union> {nat (page_no s)..<nat (page_no s) + k} \<and>
    (\<exists>s'. stream_at self' = (stream_at self)(r := s') \<and> data_len s' = data_len s - sz \<and> data_buf s' = data_buf s + sz \<and>
       (\<not> whole \<longrightarrow> stream_ok self' s' ((off + unat sz) mod ps))) \<and>
    page_bytes self' = page_bytes self \<and> page_count self' = page_count self \<and> page_size self' = page_size self"
proof -
  note I = streams_invD[OF inv]
  let ?a = "nat (page_no s)"
  have sok': "stream_ok self s off" and szs: "unat sz \<le> unat (data_len s)" using sok sz(2) by (simp_all add: s_def)
  from release_pages[OF inv r s_def[THEN meta_eq_to_obj_eq] sok' szs, folded ps_def, folded k_def] obtain hdr t where
    kc: "k \<le> nat (page_cnt s)"
    and loop: "release_loop (nat (page_cnt s)) self s (data_buf s - STREAM_PAGE self (page_no s)) sz = Some (Return (self\<lparr>page_hdr := hdr, page_tree := t\<rparr>,
      s\<lparr>data_buf := data_buf s + of_nat k * page_size self, data_len := data_len s - of_nat k * page_size self,
        page_cnt := page_cnt s - int k, page_no := page_no s + int k\<rparr>, sz - of_nat k * page_size self))"
    and tree: "tree_inv (self\<lparr>page_hdr := hdr, page_tree := t\<rparr>)"
    and free: "set (rb_inorder t) = set (free_pages self) \<union> {?a..<?a + k}" by blast
  define s' where "s' = s\<lparr>page_cnt := page_cnt s - int k, page_no := page_no s + int k, data_buf := data_buf s + sz, data_len := data_len s - sz\<rparr>"
  define pool where "pool = (if whole then prealloc_put (references self) (Some r) else references self)"
  define self' where "self' = self\<lparr>page_hdr := hdr, page_tree := t, stream_at := (stream_at self)(r := s'), references := pool\<rparr>"
  let ?L = "if whole then L - {r} else L"
  have nz: "sz \<noteq> 0" using sz(1) by auto
  have rel: "peak_stream_release self (Some r) sz = Some (Return (if whole then None else Some r, self'))"
    using nz loop unfolding s_def[symmetric]
    by (simp add: peak_stream_release_def Let_def s_def[symmetric] self'_def s'_def pool_def whole_def)
  have free': "set (free_pages self') = set (free_pages self) \<union> {?a..<?a + k}" using free by (simp add: free_pages_def self'_def)
  have s'_ok: "stream_ok self' s' ((off + unat sz) mod ps) \<and> k < nat (page_cnt s)" if "\<not> whole"
  proof -
    have "unat sz < unat (data_len s)" using that szs by (auto simp: whole_def le_less dest: unat_eqD)
    from release_rest_ok[OF sok' this, folded ps_def, folded k_def, folded s'_def] show ?thesis by (simp add: stream_ok_def STREAM_PAGE_def self'_def)
  qed
  have no: "0 \<le> page_no s" "0 < page_cnt s" using sok' by (auto simp: stream_ok_def)
  have passed: "{?a..<?a + k} \<subseteq> stream_pages s" using kc by (auto simp: stream_pages_def)
  have pages': "stream_pages s' \<subseteq> stream_pages s \<and> stream_pages s' \<inter> {?a..<?a + k} = {}" if "\<not> whole"
    using s'_ok[OF that] no by (auto simp: stream_pages_def s'_def nat_diff_distrib nat_add_distrib)
  have "streams_inv C ?L self'"
  proof (rule streams_inv_update[OF inv])
    show "(\<exists>off. stream_ok self' s' off) \<and> stream_pages s' \<inter> set (free_pages self') = {} \<and>
        stream_pages s' \<subseteq> set (free_pages self) \<union> (if r \<in> L then stream_pages (stream_at self r) else {})" if "r \<in> ?L"
    proof -
      have nw: "\<not> whole" using that by (auto split: if_splits)
      have "stream_pages s' \<inter> set (free_pages self') = {}" using pages'[OF nw] I(6)[OF r] unfolding free' s_def[symmetric] by blast
      with s'_ok[OF nw] pages'[OF nw] r show ?thesis unfolding s_def by auto
    qed
    show "set (free_pages self') \<subseteq> set (free_pages self) \<union> (if r \<in> L then stream_pages (stream_at self r) else {})"
      using passed r unfolding free' s_def by auto
    show "prealloc_inv C ?L (references self')" using I(3) prealloc.put_chunk[OF I(3) r] by (simp add: pool_def self'_def)
  qed (use tree in \<open>auto simp: self'_def tree_inv_def\<close>)
  with rel free' s'_ok show ?thesis
    by (intro exI[of _ self']) (auto simp: self'_def s'_def intro!: exI[of _ s'])
qed

section \<open>A new pool\<close>

lemma init_loop_spec:
  assumes "tree_inv self" and "set (free_pages self) = {..<i}" and "i + n \<le> unat (page_count self)"
  shows "\<exists>hdr t. init_loop i n self = Some (Return (self\<lparr>page_hdr := hdr, page_tree := t\<rparr>)) \<and>
    tree_inv (self\<lparr>page_hdr := hdr, page_tree := t\<rparr>) \<and> set (rb_inorder t) = {..<i + n}"
  using assms
proof (induction n arbitrary: i self)
  case 0
  then show ?case by (intro exI[of _ "page_hdr self"] exI[of _ "page_tree self"]) (simp add: free_pages_def)
next
  case (Suc n)
  have i: "i < unat (page_count self)" "i \<notin> set (free_pages self)" using Suc.prems by auto
  from page_release_inserts[OF Suc.prems(1) i] obtain t where
    t: "stream_page_release self (int i) = Some (Return (self\<lparr>page_hdr := (page_hdr self)(i := STREAM_SETUP (int i)), page_tree := t\<rparr>))"
    "tree_inv (self\<lparr>page_hdr := (page_hdr self)(i := STREAM_SETUP (int i)), page_tree := t\<rparr>)"
    "set (rb_inorder t) = insert i (set (free_pages self))" by blast
  let ?self = "self\<lparr>page_hdr := (page_hdr self)(i := STREAM_SETUP (int i)), page_tree := t\<rparr>"
  have "set (free_pages ?self) = {..<Suc i}" using t(3) Suc.prems(2) by (simp add: free_pages_def lessThan_Suc)
  from Suc.IH[OF t(2) this] Suc.prems(3) obtain hdr t' where "init_loop (Suc i) n ?self = Some (Return (?self\<lparr>page_hdr := hdr, page_tree := t'\<rparr>))"
    "tree_inv (?self\<lparr>page_hdr := hdr, page_tree := t'\<rparr>)" "set (rb_inorder t') = {..<Suc i + n}" by auto
  with t(1) show ?case by (intro exI[of _ hdr] exI[of _ t']) simp
qed

lemma stream_init_spec:
  assumes "count \<noteq> 0" and "sz AND 0x7 = 0" and "SIZEOF_STREAM_PAGE \<le> sz" and "unat count * unat sz < 2 ^ 62" and "unat count < 2 ^ 31"
  shows "\<exists>self. peak_stream_init count sz True True (Some start) hdr bytes store = Some (Return (Some self)) \<and>
    streams_inv (pool_chunks start count SIZEOF_STREAM) {} self \<and> set (free_pages self) = {..<unat count} \<and>
    page_count self = count \<and> page_size self = sz"
proof -
  obtain ok pool where p: "prealloc_init count SIZEOF_STREAM (Some start) = (ok, pool)" by fastforce
  then have ok: "prealloc_init count SIZEOF_STREAM (Some start) = (True, pool)" using assms(1) by (simp add: prealloc_init_def)
  note pool = prealloc_init_inv[OF ok]
  let ?self = "\<lparr>page_tree = RbNil, references = pool, page_count = count, page_size = sz, page_hdr = hdr, page_bytes = bytes, stream_at = store\<rparr>"
  have "tree_inv ?self" "set (free_pages ?self) = {..<0}" using assms(5) by (simp_all add: tree_inv_def free_pages_def rb_ok_def)
  from init_loop_spec[OF this, of "unat count"] obtain hdr' t where
    l: "init_loop 0 (unat count) ?self = Some (Return (?self\<lparr>page_hdr := hdr', page_tree := t\<rparr>))"
    "tree_inv (?self\<lparr>page_hdr := hdr', page_tree := t\<rparr>)" "set (rb_inorder t) = {..<unat count}" by auto
  have "unat (56 :: u64) \<le> unat sz" using assms(3) by (simp add: word_le_nat_alt)
  then have "0 < unat sz" by simp
  then have "stream_geometry (?self\<lparr>page_hdr := hdr', page_tree := t\<rparr>)" using assms(4) by (simp add: stream_geometry_def)
  then have "streams_inv (pool_chunks start count SIZEOF_STREAM) {} (?self\<lparr>page_hdr := hdr', page_tree := t\<rparr>)"
    using l(2) pool by (simp add: streams_inv_def)
  moreover have "peak_stream_init count sz True True (Some start) hdr bytes store = Some (Return (Some (?self\<lparr>page_hdr := hdr', page_tree := t\<rparr>)))"
    using assms(1-3) ok l(1) by (simp add: peak_stream_init_def not_less)
  ultimately show ?thesis using l(3)
    by (intro exI[of _ "?self\<lparr>page_hdr := hdr', page_tree := t\<rparr>"]) (simp add: free_pages_def)
qed

section \<open>Contents\<close>

definition stream_bytes :: "peak_streams \<Rightarrow> peak_stream \<Rightarrow> u8 list" where
  "stream_bytes self s = map (\<lambda>i. page_bytes self (unat (data_buf s) + i)) [0..<unat (data_len s)]"

lemma stream_buf_offset:
  assumes "stream_ok self s off" and "stream_geometry self"
  shows "unat (data_buf s) = nat (page_no s) * unat (page_size self) + off"
proof -
  let ?p = "nat (page_no s)" and ?ps = "unat (page_size self)"
  have s: "0 \<le> page_no s" "off < ?ps" "data_buf s = STREAM_PAGE self (page_no s) + of_nat off" "Suc ?p \<le> unat (page_count self)"
    using assms(1) by (auto simp: stream_ok_def)
  have "?p * ?ps + off < Suc ?p * ?ps" using s(2) by simp
  also have "\<dots> \<le> unat (page_count self) * ?ps" using s(4) by (intro mult_right_mono) auto
  finally have small: "?p * ?ps + off < 2 ^ 64" using assms(2) by (simp add: stream_geometry_def)
  have "data_buf s = of_nat (?p * ?ps + off)"
    using s(1) by (simp add: s(3) STREAM_PAGE_def)
  then show ?thesis using unat_of_nat_small[OF small] by simp
qed

lemma stream_byte_page:
  assumes "stream_ok self s off" and "stream_geometry self" and "i < unat (data_len s)"
  shows "(unat (data_buf s) + i) div unat (page_size self) \<in> stream_pages s"
proof -
  let ?p = "nat (page_no s)" and ?ps = "unat (page_size self)" and ?c = "nat (page_cnt s)"
  have s: "off < ?ps" "off + unat (data_len s) \<le> ?c * ?ps" using assms(1) by (auto simp: stream_ok_def)
  have "(unat (data_buf s) + i) div ?ps = ?p + (off + i) div ?ps"
    using s(1) by (simp add: stream_buf_offset[OF assms(1,2)] add.assoc)
  moreover have "(off + i) div ?ps < ?c" using s assms(3) by (intro div_less_iff_less_mult[THEN iffD2]) auto
  ultimately show ?thesis by (simp add: stream_pages_def)
qed

lemma memcpy_target: "i < n \<Longrightarrow> page_memcpy f dst src n (dst + i) = f (src + i)"
  by (simp add: page_memcpy_def)

lemma memcpy_outside: "\<not> (dst \<le> a \<and> a < dst + n) \<Longrightarrow> page_memcpy f dst src n a = f a"
  by (auto simp: page_memcpy_def)

lemma inv_bytes: "streams_inv C L (self\<lparr>page_bytes := b\<rparr>) = streams_inv C L self" "stream_ok (self\<lparr>page_bytes := b\<rparr>) s off = stream_ok self s off"
  "free_pages (self\<lparr>page_bytes := b\<rparr>) = free_pages self"
  by (simp_all add: streams_inv_def stream_geometry_def tree_inv_def free_pages_def stream_ok_def STREAM_PAGE_def)

section \<open>Growing a stream\<close>

text \<open>What the client of a stream sees after it has grown: the old bytes, and room behind them; and the other
  streams as they were.\<close>

definition stream_grown :: "nat set \<Rightarrow> peak_streams \<Rightarrow> nat \<Rightarrow> u64 \<Rightarrow> nat set \<Rightarrow> peak_streams \<Rightarrow> nat \<Rightarrow> bool" where
  "stream_grown L self r sz L' self' r' \<longleftrightarrow> r' \<in> L' \<and> stream_ok self' (stream_at self' r') 0 \<and>
     data_len (stream_at self' r') = data_len (stream_at self r) + sz \<and>
     take (unat (data_len (stream_at self r))) (stream_bytes self' (stream_at self' r')) = stream_bytes self (stream_at self r) \<and>
     (\<forall>q \<in> L - {r}. q \<in> L' \<and> stream_at self' q = stream_at self q \<and>
        stream_bytes self' (stream_at self' q) = stream_bytes self (stream_at self q))"

lemma stream_bytes_take:
  assumes "unat (data_len s) \<le> unat (data_len s')"
    and "\<forall>i < unat (data_len s). page_bytes self' (unat (data_buf s') + i) = page_bytes self (unat (data_buf s) + i)"
  shows "take (unat (data_len s)) (stream_bytes self' s') = stream_bytes self s"
  using assms by (simp add: stream_bytes_def take_map)

lemma stream_relocate:
  assumes inv: "streams_inv C L self" and r: "r \<in> L" and sok: "stream_ok self (stream_at self r) 0"
    and sz: "unat sz + unat (data_len (stream_at self r)) < 2 ^ 64"
    and q: "q \<in> C - L" and inv1: "streams_inv C (insert q L) self1"
    and fresh: "fresh_stream self q (data_len (stream_at self r) + sz) n self1" and ok1: "stream_ok self1 (stream_at self1 q) 0"
  defines "self2 \<equiv> self1\<lparr>page_bytes := page_memcpy (page_bytes self1) (unat (data_buf (stream_at self1 q)))
      (unat (data_buf (stream_at self r))) (unat (data_len (stream_at self r)))\<rparr>"
  shows "\<exists>self'. peak_stream_release self2 (Some r) (data_len (stream_at self r)) = Some (Return (None, self')) \<and>
    streams_inv C (insert q L - {r}) self' \<and> stream_grown L self r sz (insert q L - {r}) self' q"
proof -
  let ?s = "stream_at self r" and ?sq = "stream_at self1 q"
  have p: "a \<noteq> q \<Longrightarrow> stream_at self1 a = stream_at self a" "data_len ?sq = data_len ?s + sz"
    "page_bytes self1 = page_bytes self" "page_count self1 = page_count self" "page_size self1 = page_size self" for a
    using fresh unfolding fresh_stream_def by auto
  have rq: "r \<noteq> q" using r q by auto
  have at2: "stream_at self2 = stream_at self1" "stream_at self2 r = ?s" using p(1)[OF rq] by (auto simp: self2_def)
  have inv2: "streams_inv C (insert q L) self2" using inv1 by (simp add: self2_def inv_bytes)
  have sok2: "stream_ok self2 (stream_at self2 r) 0"
    using sok unfolding at2(2) by (simp add: self2_def inv_bytes stream_ok_def STREAM_PAGE_def p(4,5))
  have pos: "0 < unat (data_len ?s)" using sok by (simp add: stream_ok_def)
  have "\<exists>self'. peak_stream_release self2 (Some r) (data_len ?s) = Some (Return (None, self')) \<and>
      streams_inv C (insert q L - {r}) self' \<and> (\<exists>s'. stream_at self' = (stream_at self2)(r := s')) \<and>
      page_bytes self' = page_bytes self2 \<and> page_count self' = page_count self2 \<and> page_size self' = page_size self2"
    using release_spec[OF inv2 insertI2[OF r] sok2, of "data_len ?s"] pos unfolding at2(2) if_True simp_thms by blast
  then obtain self' s' where
    rel: "peak_stream_release self2 (Some r) (data_len ?s) = Some (Return (None, self'))"
    "streams_inv C (insert q L - {r}) self'" "stream_at self' = (stream_at self2)(r := s')"
    "page_bytes self' = page_bytes self2" "page_count self' = page_count self2" "page_size self' = page_size self2"
    by blast
  have atq: "stream_at self' q = ?sq" using rel(3) rq at2 by simp
  have "unat (data_len ?sq) = unat (data_len ?s) + unat sz" 
    unfolding p(2) using unat_add_small[of "data_len ?s" sz] sz by (simp only: add.commute)
  then have len: "unat (data_len ?s) \<le> unat (data_len ?sq)" by simp
  have "stream_bytes self' x = stream_bytes self x"
    if x: "x = stream_at self a" "a \<in> L" "a \<noteq> r" for a x
  proof -
    have aq: "a \<noteq> q" using x(2) q by auto
    from streams_invD(5)[OF inv1, of a] x(2) obtain off where o: "stream_ok self1 x off" by (auto simp: x(1) p(1)[OF aq])
    have disj: "stream_pages x \<inter> stream_pages ?sq = {}"
      using streams_invD(7)[OF inv1, of a q] x(2) aq by (simp add: x(1) p(1)[OF aq])
    note geo = streams_invD(1)[OF inv1]
    have "page_bytes self' (unat (data_buf x) + i) = page_bytes self (unat (data_buf x) + i)" if i: "i < unat (data_len x)" for i
    proof -
      have "\<not> (unat (data_buf ?sq) \<le> unat (data_buf x) + i \<and> unat (data_buf x) + i < unat (data_buf ?sq) + unat (data_len ?s))"
      proof
        assume in_sq: "unat (data_buf ?sq) \<le> unat (data_buf x) + i \<and> unat (data_buf x) + i < unat (data_buf ?sq) + unat (data_len ?s)"
        then have "unat (data_buf x) + i - unat (data_buf ?sq) < unat (data_len ?sq)" using len by linarith
        from stream_byte_page[OF ok1 geo this] in_sq stream_byte_page[OF o geo i] disj show False by auto
      qed
      then show ?thesis unfolding rel(4) by (simp add: self2_def memcpy_outside p(3))
    qed
    then show ?thesis by (simp add: stream_bytes_def)
  qed
  moreover have at': "stream_at self' a = stream_at self a" if "a \<in> L" "a \<noteq> r" for a
    using rel(3) at2(1) p(1)[of a] that q by (cases "a = q") auto
  ultimately have others: "\<forall>a \<in> L - {r}. a \<in> insert q L - {r} \<and> stream_at self' a = stream_at self a \<and>
      stream_bytes self' (stream_at self' a) = stream_bytes self (stream_at self a)"
    by (simp add: at')
  have "stream_ok self' ?sq 0" using ok1 by (simp add: stream_ok_def STREAM_PAGE_def rel(5,6) self2_def)
  moreover have "take (unat (data_len ?s)) (stream_bytes self' ?sq) = stream_bytes self ?s"
    using len by (intro stream_bytes_take) (auto simp: rel(4) self2_def memcpy_target p(3))
  ultimately have "stream_grown L self r sz (insert q L - {r}) self' q"
    unfolding stream_grown_def atq by (intro conjI others) (simp_all add: rq[symmetric] p(2))
  with rel(1,2) show ?thesis by blast
qed

lemma stream_claim_spec:
  assumes inv: "streams_inv C L self" and r: "r \<in> L" and sok: "stream_ok self (stream_at self r) 0"
    and sz: "0 < unat sz" "unat sz + unat (data_len (stream_at self r)) + unat (page_size self) < 2 ^ 63"
  shows "peak_stream_claim self (Some r) sz = Some (Return (False, Some r, self)) \<or>
    (\<exists>r' L' self'. peak_stream_claim self (Some r) sz = Some (Return (True, Some r', self')) \<and>
       streams_inv C L' self' \<and> stream_grown L self r sz L' self' r')"
proof -
  let ?s = "stream_at self r"
  have len: "unat (data_len ?s + sz) = unat (data_len ?s) + unat sz" using sz(2) by (simp add: unat_word_ariths)
  from claim1_grow[OF inv r sok sz] consider
    "stream_claim1 self (Some r) sz = Some (Return (False, Some r, self))"
    | self' n where "stream_claim1 self (Some r) sz = Some (Return (True, Some r, self'))" "streams_inv C L self'"
      "stream_at self' = (stream_at self)(r := ?s\<lparr>page_cnt := page_cnt ?s + int n, data_len := data_len ?s + sz\<rparr>)"
      "page_bytes self' = page_bytes self" "stream_ok self' (stream_at self' r) 0" by blast
  then show ?thesis
  proof cases
    case 2
    have "take (unat (data_len ?s)) (stream_bytes self' (stream_at self' r)) = stream_bytes self ?s"
      using len by (intro stream_bytes_take) (simp_all add: 2(3,4))
    then have "stream_grown L self r sz L self' r"
      using r 2(5) unfolding stream_grown_def by (auto simp: 2(3,4) stream_bytes_def)
    moreover have "peak_stream_claim self (Some r) sz = Some (Return (True, Some r, self'))" using 2(1) by (simp add: peak_stream_claim_def)
    ultimately show ?thesis using 2(2) by blast
  next
    case 1
    have pre: "0 < unat (data_len ?s + sz)" "unat (data_len ?s + sz) + unat (page_size self) < 2 ^ 63" using len sz by linarith+
    let ?n = "pages_for (unat (data_len ?s + sz)) (unat (page_size self))"
    from claim1_fresh[OF inv pre] consider
      "stream_claim1 self None (data_len ?s + sz) = Some (Return (False, None, self))"
      | q self1 where "stream_claim1 self None (data_len ?s + sz) = Some (Return (True, Some q, self1))" "q \<in> C - L"
        "streams_inv C (insert q L) self1" "fresh_stream self q (data_len ?s + sz) ?n self1" by blast
    then show ?thesis
    proof cases
      case fail: 1
      with 1 show ?thesis by (simp add: peak_stream_claim_def)
    next
      case new: 2
      from new(4) obtain p where p: "stream_at self1 q = \<lparr>page_cnt = int ?n, page_no = int p, data_len = data_len ?s + sz, data_buf = STREAM_PAGE self (int p)\<rparr>"
        "stream_at self1 r = ?s" "page_size self1 = page_size self" using new(2) r unfolding fresh_stream_def by (cases "r = q") auto
      from streams_invD(5)[OF new(3), of q] obtain off where off: "stream_ok self1 (stream_at self1 q) off" by auto
      have "unat (data_buf (stream_at self1 q)) = p * unat (page_size self) + off"
        using stream_buf_offset[OF off streams_invD(1)[OF new(3)]] by (simp add: p(1,3))
      moreover have "STREAM_PAGE self (int p) = STREAM_PAGE self1 (int p)" by (simp add: STREAM_PAGE_def p(3))
      ultimately have "of_nat off = (0 :: u64)" "off < unat (page_size self)" using off by (simp_all add: stream_ok_def p(1,3))
      moreover have "unat (page_size self) < 2 ^ 64" by (rule order_less_le_trans[OF unsigned_less]) simp
      ultimately have "off = 0" using unat_of_nat_small[of off] by simp
      with off have ok1: "stream_ok self1 (stream_at self1 q) 0" by simp
      have small: "unat sz + unat (data_len ?s) < 2 ^ 64" using sz(2) by simp
      from stream_relocate[OF inv r sok small new(2-4) ok1] obtain self' where
        "peak_stream_release (self1\<lparr>page_bytes := page_memcpy (page_bytes self1) (unat (data_buf (stream_at self1 q)))
          (unat (data_buf ?s)) (unat (data_len ?s))\<rparr>) (Some r) (data_len ?s) = Some (Return (None, self'))"
        "streams_inv C (insert q L - {r}) self'" "stream_grown L self r sz (insert q L - {r}) self' q" by blast
      moreover from this 1 new(1) have "peak_stream_claim self (Some r) sz = Some (Return (True, Some q, self'))"
        by (simp add: peak_stream_claim_def p(2) Let_def)
      ultimately show ?thesis by blast
    qed
  qed
qed

section \<open>Properties\<close>

text \<open>C10. Growing a stream whose data start at the beginning of a page never panics and never touches a \<open>NULL\<close>
  page: either it fails, which returns zero, and nothing has changed, or the reference returned (a new one when the stream
  had to move) describes a buffer inside its own pages with \<open>sz\<close> more bytes, the old contents at its
  front, and all other streams and their contents as they were. (\<open>peak_stream.3\<close> says that a failed relocation returns non-zero.)\<close>

theorem stream_claim_grows:
  assumes "streams_inv C L self" and "r \<in> L" and "stream_ok self (stream_at self r) 0"
    and "0 < unat sz" "unat sz + unat (data_len (stream_at self r)) + unat (page_size self) < 2 ^ 63"
  shows "peak_stream_claim self (Some r) sz = Some (Return (False, Some r, self)) \<or>
    (\<exists>r' L' self'. peak_stream_claim self (Some r) sz = Some (Return (True, Some r', self')) \<and>
       streams_inv C L' self' \<and> stream_grown L self r sz L' self' r')"
  by (rule stream_claim_spec[OF assms])

lemma claim_fresh_eq: "stream_claim1 self None sz = Some (Return (b, r, self')) \<Longrightarrow> b \<or> r = None \<Longrightarrow>
    peak_stream_claim self None sz = Some (Return (b, r, self'))"
  by (auto simp: peak_stream_claim_def split: option.split)

text \<open>A pool of \<open>count\<close> pages of 64 bytes from which one stream was claimed.\<close>

lemma sample_stream:
  assumes "0 < unat sz" "unat sz \<le> 128"
  shows "\<exists>C self0 r self. peak_stream_init 2 64 True True (Some 4096) (\<lambda>_. STREAM_SETUP 0) (\<lambda>_. 0) (\<lambda>_. stream_zero) = Some (Return (Some self0)) \<and>
    peak_stream_claim self0 None sz = Some (Return (True, Some r, self)) \<and> streams_inv C {r} self \<and>
    stream_ok self (stream_at self r) 0 \<and> data_len (stream_at self r) = sz \<and> page_size self = 64 \<and>
    page_cnt (stream_at self r) = int (pages_for (unat sz) 64)"
proof -
  from stream_init_spec[of 2 64 4096 "\<lambda>_. STREAM_SETUP 0" "\<lambda>_. 0" "\<lambda>_. stream_zero"] obtain self0 where
    s0: "peak_stream_init 2 64 True True (Some 4096) (\<lambda>_. STREAM_SETUP 0) (\<lambda>_. 0) (\<lambda>_. stream_zero) = Some (Return (Some self0))"
    "streams_inv (pool_chunks 4096 2 SIZEOF_STREAM) {} self0" "set (free_pages self0) = {..<2}" "page_size self0 = 64" by auto
  let ?n = "pages_for (unat sz) 64"
  have "(unat sz + 64 - 1) div 64 \<le> 191 div 64" using assms by (intro div_le_mono) simp
  then have "?n \<le> 2" by (simp add: pages_for_def)
  then have "{0..<0 + ?n} \<subseteq> set (free_pages self0)" unfolding s0(3) add_0 atLeast0LessThan lessThan_subset_iff .
  then have run: "\<exists>p. {p..<p + ?n} \<subseteq> set (free_pages self0)" by blast
  have "unat sz + unat (page_size self0) < 2 ^ 63" using assms(2) s0(4) by simp
  note fresh = claim1_fresh[OF s0(2) assms(1) this]
  have ps: "unat (page_size self0) = 64" using s0(4) by simp
  from fresh run obtain r self where
    s: "stream_claim1 self0 None sz = Some (Return (True, Some r, self))" "streams_inv (pool_chunks 4096 2 SIZEOF_STREAM) {r} self"
    "fresh_stream self0 r sz ?n self" unfolding ps by blast
  from s(3) obtain p where p: "stream_at self r = \<lparr>page_cnt = int ?n, page_no = int p, data_len = sz, data_buf = STREAM_PAGE self0 (int p)\<rparr>"
    "page_size self = page_size self0" by (auto simp: fresh_stream_def)
  from streams_invD(5)[OF s(2), of r] obtain off where off: "stream_ok self (stream_at self r) off" by auto
  then have "of_nat off = (0 :: u64)" "off < 64" by (simp_all add: stream_ok_def p STREAM_PAGE_def s0(4))
  then have "off = 0" using unat_of_nat_small[of off] by simp
  with off p s s0 claim_fresh_eq[OF s(1)] show ?thesis by fastforce
qed

theorem stream_claim_grows_witness:
  "\<exists>C self r. streams_inv C {r} self \<and>
    (peak_stream_claim self (Some r) 10 = Some (Return (False, Some r, self)) \<or>
     (\<exists>r' L' self'. peak_stream_claim self (Some r) 10 = Some (Return (True, Some r', self')) \<and>
       streams_inv C L' self' \<and> stream_grown {r} self r 10 L' self' r'))"
proof -
  from sample_stream[of 60] obtain C r self where s: "streams_inv C {r} self" "stream_ok self (stream_at self r) 0"
    "data_len (stream_at self r) = 60" "page_size self = 64" by auto
  with stream_claim_grows[of C "{r}" self r 10] show ?thesis by fastforce
qed

text \<open>C16. A fresh claim succeeds exactly when there is a run of enough consecutive free pages, which is then
  taken from the free ones; otherwise nothing changes. It never panics, in particular the pool of
  references cannot be exhausted.\<close>

theorem stream_claim_first_fit:
  assumes "streams_inv C L self" and "0 < unat sz" "unat sz + unat (page_size self) < 2 ^ 63"
  defines "n \<equiv> pages_for (unat sz) (unat (page_size self))"
  shows "\<exists>ret r self'. peak_stream_claim self None sz = Some (Return (ret, r, self')) \<and>
    (ret \<longleftrightarrow> (\<exists>p. {p..<p + n} \<subseteq> set (free_pages self))) \<and>
    (case r of
       None \<Rightarrow> \<not> ret \<and> self' = self
     | Some r \<Rightarrow> ret \<and> r \<in> C - L \<and> streams_inv C (insert r L) self' \<and> fresh_stream self r sz n self')"
  using claim1_fresh[OF assms(1-3), folded n_def]
proof (elim disjE conjE exE)
  assume "stream_claim1 self None sz = Some (Return (False, None, self))" "\<not> (\<exists>p. {p..<p + n} \<subseteq> set (free_pages self))"
  with claim_fresh_eq show ?thesis by fastforce
next
  fix r self' assume c: "stream_claim1 self None sz = Some (Return (True, Some r, self'))" "r \<in> C - L" "streams_inv C (insert r L) self'"
    "fresh_stream self r sz n self'"
  from c(4) have "\<exists>p. {p..<p + n} \<subseteq> set (free_pages self)" by (auto simp: fresh_stream_def)
  with c claim_fresh_eq[OF c(1)] show ?thesis by (intro exI[of _ True] exI[of _ "Some r"] exI[of _ self']) simp
qed

theorem stream_claim_first_fit_witness:
  "\<exists>self0 ret r self'. peak_stream_init 2 64 True True (Some 4096) (\<lambda>_. STREAM_SETUP 0) (\<lambda>_. 0) (\<lambda>_. stream_zero) = Some (Return (Some self0)) \<and>
    peak_stream_claim self0 None 200 = Some (Return (ret, r, self')) \<and> \<not> ret"
proof -
  from stream_init_spec[of 2 64 4096 "\<lambda>_. STREAM_SETUP 0" "\<lambda>_. 0" "\<lambda>_. stream_zero"] obtain self0 where
    s0: "peak_stream_init 2 64 True True (Some 4096) (\<lambda>_. STREAM_SETUP 0) (\<lambda>_. 0) (\<lambda>_. stream_zero) = Some (Return (Some self0))"
    "streams_inv (pool_chunks 4096 2 SIZEOF_STREAM) {} self0" "set (free_pages self0) = {..<2}" "page_size self0 = 64" by auto
  have "\<not> (\<exists>p. {p..<p + pages_for 200 64} \<subseteq> {..<2})"
  proof
    assume "\<exists>p. {p..<p + pages_for 200 64} \<subseteq> {..<2}"
    then obtain p where "{p..<p + 4} \<subseteq> {..<2 :: nat}" by (auto simp: pages_for_def)
    then have "p + 3 \<in> {..<2 :: nat}" by (auto simp: subset_eq)
    then show False by simp
  qed
  with stream_claim_first_fit[OF s0(2), of 200] s0 show ?thesis by auto
qed

lemma release_bytes:
  assumes inv: "streams_inv C L self" and sok: "stream_ok self s off" and sz: "unat sz \<le> unat (data_len s)"
    and s': "data_len s' = data_len s - sz" "data_buf s' = data_buf s + sz" "page_bytes self' = page_bytes self"
  shows "stream_bytes self' s' = drop (unat sz) (stream_bytes self s)"
proof (cases "sz = data_len s")
  case False
  note geo = streams_invD(1)[OF inv]
  have len: "unat (data_len s') = unat (data_len s) - unat sz" unfolding s' using sz by (simp add: unat_sub word_le_nat_alt)
  have "unat sz < unat (data_len s)" using False sz unat_eqD[of sz "data_len s"] by linarith
  have "nat (page_no s) * unat (page_size self) + nat (page_cnt s) * unat (page_size self) \<le> unat (page_count self) * unat (page_size self)"
    using sok unfolding add_mult_distrib[symmetric] by (intro mult_right_mono) (auto simp: stream_ok_def)
  then have "unat (data_buf s) + unat sz < 2 ^ 64"
    using stream_buf_offset[OF sok geo] sok geo sz by (simp add: stream_ok_def stream_geometry_def)
  then have "unat (data_buf s') = unat (data_buf s) + unat sz" unfolding s' by (rule unat_add_small)
  with len sz show ?thesis by (simp add: stream_bytes_def s'(3) drop_map list_eq_iff_nth_eq add.assoc)
qed (simp add: stream_bytes_def s')

text \<open>C17. Releasing \<open>sz\<close> bytes takes them from the front of the stream and returns exactly the pages that
  are passed to the free ones; the rest of the contents stays in place, the other streams and their contents
  stay as they were, and with the last byte the reference is given back.\<close>

theorem stream_release_consumes:
  assumes "streams_inv C L self" and "r \<in> L" and "stream_ok self (stream_at self r) off"
    and "0 < unat sz" "unat sz \<le> unat (data_len (stream_at self r))"
  defines "s \<equiv> stream_at self r" and "k \<equiv> (off + unat sz) div unat (page_size self)"
  shows "\<exists>self'. peak_stream_release self (Some r) sz = Some (Return (if sz = data_len s then None else Some r, self')) \<and>
    streams_inv C (if sz = data_len s then L - {r} else L) self' \<and>
    set (free_pages self') = set (free_pages self) \<union> {nat (page_no s)..<nat (page_no s) + k} \<and>
    stream_bytes self' (stream_at self' r) = drop (unat sz) (stream_bytes self s) \<and>
    (\<forall>q \<in> L - {r}. stream_at self' q = stream_at self q \<and>
       stream_bytes self' (stream_at self' q) = stream_bytes self (stream_at self q))"
proof -
  from release_spec[OF assms(1-5)] obtain self' s' where
    "peak_stream_release self (Some r) sz = Some (Return (if sz = data_len s then None else Some r, self'))"
    "streams_inv C (if sz = data_len s then L - {r} else L) self'"
    "set (free_pages self') = set (free_pages self) \<union> {nat (page_no s)..<nat (page_no s) + k}"
    "stream_at self' = (stream_at self)(r := s')" "data_len s' = data_len s - sz" "data_buf s' = data_buf s + sz"
    "page_bytes self' = page_bytes self"
    unfolding s_def[symmetric] k_def[symmetric] by blast
  note rel = this
  have "stream_bytes self' s' = drop (unat sz) (stream_bytes self s)"
    using release_bytes[OF assms(1,3,5)] rel(5-7) by (simp add: s_def)
  with rel show ?thesis by (intro exI[of _ self']) (simp add: stream_bytes_def)
qed

theorem stream_release_consumes_witness:
  "\<exists>C r self self'. streams_inv C {r} self \<and> peak_stream_release self (Some r) 70 = Some (Return (Some r, self')) \<and>
    length (stream_bytes self (stream_at self r)) = 100 \<and> length (stream_bytes self' (stream_at self' r)) = 30"
proof -
  from sample_stream[of 100] obtain C r self where s: "streams_inv C {r} self" "stream_ok self (stream_at self r) 0"
    "data_len (stream_at self r) = 100" by auto
  have "length (stream_bytes self (stream_at self r)) = 100" by (simp add: stream_bytes_def s(3))
  with stream_release_consumes[OF s(1) singletonI s(2), of 70] s show ?thesis by force
qed

text \<open>C37. A stream released as a whole whose data do not end with a page leaks that page: it is neither free
  nor part of a stream afterwards.\<close>

theorem stream_release_leaks:
  assumes "streams_inv C L self" and "r \<in> L" and "stream_ok self (stream_at self r) off"
    and "(off + unat (data_len (stream_at self r))) mod unat (page_size self) \<noteq> 0"
  shows "\<exists>self' p. peak_stream_release self (Some r) (data_len (stream_at self r)) = Some (Return (None, self')) \<and>
    streams_inv C (L - {r}) self' \<and> p \<in> stream_pages (stream_at self r) \<and> p \<notin> set (free_pages self') \<and>
    (\<forall>q \<in> L - {r}. p \<notin> stream_pages (stream_at self' q))"
proof -
  let ?s = "stream_at self r" and ?ps = "unat (page_size self)"
  let ?k = "(off + unat (data_len ?s)) div ?ps" and ?a = "nat (page_no ?s)" and ?c = "nat (page_cnt ?s)"
  have pos: "0 < unat (data_len ?s)" using assms(3) by (simp add: stream_ok_def)
  from release_spec[OF assms(1-3) pos order_refl] obtain self' s' where
    rel: "peak_stream_release self (Some r) (data_len ?s) = Some (Return (None, self'))"
    "streams_inv C (L - {r}) self'" "set (free_pages self') = set (free_pages self) \<union> {?a..<?a + ?k}"
    "stream_at self' = (stream_at self)(r := s')" by auto
  have "off + unat (data_len ?s) \<noteq> ?c * ?ps" using assms(4) by (metis mod_mult_self2_is_0)
  then have "off + unat (data_len ?s) < ?c * ?ps" using assms(3) by (simp add: stream_ok_def)
  then have k: "?k < ?c" by (simp add: less_mult_imp_div_less)
  then have p: "?a + ?k \<in> stream_pages ?s" by (simp add: stream_pages_def)
  then have "?a + ?k \<notin> set (free_pages self')" using streams_invD(6)[OF assms(1,2)] rel(3) by auto
  moreover have "?a + ?k \<notin> stream_pages (stream_at self' q)" if "q \<in> L - {r}" for q
    using streams_invD(7)[OF assms(1,2), of q] that p rel(4) by auto
  ultimately show ?thesis using rel(1,2) p by blast
qed

theorem stream_release_leaks_witness:
  "\<exists>self0 r self self' p. peak_stream_init 2 64 True True (Some 4096) (\<lambda>_. STREAM_SETUP 0) (\<lambda>_. 0) (\<lambda>_. stream_zero) = Some (Return (Some self0)) \<and>
    peak_stream_claim self0 None 100 = Some (Return (True, Some r, self)) \<and>
    peak_stream_release self (Some r) 100 = Some (Return (None, self')) \<and>
    p \<in> stream_pages (stream_at self r) \<and> p \<notin> set (free_pages self')"
proof -
  from sample_stream[of 100] obtain C self0 r self where s:
    "peak_stream_init 2 64 True True (Some 4096) (\<lambda>_. STREAM_SETUP 0) (\<lambda>_. 0) (\<lambda>_. stream_zero) = Some (Return (Some self0))"
    "peak_stream_claim self0 None 100 = Some (Return (True, Some r, self))" "streams_inv C {r} self"
    "stream_ok self (stream_at self r) 0" "data_len (stream_at self r) = 100" "page_size self = 64" by auto
  with stream_release_leaks[OF s(3) singletonI s(4)] show ?thesis by fastforce
qed

lemma word_unat_eq_cnt: "unat (w :: u64) = nat c \<Longrightarrow> 0 < c \<Longrightarrow> of_int c = w"
proof -
  assume w: "unat w = nat c" "0 < c"
  then have "c = int (unat w)" by simp
  then show "of_int c = w" by simp
qed

text \<open>After a partial release the buffer starts inside its first page, which growing the stream does not
  take into account: when the data still fit the number of pages but not behind that offset, the claim
  succeeds and hands out a buffer that ends behind the last page of the stream.\<close>

lemma stream_claim_overruns:
  assumes "streams_inv C L self" and "r \<in> L" and "stream_ok self (stream_at self r) off" and "0 < unat sz"
    and "unat sz + unat (data_len (stream_at self r)) \<le> nat (page_cnt (stream_at self r)) * unat (page_size self)"
    and "nat (page_cnt (stream_at self r)) * unat (page_size self) < off + unat (data_len (stream_at self r)) + unat sz"
    and "pages_for (unat sz + unat (data_len (stream_at self r))) (unat (page_size self)) = nat (page_cnt (stream_at self r))"
  shows "\<exists>self' s'. peak_stream_claim self (Some r) sz = Some (Return (True, Some r, self')) \<and> s' = stream_at self' r \<and>
    data_len s' = data_len (stream_at self r) + sz \<and> stream_pages s' = stream_pages (stream_at self r) \<and>
    (unat (data_buf s') + unat (data_len s') - 1) div unat (page_size self) \<notin> stream_pages s'"
proof -
  let ?s = "stream_at self r" and ?ps = "unat (page_size self)"
  let ?a = "nat (page_no ?s)" and ?c = "nat (page_cnt ?s)"
  note geo = streams_invD(1)[OF assms(1)]
  have S: "0 < page_cnt ?s" "?a + ?c \<le> unat (page_count self)" "off < ?ps" using assms(3) by (auto simp: stream_ok_def)
  then have ps: "0 < ?ps" by simp
  have pow: "(2 :: nat) ^ 62 + 2 ^ 62 = 2 ^ 63" "(2 :: nat) ^ 62 \<le> 2 ^ 64" by simp_all
  have "?c * ?ps \<le> unat (page_count self) * ?ps" using S(2) by (intro mult_right_mono) auto
  moreover have "1 * ?ps \<le> unat (page_count self) * ?ps" using S(1,2) by (intro mult_right_mono) auto
  moreover have "unat (page_count self) * ?ps < 2 ^ 62" using geo by (simp add: stream_geometry_def)
  ultimately have small: "unat sz + unat (data_len ?s) + ?ps < 2 ^ 63" "unat sz + unat (data_len ?s) < 2 ^ 64"
    using assms(5) pow unfolding mult_1 by linarith+
  have len: "unat (sz + data_len ?s) = unat sz + unat (data_len ?s)" using unat_add_small small(2) by blast
  have "unat (ALLOC_ALIGN (sz + data_len ?s) (page_size self) div page_size self) = ?c"
    using alloc_align_pages[of "sz + data_len ?s" "page_size self"] ps small(1) assms(4,7) by (simp add: len)
  then have "ALLOC_ALIGN (sz + data_len ?s) (page_size self) div page_size self - of_int (page_cnt ?s) = 0"
    using S(1) by (simp add: word_unat_eq_cnt)
  moreover have "sz \<noteq> 0" using assms(4) by auto
  ultimately have c: "peak_stream_claim self (Some r) sz = Some (Return (True, Some r,
      self\<lparr>stream_at := (stream_at self)(r := ?s\<lparr>data_len := data_len ?s + sz\<rparr>)\<rparr>))"
    by (simp add: peak_stream_claim_def stream_claim1_def Let_def)
  have "unat (data_buf ?s) + unat (data_len ?s + sz) - 1 = ?a * ?ps + (off + unat (data_len ?s) + unat sz - 1)"
    using stream_buf_offset[OF assms(3) geo] len assms(4) by (simp add: add.commute)
  moreover have "?c \<le> (off + unat (data_len ?s) + unat sz - 1) div ?ps"
    using assms(6) ps by (simp add: less_eq_div_iff_mult_less_eq)
  ultimately have "(unat (data_buf ?s) + unat (data_len ?s + sz) - 1) div ?ps \<notin> stream_pages ?s"
    using ps by (simp add: stream_pages_def)
  with c show ?thesis by (simp add: stream_pages_def)
qed

lemma stream_claim_overruns_witness:
  "\<exists>C r self self'. streams_inv C {r} self \<and> peak_stream_claim self (Some r) 60 = Some (Return (True, Some r, self')) \<and>
    data_len (stream_at self' r) = 64 \<and>
    (unat (data_buf (stream_at self' r)) + 63) div 64 \<notin> stream_pages (stream_at self' r)"
proof -
  from sample_stream[of 64] obtain C r self where s: "streams_inv C {r} self" "stream_ok self (stream_at self r) 0"
    "data_len (stream_at self r) = 64" "page_size self = 64" by auto
  from release_spec[OF s(1) singletonI s(2), of 60] s(3,4) obtain self1 where
    t: "streams_inv C {r} self1" "stream_ok self1 (stream_at self1 r) 60" "data_len (stream_at self1 r) = 4" "page_size self1 = 64"
    by auto
  have cnt: "page_cnt (stream_at self1 r) = 1" using t(2-4) by (auto simp: stream_ok_def)
  from stream_claim_overruns[OF t(1) singletonI t(2), of 60] obtain self' where
    "peak_stream_claim self1 (Some r) 60 = Some (Return (True, Some r, self'))" "data_len (stream_at self' r) = 64"
    "(unat (data_buf (stream_at self' r)) + 63) div 64 \<notin> stream_pages (stream_at self' r)"
    by (auto simp: cnt t(3,4) pages_for_def add.commute[of 63])
  with t(1) show ?thesis by blast
qed

end
