(* ===== verification/Peak_Number.thy ===== *)
theory Peak_Number
  imports Peak_Stash
begin

text \<open>
  The number matcher of \<open>src/lib/peak_number.c\<close> with \<open>strlcpy\<close> of \<open>src/contrib/libcompat/strlcpy.c\<close>, by which it
  copies its inputs: two lists of comparisons, one for the number a text stands for and one for its length.

  A text argument is the object its pointer points to, \<open>None\<close> for \<open>NULL\<close>; reading behind the object is \<open>None\<close>.
  The linked lists are lists, the newest comparison first; whether \<open>malloc\<close> grants memory is a parameter.
  \<open>strtoll(3)\<close> is modelled for base 10: value, end of the number and whether it is out of range.
\<close>

section \<open>C library\<close>

fun copy_loop :: "mem \<Rightarrow> nat \<Rightarrow> nat \<Rightarrow> mem \<Rightarrow> (mem \<times> nat \<times> nat) option" where
  "copy_loop src s 0 d = Some (d, s, 0)"
| "copy_loop src s (Suc n) d =
     (case load8 src s of
        None \<Rightarrow> None
      | Some c \<Rightarrow> if c = 0 then Some (d @ [c], s + 1, Suc n) else copy_loop src (s + 1) n (d @ [c]))"

function scan_nul :: "mem \<Rightarrow> nat \<Rightarrow> nat option" where
  "scan_nul src s =
     (case load8 src s of None \<Rightarrow> None | Some c \<Rightarrow> if c \<noteq> 0 then scan_nul src (s + 1) else Some (s + 1))"
  by pat_completeness auto
termination by (relation "measure (\<lambda>(src, s). length src - s)") (auto simp: load8_def split: if_splits)

declare scan_nul.simps [simp del]

text \<open>The bytes written to the destination, and the return value.\<close>

definition compat_strlcpy :: "mem option \<Rightarrow> u64 \<Rightarrow> (mem \<times> nat) option" where
  "compat_strlcpy src siz = do {
     src \<leftarrow> src;
     (d, s, n) \<leftarrow> (if siz \<noteq> 0 then copy_loop src 0 (unat (siz - 1)) [] else Some ([], 0, 0));
     if n = 0 then do {
       let d = (if siz \<noteq> 0 then d @ [0] else d);
       s \<leftarrow> scan_nul src s;
       Some (d, s - 1) }
     else Some (d, s - 1) }"

definition c_isspace :: "u8 \<Rightarrow> bool" where
  "c_isspace c \<longleftrightarrow> c = 32 \<or> 9 \<le> c \<and> c \<le> 13"

definition c_isdigit :: "u8 \<Rightarrow> bool" where
  "c_isdigit c \<longleftrightarrow> 48 \<le> c \<and> c \<le> 57"

abbreviation (input) "LLONG_MAX \<equiv> 0x7FFFFFFFFFFFFFFF :: int"
abbreviation (input) "LLONG_MIN \<equiv> - 0x8000000000000000 :: int"

definition digits_value :: "u8 list \<Rightarrow> int" where
  "digits_value ds = foldl (\<lambda>a d. 10 * a + (uint d - 48)) 0 ds"

definition strtoll :: "mem \<Rightarrow> (int \<times> nat \<times> bool) option" where
  "strtoll buf =
     (if 0 \<notin> set buf then None
      else
        let s = takeWhile (\<lambda>c. c \<noteq> 0) buf;
            t = dropWhile c_isspace s;
            signed = (t \<noteq> [] \<and> (hd t = 43 \<or> hd t = 45));
            ds = takeWhile c_isdigit (if signed then tl t else t);
            v = (if signed \<and> hd t = 45 then - digits_value ds else digits_value ds)
        in if ds = [] then Some (0, 0, False)
           else
             let n = length s - length t + (if signed then 1 else 0) + length ds
             in if LLONG_MAX < v then Some (LLONG_MAX, n, True)
                else if v < LLONG_MIN then Some (LLONG_MIN, n, True)
                else Some (v, n, False))"

section \<open>Data\<close>

abbreviation (input) "NUMBER_EQ \<equiv> 0 :: u32"
abbreviation (input) "NUMBER_NE \<equiv> 1 :: u32"
abbreviation (input) "NUMBER_GT \<equiv> 2 :: u32"
abbreviation (input) "NUMBER_LT \<equiv> 3 :: u32"
abbreviation (input) "NUMBER_LE \<equiv> 4 :: u32"
abbreviation (input) "NUMBER_GE \<equiv> 5 :: u32"
abbreviation (input) "NUMBER_MAX \<equiv> 6 :: u32"
abbreviation (input) "NUMBER_STRING \<equiv> 0x0000 :: u32"
abbreviation (input) "NUMBER_LENGTH \<equiv> 0x0100 :: u32"
abbreviation (input) "NUMBER_TYPE_MASK \<equiv> 0xFF00 :: u32"
abbreviation (input) "NUMBER_OP_MASK \<equiv> 0x00FF :: u32"

record peak_number =
  num_operator :: u32
  num_result :: u32
  num_number :: int

record peak_numbers =
  num_string :: "peak_number list"
  num_length :: "peak_number list"

section \<open>Operations\<close>

text \<open>\<open>Some None\<close> is the return value 1, the conversion error.\<close>

definition peak_number_get :: "mem \<Rightarrow> int option option" where
  "peak_number_get buf = do {
     (lval, ep, erange) \<leftarrow> strtoll buf;
     c \<leftarrow> load8 buf 0;
     if c = 0 \<or> ep = 0 then Some None
     else if erange \<and> (lval = LLONG_MAX \<or> lval = LLONG_MIN) then Some None
     else Some (Some lval) }"

fun peak_number_match :: "peak_number list \<Rightarrow> int \<Rightarrow> u32 stash \<Rightarrow> u32 stash option" where
  "peak_number_match [] number stash = Some stash"
| "peak_number_match (node # nodes) number stash = do {
     let ret =
       (if num_operator node = NUMBER_GT then number > num_number node
        else if num_operator node = NUMBER_LT then number < num_number node
        else if num_operator node = NUMBER_EQ then number = num_number node
        else if num_operator node = NUMBER_NE then number \<noteq> num_number node
        else if num_operator node = NUMBER_LE then number \<le> num_number node
        else if num_operator node = NUMBER_GE then number \<ge> num_number node
        else False);
     stash \<leftarrow> (if ret then stash_push_result (num_result node) stash else Some stash);
     peak_number_match nodes number stash }"

definition peak_number_find :: "peak_numbers \<Rightarrow> mem option \<Rightarrow> u64 \<Rightarrow> u32 stash \<Rightarrow> u32 stash option" where
  "peak_number_find self buf len stash = do {
     stash \<leftarrow> peak_number_match (num_length self) (sint len) stash;
     if len = 0 then Some stash
     else do {
       (buf, _) \<leftarrow> compat_strlcpy buf (len + 1);
       number \<leftarrow> peak_number_get buf;
       case number of
         None \<Rightarrow> Some stash
       | Some number \<Rightarrow> peak_number_match (num_string self) number stash } }"

fun number_lookup :: "peak_number list \<Rightarrow> int \<Rightarrow> u32 \<Rightarrow> u32 option" where
  "number_lookup [] number op = None"
| "number_lookup (temp # nodes) number op =
     (if num_number temp = number \<and> num_operator temp = op then Some (num_result temp) else number_lookup nodes number op)"

definition number_insert :: "bool \<Rightarrow> u32 \<Rightarrow> int \<Rightarrow> u32 \<Rightarrow> peak_number list \<Rightarrow> u32 \<times> peak_number list" where
  "number_insert malloc result number op root =
     (case number_lookup root number op of
        Some r \<Rightarrow> (r, root)
      | None \<Rightarrow>
          if \<not> malloc then (0, root)
          else (result, \<lparr>num_operator = op, num_result = result, num_number = number\<rparr> # root))"

definition peak_number_add ::
  "peak_numbers \<Rightarrow> u32 \<Rightarrow> mem option \<Rightarrow> u64 \<Rightarrow> u32 \<Rightarrow> bool \<Rightarrow> (u32 \<times> peak_numbers) option" where
  "peak_number_add self result buf len flags malloc =
     (let type = flags AND NUMBER_TYPE_MASK;
          op = flags AND NUMBER_OP_MASK
      in
        if buf = None \<or> len = 0 then Some (0, self)
        else if op \<ge> NUMBER_MAX then Some (0, self)
        else do {
          (buf, _) \<leftarrow> compat_strlcpy buf (len + 1);
          number \<leftarrow> peak_number_get buf;
          case number of
            None \<Rightarrow> Some (0, self)
          | Some number \<Rightarrow>
              if type = NUMBER_LENGTH then
                (let (r, root) = number_insert malloc result number op (num_length self)
                 in Some (r, self\<lparr>num_length := root\<rparr>))
              else
                (let (r, root) = number_insert malloc result number op (num_string self)
                 in Some (r, self\<lparr>num_string := root\<rparr>)) })"

definition peak_number_parse :: "mem option \<Rightarrow> u64 \<Rightarrow> string option option" where
  "peak_number_parse buf len = do {
     let ret = (if buf = None \<or> len = 0 then Some ''need a number'' else None);
     (buf, _) \<leftarrow> compat_strlcpy buf (len + 1);
     number \<leftarrow> peak_number_get buf;
     Some (case number of None \<Rightarrow> Some ''number conversion failed'' | Some _ \<Rightarrow> ret) }"

definition peak_number_init :: "bool \<Rightarrow> peak_numbers option" where
  "peak_number_init calloc = (if calloc then Some \<lparr>num_string = [], num_length = []\<rparr> else None)"

text \<open>The number of nodes that \<open>peak_number_exit\<close> releases, besides the object itself.\<close>

fun exit_nodes :: "peak_number list \<Rightarrow> nat" where
  "exit_nodes [] = 0"
| "exit_nodes (temp # node) = Suc (exit_nodes node)"

definition peak_number_exit :: "peak_numbers option \<Rightarrow> nat" where
  "peak_number_exit self = (case self of None \<Rightarrow> 0 | Some self \<Rightarrow> exit_nodes (num_string self) + exit_nodes (num_length self) + 1)"

section \<open>Copying a text\<close>

lemma scan_nul_spec: "scan_nul src s = (if 0 \<in> set (drop s src) then Some (s + Suc (length (takeWhile (\<lambda>c. c \<noteq> 0) (drop s src)))) else None)"
proof (induction src s rule: scan_nul.induct)
  case (1 src s)
  show ?case
  proof (cases "s < length src")
    case True
    then have d: "drop s src = src ! s # drop (Suc s) src" by (simp add: Cons_nth_drop_Suc)
    with True 1 show ?thesis by (subst scan_nul.simps) (auto simp: load8_def)
  qed (subst scan_nul.simps, simp add: load8_def)
qed

lemma copy_loop_spec:
  assumes "s + n \<le> length src"
  shows "copy_loop src s n d = Some (let t = takeWhile (\<lambda>c. c \<noteq> 0) (take n (drop s src)) in
    if length t < n then (d @ t @ [0], s + length t + 1, n - length t) else (d @ t, s + n, 0))"
  using assms
proof (induction n arbitrary: s d)
  case (Suc n)
  then have d: "drop s src = src ! s # drop (Suc s) src" by (simp add: Cons_nth_drop_Suc)
  have "length (takeWhile (\<lambda>c. c \<noteq> 0) (take n (drop (Suc s) src))) \<le> n"
    by (metis length_take length_takeWhile_le min.bounded_iff order_trans min.cobounded2)
  with Suc d show ?case by (auto simp: load8_def Let_def)
qed simp

text \<open>A terminated object is copied up to its terminator or its length; without one, the scan for the return value
  leaves the object.\<close>

lemma strlcpy_spec:
  assumes "unat len \<le> length m" "len \<noteq> - 1"
  defines "t \<equiv> takeWhile (\<lambda>c. c \<noteq> 0) (take (unat len) m)"
  shows "map_option fst (compat_strlcpy (Some m) (len + 1)) = (if 0 \<in> set m then Some (t @ [0]) else None)"
proof -
  let ?n = "unat len"
  have siz: "len + 1 \<noteq> 0" "unat (len + 1 - 1) = ?n" using assms(2) eq_neg_iff_add_eq_0[of len 1] by auto
  have le: "length t \<le> ?n" unfolding t_def by (metis length_take length_takeWhile_le min.bounded_iff)
  show ?thesis
  proof (cases "length t < ?n")
    case True
    then have "0 \<in> set (take ?n m)" using assms(1) takeWhile_eq_all_conv[of "\<lambda>c. c \<noteq> 0" "take ?n m"] by (fastforce simp: t_def)
    then have "0 \<in> set m" by (meson in_set_takeD)
    with True siz copy_loop_spec[of 0 ?n m "[]"] assms(1) show ?thesis
      by (simp add: compat_strlcpy_def t_def[symmetric] Let_def)
  next
    case False
    then have eq: "length t = ?n" using le by simp
    then have "t = take ?n m" unfolding t_def using assms(1) by (metis length_take min.absorb2 takeWhile_eq_take take_all_iff order_refl)
    then have "0 \<notin> set (take ?n m)" using set_takeWhileD[of 0 "\<lambda>c. c \<noteq> 0" "take ?n m"] by (auto simp: t_def)
    then have "0 \<in> set m \<longleftrightarrow> 0 \<in> set (drop ?n m)" by (metis append_take_drop_id set_append Un_iff)
    with eq siz copy_loop_spec[of 0 ?n m "[]"] assms(1) show ?thesis
      by (simp add: compat_strlcpy_def t_def[symmetric] Let_def scan_nul_spec)
  qed
qed

section \<open>What a text and a comparison mean\<close>

text \<open>The number at the front of a text: white space, a sign, digits, and nothing if there is no digit or the value does
  not fit 64 bits.\<close>

definition text_number :: "u8 list \<Rightarrow> int option" where
  "text_number s =
     (let t = dropWhile c_isspace s;
          neg = (t \<noteq> [] \<and> hd t = 45);
          ds = takeWhile c_isdigit (if t \<noteq> [] \<and> hd t \<in> {43, 45} then tl t else t);
          v = (if neg then - digits_value ds else digits_value ds)
      in if ds = [] \<or> v < LLONG_MIN \<or> LLONG_MAX < v then None else Some v)"

definition number_holds :: "u32 \<Rightarrow> int \<Rightarrow> int \<Rightarrow> bool" where
  "number_holds op x y \<longleftrightarrow> op = NUMBER_EQ \<and> x = y \<or> op = NUMBER_NE \<and> x \<noteq> y \<or> op = NUMBER_GT \<and> x > y \<or>
     op = NUMBER_LT \<and> x < y \<or> op = NUMBER_LE \<and> x \<le> y \<or> op = NUMBER_GE \<and> x \<ge> y"

definition number_hits :: "peak_number list \<Rightarrow> int \<Rightarrow> u32 list" where
  "number_hits nodes x = map num_result (filter (\<lambda>n. number_holds (num_operator n) x (num_number n)) nodes)"

lemma number_get_spec:
  assumes "0 \<notin> set t"
  shows "peak_number_get (t @ [0]) = Some (text_number t)"
proof -
  have tw: "takeWhile (\<lambda>c. c \<noteq> 0) (t @ [0]) = t" using assms by (induction t) auto
  have "t = [] \<longleftrightarrow> (t @ [0]) ! 0 = 0" using assms by (cases t) auto
  then show ?thesis using tw
    by (auto simp: peak_number_get_def strtoll_def text_number_def Let_def load8_def not_less)
qed

lemma number_match_spec:
  assumes "stash_ok st"
  shows "\<exists>st'. peak_number_match nodes x st = Some st' \<and> stash.takes st (number_hits nodes x) st'"
  using assms
proof (induction nodes arbitrary: st)
  case Nil
  then show ?case by (simp add: number_hits_def stash.takes_refl)
next
  case (Cons node nodes)
  define ret where "ret = number_holds (num_operator node) x (num_number node)"
  from stash.push_if_takes[OF Cons.prems, of ret "num_result node"] obtain st1 where
    s1: "(if ret then stash_push_result (num_result node) st else Some st) = Some st1"
    "stash.takes st (if ret then [num_result node] else []) st1" by blast
  from Cons.IH[OF stash.takes_ok[OF s1(2)]] obtain st2 where
    s2: "peak_number_match nodes x st1 = Some st2" "stash.takes st1 (number_hits nodes x) st2" by blast
  have "number_hits (node # nodes) x = (if ret then [num_result node] else []) @ number_hits nodes x"
    by (simp add: number_hits_def ret_def)
  moreover have "(if num_operator node = NUMBER_GT then x > num_number node
        else if num_operator node = NUMBER_LT then x < num_number node
        else if num_operator node = NUMBER_EQ then x = num_number node
        else if num_operator node = NUMBER_NE then x \<noteq> num_number node
        else if num_operator node = NUMBER_LE then x \<le> num_number node
        else if num_operator node = NUMBER_GE then x \<ge> num_number node
        else False) = ret"
    unfolding ret_def number_holds_def by auto
  ultimately show ?case using s1(1) s2 stash.takes_trans[OF s1(2) s2(2)] by (simp add: Let_def del: if_split)
qed

section \<open>Decimal texts\<close>

fun dec_text :: "nat \<Rightarrow> u8 list" where
  "dec_text n = (if n < 10 then [48 + of_nat n] else dec_text (n div 10) @ [48 + of_nat (n mod 10)])"

declare dec_text.simps [simp del]

lemma digit_cases: "d < 10 \<Longrightarrow> uint (48 + of_nat d :: u8) = 48 + int d \<and> c_isdigit (48 + of_nat d)"
proof -
  assume "d < 10"
  then have "d = 0 \<or> d = 1 \<or> d = 2 \<or> d = 3 \<or> d = 4 \<or> d = 5 \<or> d = 6 \<or> d = 7 \<or> d = 8 \<or> d = 9" by presburger
  then show ?thesis by (elim disjE) (simp_all add: c_isdigit_def)
qed

lemma dec_text_spec: "digits_value (dec_text n) = int n \<and> list_all c_isdigit (dec_text n) \<and> dec_text n \<noteq> []"
proof (induction n rule: dec_text.induct)
  case (1 n)
  show ?case
  proof (cases "n < 10")
    case True
    then show ?thesis using digit_cases[of n] by (subst (1 2 3) dec_text.simps) (simp add: digits_value_def)
  next
    case False
    have "10 * int (n div 10) + int (n mod 10) = int n" by (metis mult_div_mod_eq of_nat_add of_nat_mult of_nat_numeral)
    with False 1 digit_cases[of "n mod 10"] show ?thesis
      by (subst (1 2 3) dec_text.simps) (simp add: digits_value_def)
  qed
qed

lemma digit_plain: "c_isdigit c \<Longrightarrow> c \<noteq> 0 \<and> \<not> c_isspace c \<and> c \<noteq> 43 \<and> c \<noteq> 45"
  by (auto simp: c_isdigit_def c_isspace_def word_le_nat_alt)

lemma text_number_dec:
  assumes "n < 2 ^ 63"
  shows "text_number (dec_text n) = Some (int n)" "0 \<notin> set (dec_text n)"
proof -
  obtain c cs where c: "dec_text n = c # cs" using dec_text_spec[of n] by (cases "dec_text n") auto
  then have d: "c_isdigit c" "list_all c_isdigit cs" using dec_text_spec[of n] by auto
  have tw: "takeWhile c_isdigit cs = cs" using d(2) by (simp add: list_all_iff takeWhile_eq_all_conv)
  show "text_number (dec_text n) = Some (int n)"
    using digit_plain[OF d(1)] d(1) dec_text_spec[of n] assms by (simp add: text_number_def c Let_def tw)
  from dec_text_spec[of n] show "0 \<notin> set (dec_text n)" by (auto simp: list_all_iff dest: digit_plain)
qed

lemma dec_text_short: "length (dec_text n) \<le> Suc n"
proof (induction n rule: dec_text.induct)
  case (1 n)
  then show ?case by (cases "n < 10") (simp_all add: dec_text.simps[of n])
qed

text \<open>A decimal text as the argument of a call.\<close>

lemma dec_text_argument:
  assumes "n < 2 ^ 63"
  defines "len \<equiv> of_nat (length (dec_text n)) :: u64"
  shows "unat len = length (dec_text n)" "len \<noteq> - 1" "len \<noteq> 0" "takeWhile (\<lambda>c. c \<noteq> 0) (take (unat len) (dec_text n @ [0])) = dec_text n"
proof -
  have "n + 2 < 2 ^ 64" using assms(1) by simp
  then have small: "length (dec_text n) + 1 < 2 ^ 64" using dec_text_short[of n] by linarith
  then have "length (dec_text n) < 2 ^ 64" by linarith
  then show u: "unat len = length (dec_text n)" unfolding len_def by (rule unat_of_nat_small)
  have "unat (len + 1) = unat len + 1" using unat_add_small[of len 1] u small by simp
  then show "len \<noteq> - 1" by auto
  show "len \<noteq> 0" using u dec_text_spec[of n] by (metis length_0_conv unat_0)
  have "takeWhile (\<lambda>c. c \<noteq> 0) (dec_text n) = dec_text n" using text_number_dec(2)[OF assms(1)] by (auto simp: takeWhile_eq_all_conv)
  then show "takeWhile (\<lambda>c. c \<noteq> 0) (take (unat len) (dec_text n @ [0])) = dec_text n" using u by simp
qed

lemma operator_flags: "op < NUMBER_MAX \<Longrightarrow> op AND NUMBER_TYPE_MASK = 0 \<and> op AND NUMBER_OP_MASK = op"
proof -
  assume "op < NUMBER_MAX"
  then have "unat op < 6" by (simp add: word_less_nat_alt)
  then have "unat op = 0 \<or> unat op = 1 \<or> unat op = 2 \<or> unat op = 3 \<or> unat op = 4 \<or> unat op = 5" by presburger
  then have "op = 0 \<or> op = 1 \<or> op = 2 \<or> op = 3 \<or> op = 4 \<or> op = 5" by (simp add: word_unat_eq_iff)
  then show ?thesis by (elim disjE) simp_all
qed

section \<open>Searches\<close>

lemma number_find_spec:
  assumes "stash_ok st" and "unat len \<le> length m" "len \<noteq> - 1"
  defines "t \<equiv> takeWhile (\<lambda>c. c \<noteq> 0) (take (unat len) m)"
  shows "if 0 \<in> set m \<or> len = 0
    then \<exists>st'. peak_number_find self (Some m) len st = Some st' \<and>
      stash_list st' = take (stash_cap st) (stash_list st @ number_hits (num_length self) (sint len) @
        (case text_number t of None \<Rightarrow> [] | Some x \<Rightarrow> number_hits (num_string self) x))
    else peak_number_find self (Some m) len st = None"
proof -
  from number_match_spec[OF assms(1)] obtain s1 where
    s1: "peak_number_match (num_length self) (sint len) st = Some s1" "stash.takes st (number_hits (num_length self) (sint len)) s1" by blast
  have t0: "0 \<notin> set t" unfolding t_def by (auto dest: set_takeWhileD)
  note cpy = strlcpy_spec[OF assms(2,3), folded t_def]
  show ?thesis
  proof (cases "len = 0")
    case True
    then have "text_number t = None" by (simp add: t_def text_number_def)
    with True s1 stash_takes_list[OF assms(1) s1(2)] show ?thesis by (simp add: peak_number_find_def)
  next
    case len: False
    show ?thesis
    proof (cases "0 \<in> set m")
      case False
      with cpy len s1(1) show ?thesis by (simp add: peak_number_find_def)
    next
      case True
      with cpy obtain r where r: "compat_strlcpy (Some m) (len + 1) = Some (t @ [0], r)" by auto
      from number_match_spec[OF stash.takes_ok[OF s1(2)]] obtain s2 where
        s2: "peak_number_match (num_string self) x s1 = Some (s2 x)" "stash.takes s1 (number_hits (num_string self) x) (s2 x)" for x by metis
      have "\<exists>st'. peak_number_find self (Some m) len st = Some st' \<and> stash.takes st (number_hits (num_length self) (sint len) @
          (case text_number t of None \<Rightarrow> [] | Some x \<Rightarrow> number_hits (num_string self) x)) st'"
      proof (cases "text_number t")
        case None
        with len s1 r number_get_spec[OF t0] show ?thesis by (simp add: peak_number_find_def)
      next
        case (Some x)
        with len s1(1) r number_get_spec[OF t0] s2(1)[of x] stash.takes_trans[OF s1(2) s2(2)[of x]] show ?thesis
          by (simp add: peak_number_find_def)
      qed
      with True stash_takes_list[OF assms(1)] show ?thesis by auto
    qed
  qed
qed

section \<open>Properties\<close>

text \<open>C38. A search needs a terminated text: if the object that holds it has a NUL, the results of the length
  comparisons that hold and, if the text has a number at its front, of the number comparisons that hold are
  pushed in the order of the lists, as far as the stash has room; without a NUL, every search for a text of
  positive length reads behind the object, although the length is given.\<close>

theorem number_find_reports:
  assumes "stash_ok st" and "unat len \<le> length m" "len \<noteq> - 1"
  defines "t \<equiv> takeWhile (\<lambda>c. c \<noteq> 0) (take (unat len) m)"
  shows "if 0 \<in> set m \<or> len = 0
    then \<exists>st'. peak_number_find self (Some m) len st = Some st' \<and>
      stash_list st' = take (stash_cap st) (stash_list st @ number_hits (num_length self) (sint len) @
        (case text_number t of None \<Rightarrow> [] | Some x \<Rightarrow> number_hits (num_string self) x))
    else peak_number_find self (Some m) len st = None"
  unfolding t_def by (rule number_find_spec[OF assms(1-3)])

theorem number_find_reports_witness:
  "\<exists>st'. peak_number_find \<lparr>num_string = [\<lparr>num_operator = NUMBER_GT, num_result = 7, num_number = 20\<rparr>], num_length = []\<rparr>
      (Some [50, 49, 0]) 2 (STASH_DECLARE 4 [0, 0, 0, 0]) = Some st' \<and> stash_list st' = [7]"
proof -
  have ok: "stash_ok (STASH_DECLARE 4 [0, 0, 0, 0 :: u32])" using stash_declare[of 4 "[0, 0, 0, 0 :: u32]"] by simp
  have t: "text_number [50, 49] = Some 21" by code_simp
  have "(2 :: u64) + 1 \<noteq> 0" by simp
  then have "(2 :: u64) \<noteq> - 1" by (metis add.left_inverse)
  with number_find_reports[OF ok, of 2 "[50, 49, 0]" "\<lparr>num_string = [\<lparr>num_operator = NUMBER_GT, num_result = 7, num_number = 20\<rparr>], num_length = []\<rparr>"]
  show ?thesis by (simp add: t number_hits_def number_holds_def stash_list_def stash_cap_def STASH_DECLARE_def)
qed

text \<open>A comparison that was added takes part in the searches: after \<open>n\<close> was added in decimal with an operator
  that was not there for it yet, a search for the text of \<open>v\<close> also pushes its result, before the older ones,
  exactly if \<open>v\<close> compares with \<open>n\<close> as the operator says.\<close>

lemma number_add_then_find:
  assumes "n < 2 ^ 63" "v < 2 ^ 63" and "op < NUMBER_MAX" and "number_lookup (num_string self) (int n) op = None"
    and "stash_ok st" and "num_length self = []"
  shows "\<exists>self' st'. peak_number_add self result (Some (dec_text n @ [0])) (of_nat (length (dec_text n))) op True = Some (result, self') \<and>
    peak_number_find self' (Some (dec_text v @ [0])) (of_nat (length (dec_text v))) st = Some st' \<and>
    stash_list st' = take (stash_cap st) (stash_list st @ (if number_holds op (int v) (int n) then [result] else []) @
      number_hits (num_string self) (int v))"
proof -
  let ?node = "\<lparr>num_operator = op, num_result = result, num_number = int n\<rparr>"
  let ?self = "self\<lparr>num_string := ?node # num_string self\<rparr>"
  note an = dec_text_argument[OF assms(1)] and av = dec_text_argument[OF assms(2)]
  have "unat (of_nat (length (dec_text n)) :: u64) \<le> length (dec_text n @ [0])" using an(1) by simp
  from strlcpy_spec[OF this an(2)] an(4) obtain r where
    "compat_strlcpy (Some (dec_text n @ [0])) (of_nat (length (dec_text n)) + 1) = Some (dec_text n @ [0], r)" by auto
  then have add: "peak_number_add self result (Some (dec_text n @ [0])) (of_nat (length (dec_text n))) op True = Some (result, ?self)"
    using an(3) assms(4) linorder_not_le[THEN iffD2, OF assms(3)] operator_flags[OF assms(3)] number_get_spec[OF text_number_dec(2)[OF assms(1)]] text_number_dec(1)[OF assms(1)]
    by (simp add: peak_number_add_def number_insert_def Let_def)
  have "unat (of_nat (length (dec_text v)) :: u64) \<le> length (dec_text v @ [0])" using av(1) by simp
  from number_find_spec[OF assms(5) this av(2), of ?self] assms(6) obtain st' where
    "peak_number_find ?self (Some (dec_text v @ [0])) (of_nat (length (dec_text v))) st = Some st'"
    "stash_list st' = take (stash_cap st) (stash_list st @ number_hits (num_string ?self) (int v))"
    unfolding av(4) text_number_dec(1)[OF assms(2)] by (auto simp: number_hits_def)
  with add show ?thesis by (intro exI[of _ ?self] exI[of _ st']) (simp add: number_hits_def del: take_append)
qed

lemma number_add_then_find_witness:
  "\<exists>self' st'. peak_number_add \<lparr>num_string = [], num_length = []\<rparr> 7 (Some (dec_text 20 @ [0])) (of_nat (length (dec_text 20))) NUMBER_GT True = Some (7, self') \<and>
    peak_number_find self' (Some (dec_text 21 @ [0])) (of_nat (length (dec_text 21))) (STASH_DECLARE 4 [0, 0, 0, 0]) = Some st' \<and> stash_list st' = [7]"
proof -
  have ok: "stash_ok (STASH_DECLARE 4 [0, 0, 0, 0 :: u32])" using stash_declare[of 4 "[0, 0, 0, 0 :: u32]"] by simp
  from number_add_then_find[OF _ _ _ _ ok, of 20 21 NUMBER_GT "\<lparr>num_string = [], num_length = []\<rparr>" 7] show ?thesis
    by (simp add: number_hits_def number_holds_def stash_list_def stash_cap_def STASH_DECLARE_def)
qed

text \<open>The error message for a missing number is never returned: an empty text gets the message of a failed
  conversion, and a \<open>NULL\<close> pointer, which the test in front is for, is dereferenced.\<close>

lemma number_parse_empty:
  "peak_number_parse None len = None" "0 \<in> set m \<Longrightarrow> peak_number_parse (Some m) 0 = Some (Some ''number conversion failed'')"
proof -
  show "peak_number_parse None len = None" by (simp add: peak_number_parse_def compat_strlcpy_def)
qed (use strlcpy_spec[of 0 m] number_get_spec[of "[]"] in \<open>auto simp: peak_number_parse_def text_number_def\<close>)

end
