(* ===== verification/Peak_Queue.thy ===== *)
theory Peak_Queue
  imports Peak_Prelude
begin

text \<open>
  The two list kinds of \<open>src/include/sys/queue.h\<close> that libpeak uses, on pointers: the tail queue, doubly linked with
  the address of the previous next pointer in each element, and the singly-linked list.

  An element is named by a value of its address type; its \<open>field\<close> lives in the functions \<open>tqe_next\<close>, \<open>tqe_prev\<close> and
  \<open>sle_next\<close>. The address of a next pointer is a \<open>slot\<close>: that of the head or that of an element. \<open>TAILQ_LAST\<close> and
  \<open>TAILQ_PREV\<close> read the field behind such a next pointer, through a cast to the type of the head. The assignments are in
  the order of the macros. The loops have fuel, which the length of the list exceeds by one.
\<close>

section \<open>Tail queues\<close>

datatype 'a slot = First | NextOf 'a

record 'a tailq =
  tqh_first :: "'a option"
  tqh_last :: "'a slot"
  tqe_next :: "'a \<Rightarrow> 'a option"
  tqe_prev :: "'a \<Rightarrow> 'a slot"

fun get_slot :: "'a tailq \<Rightarrow> 'a slot \<Rightarrow> 'a option" where
  "get_slot q First = tqh_first q"
| "get_slot q (NextOf a) = tqe_next q a"

fun set_slot :: "'a tailq \<Rightarrow> 'a slot \<Rightarrow> 'a option \<Rightarrow> 'a tailq" where
  "set_slot q First v = q\<lparr>tqh_first := v\<rparr>"
| "set_slot q (NextOf a) v = q\<lparr>tqe_next := (tqe_next q)(a := v)\<rparr>"

fun last_field :: "'a tailq \<Rightarrow> 'a slot \<Rightarrow> 'a slot" where
  "last_field q First = tqh_last q"
| "last_field q (NextOf a) = tqe_prev q a"

definition TAILQ_FIRST :: "'a tailq \<Rightarrow> 'a option" where
  "TAILQ_FIRST q = tqh_first q"

definition TAILQ_NEXT :: "'a tailq \<Rightarrow> 'a \<Rightarrow> 'a option" where
  "TAILQ_NEXT q elm = tqe_next q elm"

definition TAILQ_LAST :: "'a tailq \<Rightarrow> 'a option" where
  "TAILQ_LAST q = get_slot q (last_field q (tqh_last q))"

definition TAILQ_PREV :: "'a tailq \<Rightarrow> 'a \<Rightarrow> 'a option" where
  "TAILQ_PREV q elm = get_slot q (last_field q (tqe_prev q elm))"

definition TAILQ_EMPTY :: "'a tailq \<Rightarrow> bool" where
  "TAILQ_EMPTY q \<longleftrightarrow> TAILQ_FIRST q = None"

definition TAILQ_INIT :: "'a tailq \<Rightarrow> 'a tailq" where
  "TAILQ_INIT q = q\<lparr>tqh_first := None, tqh_last := First\<rparr>"

definition TAILQ_INSERT_HEAD :: "'a tailq \<Rightarrow> 'a \<Rightarrow> 'a tailq" where
  "TAILQ_INSERT_HEAD q elm =
     (let q = q\<lparr>tqe_next := (tqe_next q)(elm := tqh_first q)\<rparr>;
          q = (case tqe_next q elm of
                 Some f \<Rightarrow> q\<lparr>tqe_prev := (tqe_prev q)(f := NextOf elm)\<rparr>
               | None \<Rightarrow> q\<lparr>tqh_last := NextOf elm\<rparr>);
          q = q\<lparr>tqh_first := Some elm\<rparr>
      in q\<lparr>tqe_prev := (tqe_prev q)(elm := First)\<rparr>)"

definition TAILQ_INSERT_TAIL :: "'a tailq \<Rightarrow> 'a \<Rightarrow> 'a tailq" where
  "TAILQ_INSERT_TAIL q elm =
     (let q = q\<lparr>tqe_next := (tqe_next q)(elm := None)\<rparr>;
          q = q\<lparr>tqe_prev := (tqe_prev q)(elm := tqh_last q)\<rparr>;
          q = set_slot q (tqh_last q) (Some elm)
      in q\<lparr>tqh_last := NextOf elm\<rparr>)"

definition TAILQ_INSERT_AFTER :: "'a tailq \<Rightarrow> 'a \<Rightarrow> 'a \<Rightarrow> 'a tailq" where
  "TAILQ_INSERT_AFTER q listelm elm =
     (let q = q\<lparr>tqe_next := (tqe_next q)(elm := tqe_next q listelm)\<rparr>;
          q = (case tqe_next q elm of
                 Some n \<Rightarrow> q\<lparr>tqe_prev := (tqe_prev q)(n := NextOf elm)\<rparr>
               | None \<Rightarrow> q\<lparr>tqh_last := NextOf elm\<rparr>);
          q = q\<lparr>tqe_next := (tqe_next q)(listelm := Some elm)\<rparr>
      in q\<lparr>tqe_prev := (tqe_prev q)(elm := NextOf listelm)\<rparr>)"

definition TAILQ_INSERT_BEFORE :: "'a tailq \<Rightarrow> 'a \<Rightarrow> 'a \<Rightarrow> 'a tailq" where
  "TAILQ_INSERT_BEFORE q listelm elm =
     (let q = q\<lparr>tqe_prev := (tqe_prev q)(elm := tqe_prev q listelm)\<rparr>;
          q = q\<lparr>tqe_next := (tqe_next q)(elm := Some listelm)\<rparr>;
          q = set_slot q (tqe_prev q listelm) (Some elm)
      in q\<lparr>tqe_prev := (tqe_prev q)(listelm := NextOf elm)\<rparr>)"

definition TAILQ_REMOVE :: "'a tailq \<Rightarrow> 'a \<Rightarrow> 'a tailq" where
  "TAILQ_REMOVE q elm =
     (let q = (case tqe_next q elm of
                 Some n \<Rightarrow> q\<lparr>tqe_prev := (tqe_prev q)(n := tqe_prev q elm)\<rparr>
               | None \<Rightarrow> q\<lparr>tqh_last := tqe_prev q elm\<rparr>)
      in set_slot q (tqe_prev q elm) (tqe_next q elm))"

definition TAILQ_REPLACE :: "'a tailq \<Rightarrow> 'a \<Rightarrow> 'a \<Rightarrow> 'a tailq" where
  "TAILQ_REPLACE q elm elm2 =
     (let q = q\<lparr>tqe_next := (tqe_next q)(elm2 := tqe_next q elm)\<rparr>;
          q = (case tqe_next q elm2 of
                 Some n \<Rightarrow> q\<lparr>tqe_prev := (tqe_prev q)(n := NextOf elm2)\<rparr>
               | None \<Rightarrow> q\<lparr>tqh_last := NextOf elm2\<rparr>);
          q = q\<lparr>tqe_prev := (tqe_prev q)(elm2 := tqe_prev q elm)\<rparr>
      in set_slot q (tqe_prev q elm2) (Some elm2))"

text \<open>The elements a loop visits, if it ends within the fuel.\<close>

fun tailq_walk :: "nat \<Rightarrow> ('a \<Rightarrow> 'a option) \<Rightarrow> 'a option \<Rightarrow> 'a list option" where
  "tailq_walk 0 step var = None"
| "tailq_walk (Suc n) step var =
     (case var of None \<Rightarrow> Some [] | Some x \<Rightarrow> map_option ((#) x) (tailq_walk n step (step x)))"

definition TAILQ_FOREACH :: "nat \<Rightarrow> 'a tailq \<Rightarrow> 'a list option" where
  "TAILQ_FOREACH fuel q = tailq_walk fuel (TAILQ_NEXT q) (TAILQ_FIRST q)"

definition TAILQ_FOREACH_REVERSE :: "nat \<Rightarrow> 'a tailq \<Rightarrow> 'a list option" where
  "TAILQ_FOREACH_REVERSE fuel q = tailq_walk fuel (TAILQ_PREV q) (TAILQ_LAST q)"

section \<open>Singly-linked lists\<close>

record 'a slist =
  slh_first :: "'a option"
  sle_next :: "'a \<Rightarrow> 'a option"

definition SLIST_FIRST :: "'a slist \<Rightarrow> 'a option" where
  "SLIST_FIRST q = slh_first q"

definition SLIST_EMPTY :: "'a slist \<Rightarrow> bool" where
  "SLIST_EMPTY q \<longleftrightarrow> SLIST_FIRST q = None"

definition SLIST_NEXT :: "'a slist \<Rightarrow> 'a \<Rightarrow> 'a option" where
  "SLIST_NEXT q elm = sle_next q elm"

definition SLIST_INIT :: "'a slist \<Rightarrow> 'a slist" where
  "SLIST_INIT q = q\<lparr>slh_first := None\<rparr>"

definition SLIST_INSERT_HEAD :: "'a slist \<Rightarrow> 'a \<Rightarrow> 'a slist" where
  "SLIST_INSERT_HEAD q elm = q\<lparr>sle_next := (sle_next q)(elm := slh_first q), slh_first := Some elm\<rparr>"

definition SLIST_INSERT_AFTER :: "'a slist \<Rightarrow> 'a \<Rightarrow> 'a \<Rightarrow> 'a slist" where
  "SLIST_INSERT_AFTER q slistelm elm =
     (let q = q\<lparr>sle_next := (sle_next q)(elm := sle_next q slistelm)\<rparr>
      in q\<lparr>sle_next := (sle_next q)(slistelm := Some elm)\<rparr>)"

definition SLIST_REMOVE_HEAD :: "'a slist \<Rightarrow> 'a slist option" where
  "SLIST_REMOVE_HEAD q = do { f \<leftarrow> slh_first q; Some (q\<lparr>slh_first := sle_next q f\<rparr>) }"

definition SLIST_REMOVE_AFTER :: "'a slist \<Rightarrow> 'a \<Rightarrow> 'a slist option" where
  "SLIST_REMOVE_AFTER q elm = do { n \<leftarrow> sle_next q elm; Some (q\<lparr>sle_next := (sle_next q)(elm := sle_next q n)\<rparr>) }"

fun find_before :: "nat \<Rightarrow> 'a slist \<Rightarrow> 'a option \<Rightarrow> 'a \<Rightarrow> 'a option" where
  "find_before 0 q curelm elm = None"
| "find_before (Suc n) q curelm elm = do {
     c \<leftarrow> curelm;
     if sle_next q c \<noteq> Some elm then find_before n q (sle_next q c) elm else Some c }"

definition SLIST_REMOVE :: "nat \<Rightarrow> 'a slist \<Rightarrow> 'a \<Rightarrow> 'a slist option" where
  "SLIST_REMOVE fuel q elm =
     (if slh_first q = Some elm then SLIST_REMOVE_HEAD q
      else do {
        c \<leftarrow> find_before fuel q (slh_first q) elm;
        SLIST_REMOVE_AFTER q c })"

section \<open>The list a tail queue stands for\<close>

fun tq_seg :: "'a tailq \<Rightarrow> 'a slot \<Rightarrow> 'a list \<Rightarrow> 'a slot \<Rightarrow> bool" where
  "tq_seg q p [] e \<longleftrightarrow> p = e"
| "tq_seg q p (x # xs) e \<longleftrightarrow> get_slot q p = Some x \<and> tqe_prev q x = p \<and> tq_seg q (NextOf x) xs e"

definition tailq_list :: "'a tailq \<Rightarrow> 'a list \<Rightarrow> bool" where
  "tailq_list q xs \<longleftrightarrow> distinct xs \<and> tq_seg q First xs (tqh_last q) \<and> get_slot q (tqh_last q) = None"

fun seg_slots :: "'a slot \<Rightarrow> 'a list \<Rightarrow> 'a slot set" where
  "seg_slots p [] = {}"
| "seg_slots p (x # xs) = insert p (seg_slots (NextOf x) xs)"

fun end_slot :: "'a slot \<Rightarrow> 'a list \<Rightarrow> 'a slot" where
  "end_slot p [] = p"
| "end_slot p (x # xs) = end_slot (NextOf x) xs"

lemma tq_seg_end: "tq_seg q p xs e \<Longrightarrow> e = end_slot p xs"
  by (induction q p xs e rule: tq_seg.induct) auto

lemma tq_seg_append: "tq_seg q p (xs @ ys) e \<longleftrightarrow> tq_seg q p xs (end_slot p xs) \<and> tq_seg q (end_slot p xs) ys e"
  by (induction xs arbitrary: p) auto

lemma end_slot_append: "end_slot p (xs @ ys) = end_slot (end_slot p xs) ys"
  by (induction xs arbitrary: p) auto

lemma end_slot_cases: "end_slot p xs = p \<or> end_slot p xs \<in> NextOf ` set xs"
  by (induction xs arbitrary: p) auto

lemma seg_slots_subset: "seg_slots p xs \<subseteq> insert p (NextOf ` set xs)"
  by (induction p xs rule: seg_slots.induct) auto

text \<open>A segment only depends on its own next pointers and the back pointers of its elements.\<close>

lemma tq_seg_cong:
  assumes "\<And>s. s \<in> seg_slots p xs \<Longrightarrow> get_slot q' s = get_slot q s" and "\<And>x. x \<in> set xs \<Longrightarrow> tqe_prev q' x = tqe_prev q x"
  shows "tq_seg q' p xs e = tq_seg q p xs e"
  using assms by (induction xs arbitrary: p) auto

lemma end_slot_notin:
  assumes "distinct xs" "p \<notin> NextOf ` set xs"
  shows "end_slot p xs \<notin> seg_slots p xs"
  using assms
proof (induction xs arbitrary: p)
  case (Cons x xs)
  have "end_slot (NextOf x) xs \<notin> seg_slots (NextOf x) xs" using Cons by auto
  moreover have "end_slot (NextOf x) xs \<noteq> p" using end_slot_cases[of "NextOf x" xs] Cons.prems by auto
  ultimately show ?case by simp
qed simp

lemma slot_simps [simp]:
  "get_slot (set_slot q s v) t = (if t = s then v else get_slot q t)" "tqe_prev (set_slot q s v) = tqe_prev q"
  "tqh_last (set_slot q s v) = tqh_last q" "tqe_next (set_slot q s v) a = (if s = NextOf a then v else tqe_next q a)"
  "tqh_first (set_slot q s v) = (if s = First then v else tqh_first q)"
  "get_slot (q\<lparr>tqe_prev := f\<rparr>) t = get_slot q t" "get_slot (q\<lparr>tqh_last := l\<rparr>) t = get_slot q t"
  "get_slot (q\<lparr>tqe_next := (tqe_next q)(a := v)\<rparr>) t = (if t = NextOf a then v else get_slot q t)"
  "get_slot (q\<lparr>tqe_prev := f, tqe_next := (tqe_next q)(a := v)\<rparr>) t = (if t = NextOf a then v else get_slot q t)"
  "get_slot (q\<lparr>tqh_first := v\<rparr>) t = (if t = First then v else get_slot q t)"
  by (cases s; cases t; simp; fail)+

lemma tailq_splitD:
  assumes "tailq_list q (as @ bs)"
  defines "m \<equiv> end_slot First as"
  shows "tq_seg q First as m" "tq_seg q m bs (tqh_last q)" "get_slot q (tqh_last q) = None" "distinct as" "distinct bs"
    "set as \<inter> set bs = {}" "m \<notin> seg_slots First as" "m \<notin> NextOf ` set bs" "tqh_last q = end_slot m bs"
proof -
  from assms show a: "tq_seg q First as m" "tq_seg q m bs (tqh_last q)" "get_slot q (tqh_last q) = None" "distinct as" "distinct bs"
    "set as \<inter> set bs = {}" by (auto simp: tailq_list_def tq_seg_append)
  show "m \<notin> seg_slots First as" unfolding m_def using a(4) by (intro end_slot_notin) auto
  show "m \<notin> NextOf ` set bs" using end_slot_cases[of First as] a(6) by (auto simp: m_def)
  show "tqh_last q = end_slot m bs" by (rule tq_seg_end[OF a(2)])
qed

lemma tailq_joinI:
  assumes "tq_seg q First as (end_slot First as)" "tq_seg q (end_slot First as) bs (tqh_last q)" "get_slot q (tqh_last q) = None"
    "distinct as" "distinct bs" "set as \<inter> set bs = {}"
  shows "tailq_list q (as @ bs)"
  using assms by (simp add: tailq_list_def tq_seg_append)

lemma slots_elsewhere: "p = NextOf x \<Longrightarrow> s \<in> seg_slots p xs \<Longrightarrow> s \<in> NextOf ` set (x # xs)"
  using seg_slots_subset[of p xs] by auto

lemma end_elsewhere: "end_slot (NextOf x) xs \<in> NextOf ` set (x # xs)"
  using end_slot_cases[of "NextOf x" xs] by auto

section \<open>The operations on lists\<close>

lemma tailq_init: "tailq_list (TAILQ_INIT q) []"
  by (simp add: tailq_list_def TAILQ_INIT_def)

text \<open>Linking an element between two parts of a queue, and taking one out, given what the assignments have changed.\<close>

lemma tailq_link:
  assumes q: "tailq_list q (as @ bs)" and x: "x \<notin> set (as @ bs)"
  defines "m \<equiv> end_slot First as"
  assumes next_same: "\<And>s. s \<noteq> m \<Longrightarrow> s \<noteq> NextOf x \<Longrightarrow> get_slot q' s = get_slot q s"
    and next_new: "get_slot q' m = Some x" "get_slot q' (NextOf x) = get_slot q m"
    and prev_same: "\<And>y. y \<noteq> x \<Longrightarrow> bs = [] \<or> y \<noteq> hd bs \<Longrightarrow> tqe_prev q' y = tqe_prev q y"
    and prev_new: "tqe_prev q' x = m" "bs \<noteq> [] \<Longrightarrow> tqe_prev q' (hd bs) = NextOf x"
    and last_new: "tqh_last q' = (if bs = [] then NextOf x else tqh_last q)"
  shows "tailq_list q' (as @ x # bs)"
proof (rule tailq_joinI)
  note S = tailq_splitD[OF q, folded m_def]
  have m_x: "m \<noteq> NextOf x" using end_slot_cases[of First as] x by (auto simp: m_def)
  have x_as: "NextOf x \<notin> seg_slots First as" using seg_slots_subset[of First as] x by auto
  have "\<And>y. y \<in> set as \<Longrightarrow> y \<noteq> x \<and> (bs = [] \<or> y \<noteq> hd bs)" using x S(6) by (cases bs) auto
  then show "tq_seg q' First as (end_slot First as)" unfolding m_def[symmetric]
    using S(1,7) x_as by (subst tq_seg_cong[of _ _ _ q]) (auto intro!: next_same prev_same)
  have "tq_seg q' (NextOf x) bs (tqh_last q') \<and> get_slot q' (tqh_last q') = None"
  proof (cases bs)
    case Nil
    with S(2,3) next_new(2) last_new show ?thesis by simp
  next
    case (Cons y ys)
    have other: "t \<noteq> m \<and> t \<noteq> NextOf x" if "t \<in> NextOf ` set (y # ys)" for t using that S(8) x Cons by auto
    have "get_slot q' (tqh_last q) = get_slot q (tqh_last q)"
      using S(9) Cons end_elsewhere[of y ys] other by (intro next_same) auto
    moreover have "m \<notin> seg_slots (NextOf y) ys" "NextOf x \<notin> seg_slots (NextOf y) ys" "x \<notin> set ys" "y \<notin> set ys"
      using other slots_elsewhere[OF refl, of _ y ys] x S(5) Cons by auto
    then have "tq_seg q' (NextOf y) ys (tqh_last q)" using S(2) Cons
      by (subst tq_seg_cong[of _ _ _ q]) (auto intro!: next_same prev_same)
    ultimately show ?thesis using S(2,3) Cons next_new(2) prev_new(2) last_new by simp
  qed
  then show "tq_seg q' (end_slot First as) (x # bs) (tqh_last q')" "get_slot q' (tqh_last q') = None"
    using next_new(1) prev_new(1) by (simp_all add: m_def)
qed (use q x in \<open>auto simp: tailq_list_def\<close>)

lemma tailq_unlink:
  assumes q: "tailq_list q (as @ x # bs)"
  defines "m \<equiv> end_slot First as"
  assumes next_same: "\<And>s. s \<noteq> m \<Longrightarrow> get_slot q' s = get_slot q s" and next_new: "get_slot q' m = tqe_next q x"
    and prev_same: "\<And>y. bs = [] \<or> y \<noteq> hd bs \<Longrightarrow> tqe_prev q' y = tqe_prev q y"
    and prev_new: "bs \<noteq> [] \<Longrightarrow> tqe_prev q' (hd bs) = m"
    and last_new: "tqh_last q' = (if bs = [] then m else tqh_last q)"
  shows "tailq_list q' (as @ bs)"
proof (rule tailq_joinI)
  note S = tailq_splitD[OF q, folded m_def]
  have xbs: "tq_seg q (NextOf x) bs (tqh_last q)" using S(2) by simp
  have "\<And>y. y \<in> set as \<Longrightarrow> bs = [] \<or> y \<noteq> hd bs" using S(6) by (cases bs) auto
  then show "tq_seg q' First as (end_slot First as)" unfolding m_def[symmetric]
    using S(1,7) by (subst tq_seg_cong[of _ _ _ q]) (auto intro!: next_same prev_same)
  have "tq_seg q' m bs (tqh_last q') \<and> get_slot q' (tqh_last q') = None"
  proof (cases bs)
    case Nil
    with xbs S(3) have "tqe_next q x = None" by (metis get_slot.simps(2) tq_seg.simps(1))
    with Nil next_new last_new show ?thesis by simp
  next
    case (Cons y ys)
    have other: "t \<noteq> m" if "t \<in> NextOf ` set (y # ys)" for t using that S(8) Cons by auto
    have "get_slot q' (tqh_last q) = get_slot q (tqh_last q)"
      using S(9) Cons end_elsewhere[of y ys] other by (intro next_same) auto
    moreover have "m \<notin> seg_slots (NextOf y) ys" "y \<notin> set ys"
      using other slots_elsewhere[OF refl, of _ y ys] S(5) Cons by auto
    then have "tq_seg q' (NextOf y) ys (tqh_last q)" using xbs Cons
      by (subst tq_seg_cong[of _ _ _ q]) (auto intro!: next_same prev_same)
    ultimately show ?thesis using xbs S(3) Cons next_new prev_new last_new by simp
  qed
  then show "tq_seg q' (end_slot First as) bs (tqh_last q')" "get_slot q' (tqh_last q') = None" by (simp_all add: m_def)
qed (use q in \<open>auto simp: tailq_list_def\<close>)

lemma tailq_at:
  assumes "tailq_list q (as @ x # bs)"
  shows "get_slot q (end_slot First as) = Some x" "tqe_prev q x = end_slot First as"
    "tqe_next q x = (if bs = [] then None else Some (hd bs))" "NextOf x \<noteq> end_slot First as"
proof -
  note S = tailq_splitD[OF assms]
  from S(2) show "get_slot q (end_slot First as) = Some x" "tqe_prev q x = end_slot First as" by auto
  from S(2,3) show "tqe_next q x = (if bs = [] then None else Some (hd bs))" by (cases bs) (auto dest: sym)
  from S(8) show "NextOf x \<noteq> end_slot First as" by auto
qed

lemma tailq_remove:
  assumes "tailq_list q (as @ x # bs)"
  shows "tailq_list (TAILQ_REMOVE q x) (as @ bs)"
  by (rule tailq_unlink[OF assms]) (auto simp: TAILQ_REMOVE_def tailq_at[OF assms] split: if_splits)

lemma tailq_insert_head:
  assumes "tailq_list q xs" "x \<notin> set xs"
  shows "tailq_list (TAILQ_INSERT_HEAD q x) (x # xs)"
proof -
  have "tqh_first q = (if xs = [] then None else Some (hd xs))"
    using assms(1) by (cases xs) (auto simp: tailq_list_def dest: sym)
  then have "tailq_list (TAILQ_INSERT_HEAD q x) ([] @ x # xs)" using assms
    by (intro tailq_link[of q]) (auto simp: TAILQ_INSERT_HEAD_def Let_def split: if_splits)
  then show ?thesis by simp
qed

lemma tailq_insert_tail:
  assumes "tailq_list q xs" "x \<notin> set xs"
  shows "tailq_list (TAILQ_INSERT_TAIL q x) (xs @ [x])"
proof -
  have "tqh_last q = end_slot First xs" "get_slot q (end_slot First xs) = None" "end_slot First xs \<noteq> NextOf x"
    using tailq_splitD[of q xs "[]"] assms end_slot_cases[of First xs] by auto
  then show ?thesis using assms
    by (intro tailq_link[of q]) (auto simp: TAILQ_INSERT_TAIL_def Let_def split: if_splits)
qed

lemma tailq_insert_after:
  assumes "tailq_list q (as @ y # bs)" "x \<notin> set (as @ y # bs)"
  shows "tailq_list (TAILQ_INSERT_AFTER q y x) (as @ y # x # bs)"
proof -
  have "y \<noteq> x" using assms(2) by auto
  then have "tailq_list (TAILQ_INSERT_AFTER q y x) ((as @ [y]) @ x # bs)" using assms tailq_at[OF assms(1)]
    by (intro tailq_link[of q]) (auto simp: TAILQ_INSERT_AFTER_def Let_def end_slot_append split: if_splits)
  then show ?thesis by simp
qed

lemma tailq_insert_before:
  assumes "tailq_list q (as @ y # bs)" "x \<notin> set (as @ y # bs)"
  shows "tailq_list (TAILQ_INSERT_BEFORE q y x) (as @ x # y # bs)"
proof -
  have "y \<noteq> x" "end_slot First as \<noteq> NextOf x" using assms(2) end_slot_cases[of First as] by auto
  with assms tailq_at[OF assms(1)] show ?thesis
    by (intro tailq_link[of q as "y # bs" x]) (auto simp: TAILQ_INSERT_BEFORE_def Let_def split: if_splits)
qed

lemma tailq_replace:
  assumes "tailq_list q (as @ x # bs)" "z \<notin> set (as @ x # bs)"
  shows "tailq_list (TAILQ_REPLACE q x z) (as @ z # bs)"
proof -
  note r = tailq_remove[OF assms(1)] and at = tailq_at[OF assms(1)]
  have "z \<noteq> x" "end_slot First as \<noteq> NextOf z" "z \<notin> set (as @ bs)" "bs \<noteq> [] \<Longrightarrow> hd bs \<noteq> z \<and> hd bs \<noteq> x"
    using assms end_slot_cases[of First as] by (auto simp: tailq_list_def)
  with at show ?thesis
    by (intro tailq_link[OF r]) (auto simp: TAILQ_REPLACE_def TAILQ_REMOVE_def Let_def split: if_splits)
qed

lemma tailq_first: "tailq_list q xs \<Longrightarrow> TAILQ_FIRST q = (if xs = [] then None else Some (hd xs))"
  by (cases xs) (auto simp: tailq_list_def TAILQ_FIRST_def dest: sym)

lemma tailq_empty: "tailq_list q xs \<Longrightarrow> TAILQ_EMPTY q \<longleftrightarrow> xs = []"
  by (simp add: TAILQ_EMPTY_def tailq_first)

lemma tailq_next: "tailq_list q (as @ x # bs) \<Longrightarrow> TAILQ_NEXT q x = (if bs = [] then None else Some (hd bs))"
  by (simp add: TAILQ_NEXT_def tailq_at)

lemma tailq_last:
  assumes "tailq_list q xs"
  shows "TAILQ_LAST q = (if xs = [] then None else Some (last xs))"
proof (cases xs rule: rev_cases)
  case Nil
  with assms show ?thesis by (auto simp: TAILQ_LAST_def tailq_list_def dest: sym)
next
  case (snoc as x)
  with assms tailq_splitD(9)[of q xs "[]"] tailq_at[of q as x "[]"] show ?thesis
    by (simp add: TAILQ_LAST_def end_slot_append)
qed

lemma tailq_prev:
  assumes "tailq_list q (as @ x # bs)"
  shows "TAILQ_PREV q x = (if as = [] then None else Some (last as))"
proof (cases as rule: rev_cases)
  case Nil
  with tailq_at[OF assms] tailq_splitD(3)[OF assms] show ?thesis by (simp add: TAILQ_PREV_def)
next
  case (snoc cs y)
  with tailq_at[OF assms] tailq_at[of q cs y "x # bs"] assms show ?thesis by (simp add: TAILQ_PREV_def end_slot_append)
qed

lemma tailq_walk_next:
  assumes "tailq_list q (as @ bs)" "length bs < fuel"
  shows "tailq_walk fuel (TAILQ_NEXT q) (if bs = [] then None else Some (hd bs)) = Some bs"
  using assms
proof (induction bs arbitrary: as fuel)
  case Nil
  then show ?case by (cases fuel) auto
next
  case (Cons b bs)
  from Cons.IH[of "as @ [b]"] Cons.prems show ?case by (cases fuel) (auto simp: tailq_next)
qed

lemma tailq_walk_prev:
  assumes "tailq_list q (as @ bs)" "length as < fuel"
  shows "tailq_walk fuel (TAILQ_PREV q) (if as = [] then None else Some (last as)) = Some (rev as)"
  using assms
proof (induction as arbitrary: bs fuel rule: rev_induct)
  case Nil
  then show ?case by (cases fuel) auto
next
  case (snoc a as)
  from snoc.IH[of "a # bs"] snoc.prems show ?case by (cases fuel) (auto simp: tailq_prev)
qed

lemma tailq_foreach:
  assumes "tailq_list q xs" "length xs < fuel"
  shows "TAILQ_FOREACH fuel q = Some xs" "TAILQ_FOREACH_REVERSE fuel q = Some (rev xs)"
  using assms tailq_walk_next[of q "[]" xs fuel] tailq_walk_prev[of q xs "[]" fuel] tailq_first[OF assms(1)] tailq_last[OF assms(1)]
  by (simp_all add: TAILQ_FOREACH_def TAILQ_FOREACH_REVERSE_def)

section \<open>Histories\<close>

datatype 'a queue_op = Insert_Head 'a | Insert_Tail 'a | Insert_After 'a 'a | Insert_Before 'a 'a | Remove 'a | Replace 'a 'a

fun tailq_step :: "'a queue_op \<Rightarrow> 'a tailq \<Rightarrow> 'a tailq" where
  "tailq_step (Insert_Head x) q = TAILQ_INSERT_HEAD q x"
| "tailq_step (Insert_Tail x) q = TAILQ_INSERT_TAIL q x"
| "tailq_step (Insert_After y x) q = TAILQ_INSERT_AFTER q y x"
| "tailq_step (Insert_Before y x) q = TAILQ_INSERT_BEFORE q y x"
| "tailq_step (Remove x) q = TAILQ_REMOVE q x"
| "tailq_step (Replace x y) q = TAILQ_REPLACE q x y"

text \<open>The same on lists; \<open>None\<close> for an element inserted twice, or a neighbour that is not there.\<close>

fun insert_behind :: "'a \<Rightarrow> 'a \<Rightarrow> 'a list \<Rightarrow> 'a list" where
  "insert_behind y x [] = []"
| "insert_behind y x (z # zs) = (if z = y then z # x # zs else z # insert_behind y x zs)"

fun insert_front :: "'a \<Rightarrow> 'a \<Rightarrow> 'a list \<Rightarrow> 'a list" where
  "insert_front y x [] = []"
| "insert_front y x (z # zs) = (if z = y then x # z # zs else z # insert_front y x zs)"

fun list_step :: "'a queue_op \<Rightarrow> 'a list \<Rightarrow> 'a list option" where
  "list_step (Insert_Head x) xs = (if x \<in> set xs then None else Some (x # xs))"
| "list_step (Insert_Tail x) xs = (if x \<in> set xs then None else Some (xs @ [x]))"
| "list_step (Insert_After y x) xs = (if x \<in> set xs \<or> y \<notin> set xs then None else Some (insert_behind y x xs))"
| "list_step (Insert_Before y x) xs = (if x \<in> set xs \<or> y \<notin> set xs then None else Some (insert_front y x xs))"
| "list_step (Remove x) xs = (if x \<notin> set xs then None else Some (remove1 x xs))"
| "list_step (Replace x y) xs = (if x \<notin> set xs \<or> y \<in> set xs then None else Some (map (\<lambda>z. if z = x then y else z) xs))"

fun list_run :: "'a queue_op list \<Rightarrow> 'a list \<Rightarrow> 'a list option" where
  "list_run [] xs = Some xs"
| "list_run (c # cs) xs = do { xs \<leftarrow> list_step c xs; list_run cs xs }"

lemma split_at:
  assumes "y \<in> set xs" "distinct xs"
  obtains as bs where "xs = as @ y # bs" "y \<notin> set as" "y \<notin> set bs"
  using split_list[OF assms(1)] assms(2) by auto

lemma list_ops_split:
  assumes "y \<notin> set as"
  shows "insert_behind y x (as @ y # bs) = as @ y # x # bs" "insert_front y x (as @ y # bs) = as @ x # y # bs"
    "remove1 y (as @ y # bs) = as @ bs"
  using assms by (induction as) auto

lemma tailq_step_refines:
  assumes "tailq_list q xs" "list_step c xs = Some ys"
  shows "tailq_list (tailq_step c q) ys"
proof -
  have d: "distinct xs" using assms(1) by (simp add: tailq_list_def)
  show ?thesis
  proof (cases c)
    case (Insert_After y x)
    with assms(2) have "y \<in> set xs" "x \<notin> set xs" "ys = insert_behind y x xs" by (auto split: if_splits)
    with assms(1) Insert_After d show ?thesis by (elim split_at) (auto simp: list_ops_split tailq_insert_after)
  next
    case (Insert_Before y x)
    with assms(2) have "y \<in> set xs" "x \<notin> set xs" "ys = insert_front y x xs" by (auto split: if_splits)
    with assms(1) Insert_Before d show ?thesis by (elim split_at) (auto simp: list_ops_split tailq_insert_before)
  next
    case (Remove x)
    with assms(2) have "x \<in> set xs" "ys = remove1 x xs" by (auto split: if_splits)
    with assms(1) Remove d show ?thesis by (elim split_at) (auto simp: list_ops_split tailq_remove)
  next
    case (Replace x y)
    with assms(2) have "x \<in> set xs" "y \<notin> set xs" "ys = map (\<lambda>z. if z = x then y else z) xs" by (auto split: if_splits)
    moreover have "map (\<lambda>z. if z = x then y else z) zs = zs" if "x \<notin> set zs" for zs
      using that by (intro map_idI) auto
    ultimately show ?thesis using assms(1) Replace d by (elim split_at) (auto simp: tailq_replace)
  qed (use assms in \<open>auto simp: tailq_insert_head tailq_insert_tail split: if_splits\<close>)
qed

lemma tailq_run_refines:
  assumes "tailq_list q xs" "list_run cs xs = Some ys"
  shows "tailq_list (fold tailq_step cs q) ys"
  using assms
proof (induction cs arbitrary: q xs)
  case (Cons c cs)
  then obtain zs where "list_step c xs = Some zs" "list_run cs zs = Some ys" by (auto simp: bind_eq_Some_conv)
  with Cons.IH[OF tailq_step_refines[OF Cons.prems(1)]] show ?case by simp
qed simp

section \<open>The interface of the tracker\<close>

text \<open>The flow tracker keeps its flows in the order of their last use: a new flow goes to the end, a flow that is found
  is moved there, and the one to be recycled is the first.\<close>

locale use_order =
  fixes repr :: "'q \<Rightarrow> 'a list \<Rightarrow> bool" and first :: "'q \<Rightarrow> 'a option" and add :: "'q \<Rightarrow> 'a \<Rightarrow> 'q" and drop_elem :: "'q \<Rightarrow> 'a \<Rightarrow> 'q"
  assumes repr_distinct: "repr q xs \<Longrightarrow> distinct xs"
    and first_oldest: "repr q xs \<Longrightarrow> first q = (if xs = [] then None else Some (hd xs))"
    and add_end: "repr q xs \<Longrightarrow> x \<notin> set xs \<Longrightarrow> repr (add q x) (xs @ [x])"
    and drop_out: "repr q xs \<Longrightarrow> x \<in> set xs \<Longrightarrow> repr (drop_elem q x) (remove1 x xs)"
begin

lemma touch: "repr q xs \<Longrightarrow> x \<in> set xs \<Longrightarrow> repr (add (drop_elem q x) x) (remove1 x xs @ [x])"
  using add_end[OF drop_out, of q xs x x] repr_distinct[of q xs] by simp

lemma recycle:
  assumes "repr q (x # xs)"
  shows "first q = Some x" "repr (drop_elem q x) xs"
  using first_oldest[OF assms] drop_out[OF assms, of x] by simp_all

end

interpretation tailq: use_order tailq_list TAILQ_FIRST TAILQ_INSERT_TAIL TAILQ_REMOVE
proof
  fix q :: "'a tailq" and xs and x :: 'a
  assume q: "tailq_list q xs"
  then show "distinct xs" by (simp add: tailq_list_def)
  from q show "TAILQ_FIRST q = (if xs = [] then None else Some (hd xs))" by (rule tailq_first)
  from q show "x \<notin> set xs \<Longrightarrow> tailq_list (TAILQ_INSERT_TAIL q x) (xs @ [x])" by (rule tailq_insert_tail)
  from q show "x \<in> set xs \<Longrightarrow> tailq_list (TAILQ_REMOVE q x) (remove1 x xs)"
    using tailq_step_refines[OF q, of "Remove x"] by simp
qed

section \<open>The list a singly-linked list stands for\<close>

fun sl_path :: "('a \<Rightarrow> 'a option) \<Rightarrow> 'a option \<Rightarrow> 'a list \<Rightarrow> bool" where
  "sl_path nxt p [] \<longleftrightarrow> p = None"
| "sl_path nxt p (x # xs) \<longleftrightarrow> p = Some x \<and> sl_path nxt (nxt x) xs"

definition slist_list :: "'a slist \<Rightarrow> 'a list \<Rightarrow> bool" where
  "slist_list q xs \<longleftrightarrow> distinct xs \<and> sl_path (sle_next q) (slh_first q) xs"

lemma sl_path_upd: "x \<notin> set xs \<Longrightarrow> sl_path (f(x := v)) p xs = sl_path f p xs"
  by (induction xs arbitrary: p) auto

lemma sl_path_split:
  "y \<notin> set as \<Longrightarrow> sl_path f p (as @ y # bs) \<Longrightarrow> sl_path (f(y := v)) v cs \<Longrightarrow> y \<notin> set cs \<Longrightarrow> sl_path (f(y := v)) p (as @ y # cs)"
  by (induction as arbitrary: p) auto

lemma sl_path_next: "sl_path f p (as @ y # bs) \<Longrightarrow> sl_path f (f y) bs"
  by (induction as arbitrary: p) auto

lemma slist_init: "slist_list (SLIST_INIT q) []"
  by (simp add: slist_list_def SLIST_INIT_def)

lemma slist_first: "slist_list q xs \<Longrightarrow> SLIST_FIRST q = (if xs = [] then None else Some (hd xs))"
  by (cases xs) (auto simp: slist_list_def SLIST_FIRST_def)

lemma slist_insert_head: "slist_list q xs \<Longrightarrow> x \<notin> set xs \<Longrightarrow> slist_list (SLIST_INSERT_HEAD q x) (x # xs)"
  by (simp add: slist_list_def SLIST_INSERT_HEAD_def sl_path_upd)

lemma slist_insert_after:
  assumes "slist_list q (as @ y # bs)" "x \<notin> set (as @ y # bs)"
  shows "slist_list (SLIST_INSERT_AFTER q y x) (as @ y # x # bs)"
proof -
  let ?f = "(sle_next q)(x := sle_next q y)"
  have d: "y \<notin> set as" "y \<notin> set bs" "x \<noteq> y" "sl_path (sle_next q) (slh_first q) (as @ y # bs)"
    using assms by (auto simp: slist_list_def)
  have "sl_path ?f (slh_first q) (as @ y # bs)" using d(4) assms(2) by (simp add: sl_path_upd)
  moreover have "sl_path (?f(y := Some x)) (Some x) (x # bs)"
    using sl_path_next[OF d(4)] d(2,3) assms(2) by (simp add: sl_path_upd)
  ultimately have "sl_path (?f(y := Some x)) (slh_first q) (as @ y # x # bs)" using d(1-3) by (intro sl_path_split) auto
  then show ?thesis using assms by (auto simp: slist_list_def SLIST_INSERT_AFTER_def Let_def)
qed

lemma slist_remove_head:
  assumes "slist_list q (x # xs)"
  shows "\<exists>q'. SLIST_REMOVE_HEAD q = Some q' \<and> slist_list q' xs"
  using assms by (simp add: SLIST_REMOVE_HEAD_def slist_list_def)

lemma slist_remove_after:
  assumes "slist_list q (as @ y # x # bs)"
  shows "\<exists>q'. SLIST_REMOVE_AFTER q y = Some q' \<and> slist_list q' (as @ y # bs)"
proof -
  have d: "y \<notin> set as" "y \<notin> set bs" "sl_path (sle_next q) (slh_first q) (as @ y # x # bs)" using assms by (auto simp: slist_list_def)
  from sl_path_next[OF d(3)] have n: "sle_next q y = Some x" "sl_path (sle_next q) (sle_next q x) bs" by auto
  then have "sl_path ((sle_next q)(y := sle_next q x)) (slh_first q) (as @ y # bs)"
    using d by (intro sl_path_split[OF d(1,3)]) (simp_all add: sl_path_upd)
  with n(1) assms show ?thesis by (auto simp: SLIST_REMOVE_AFTER_def slist_list_def)
qed

lemma find_before_spec:
  assumes "sl_path (sle_next q) p (cs @ y # x # bs)" "x \<notin> set (cs @ [y])" "distinct (cs @ y # x # bs)" "Suc (length cs) < fuel"
  shows "find_before fuel q p x = Some y"
  using assms
proof (induction cs arbitrary: p fuel)
  case Nil
  then obtain n where "fuel = Suc n" by (cases fuel) auto
  with Nil show ?case by simp
next
  case (Cons c cs)
  then obtain n where n: "fuel = Suc n" "Suc (length cs) < n" by (cases fuel) auto
  have "sle_next q c \<noteq> Some x" using Cons.prems by (cases cs) auto
  with Cons n show ?case by simp
qed

lemma slist_remove:
  assumes "slist_list q xs" "x \<in> set xs" "length xs < fuel"
  shows "\<exists>q'. SLIST_REMOVE fuel q x = Some q' \<and> slist_list q' (remove1 x xs)"
proof -
  have "distinct xs" using assms(1) by (simp add: slist_list_def)
  with assms(2) obtain as bs where xs: "xs = as @ x # bs" "x \<notin> set as" by (rule split_at)
  show ?thesis
  proof (cases as rule: rev_cases)
    case Nil
    with assms(1) xs show ?thesis using slist_remove_head[of q x bs] by (simp add: SLIST_REMOVE_def slist_list_def)
  next
    case (snoc cs y)
    have "slh_first q \<noteq> Some x" using assms(1) xs snoc by (cases cs) (auto simp: slist_list_def)
    moreover have "find_before fuel q (slh_first q) x = Some y"
      using assms xs snoc by (intro find_before_spec[of q _ cs y x bs]) (auto simp: slist_list_def)
    ultimately show ?thesis using slist_remove_after[of q cs y x bs] assms(1) xs snoc
      by (simp add: SLIST_REMOVE_def remove1_append)
  qed
qed

section \<open>Properties\<close>

text \<open>C12. The tail queue macros, pointer assignments with two-way links, implement a list: after any history of
  insertions, removals and replacements from an empty queue that is valid on lists, the forward loop visits the elements
  of the list and the backward loop, which relies on the casts of \<open>TAILQ_LAST\<close> and \<open>TAILQ_PREV\<close>, the reverse.\<close>

theorem tailq_refines_list:
  assumes "list_run cs [] = Some xs" and "length xs < fuel"
  shows "TAILQ_FOREACH fuel (fold tailq_step cs (TAILQ_INIT q)) = Some xs \<and>
    TAILQ_FOREACH_REVERSE fuel (fold tailq_step cs (TAILQ_INIT q)) = Some (rev xs)"
  using tailq_foreach[OF tailq_run_refines[OF tailq_init assms(1)] assms(2)] by blast

theorem tailq_refines_list_witness:
  "TAILQ_FOREACH_REVERSE 4 (fold tailq_step [Insert_Tail 1, Insert_Head 2, Insert_After 2 3, Remove (1 :: nat)]
     (TAILQ_INIT \<lparr>tqh_first = None, tqh_last = First, tqe_next = (\<lambda>_. None), tqe_prev = (\<lambda>_. First)\<rparr>)) = Some [3, 2]"
  using tailq_refines_list[of "[Insert_Tail 1, Insert_Head 2, Insert_After 2 3, Remove (1 :: nat)]" "[2, 3]" 4] by simp

end
