(* ===== verification/Peak_Jar.thy ===== *)
theory Peak_Jar
  imports Peak_Type Peak_Alloc Peak_Queue
begin

text \<open>
  The jars of \<open>src/lib/peak_jar.c\<close>: data sets of many contexts in one ring buffer, invalidated in the order of the
  serial headers that stand between them.

  The objects in the buffer are named by their offsets. A header or data set that has been overwritten since, in whole
  or in part, is gone from \<open>head_at\<close> and \<open>data_at\<close>, and reading it is \<open>None\<close>. The queue of headers is the list it stands
  for; the queue of the data sets of a context is a tail queue on pointers, since \<open>peak_jar_repair\<close> relinks its elements
  while it walks along them. The loop of \<open>peak_jar_pack\<close> has fuel; without any left, it has not returned.
\<close>

section \<open>State\<close>

abbreviation (input) "JAR_HEAD_COUNT \<equiv> 1000 :: u32"
abbreviation (input) "SIZEOF_JAR_HEAD \<equiv> 32 :: u64"
abbreviation (input) "SIZEOF_JAR_DATA \<equiv> 32 :: u64"
abbreviation (input) "JAR_RETURN \<equiv> 0 :: u32"
abbreviation (input) "JAR_DROP \<equiv> 1 :: u32"
abbreviation (input) "JAR_KEEP \<equiv> 2 :: u32"

record peak_jar_head =
  head_serial :: u32
  head_count :: u32
  head_write :: u64

record peak_jar_data =
  prev_serial :: u32
  data_serial :: u32
  data_bytes :: "u8 list"

record peak_jars =
  heads :: "nat list"
  first_serial :: u32
  last_serial :: u32
  jar_write :: u64
  jar_read :: u64
  jar_size :: u64
  head_at :: "nat \<rightharpoonup> peak_jar_head"
  data_at :: "nat \<rightharpoonup> peak_jar_data"

record peak_jar =
  datas :: "nat tailq"
  ctx_first :: u32
  ctx_last :: u32

definition JAR_INIT :: "peak_jar \<Rightarrow> peak_jar" where
  "JAR_INIT c = c\<lparr>datas := TAILQ_INIT (datas c)\<rparr>"

definition data_room :: "u64 \<Rightarrow> u64" where
  "data_room len = SIZEOF_JAR_DATA + ALLOC_ALIGN len 8"

section \<open>The ring buffer\<close>

text \<open>What writing to \<open>n\<close> bytes from \<open>a\<close> leaves of the objects in the buffer.\<close>

definition clobber :: "nat \<Rightarrow> nat \<Rightarrow> peak_jars \<Rightarrow> peak_jars" where
  "clobber a n self = self\<lparr>
     head_at := (\<lambda>h. if h + unat SIZEOF_JAR_HEAD \<le> a \<or> a + n \<le> h then head_at self h else None),
     data_at := (\<lambda>d. case data_at self d of
       None \<Rightarrow> None
     | Some x \<Rightarrow> if d + unat (data_room (of_nat (length (data_bytes x)))) \<le> a \<or> a + n \<le> d then Some x else None)\<rparr>"

definition peak_jar_write :: "peak_jars \<Rightarrow> u64 \<Rightarrow> nat option \<times> peak_jars" where
  "peak_jar_write self head_room =
     (let write = jar_write self;
          read = jar_read self;
          size = jar_size self;
          new_write = write + head_room;
          ret = unat write;
          free = read - write;
          free = (if write \<ge> read then size - write + read else free);
          (new_write, ret, free) = (if new_write \<ge> size then (head_room, 0, read) else (new_write, ret, free))
      in if head_room \<ge> free then (None, self)
         else (Some ret, self\<lparr>jar_write := new_write\<rparr>))"

definition peak_jar_read :: "peak_jars \<Rightarrow> peak_jars option" where
  "peak_jar_read self =
     (case heads self of
        [] \<Rightarrow> Some self
      | h # hs \<Rightarrow> do {
          head \<leftarrow> head_at self h;
          Some (self\<lparr>heads := hs, jar_read := head_write head, first_serial := first_serial self + 1\<rparr>) })"

section \<open>Contexts\<close>

text \<open>The loop of \<open>peak_jar_repair\<close>: the last element it has reached and the queue.\<close>

fun repair_loop :: "nat \<Rightarrow> peak_jars \<Rightarrow> nat tailq \<Rightarrow> nat \<Rightarrow> (nat \<times> nat tailq) option" where
  "repair_loop 0 self q zap = None"
| "repair_loop (Suc fuel) self q zap = do {
     z \<leftarrow> data_at self zap;
     case TAILQ_NEXT q zap of
       None \<Rightarrow> Some (zap, q)
     | Some n \<Rightarrow>
         if \<not> wrap32 (prev_serial z - first_serial self) then repair_loop fuel self (TAILQ_INSERT_TAIL q n) n
         else Some (zap, q) }"

definition peak_jar_repair :: "nat \<Rightarrow> peak_jars \<Rightarrow> peak_jar \<Rightarrow> peak_jar option" where
  "peak_jar_repair fuel self context =
     (case TAILQ_FIRST (datas context) of
        None \<Rightarrow> Some context
      | Some data \<Rightarrow>
          if heads self = [] then Some (context\<lparr>datas := TAILQ_INIT (datas context)\<rparr>)
          else if wrap32 (ctx_last context - first_serial self) then Some (context\<lparr>datas := TAILQ_INIT (datas context)\<rparr>)
          else if wrap32 (ctx_first context - first_serial self) then do {
            (zap, q) \<leftarrow> repair_loop fuel self (TAILQ_INIT (datas context)) data;
            z \<leftarrow> data_at self zap;
            Some (context\<lparr>datas := q, ctx_first := data_serial z\<rparr>) }
          else Some context)"

text \<open>The end of \<open>peak_jar_pack\<close>, once header and space are there.\<close>

definition pack_data :: "nat \<Rightarrow> peak_jars \<Rightarrow> peak_jar \<Rightarrow> nat \<Rightarrow> nat \<Rightarrow> u8 list \<Rightarrow> (peak_jars \<times> peak_jar) option" where
  "pack_data fuel self context head data buf = do {
     context \<leftarrow> peak_jar_repair fuel self context;
     let self = clobber data (unat (data_room (of_nat (length buf)))) self;
     h \<leftarrow> head_at self head;
     let new = \<lparr>prev_serial = 0, data_serial = head_serial h, data_bytes = buf\<rparr>;
     let context = (if TAILQ_EMPTY (datas context) then context\<lparr>ctx_first := data_serial new\<rparr> else context);
     let context = context\<lparr>datas := TAILQ_INSERT_HEAD (datas context) data\<rparr>;
     let context = context\<lparr>ctx_last := data_serial new\<rparr>;
     new \<leftarrow> (case TAILQ_NEXT (datas context) data of
         None \<Rightarrow> Some new
       | Some n \<Rightarrow> do { x \<leftarrow> data_at self n; Some (new\<lparr>prev_serial := data_serial x\<rparr>) });
     Some (self\<lparr>data_at := (data_at self)(data \<mapsto> new),
        head_at := (head_at self)(head \<mapsto> h\<lparr>head_write := jar_write self, head_count := head_count h + 1\<rparr>)\<rparr>, context) }"

definition new_head :: "peak_jars \<Rightarrow> nat \<Rightarrow> peak_jars" where
  "new_head self h =
     (let self = clobber h (unat SIZEOF_JAR_HEAD) self
      in self\<lparr>heads := heads self @ [h], last_serial := last_serial self + 1,
       head_at := (head_at self)(h \<mapsto> \<lparr>head_serial = last_serial self, head_count = 0, head_write = jar_write self\<rparr>)\<rparr>)"

fun peak_jar_pack :: "nat \<Rightarrow> peak_jars \<Rightarrow> peak_jar \<Rightarrow> u8 list \<Rightarrow> (peak_jars \<times> peak_jar) outcome option" where
  "peak_jar_pack 0 self context buf = Some Hang"
| "peak_jar_pack (Suc fuel) self context buf = do {
     full \<leftarrow> (case heads self of
         [] \<Rightarrow> Some True
       | _ \<Rightarrow> do { h \<leftarrow> head_at self (last (heads self)); Some (head_count h > JAR_HEAD_COUNT) });
     let (ok, self) = (if full then
         (case peak_jar_write self SIZEOF_JAR_HEAD of
            (None, self) \<Rightarrow> (False, self)
          | (Some h, self) \<Rightarrow> (True, new_head self h)) else (True, self));
     if \<not> ok then do {
       self \<leftarrow> peak_jar_read self;
       peak_jar_pack fuel self context buf }
     else
       (case peak_jar_write self (data_room (of_nat (length buf))) of
          (None, self) \<Rightarrow> do {
            self \<leftarrow> peak_jar_read self;
            peak_jar_pack fuel self context buf }
        | (Some data, self) \<Rightarrow> map_option Return (pack_data fuel self context (last (heads self)) data buf)) }"

section \<open>Reading a context\<close>

text \<open>The loops over the data sets, with the callback as a function of the user data; \<open>step\<close> is the direction.\<close>

fun visit_loop ::
  "nat \<Rightarrow> (nat tailq \<Rightarrow> nat \<Rightarrow> nat option) \<Rightarrow> ('u \<Rightarrow> u8 list \<Rightarrow> u32 \<times> 'u) \<Rightarrow> peak_jars \<Rightarrow> nat tailq \<Rightarrow> nat option \<Rightarrow> 'u \<Rightarrow> (nat tailq \<times> 'u) option" where
  "visit_loop 0 step callback self q var u = None"
| "visit_loop (Suc fuel) step callback self q var u =
     (case var of
        None \<Rightarrow> Some (q, u)
      | Some data \<Rightarrow> do {
          let temp = step q data;
          d \<leftarrow> data_at self data;
          let (ret, u) = callback u (data_bytes d);
          if ret = JAR_RETURN then Some (q, u)
          else if ret = JAR_DROP then visit_loop fuel step callback self (TAILQ_REMOVE q data) temp u
          else visit_loop fuel step callback self q temp u })"

definition peak_jar_fifo ::
  "nat \<Rightarrow> peak_jars \<Rightarrow> peak_jar \<Rightarrow> ('u \<Rightarrow> u8 list \<Rightarrow> u32 \<times> 'u) \<Rightarrow> 'u \<Rightarrow> (bool \<times> peak_jar \<times> 'u) option" where
  "peak_jar_fifo fuel self context callback u = do {
     context \<leftarrow> peak_jar_repair fuel self context;
     (q, u) \<leftarrow> visit_loop fuel TAILQ_PREV callback self (datas context) (TAILQ_LAST (datas context)) u;
     Some (\<not> TAILQ_EMPTY q, context\<lparr>datas := q\<rparr>, u) }"

definition peak_jar_lifo ::
  "nat \<Rightarrow> peak_jars \<Rightarrow> peak_jar \<Rightarrow> ('u \<Rightarrow> u8 list \<Rightarrow> u32 \<times> 'u) \<Rightarrow> 'u \<Rightarrow> (bool \<times> peak_jar \<times> 'u) option" where
  "peak_jar_lifo fuel self context callback u = do {
     context \<leftarrow> peak_jar_repair fuel self context;
     (q, u) \<leftarrow> visit_loop fuel TAILQ_NEXT callback self (datas context) (TAILQ_FIRST (datas context)) u;
     Some (\<not> TAILQ_EMPTY q, context\<lparr>datas := q\<rparr>, u) }"

text \<open>Whether \<open>malign\<close> grants the buffer is a parameter.\<close>

definition peak_jar_init :: "u64 \<Rightarrow> bool \<Rightarrow> bool \<times> peak_jars" where
  "peak_jar_init sz malign =
     (let self = \<lparr>heads = [], first_serial = 0, last_serial = 0, jar_write = 0, jar_read = 0, jar_size = 0,
        head_at = Map.empty, data_at = Map.empty\<rparr>
      in if sz AND 0x7 \<noteq> 0 \<or> sz < 128 then (False, self)
         else if \<not> malign then (False, self)
         else (True, self\<lparr>jar_size := sz\<rparr>))"

section \<open>Visiting data sets\<close>

text \<open>What a loop with a callback does to the list of data sets in its order.\<close>

fun visit_list :: "('u \<Rightarrow> u8 list \<Rightarrow> u32 \<times> 'u) \<Rightarrow> peak_jars \<Rightarrow> 'u \<Rightarrow> nat list \<Rightarrow> nat list \<times> 'u" where
  "visit_list callback self u [] = ([], u)"
| "visit_list callback self u (d # ds) =
     (case callback u (case data_at self d of None \<Rightarrow> [] | Some x \<Rightarrow> data_bytes x) of
        (ret, u) \<Rightarrow>
          if ret = JAR_RETURN then (d # ds, u)
          else (case visit_list callback self u ds of (ks, u) \<Rightarrow> (if ret = JAR_DROP then ks else d # ks, u)))"

lemma visit_next:
  assumes "tailq_list q (as @ bs)" "length bs < fuel" "\<forall>d \<in> set bs. data_at self d \<noteq> None"
  shows "\<exists>q'. visit_loop fuel TAILQ_NEXT callback self q (if bs = [] then None else Some (hd bs)) u = Some (q', snd (visit_list callback self u bs)) \<and>
    tailq_list q' (as @ fst (visit_list callback self u bs))"
  using assms
proof (induction bs arbitrary: as q fuel u)
  case Nil
  then show ?case by (cases fuel) auto
next
  case (Cons b bs)
  then obtain n x where n: "fuel = Suc n" "length bs < n" and x: "data_at self b = Some x" by (cases fuel) auto
  obtain ret u' where c: "callback u (data_bytes x) = (ret, u')" by fastforce
  note nx = tailq_next[OF Cons.prems(1)]
  consider "ret = JAR_RETURN" | "ret = JAR_DROP" | "ret \<noteq> JAR_RETURN" "ret \<noteq> JAR_DROP" by blast
  then show ?case
  proof cases
    case 1
    with n x c nx Cons.prems(1) show ?thesis by simp
  next
    case 2
    from Cons.IH[OF tailq_remove[OF Cons.prems(1)] n(2), of u'] Cons.prems(3) 2 n x c nx show ?thesis
      by (auto split: prod.splits)
  next
    case 3
    from Cons.IH[of q "as @ [b]" n u'] Cons.prems 3 n x c nx show ?thesis by (auto split: prod.splits)
  qed
qed

lemma visit_prev:
  assumes "tailq_list q (as @ bs)" "length as < fuel" "\<forall>d \<in> set as. data_at self d \<noteq> None"
  shows "\<exists>q'. visit_loop fuel TAILQ_PREV callback self q (if as = [] then None else Some (last as)) u = Some (q', snd (visit_list callback self u (rev as))) \<and>
    tailq_list q' (rev (fst (visit_list callback self u (rev as))) @ bs)"
  using assms
proof (induction as arbitrary: bs q fuel u rule: rev_induct)
  case Nil
  then show ?case by (cases fuel) auto
next
  case (snoc a as)
  then obtain n x where n: "fuel = Suc n" "length as < n" and x: "data_at self a = Some x" by (cases fuel) auto
  obtain ret u' where c: "callback u (data_bytes x) = (ret, u')" by fastforce
  have q: "tailq_list q (as @ a # bs)" using snoc.prems(1) by simp
  note pv = tailq_prev[OF q]
  consider "ret = JAR_RETURN" | "ret = JAR_DROP" | "ret \<noteq> JAR_RETURN" "ret \<noteq> JAR_DROP" by blast
  then show ?case
  proof cases
    case 1
    with n x c pv q show ?thesis by simp
  next
    case 2
    from snoc.IH[OF tailq_remove[OF q] n(2), of u'] snoc.prems(3) 2 n x c pv show ?thesis
      by (auto split: prod.splits)
  next
    case 3
    from snoc.IH[OF q n(2), of u'] snoc.prems(3) 3 n x c pv show ?thesis by (auto split: prod.splits)
  qed
qed

text \<open>A context all of whose data sets are valid.\<close>

definition context_valid :: "peak_jars \<Rightarrow> peak_jar \<Rightarrow> nat list \<Rightarrow> bool" where
  "context_valid self c xs \<longleftrightarrow> tailq_list (datas c) xs \<and> (\<forall>d \<in> set xs. data_at self d \<noteq> None) \<and>
     (xs \<noteq> [] \<longrightarrow> heads self \<noteq> [] \<and> \<not> wrap32 (ctx_last c - first_serial self) \<and> \<not> wrap32 (ctx_first c - first_serial self))"

lemma repair_valid: "context_valid self c xs \<Longrightarrow> peak_jar_repair fuel self c = Some c"
  by (auto simp: context_valid_def peak_jar_repair_def tailq_first split: if_splits)

section \<open>Room in the buffer\<close>

text \<open>The bytes between the read and the write position.\<close>

definition in_use :: "peak_jars \<Rightarrow> nat \<Rightarrow> bool" where
  "in_use self a \<longleftrightarrow> (if jar_read self \<le> jar_write self then unat (jar_read self) \<le> a \<and> a < unat (jar_write self)
     else a < unat (jar_write self) \<or> unat (jar_read self) \<le> a \<and> a < unat (jar_size self))"

definition jar_bounds :: "peak_jars \<Rightarrow> bool" where
  "jar_bounds self \<longleftrightarrow> jar_read self \<le> jar_size self \<and> jar_write self \<le> jar_size self \<and>
     (\<forall>h x. head_at self h = Some x \<longrightarrow> head_write x \<le> jar_size self)"

lemma jar_write_too_large:
  assumes "jar_bounds self" "jar_size self \<le> n"
  shows "peak_jar_write self n = (None, self)"
proof -
  let ?w = "unat (jar_write self)" and ?r = "unat (jar_read self)" and ?s = "unat (jar_size self)"
  have b: "?r \<le> ?s" "?w \<le> ?s" "?s \<le> unat n" using assms by (auto simp: jar_bounds_def word_le_nat_alt)
  have sw: "unat (jar_size self - jar_write self) = ?s - ?w" using b(2) by (simp add: unat_sub word_le_nat_alt)
  have lt: "?s < 2 ^ 64" by (rule order_less_le_trans[OF unsigned_less]) simp
  have "jar_size self - jar_write self + jar_read self \<le> n" if "jar_read self \<le> jar_write self"
  proof -
    have rw: "?r \<le> ?w" using that by (simp add: word_le_nat_alt)
    then have "unat (jar_size self - jar_write self + jar_read self) = ?s - ?w + ?r"
      using sw b lt by (subst unat_add_small) auto
    with rw b show ?thesis by (simp add: word_le_nat_alt)
  qed
  moreover have "jar_read self - jar_write self \<le> n" if "\<not> jar_read self \<le> jar_write self"
    using that b by (simp add: word_le_nat_alt unat_sub)
  moreover have "jar_read self \<le> n" using b by (simp add: word_le_nat_alt)
  ultimately show ?thesis by (simp add: peak_jar_write_def Let_def)
qed

lemma jar_write_bounds:
  assumes "jar_bounds self" "peak_jar_write self n = (Some a, self')"
  shows "jar_bounds self'" "heads self' = heads self" "jar_size self' = jar_size self" "head_at self' = head_at self"
  using assms by (auto simp: peak_jar_write_def jar_bounds_def Let_def split: if_splits)

lemma clobber_simps [simp]:
  "heads (clobber a n self) = heads self" "jar_size (clobber a n self) = jar_size self" "jar_read (clobber a n self) = jar_read self"
  "jar_write (clobber a n self) = jar_write self"
  by (simp_all add: clobber_def)

lemma new_head_bounds: "jar_bounds self \<Longrightarrow> jar_bounds (new_head self h)"
  by (auto simp: jar_bounds_def new_head_def clobber_def Let_def split: if_splits)

lemma new_head_size: "jar_size (new_head self h) = jar_size self"
  by (simp add: new_head_def Let_def)

lemma jar_read_bounds: "jar_bounds self \<Longrightarrow> peak_jar_read self = Some self' \<Longrightarrow> jar_bounds self' \<and> jar_size self' = jar_size self"
  by (auto simp: jar_bounds_def peak_jar_read_def bind_eq_Some_conv split: list.splits)

lemma pack_too_large:
  assumes "jar_bounds self" "jar_size self \<le> data_room (of_nat (length buf))"
  shows "peak_jar_pack fuel self context buf \<noteq> Some (Return r)"
  using assms
proof (induction fuel arbitrary: self)
  case (Suc fuel)
  have again: "peak_jar_read self1 \<bind> (\<lambda>self. peak_jar_pack fuel self context buf) \<noteq> Some (Return r)"
    if "jar_bounds self1" "jar_size self1 = jar_size self" for self1
    using jar_read_bounds[OF that(1)] Suc.IH Suc.prems(2) that(2) by (auto simp: bind_eq_Some_conv)
  have head: "jar_bounds (new_head self1 h)" "jar_size (new_head self1 h) = jar_size self"
    if "peak_jar_write self SIZEOF_JAR_HEAD = (Some h, self1)" for h self1
    using jar_write_bounds[OF Suc.prems(1) that] new_head_bounds by (simp_all add: new_head_size)
  have none: "peak_jar_read self1 \<bind> (\<lambda>self. peak_jar_pack fuel self context buf) \<noteq> Some (Return r)"
    if "peak_jar_write self n = (None, self1)" for n self1
    using that again[OF Suc.prems(1) refl] by (auto simp: peak_jar_write_def Let_def split: if_splits)
  have data: "peak_jar_write self1 (data_room (of_nat (length buf))) = (None, self1)"
    if "jar_bounds self1" "jar_size self1 = jar_size self" for self1
    using jar_write_too_large[OF that(1)] that(2) Suc.prems(2) by simp
  show ?case
    using Suc.prems again again[OF head] data data[OF head] none
    by (auto simp: bind_eq_Some_conv split: option.splits prod.splits if_splits)
qed simp

text \<open>The header and the data sets that a write of \<open>n\<close> bytes at \<open>a\<close> leaves alone.\<close>

definition survives :: "nat \<Rightarrow> nat \<Rightarrow> peak_jars \<Rightarrow> nat \<Rightarrow> nat list \<Rightarrow> bool" where
  "survives a n self h xs \<longleftrightarrow> (h + unat SIZEOF_JAR_HEAD \<le> a \<or> a + n \<le> h) \<and> a \<notin> set xs \<and>
     (\<forall>d \<in> set xs. case data_at self d of None \<Rightarrow> False
       | Some x \<Rightarrow> d + unat (data_room (of_nat (length (data_bytes x)))) \<le> a \<or> a + n \<le> d)"

section \<open>Properties\<close>

text \<open>C31. The data sets of a valid context are handed to the callback oldest first by \<open>peak_jar_fifo\<close> and newest first by
  \<open>peak_jar_lifo\<close>, up to the one it answers with \<open>JAR_RETURN\<close>; those it answers with \<open>JAR_DROP\<close> leave the context, the
  others keep their order, and the return value says whether any is left.\<close>

theorem jar_visits_in_order:
  assumes "context_valid self c xs" and "length xs < fuel"
  shows "(\<exists>c'. peak_jar_fifo fuel self c callback u =
      Some (fst (visit_list callback self u (rev xs)) \<noteq> [], c', snd (visit_list callback self u (rev xs))) \<and>
      tailq_list (datas c') (rev (fst (visit_list callback self u (rev xs))))) \<and>
    (\<exists>c'. peak_jar_lifo fuel self c callback u =
      Some (fst (visit_list callback self u xs) \<noteq> [], c', snd (visit_list callback self u xs)) \<and>
      tailq_list (datas c') (fst (visit_list callback self u xs)))"
proof -
  from assms(1) have q: "tailq_list (datas c) xs" "\<forall>d \<in> set xs. data_at self d \<noteq> None" by (auto simp: context_valid_def)
  from visit_prev[of "datas c" xs "[]" fuel self callback u] q assms(2) obtain q1 where
    q1: "visit_loop fuel TAILQ_PREV callback self (datas c) (TAILQ_LAST (datas c)) u = Some (q1, snd (visit_list callback self u (rev xs)))"
    "tailq_list q1 (rev (fst (visit_list callback self u (rev xs))))" by (auto simp: tailq_last)
  from visit_next[of "datas c" "[]" xs fuel self callback u] q assms(2) obtain q2 where
    q2: "visit_loop fuel TAILQ_NEXT callback self (datas c) (TAILQ_FIRST (datas c)) u = Some (q2, snd (visit_list callback self u xs))"
    "tailq_list q2 (fst (visit_list callback self u xs))" by (auto simp: tailq_first)
  from repair_valid[OF assms(1)] q1 q2 tailq_empty[OF q1(2)] tailq_empty[OF q2(2)] show ?thesis
    by (simp add: peak_jar_fifo_def peak_jar_lifo_def)
qed

definition sample_jars :: peak_jars where
  "sample_jars = \<lparr>heads = [0], first_serial = 4, last_serial = 6, jar_write = 600, jar_read = 950, jar_size = 1000,
     head_at = [0 \<mapsto> \<lparr>head_serial = 5, head_count = 2, head_write = 600\<rparr>],
     data_at = [32 \<mapsto> \<lparr>prev_serial = 3, data_serial = 4, data_bytes = [1]\<rparr>, 72 \<mapsto> \<lparr>prev_serial = 4, data_serial = 5, data_bytes = [2]\<rparr>]\<rparr>"

definition sample_queue :: "nat list \<Rightarrow> nat tailq" where
  "sample_queue xs = fold (\<lambda>x q. TAILQ_INSERT_HEAD q x) xs
     (TAILQ_INIT \<lparr>tqh_first = None, tqh_last = First, tqe_next = (\<lambda>_. None), tqe_prev = (\<lambda>_. First)\<rparr>)"

lemma sample_queue_list: "distinct xs \<Longrightarrow> tailq_list (sample_queue xs) (rev xs)"
proof (induction xs rule: rev_induct)
  case Nil
  then show ?case by (simp add: sample_queue_def tailq_init)
next
  case (snoc x xs)
  then show ?case using tailq_insert_head[of "sample_queue xs" "rev xs" x] by (simp add: sample_queue_def)
qed

theorem jar_visits_in_order_witness:
  "\<exists>c'. peak_jar_fifo 3 sample_jars \<lparr>datas = sample_queue [32, 72], ctx_first = 4, ctx_last = 5\<rparr> (\<lambda>u b. (JAR_KEEP, u @ b)) [] = Some (True, c', [1, 2])"
proof -
  have "tailq_list (sample_queue [32, 72]) [72, 32]" using sample_queue_list[of "[32, 72]"] by simp
  then have "context_valid sample_jars \<lparr>datas = sample_queue [32, 72], ctx_first = 4, ctx_last = 5\<rparr> [72, 32]"
    by (simp add: context_valid_def sample_jars_def wrap32_def)
  from jar_visits_in_order[OF this, of 3 "\<lambda>u b. (JAR_KEEP, u @ b)" "[]"] show ?thesis by (auto simp: sample_jars_def)
qed

text \<open>C32. Packing into a jar with a current header and room for the data set returns at once and puts the data set
  in front of the context, provided the space granted holds none of the objects still needed: the context stays valid,
  the new data set holds the bytes, and the older ones are untouched.\<close>

theorem jar_pack_stores:
  assumes "context_valid self c xs" and "heads self \<noteq> []" "head_at self (last (heads self)) = Some h" "\<not> JAR_HEAD_COUNT < head_count h"
    and "\<not> wrap32 (head_serial h - first_serial self)"
    and "peak_jar_write self (data_room (of_nat (length buf))) = (Some a, self1)"
    and "survives a (unat (data_room (of_nat (length buf)))) self (last (heads self)) xs"
  shows "\<exists>self' c' x. peak_jar_pack (Suc fuel) self c buf = Some (Return (self', c')) \<and> context_valid self' c' (a # xs) \<and>
    data_at self' a = Some x \<and> data_bytes x = buf \<and> (\<forall>d \<in> set xs. data_at self' d = data_at self d)"
proof -
  let ?n = "unat (data_room (of_nat (length buf)))"
  let ?self = "clobber a ?n self1" and ?c = "c\<lparr>ctx_first := if xs = [] then head_serial h else ctx_first c,
    datas := TAILQ_INSERT_HEAD (datas c) a, ctx_last := head_serial h\<rparr>"
  have w: "heads self1 = heads self" "head_at self1 = head_at self" "data_at self1 = data_at self" "first_serial self1 = first_serial self"
    using assms(6) by (auto simp: peak_jar_write_def Let_def split: if_splits)
  have valid1: "context_valid self1 c xs" using assms(1) w by (simp add: context_valid_def)
  have h: "head_at ?self (last (heads self)) = Some h" using assms(3,7) w(2) by (simp add: clobber_def survives_def)
  have old: "data_at ?self d = data_at self d" if "d \<in> set xs" for d
    using that assms(7) w(3) by (auto simp: clobber_def survives_def split: option.splits)
  have q: "tailq_list (datas c) xs" using assms(1) by (simp add: context_valid_def)
  have a: "a \<notin> set xs" using assms(7) by (simp add: survives_def)
  note q' = tailq_insert_head[OF q a]
  have nx: "TAILQ_NEXT (TAILQ_INSERT_HEAD (datas c) a) a = (if xs = [] then None else Some (hd xs))"
    using tailq_next[of _ "[]" a xs] q' by simp
  have "data_at ?self (hd xs) \<noteq> None" if "xs \<noteq> []"
    using assms(1) old[OF hd_in_set[OF that]] hd_in_set[OF that] by (simp add: context_valid_def)
  then obtain y where y: "xs \<noteq> [] \<longrightarrow> data_at ?self (hd xs) = Some y" by blast
  define x where "x = \<lparr>prev_serial = (if xs = [] then 0 else data_serial y), data_serial = head_serial h, data_bytes = buf\<rparr>"
  let ?self' = "?self\<lparr>data_at := (data_at ?self)(a \<mapsto> x),
    head_at := (head_at ?self)(last (heads self) \<mapsto> h\<lparr>head_write := jar_write ?self, head_count := head_count h + 1\<rparr>)\<rparr>"
  have "pack_data fuel self1 c (last (heads self)) a buf = Some (?self', ?c)"
    using repair_valid[OF valid1] h nx y tailq_empty[OF q] by (auto simp: pack_data_def Let_def x_def)
  then have "peak_jar_pack (Suc fuel) self c buf = Some (Return (?self', ?c))"
    using assms(2-4,6) w(1) by (auto simp: neq_Nil_conv)
  moreover have "context_valid ?self' ?c (a # xs)"
    using q' assms(1,2,5) old w(1,4) by (auto simp: context_valid_def clobber_def)
  ultimately show ?thesis using old a by (intro exI[of _ ?self'] exI[of _ ?c] exI[of _ x]) (auto simp: x_def)
qed

theorem jar_pack_stores_witness:
  "\<exists>self' c'. peak_jar_pack 1 sample_jars \<lparr>datas = sample_queue [32, 72], ctx_first = 4, ctx_last = 5\<rparr> [3, 4] = Some (Return (self', c')) \<and>
    context_valid self' c' [600, 72, 32]"
proof -
  have "tailq_list (sample_queue [32, 72]) [72, 32]" using sample_queue_list[of "[32, 72]"] by simp
  then have c: "context_valid sample_jars \<lparr>datas = sample_queue [32, 72], ctx_first = 4, ctx_last = 5\<rparr> [72, 32]"
    by (simp add: context_valid_def sample_jars_def wrap32_def)
  have w: "peak_jar_write sample_jars (data_room (of_nat (length [3, 4 :: u8]))) = (Some 600, sample_jars\<lparr>jar_write := 640\<rparr>)"
    by (simp add: peak_jar_write_def sample_jars_def data_room_def ALLOC_ALIGN_def)
  have s: "survives 600 (unat (data_room (of_nat (length [3, 4 :: u8])))) sample_jars (last (heads sample_jars)) [72, 32]"
    by (simp add: survives_def sample_jars_def data_room_def ALLOC_ALIGN_def)
  from jar_pack_stores[OF c _ _ _ _ w s, of "\<lparr>head_serial = 5, head_count = 2, head_write = 600\<rparr>" 0] show ?thesis
    by (auto simp: sample_jars_def wrap32_def)
qed

text \<open>C33. The space that \<open>peak_jar_write\<close> grants lies inside the buffer, but it is not always free: it overlaps the bytes
  between the read and the write position exactly if the write position is behind a wrap (below the read position) and
  the request would run over the end of the buffer again, in which case the write position is set back to the start
  without looking at it.\<close>

theorem jar_write_overlaps_iff:
  assumes "peak_jar_write self n = (Some a, self')" and "unat (jar_read self) \<le> unat (jar_size self)" "unat (jar_write self) < unat (jar_size self)"
    and "unat (jar_size self) + unat n < 2 ^ 64" and "0 < unat n"
  shows "a + unat n \<le> unat (jar_size self) \<and>
    ((\<exists>i. a \<le> i \<and> i < a + unat n \<and> in_use self i) \<longleftrightarrow>
      0 < unat (jar_write self) \<and> jar_write self < jar_read self \<and> unat (jar_size self) \<le> unat (jar_write self) + unat n)"
proof -
  let ?w = "unat (jar_write self)" and ?r = "unat (jar_read self)" and ?s = "unat (jar_size self)" and ?n = "unat n"
  have wn: "unat (jar_write self + n) = ?w + ?n" using assms(3,4) by (intro unat_add_small) linarith
  have sw: "unat (jar_size self - jar_write self) = ?s - ?w" using assms(3) by (simp add: unat_sub word_le_nat_alt)
  have used: "in_use self i \<longleftrightarrow> (if ?r \<le> ?w then ?r \<le> i \<and> i < ?w else i < ?w \<or> ?r \<le> i \<and> i < ?s)" for i
    by (simp add: in_use_def word_le_nat_alt)
  show ?thesis
  proof (cases "?s \<le> ?w + ?n")
    case True
    then have a: "a = 0" "?n < ?r" using assms(1) wn by (auto simp: peak_jar_write_def Let_def word_le_nat_alt split: if_splits)
    then have "(\<exists>i. a \<le> i \<and> i < a + ?n \<and> in_use self i) \<longleftrightarrow> 0 < ?w \<and> ?w < ?r"
      using assms(5) unfolding used by (auto intro: exI[of _ 0])
    with a True assms(2) show ?thesis by (simp add: word_less_nat_alt)
  next
    case False
    then have a: "a = ?w" using assms(1) wn by (auto simp: peak_jar_write_def Let_def word_le_nat_alt split: if_splits)
    have "?n < ?r - ?w" if "?w < ?r"
      using that False assms(1) wn by (auto simp: peak_jar_write_def Let_def word_le_nat_alt unat_sub split: if_splits)
    with False a show ?thesis unfolding used by auto
  qed
qed

theorem jar_write_overlaps_iff_witness:
  "\<exists>self'. peak_jar_write sample_jars 450 = (Some 0, self') \<and> (\<exists>i. i < 450 \<and> in_use sample_jars i)"
proof -
  have w: "peak_jar_write sample_jars 450 = (Some 0, sample_jars\<lparr>jar_write := 450\<rparr>)" by (simp add: peak_jar_write_def sample_jars_def)
  from jar_write_overlaps_iff[OF w] show ?thesis using w by (auto simp: sample_jars_def)
qed

text \<open>C39. When the oldest data sets of a context have been overwritten, \<open>peak_jar_repair\<close> should keep the valid rest; but
  it forgets the newest one, which it starts from without relinking it, and stops after one more, since relinking that
  one cuts the chain it walks along.\<close>

theorem jar_repair_loses_newest:
  assumes "tailq_list (datas c) (d # ds)" and "heads self \<noteq> []" and "\<not> wrap32 (ctx_last c - first_serial self)"
    and "wrap32 (ctx_first c - first_serial self)" and "data_at self d = Some z" and "ds \<noteq> [] \<longrightarrow> data_at self (hd ds) \<noteq> None"
  shows "\<exists>c'. peak_jar_repair (Suc (Suc fuel)) self c = Some c' \<and>
    tailq_list (datas c') (if ds = [] \<or> wrap32 (prev_serial z - first_serial self) then [] else [hd ds])"
proof -
  have nx: "TAILQ_NEXT (TAILQ_INIT (datas c)) d = (if ds = [] then None else Some (hd ds))"
    using tailq_next[of "datas c" "[]" d ds] assms(1) by (simp add: TAILQ_INIT_def TAILQ_NEXT_def)
  show ?thesis
  proof (cases "ds = [] \<or> wrap32 (prev_serial z - first_serial self)")
    case True
    with nx assms(5) have "repair_loop (Suc (Suc fuel)) self (TAILQ_INIT (datas c)) d = Some (d, TAILQ_INIT (datas c))" by auto
    with assms True tailq_first[OF assms(1)] show ?thesis by (simp add: peak_jar_repair_def tailq_init del: repair_loop.simps)
  next
    case False
    let ?q = "TAILQ_INSERT_TAIL (TAILQ_INIT (datas c)) (hd ds)"
    have q: "tailq_list ?q ([] @ hd ds # [])" using tailq_insert_tail[OF tailq_init] by simp
    from False assms(6) obtain y where y: "data_at self (hd ds) = Some y" by auto
    then have "repair_loop (Suc fuel) self ?q (hd ds) = Some (hd ds, ?q)" using tailq_next[OF q] by simp
    with nx False assms(5) have "repair_loop (Suc (Suc fuel)) self (TAILQ_INIT (datas c)) d = Some (hd ds, ?q)" by simp
    with assms False tailq_first[OF assms(1)] y q show ?thesis by (simp add: peak_jar_repair_def del: repair_loop.simps)
  qed
qed

theorem jar_repair_loses_newest_witness:
  "\<exists>c'. peak_jar_repair 2 sample_jars \<lparr>datas = sample_queue [8, 32, 72], ctx_first = 3, ctx_last = 5\<rparr> = Some c' \<and> tailq_list (datas c') [32]"
proof -
  have "tailq_list (sample_queue [8, 32, 72]) [72, 32, 8]" using sample_queue_list[of "[8, 32, 72]"] by simp
  then have "tailq_list (datas \<lparr>datas = sample_queue [8, 32, 72], ctx_first = 3, ctx_last = 5\<rparr>) (72 # [32, 8])" by simp
  moreover have "\<not> wrap32 (5 - 4)" "wrap32 (3 - 4)" "\<not> wrap32 (4 - 4)" by code_simp+
  ultimately show ?thesis
    using jar_repair_loses_newest[of "\<lparr>datas = sample_queue [8, 32, 72], ctx_first = 3, ctx_last = 5\<rparr>" 72 "[32, 8]" sample_jars
        "\<lparr>prev_serial = 4, data_serial = 5, data_bytes = [2]\<rparr>" 0] by (simp add: sample_jars_def numeral_2_eq_2)
qed

text \<open>C40. A data set that does not fit the buffer is not refused: \<open>peak_jar_pack\<close> never returns for it, it discards all
  older data and tries again forever.\<close>

theorem jar_pack_never_returns:
  assumes "jar_bounds self" and "jar_size self \<le> data_room (of_nat (length buf))"
  shows "peak_jar_pack fuel self context buf \<noteq> Some (Return r)"
  by (rule pack_too_large[OF assms])

theorem jar_pack_never_returns_witness:
  "\<not> (\<exists>fuel r. peak_jar_pack fuel (snd (peak_jar_init 128 True)) \<lparr>datas = sample_queue [], ctx_first = 0, ctx_last = 0\<rparr> (replicate 200 0) = Some (Return r))"
proof -
  have "jar_bounds (snd (peak_jar_init 128 True))" "jar_size (snd (peak_jar_init 128 True)) \<le> data_room (of_nat (length (replicate 200 (0 :: u8))))"
    by (simp_all add: jar_bounds_def peak_jar_init_def data_room_def ALLOC_ALIGN_def)
  from jar_pack_never_returns[OF this] show ?thesis by blast
qed

end
