(* ===== verification/Peak_Os.thy ===== *)
theory Peak_Os
  imports Peak_Type
begin

text \<open>
  The system calls the file readers and writers of the library make: \<open>open(2)\<close>, \<open>read(2)\<close>, \<open>write(2)\<close>, \<open>lseek(2)\<close>
  and \<open>close(2)\<close> on regular files.

  The state is the contents of the files by their path, the table of open descriptors, the paths that may be created
  and the room left for data. A descriptor is a path, a position and whether it was opened for writing. \<open>open\<close> gives
  the lowest free descriptor; \<open>read\<close> returns fewer bytes than asked for only at the end of the file, and fails for
  a count that is no \<open>ssize_t\<close> (what the systems libpeak supports do; the standard leaves it open); \<open>write\<close> is short
  when the room is exhausted. Interrupted calls, media errors and concurrent changes of a file are not modelled.
\<close>

record ofile =
  file_path :: string
  file_pos :: nat
  file_write :: bool

record os =
  disk :: "string \<Rightarrow> mem option"
  may_create :: "string \<Rightarrow> bool"
  room :: nat
  fds :: "ofile option list"

abbreviation (input) STDIN_FILENO :: int where
  "STDIN_FILENO \<equiv> 0"

definition content :: "os \<Rightarrow> string \<Rightarrow> mem" where
  "content os p = (case disk os p of None \<Rightarrow> [] | Some c \<Rightarrow> c)"

fun lowest_free :: "'a option list \<Rightarrow> nat" where
  "lowest_free [] = 0"
| "lowest_free (None # xs) = 0"
| "lowest_free (Some x # xs) = Suc (lowest_free xs)"

definition set_fd :: "'a option list \<Rightarrow> nat \<Rightarrow> 'a option \<Rightarrow> 'a option list" where
  "set_fd t fd x = (if fd < length t then t[fd := x] else t @ [x])"

definition fd_file :: "os \<Rightarrow> int \<Rightarrow> ofile option" where
  "fd_file os fd = (if 0 \<le> fd \<and> nat fd < length (fds os) then fds os ! nat fd else None)"

definition put_fd :: "os \<Rightarrow> int \<Rightarrow> ofile option \<Rightarrow> os" where
  "put_fd os fd x = os\<lparr>fds := set_fd (fds os) (nat fd) x\<rparr>"

definition open_new :: "ofile \<Rightarrow> os \<Rightarrow> int \<times> os" where
  "open_new f os = (let fd = int (lowest_free (fds os)) in (fd, put_fd os fd (Some f)))"

text \<open>\<open>open(path, O_RDONLY)\<close> and \<open>open(path, O_WRONLY|O_CREAT|O_TRUNC, mode)\<close>.\<close>

definition open_rdonly :: "string \<Rightarrow> os \<Rightarrow> int \<times> os" where
  "open_rdonly p os = (if disk os p = None then (- 1, os)
     else open_new \<lparr>file_path = p, file_pos = 0, file_write = False\<rparr> os)"

definition open_trunc :: "string \<Rightarrow> os \<Rightarrow> int \<times> os" where
  "open_trunc p os = (if \<not> may_create os p then (- 1, os)
     else open_new \<lparr>file_path = p, file_pos = 0, file_write = True\<rparr> (os\<lparr>disk := (disk os)(p \<mapsto> [])\<rparr>))"

definition sys_close :: "int \<Rightarrow> os \<Rightarrow> os" where
  "sys_close fd os = (if fd_file os fd = None then os else put_fd os fd None)"

definition sys_read :: "int \<Rightarrow> u64 \<Rightarrow> os \<Rightarrow> int \<times> mem \<times> os" where
  "sys_read fd n os = (case fd_file os fd of
     None \<Rightarrow> (- 1, [], os)
   | Some f \<Rightarrow>
       if file_write f \<or> sint n < 0 then (- 1, [], os)
       else let bs = take (unat n) (drop (file_pos f) (content os (file_path f)))
            in (int (length bs), bs, put_fd os fd (Some (f\<lparr>file_pos := file_pos f + length bs\<rparr>))))"

datatype whence = SEEK_SET | SEEK_CUR

definition sys_lseek :: "int \<Rightarrow> int \<Rightarrow> whence \<Rightarrow> os \<Rightarrow> int \<times> os" where
  "sys_lseek fd off whence os = (case fd_file os fd of
     None \<Rightarrow> (- 1, os)
   | Some f \<Rightarrow>
       let p = (case whence of SEEK_SET \<Rightarrow> off | SEEK_CUR \<Rightarrow> int (file_pos f) + off)
       in if p < 0 then (- 1, os) else (p, put_fd os fd (Some (f\<lparr>file_pos := nat p\<rparr>))))"

text \<open>Bytes that a file position beyond the end skips read as zero later.\<close>

definition splice_at :: "mem \<Rightarrow> nat \<Rightarrow> mem \<Rightarrow> mem" where
  "splice_at c p bs = take p c @ replicate (p - length c) 0 @ bs @ drop (p + length bs) c"

definition sys_write :: "int \<Rightarrow> mem \<Rightarrow> os \<Rightarrow> int \<times> os" where
  "sys_write fd bs os = (case fd_file os fd of
     None \<Rightarrow> (- 1, os)
   | Some f \<Rightarrow>
       if \<not> file_write f then (- 1, os)
       else if bs \<noteq> [] \<and> room os = 0 then (- 1, os)
       else let out = take (room os) bs
            in (int (length out),
                put_fd (os\<lparr>disk := (disk os)(file_path f \<mapsto> splice_at (content os (file_path f)) (file_pos f) out),
                  room := room os - length out\<rparr>) fd (Some (f\<lparr>file_pos := file_pos f + length out\<rparr>))))"

text \<open>What a call that fills a buffer leaves in it; writing past its end is undefined.\<close>

definition fill :: "mem \<Rightarrow> mem \<Rightarrow> mem option" where
  "fill buf bs = (if length bs \<le> length buf then Some (bs @ drop (length bs) buf) else None)"

section \<open>Descriptors\<close>

lemma lowest_free_le: "lowest_free t \<le> length t"
  by (induction t rule: lowest_free.induct) auto

lemma lowest_free_nth: "lowest_free t < length t \<Longrightarrow> t ! lowest_free t = None"
  by (induction t rule: lowest_free.induct) auto

lemma set_fd_nth: "fd \<le> length t \<Longrightarrow> i < length (set_fd t fd x) \<Longrightarrow> set_fd t fd x ! i = (if i = fd then x else t ! i)"
  by (auto simp: set_fd_def nth_append split: if_splits)

lemma length_set_fd: "length (set_fd t fd x) = (if fd < length t then length t else Suc (length t))"
  by (simp add: set_fd_def)

lemma set_fd_twice: "fd \<le> length t \<Longrightarrow> set_fd (set_fd t fd x) fd y = set_fd t fd y"
  by (auto simp: set_fd_def list_update_append nth_append)

lemma fd_file_bound: "fd_file os fd = Some f \<Longrightarrow> 0 \<le> fd \<and> nat fd < length (fds os)"
  by (auto simp: fd_file_def split: if_splits)

lemma put_fd_simps [simp]:
  "disk (put_fd os fd x) = disk os" "room (put_fd os fd x) = room os" "may_create (put_fd os fd x) = may_create os"
  "content (put_fd os fd x) p = content os p"
  by (simp_all add: put_fd_def content_def)

lemma fd_file_disk [simp]: "fd_file (os\<lparr>disk := d, room := r\<rparr>) fd = fd_file os fd" "fd_file (os\<lparr>disk := d\<rparr>) fd = fd_file os fd"
  by (simp_all add: fd_file_def)

lemma fd_file_put_fd [simp]: "fd_file os fd = Some f \<Longrightarrow> fd_file (put_fd os fd x) fd = x"
  by (drule fd_file_bound) (simp add: fd_file_def put_fd_def set_fd_def)

lemma put_fd_twice [simp]: "fd_file os fd = Some f \<Longrightarrow> put_fd (put_fd os fd x) fd y = put_fd os fd y"
  using fd_file_bound[of os fd f] by (simp add: put_fd_def set_fd_twice)

lemma put_fd_same: "fd_file os fd = Some f \<Longrightarrow> put_fd os fd (Some f) = os"
proof -
  assume f: "fd_file os fd = Some f"
  then have "nat fd < length (fds os)" "fds os ! nat fd = Some f" by (auto simp: fd_file_def split: if_splits)
  then have "set_fd (fds os) (nat fd) (Some f) = fds os" using list_update_id[of "fds os" "nat fd"] by (simp add: set_fd_def)
  then show ?thesis by (simp add: put_fd_def)
qed

lemma open_new_spec:
  assumes "open_new f os = (fd, os')"
  shows "0 \<le> fd" "fd_file os fd = None" "fd_file os' fd = Some f" "disk os' = disk os" "room os' = room os"
    "may_create os' = may_create os"
  using assms lowest_free_le[of "fds os"] lowest_free_nth[of "fds os"]
  by (auto simp: open_new_def fd_file_def put_fd_def set_fd_def Let_def nth_append)

lemma open_rdonly_spec: "open_rdonly p os = (fd, os') \<Longrightarrow>
  (if disk os p = None then fd = - 1 \<and> os' = os
   else 0 \<le> fd \<and> fd_file os' fd = Some \<lparr>file_path = p, file_pos = 0, file_write = False\<rparr> \<and> disk os' = disk os \<and> room os' = room os)"
  by (auto simp: open_rdonly_def dest: open_new_spec split: if_splits)

text \<open>Closing what was just opened gives back a table with the same open descriptors.\<close>

definition same_open :: "os \<Rightarrow> os \<Rightarrow> bool" where
  "same_open os os' \<longleftrightarrow> disk os' = disk os \<and> room os' = room os \<and> (\<forall>fd. fd_file os' fd = fd_file os fd)"

lemma open_put_close:
  assumes "open_new f os = (fd, os1)"
  shows "same_open os (sys_close fd (put_fd os1 fd (Some g)))" "same_open os (sys_close fd os1)"
proof -
  have "same_open os (put_fd (put_fd os1 fd y) fd None)" for y
    using assms lowest_free_le[of "fds os"] lowest_free_nth[of "fds os"]
    by (auto simp: open_new_def same_open_def fd_file_def put_fd_def set_fd_twice length_set_fd Let_def)
      (auto simp: set_fd_def nth_append nth_list_update split: if_splits)
  note all = this[of "Some g"] this[of "Some f"]
  moreover have f: "fd_file os1 fd = Some f" using open_new_spec(3)[OF assms] .
  ultimately show "same_open os (sys_close fd (put_fd os1 fd (Some g)))" "same_open os (sys_close fd os1)"
    by (simp_all add: sys_close_def put_fd_same)
qed

section \<open>Reading and writing\<close>

lemma sys_read_at:
  assumes "fd_file os fd = Some f" "\<not> file_write f" "content os (file_path f) = pre @ bs @ post"
    "file_pos f = length pre" "unat n = length bs" "length bs < 2 ^ 63"
  shows "sys_read fd n os = (int (length bs), bs, put_fd os fd (Some (f\<lparr>file_pos := length pre + length bs\<rparr>)))"
proof -
  have "\<not> sint n < 0" using assms(5,6) by (simp add: sint_small)
  then show ?thesis using assms by (simp add: sys_read_def)
qed

lemma sys_read_short: "sys_read fd n os = (r, bs, os') \<Longrightarrow> length bs \<le> unat n \<and> (r = - 1 \<and> bs = [] \<and> os' = os \<or> r = int (length bs))"
  by (auto simp: sys_read_def Let_def split: option.splits if_splits)

lemma sys_read_length: "sys_read fd n os = (r, bs, os') \<Longrightarrow> 0 \<le> r \<Longrightarrow> length bs = nat r"
  using sys_read_short[of fd n os r bs os'] by auto

lemma fill_Some: "length bs \<le> length buf \<Longrightarrow> fill buf bs = Some (bs @ drop (length bs) buf)"
  by (simp add: fill_def)

lemma splice_end [simp]: "splice_at c (length c) bs = c @ bs"
  by (simp add: splice_at_def)

lemma sys_write_append:
  fixes bs :: mem
  assumes f: "fd_file os fd = Some f" "file_write f" "disk os (file_path f) = Some c" "file_pos f = length c"
  defines "out \<equiv> take (room os) bs"
  defines "os' \<equiv> put_fd (os\<lparr>disk := (disk os)(file_path f \<mapsto> c @ out), room := room os - length out\<rparr>) fd (Some (f\<lparr>file_pos := length (c @ out)\<rparr>))"
  shows "\<exists>ret. sys_write fd bs os = (ret, os') \<and> (if length bs \<le> room os then ret = int (length bs) else ret < int (length bs))"
proof (cases "bs \<noteq> [] \<and> room os = 0")
  case True
  have "(disk os)(file_path f \<mapsto> c @ out) = disk os" "room os - length out = room os" using True f(3) by (auto simp: out_def)
  moreover have "f\<lparr>file_pos := length (c @ out)\<rparr> = f" using True f(4) by (cases f) (simp add: out_def)
  ultimately have "os' = put_fd os fd (Some f)" by (simp add: os'_def)
  then have "os' = os" using put_fd_same[OF f(1)] by simp
  with True f show ?thesis by (auto simp: sys_write_def)
next
  case False
  then show ?thesis using f by (auto simp: sys_write_def Let_def content_def os'_def out_def)
qed

section \<open>Structures in files\<close>

text \<open>The bytes of an integer of a structure in memory, least significant first.\<close>

definition le16_bytes :: "u16 \<Rightarrow> mem" where
  "le16_bytes w = [ucast w, ucast (drop_bit 8 w)]"

definition le32_bytes :: "u32 \<Rightarrow> mem" where
  "le32_bytes w = [ucast w, ucast (drop_bit 8 w), ucast (drop_bit 16 w), ucast (drop_bit 24 w)]"

lemma length_le_bytes [simp]: "length (le16_bytes w) = 2" "length (le32_bytes v) = 4"
  by (simp_all add: le16_bytes_def le32_bytes_def)

lemma le32dec_append: "p + 4 \<le> length a \<Longrightarrow> peak_le32dec (a @ b) p = peak_le32dec a p"
  by (simp add: peak_le32dec_def load8_def nth_append)

lemma le32dec_drop: "length a \<le> p \<Longrightarrow> peak_le32dec (a @ b) p = peak_le32dec b (p - length a)"
proof -
  assume "length a \<le> p"
  then obtain q where "p = length a + q" by (metis le_iff_add)
  moreover have "load8 (a @ b) (length a + n) = load8 b n" for n by (simp add: load8_def)
  ultimately show ?thesis unfolding peak_le32dec_def by (simp only: add.assoc diff_add_inverse)
qed

lemma le32dec_le32_bytes: "peak_le32dec (le32_bytes w) 0 = Some w"
  by (simp add: peak_le32dec_def load8_def le32_bytes_def split32)

lemmas le32dec_struct = le32dec_append le32dec_drop le32dec_le32_bytes

section \<open>Reading at a position\<close>

lemma decode_total:
  "p + 2 \<le> length m \<Longrightarrow> \<exists>w. peak_le16dec m p = Some w" "p + 2 \<le> length m \<Longrightarrow> \<exists>w. peak_be16dec m p = Some w"
  "p + 4 \<le> length m \<Longrightarrow> \<exists>w. peak_le32dec m p = Some w" "p + 8 \<le> length m \<Longrightarrow> \<exists>w. peak_le64dec m p = Some w"
  using decode_eq_None_iff[of m p] by (auto simp: not_less)

lemma unat_ucast_64 [simp]: "unat (ucast (w :: u32) :: u64) = unat w" "unat (ucast (v :: u16) :: u64) = unat v"
  by (transfer, simp)+

lemma load8_window: "i < n \<Longrightarrow> p + n \<le> length c \<Longrightarrow> load8 (take n (drop p c)) i = load8 c (p + i)"
  by (simp add: load8_def)

lemma le32dec_window: "q + 4 \<le> n \<Longrightarrow> p + n \<le> length c \<Longrightarrow> peak_le32dec (take n (drop p c)) q = peak_le32dec c (p + q)"
  unfolding peak_le32dec_def by (simp only: load8_window add.assoc)

lemma sys_read_in:
  assumes "fd_file os d = Some f" "\<not> file_write f" "0 \<le> sint n"
  defines "bs \<equiv> take (unat n) (drop (file_pos f) (content os (file_path f)))"
  shows "sys_read d n os = (int (length bs), bs, put_fd os d (Some (f\<lparr>file_pos := file_pos f + length bs\<rparr>)))"
  using assms by (simp add: sys_read_def)

lemma sys_read_eof:
  assumes "fd_file os d = Some f" "\<not> file_write f" "0 \<le> sint n" "0 < unat n" "length (content os (file_path f)) < file_pos f + unat n"
  shows "\<exists>ret bs os'. sys_read d n os = (ret, bs, os') \<and> ret \<noteq> int (unat n)"
  using sys_read_in[OF assms(1-3)] assms(4,5) by (auto simp del: of_nat_unat)

lemma seek_in:
  "fd_file os d = Some f \<Longrightarrow> 0 \<le> int (file_pos f) + k \<Longrightarrow>
   snd (sys_lseek d k SEEK_CUR os) = put_fd os d (Some (f\<lparr>file_pos := nat (int (file_pos f) + k)\<rparr>))"
  by (simp add: sys_lseek_def Let_def)

text \<open>System calls that only move the position of one descriptor.\<close>

definition moves :: "int \<Rightarrow> os \<Rightarrow> os \<Rightarrow> bool" where
  "moves d os os' \<longleftrightarrow> (\<exists>f k. fd_file os d = Some f \<and> os' = put_fd os d (Some (f\<lparr>file_pos := k\<rparr>)))"

lemma movesI: "fd_file os d = Some f \<Longrightarrow> moves d os (put_fd os d (Some (f\<lparr>file_pos := k\<rparr>)))"
  by (auto simp: moves_def)

lemma moves_refl: "fd_file os d = Some f \<Longrightarrow> moves d os os"
  using movesI[of os d f "file_pos f"] put_fd_same[of os d f] by simp

lemma moves_trans: "moves d os os1 \<Longrightarrow> moves d os1 os2 \<Longrightarrow> moves d os os2"
  by (clarsimp simp: moves_def) blast

lemma moves_open: "moves d os os' \<Longrightarrow> \<exists>g. fd_file os' d = Some g"
  by (auto simp: moves_def)

lemma sys_read_moves: "fd_file os d = Some f \<Longrightarrow> sys_read d n os = (ret, bs, os') \<Longrightarrow> moves d os os'"
  by (auto simp: sys_read_def Let_def intro: movesI moves_refl split: if_splits)

lemma sys_lseek_moves: "fd_file os d = Some f \<Longrightarrow> moves d os (snd (sys_lseek d k w os))"
  by (auto simp: sys_lseek_def Let_def intro: movesI moves_refl)

end
