(* ===== verification/Peak_Store.thy ===== *)
theory Peak_Store
  imports Peak_Os
begin

text \<open>
  The capture file writer, \<open>src/lib/peak_store.c\<close>: creating a pcap file, appending packets to it and closing it.
  The structures it writes are the bytes they occupy in memory. Every failure of a system call is a branch.
\<close>

record pcap_file_header =
  magic_number :: u32
  version_major :: u16
  version_minor :: u16
  thiszone :: u32
  sigfigs :: u32
  snaplen :: u32
  network :: u32

record pcap_packet_header =
  ts_sec :: u32
  ts_usec :: u32
  incl_len :: u32
  orig_len :: u32

definition file_header_bytes :: "pcap_file_header \<Rightarrow> mem" where
  "file_header_bytes h = le32_bytes (magic_number h) @ le16_bytes (version_major h) @ le16_bytes (version_minor h) @
     le32_bytes (thiszone h) @ le32_bytes (sigfigs h) @ le32_bytes (snaplen h) @ le32_bytes (network h)"

definition packet_header_bytes :: "pcap_packet_header \<Rightarrow> mem" where
  "packet_header_bytes h = le32_bytes (ts_sec h) @ le32_bytes (ts_usec h) @ le32_bytes (incl_len h) @ le32_bytes (orig_len h)"

abbreviation (input) LINKTYPE_ETHERNET :: u32 where
  "LINKTYPE_ETHERNET \<equiv> 1"

text \<open>The time stamps are \<open>int64_t\<close> and are cut to the 32 bits of the header; \<open>write\<close> reads \<open>len\<close> bytes of the buffer,
  which is undefined when it holds fewer.\<close>

definition peak_store_packet :: "int \<Rightarrow> mem \<Rightarrow> u32 \<Rightarrow> u64 \<Rightarrow> u64 \<Rightarrow> os \<Rightarrow> (u32 \<times> os) option" where
  "peak_store_packet fd buf len tsec tusec os =
     (let hdr = \<lparr>ts_sec = ucast tsec, ts_usec = ucast tusec, incl_len = len, orig_len = len\<rparr>
      in case sys_write fd (packet_header_bytes hdr) os of (ret, os) \<Rightarrow>
         if ret \<noteq> 16 then Some (0, os)
         else if length buf < unat len then None
         else case sys_write fd (take (unat len) buf) os of (ret, os) \<Rightarrow>
           if ret \<noteq> int (unat len) then Some (0, os) else Some (1, os))"

definition store_file_header :: pcap_file_header where
  "store_file_header = \<lparr>magic_number = 0xA1B2C3D4, version_major = 2, version_minor = 4, thiszone = 0, sigfigs = 0,
     snaplen = 65535, network = LINKTYPE_ETHERNET\<rparr>"

definition peak_store_init :: "string \<Rightarrow> os \<Rightarrow> int \<times> os" where
  "peak_store_init file os = (case open_trunc file os of (fd, os) \<Rightarrow>
     if fd < 0 then (- 1, os)
     else case sys_write fd (file_header_bytes store_file_header) os of (ret, os) \<Rightarrow>
       if ret \<noteq> 24 then (- 1, sys_close fd os) else (fd, os))"

definition peak_store_exit :: "int \<Rightarrow> os \<Rightarrow> os" where
  "peak_store_exit fd os = (if fd < 0 then os else sys_close fd os)"

section \<open>What is in the file\<close>

text \<open>A packet to be written: its bytes and its time stamp.\<close>

type_synonym packet = "mem \<times> u32 \<times> u32"

definition packet_record :: "packet \<Rightarrow> mem" where
  "packet_record = (\<lambda>(b, s, u). packet_header_bytes
     \<lparr>ts_sec = s, ts_usec = u, incl_len = of_nat (length b), orig_len = of_nat (length b)\<rparr> @ b)"

definition pcap_image :: "packet list \<Rightarrow> mem" where
  "pcap_image ps = file_header_bytes store_file_header @ concat (map packet_record ps)"

text \<open>A caller that writes the packets one after the other and stops at the first failure.\<close>

fun store_all :: "int \<Rightarrow> packet list \<Rightarrow> os \<Rightarrow> (bool \<times> os) option" where
  "store_all fd [] os = Some (True, os)"
| "store_all fd ((b, s, u) # ps) os = do {
     (ok, os) \<leftarrow> peak_store_packet fd b (of_nat (length b)) (ucast s) (ucast u) os;
     if ok = 0 then Some (False, os) else store_all fd ps os }"

lemma length_headers [simp]: "length (file_header_bytes h) = 24" "length (packet_header_bytes g) = 16"
  by (simp_all add: file_header_bytes_def packet_header_bytes_def)

lemma length_packet_record [simp]: "length (packet_record (b, s, u)) = 16 + length b"
  by (simp add: packet_record_def)

definition at_end :: "os \<Rightarrow> int \<Rightarrow> string \<Rightarrow> mem \<Rightarrow> bool" where
  "at_end os fd p c \<longleftrightarrow> fd_file os fd = Some \<lparr>file_path = p, file_pos = length c, file_write = True\<rparr> \<and> disk os p = Some c"

lemma write_at_end_part:
  assumes "at_end os fd p c"
  obtains ret os' where "sys_write fd bs os = (ret, os')" "at_end os' fd p (c @ take (room os) bs)" "room os' = room os - length bs"
    "\<And>q. q \<noteq> p \<Longrightarrow> disk os' q = disk os q" "if length bs \<le> room os then ret = int (length bs) else ret < int (length bs)"
proof -
  from assms have f: "fd_file os fd = Some \<lparr>file_path = p, file_pos = length c, file_write = True\<rparr>" "disk os p = Some c"
    by (simp_all add: at_end_def)
  from sys_write_append[OF f(1), of c bs] f(2) show thesis
    by (auto intro!: that simp: at_end_def fd_file_put_fd[of _ _ "\<lparr>file_path = p, file_pos = length c, file_write = True\<rparr>"] f(1))
qed

lemma write_at_end:
  assumes "at_end os fd p c" "length bs \<le> room os"
  obtains os' where "sys_write fd bs os = (int (length bs), os')" "at_end os' fd p (c @ bs)" "room os' = room os - length bs"
    "\<And>q. q \<noteq> p \<Longrightarrow> disk os' q = disk os q"
  using write_at_end_part[OF assms(1), of bs] assms(2) by (metis take_all)

lemma store_packet_at_end:
  assumes "at_end os fd p c" "16 + length b \<le> room os" "length b < 2 ^ 32"
  obtains os' where "peak_store_packet fd b (of_nat (length b)) (ucast s) (ucast u) os = Some (1, os')"
    "at_end os' fd p (c @ packet_record (b, s, u))" "room os' = room os - (16 + length b)" "\<And>q. q \<noteq> p \<Longrightarrow> disk os' q = disk os q"
proof -
  let ?h = "packet_header_bytes \<lparr>ts_sec = s, ts_usec = u, incl_len = of_nat (length b), orig_len = of_nat (length b)\<rparr>"
  have "length ?h \<le> room os" using assms(2) by simp
  from write_at_end[OF assms(1) this] obtain os1 where os1: "sys_write fd ?h os = (16, os1)" "at_end os1 fd p (c @ ?h)"
    "room os1 = room os - 16" "\<And>q. q \<noteq> p \<Longrightarrow> disk os1 q = disk os q" by auto
  have "length b \<le> room os1" using assms(2) os1(3) by simp
  from write_at_end[OF os1(2) this] obtain os2 where os2: "sys_write fd b os1 = (int (length b), os2)" "at_end os2 fd p ((c @ ?h) @ b)"
    "room os2 = room os1 - length b" "\<And>q. q \<noteq> p \<Longrightarrow> disk os2 q = disk os1 q" by auto
  have "unat (of_nat (length b) :: u32) = length b" using assms(3) by (simp add: unat_of_nat)
  moreover have "ucast (ucast x :: u64) = x" for x :: u32 by (rule bit_word_eqI) (simp add: bit_simps)
  ultimately have "peak_store_packet fd b (of_nat (length b)) (ucast s) (ucast u) os = Some (1, os2)"
    using os1(1) os2(1) by (simp add: peak_store_packet_def)
  then show thesis by (rule that) (use os1 os2 in \<open>simp_all add: packet_record_def\<close>)
qed

lemma store_all_at_end:
  assumes "at_end os fd p c" "length (concat (map packet_record ps)) \<le> room os" "\<forall>(b, s, u) \<in> set ps. length b < 2 ^ 32"
  shows "\<exists>os'. store_all fd ps os = Some (True, os') \<and> at_end os' fd p (c @ concat (map packet_record ps)) \<and>
    (\<forall>q. q \<noteq> p \<longrightarrow> disk os' q = disk os q)"
  using assms
proof (induction ps arbitrary: os c)
  case (Cons x ps)
  obtain b s u where x: "x = (b, s, u)" by (cases x)
  have room: "16 + length b \<le> room os" "length b < 2 ^ 32" using Cons.prems(2,3) by (simp_all add: x)
  from store_packet_at_end[OF Cons.prems(1) this, of s u] obtain os1 where
    os1: "peak_store_packet fd b (of_nat (length b)) (ucast s) (ucast u) os = Some (1, os1)" "at_end os1 fd p (c @ packet_record x)"
    "room os1 = room os - (16 + length b)" "\<And>q. q \<noteq> p \<Longrightarrow> disk os1 q = disk os q" unfolding x by blast
  have "length (concat (map packet_record ps)) \<le> room os1" using Cons.prems(2) os1(3) by (simp add: x)
  from Cons.IH[OF os1(2) this] Cons.prems(3) obtain os2 where
    "store_all fd ps os1 = Some (True, os2)" "at_end os2 fd p ((c @ packet_record x) @ concat (map packet_record ps))"
    "\<forall>q. q \<noteq> p \<longrightarrow> disk os2 q = disk os1 q" by auto
  with os1 show ?case by (simp add: x)
qed simp

lemma store_init_ok:
  assumes "may_create os p" "24 \<le> room os"
  obtains fd os' where "peak_store_init p os = (fd, os')" "0 \<le> fd" "at_end os' fd p (pcap_image [])" "room os' = room os - 24"
    "\<And>q. q \<noteq> p \<Longrightarrow> disk os' q = disk os q"
proof -
  let ?f = "\<lparr>file_path = p, file_pos = 0, file_write = True\<rparr>"
  obtain fd os1 where o: "open_new ?f (os\<lparr>disk := (disk os)(p \<mapsto> [])\<rparr>) = (fd, os1)" by fastforce
  note spec = open_new_spec[OF o]
  have e: "at_end os1 fd p []" using spec by (simp add: at_end_def)
  have "length (file_header_bytes store_file_header) \<le> room os1" using spec(5) assms(2) by simp
  from write_at_end[OF e this, unfolded length_headers of_nat_numeral append_Nil] obtain os2 where
    os2: "sys_write fd (file_header_bytes store_file_header) os1 = (24, os2)"
    "at_end os2 fd p (file_header_bytes store_file_header)" "room os2 = room os1 - 24" "\<And>q. q \<noteq> p \<Longrightarrow> disk os2 q = disk os1 q"
    by blast
  from os2(1) o assms(1) spec(1) have "peak_store_init p os = (fd, os2)" by (simp add: peak_store_init_def open_trunc_def)
  then show thesis by (rule that) (use spec os2 in \<open>simp_all add: pcap_image_def\<close>)
qed

text \<open>Creating a file, storing packets and closing it leaves exactly the pcap image of the packets on the disk.\<close>

lemma store_run:
  assumes "may_create os p" "length (pcap_image ps) \<le> room os" "\<forall>(b, s, u) \<in> set ps. length b < 2 ^ 32"
  obtains fd os1 os2 where "peak_store_init p os = (fd, os1)" "0 \<le> fd" "store_all fd ps os1 = Some (True, os2)"
    "disk (peak_store_exit fd os2) = (disk os)(p \<mapsto> pcap_image ps)"
proof -
  have "24 \<le> room os" using assms(2) by (simp add: pcap_image_def)
  from store_init_ok[OF assms(1) this] obtain fd os1 where
    i: "peak_store_init p os = (fd, os1)" "0 \<le> fd" "at_end os1 fd p (pcap_image [])" "room os1 = room os - 24"
    "\<And>q. q \<noteq> p \<Longrightarrow> disk os1 q = disk os q" by metis
  have "length (concat (map packet_record ps)) \<le> room os1" using assms(2) i(4) by (simp add: pcap_image_def)
  from store_all_at_end[OF i(3) this assms(3)] obtain os2 where
    s: "store_all fd ps os1 = Some (True, os2)" "at_end os2 fd p (pcap_image ps)" "\<forall>q. q \<noteq> p \<longrightarrow> disk os2 q = disk os1 q"
    by (auto simp: pcap_image_def)
  have "disk os2 = (disk os)(p \<mapsto> pcap_image ps)" using s(2,3) i(5) by (auto simp: at_end_def)
  then have "disk (peak_store_exit fd os2) = (disk os)(p \<mapsto> pcap_image ps)" by (simp add: peak_store_exit_def sys_close_def)
  with i(1,2) s(1) show thesis by (rule that)
qed

text \<open>A packet for which there is no room is reported and leaves the packets before it as they are.\<close>

lemma store_packet_no_room:
  assumes "at_end os fd p c" "room os < 16 + length b" "length b < 2 ^ 32"
  shows "\<exists>os' bs. peak_store_packet fd b (of_nat (length b)) s u os = Some (0, os') \<and> at_end os' fd p (c @ bs)"
proof -
  let ?h = "packet_header_bytes \<lparr>ts_sec = ucast s, ts_usec = ucast u, incl_len = of_nat (length b), orig_len = of_nat (length b)\<rparr>"
  have len: "unat (of_nat (length b) :: u32) = length b" using assms(3) by (simp add: unat_of_nat)
  from write_at_end_part[OF assms(1), of ?h, unfolded length_headers of_nat_numeral] obtain ret os1 where
    h: "sys_write fd ?h os = (ret, os1)" "at_end os1 fd p (c @ take (room os) ?h)" "room os1 = room os - 16"
    "if 16 \<le> room os then ret = 16 else ret < 16" by blast
  from write_at_end_part[OF h(2), of b] obtain ret' os2 where
    w: "sys_write fd b os1 = (ret', os2)" "at_end os2 fd p ((c @ take (room os) ?h) @ take (room os1) b)"
    "if length b \<le> room os1 then ret' = int (length b) else ret' < int (length b)" by blast
  show ?thesis
  proof (cases "16 \<le> room os")
    case True
    then have "ret = 16" "ret' \<noteq> int (length b)" using h(3,4) w(3) assms(2) by (auto split: if_splits)
    then have "peak_store_packet fd b (of_nat (length b)) s u os = Some (0, os2)"
      using h(1) w(1) len by (simp add: peak_store_packet_def)
    with w(2) show ?thesis by auto
  next
    case False
    then have "peak_store_packet fd b (of_nat (length b)) s u os = Some (0, os1)" using h(1,4) by (simp add: peak_store_packet_def)
    with h(2) show ?thesis by auto
  qed
qed

end
