(* ===== verification/Peak_Load.thy ===== *)
theory Peak_Load
  imports Peak_Store "HOL-Library.Signed_Division"
begin

text \<open>
  The capture file reader, \<open>src/lib/peak_load.c\<close>: detection of the file format, and reading packets from ERF, pcap
  (in both byte orders), pcapng and Network Monitor files into the 32 KiB buffer of the object.

  The object \<open>struct _peak_load\<close> is a record; its descriptor refers to the state of the system calls. A structure
  that is read from the file is the list of its bytes, decoded at the offsets of its members. Writing outside the
  buffer or reading outside the frame table is \<open>None\<close>. The \<open>goto\<close> loop over pcapng blocks may run forever and
  takes fuel; \<open>Hang\<close> says that the fuel did not suffice.
\<close>

record peak_load =
  netmon_table :: "mem option"
  netmon_count :: u32
  netmon_pos :: u32
  netmon_time :: u64
  load_fmt :: u32
  load_fd :: int
  load_ts :: peak_timeval
  load_len :: u32
  load_ll :: u32
  load_buf :: mem

abbreviation (input) ERF_MAGIC :: u32 where "ERF_MAGIC \<equiv> 0"
abbreviation (input) PCAP_SWAP_MAGIC :: u32 where "PCAP_SWAP_MAGIC \<equiv> 0xD4C3B2A1"
abbreviation (input) PCAP_MAGIC :: u32 where "PCAP_MAGIC \<equiv> 0xA1B2C3D4"
abbreviation (input) PCAPNG_MAGIC :: u32 where "PCAPNG_MAGIC \<equiv> 0x0A0D0D0A"
abbreviation (input) NETMON_MAGIC :: u32 where "NETMON_MAGIC \<equiv> 0x55424D47"
abbreviation (input) SIZEOF_BUF :: nat where "SIZEOF_BUF \<equiv> 32768"

definition ERF_USEC :: "u64 \<Rightarrow> u64" where
  "ERF_USEC x = drop_bit 32 ((x AND 0xFFFFFFFF) * 1000 * 1000)"

definition ERF_SEC :: "u64 \<Rightarrow> u64" where
  "ERF_SEC x = drop_bit 32 x"

definition NETMON_USEC :: "u64 \<Rightarrow> u64" where
  "NETMON_USEC x = (x * 10 div 10) mod (1000 * 1000)"

definition NETMON_SEC :: "u64 \<Rightarrow> u64" where
  "NETMON_SEC x = x * 10 div (10 * 1000 * 1000)"

section \<open>Reading a packet\<close>

text \<open>The ERF header is packed: \<open>ts\<close> at 0, \<open>rlen\<close> at 10, \<open>wlen\<close> at 14, 18 bytes in all.\<close>

definition load_erf :: "peak_load \<Rightarrow> os \<Rightarrow> (peak_load \<times> os) option" where
  "load_erf self os = (case sys_read (load_fd self) 18 os of (ret, hdr, os) \<Rightarrow>
     if ret \<noteq> 18 then Some (self, os)
     else do {
       rlen \<leftarrow> peak_be16dec hdr 10;
       let rlen = rlen - 18;
       wlen \<leftarrow> peak_be16dec hdr 14;
       hdr_ts \<leftarrow> peak_le64dec hdr 0;
       if SIZEOF_BUF < unat rlen then Some (self, os)
       else case sys_read (load_fd self) (ucast rlen) os of (ret, bs, os) \<Rightarrow> do {
         buf' \<leftarrow> fill (load_buf self) bs;
         let self = self\<lparr>load_buf := buf'\<rparr>;
         if ret \<noteq> int (unat rlen) then Some (self, os)
         else Some (self\<lparr>load_ts := \<lparr>tv_sec = sint (ERF_SEC hdr_ts), tv_usec = sint (ERF_USEC hdr_ts)\<rparr>, load_len := ucast wlen\<rparr>, os) }})"

definition swap_if :: "bool \<Rightarrow> u32 \<Rightarrow> u32" where
  "swap_if b x = (if b then peak_bswap32 x else x)"

definition load_pcap :: "peak_load \<Rightarrow> os \<Rightarrow> (peak_load \<times> os) option" where
  "load_pcap self os = (case sys_read (load_fd self) 16 os of (ret, hdr, os) \<Rightarrow>
     if ret \<noteq> 16 then Some (self, os)
     else do {
       sec \<leftarrow> peak_le32dec hdr 0;
       usec \<leftarrow> peak_le32dec hdr 4;
       incl \<leftarrow> peak_le32dec hdr 8;
       let swap = (load_fmt self = PCAP_SWAP_MAGIC);
       let incl = swap_if swap incl;
       let usec = swap_if swap usec;
       let sec = swap_if swap sec;
       if SIZEOF_BUF < unat incl then Some (self, os)
       else case sys_read (load_fd self) (ucast incl) os of (ret, bs, os) \<Rightarrow> do {
         buf' \<leftarrow> fill (load_buf self) bs;
         let self = self\<lparr>load_buf := buf'\<rparr>;
         if ret \<noteq> int (unat incl) then Some (self, os)
         else Some (self\<lparr>load_ts := \<lparr>tv_sec = int (unat sec), tv_usec = int (unat usec)\<rparr>, load_len := incl\<rparr>, os) }})"

text \<open>One round of the \<open>goto\<close> loop: either the function returns, or another block follows. The differences of the
  block length and structure sizes are \<open>size_t\<close>; as an offset of \<open>lseek\<close> and in the comparison they are signed.
  The time stamp is shifted into an \<open>int64_t\<close>, whose division rounds towards zero.\<close>

datatype 'a round = Done 'a | Again 'a

definition load_packet_block :: "peak_load \<Rightarrow> u32 \<Rightarrow> os \<Rightarrow> (peak_load \<times> os) option" where
  "load_packet_block self length' os = (case sys_read (load_fd self) 20 os of (ret, pkt, os) \<Rightarrow>
     if ret \<noteq> 20 then Some (self, os)
     else case sys_read (load_fd self) (ucast length' - 8 - 20) os of (ret, bs, os) \<Rightarrow> do {
       buf' \<leftarrow> fill (load_buf self) bs;
       let self = self\<lparr>load_buf := buf'\<rparr>;
       if ret \<noteq> sint (ucast length' - 8 - 20 :: u64) then Some (self, os)
       else do {
         ts_high \<leftarrow> peak_le32dec pkt 4;
         ts_low \<leftarrow> peak_le32dec pkt 8;
         packetlen \<leftarrow> peak_le32dec pkt 16;
         let ts' = sint (push_bit 32 (ucast ts_high) OR ucast ts_low :: u64);
         Some (self\<lparr>load_ts := \<lparr>tv_sec = ts' sdiv 1000 sdiv 1000, tv_usec = ts' smod (1000 * 1000)\<rparr>, load_len := packetlen\<rparr>, os) }})"

definition load_iface_block :: "peak_load \<Rightarrow> u32 \<Rightarrow> os \<Rightarrow> (peak_load \<times> os) round option" where
  "load_iface_block self length' os = (case sys_read (load_fd self) 8 os of (ret, iface, os) \<Rightarrow>
     if ret \<noteq> 8 then Some (Done (self, os))
     else do {
       let os = snd (sys_lseek (load_fd self) (sint (ucast length' - 8 - 8 :: u64)) SEEK_CUR os);
       linktype \<leftarrow> peak_le16dec iface 0;
       Some (Again (self\<lparr>load_ll := ucast linktype\<rparr>, os)) })"

definition load_block :: "peak_load \<Rightarrow> os \<Rightarrow> (peak_load \<times> os) round option" where
  "load_block self os = (case sys_read (load_fd self) 8 os of (ret, hdr, os) \<Rightarrow>
     if ret \<noteq> 8 then Some (Done (self, os))
     else do {
       type \<leftarrow> peak_le32dec hdr 0;
       length' \<leftarrow> peak_le32dec hdr 4;
       if SIZEOF_BUF < unat length' then Some (Done (self, os))
       else if type = 2 \<or> type = 6 then map_option Done (load_packet_block self length' os)
       else if type = 1 then load_iface_block self length' os
       else Some (Again (self, snd (sys_lseek (load_fd self) (sint (ucast length' - 8 :: u64)) SEEK_CUR os))) })"

fun load_pcapng :: "nat \<Rightarrow> peak_load \<Rightarrow> os \<Rightarrow> (peak_load \<times> os) outcome option" where
  "load_pcapng 0 self os = Some Hang"
| "load_pcapng (Suc fuel) self os = do {
     r \<leftarrow> load_block self os;
     (case r of Done (self, os) \<Rightarrow> Some (Return (self, os)) | Again (self, os) \<Rightarrow> load_pcapng fuel self os) }"

text \<open>The frame table holds one file offset for each packet.\<close>

definition load_netmon_record :: "peak_load \<Rightarrow> os \<Rightarrow> (peak_load \<times> os) option" where
  "load_netmon_record self os = (case sys_read (load_fd self) 16 os of (ret, hdr, os) \<Rightarrow>
     if ret \<noteq> 16 then Some (self, os)
     else do {
       time_stamp_data \<leftarrow> peak_le64dec hdr 0;
       original_length \<leftarrow> peak_le32dec hdr 8;
       include_length \<leftarrow> peak_le32dec hdr 12;
       if SIZEOF_BUF < unat include_length then Some (self, os)
       else case sys_read (load_fd self) (ucast include_length) os of (ret, bs, os) \<Rightarrow> do {
         buf' \<leftarrow> fill (load_buf self) bs;
         let self = self\<lparr>load_buf := buf'\<rparr>;
         if ret \<noteq> int (unat include_length) then Some (self, os)
         else Some (self\<lparr>load_ts := \<lparr>tv_sec = sint (NETMON_SEC time_stamp_data + netmon_time self),
             tv_usec = sint (NETMON_USEC time_stamp_data)\<rparr>, load_len := original_length\<rparr>, os) }})"

definition load_netmon :: "peak_load \<Rightarrow> os \<Rightarrow> (peak_load \<times> os) option" where
  "load_netmon self os =
     (if netmon_pos self = netmon_count self then Some (self, os)
      else do {
        table \<leftarrow> netmon_table self;
        offset \<leftarrow> peak_le32dec table (4 * unat (netmon_pos self));
        let self = self\<lparr>netmon_pos := netmon_pos self + 1\<rparr>;
        let os = snd (sys_lseek (load_fd self) (int (unat offset)) SEEK_SET os);
        load_netmon_record self os })"

text \<open>The bytes of the file from the position of the descriptor on, which bound the number of pcapng blocks.\<close>

definition bytes_left :: "int \<Rightarrow> os \<Rightarrow> nat" where
  "bytes_left fd os = (case fd_file os fd of None \<Rightarrow> 0 | Some f \<Rightarrow> length (content os (file_path f)) - file_pos f)"

definition peak_load_packet :: "peak_load \<Rightarrow> os \<Rightarrow> (u32 \<times> peak_load \<times> os) outcome option" where
  "peak_load_packet self os =
     (let self = self\<lparr>load_len := 0\<rparr>;
          result = (\<lambda>(self, os). Some (Return (load_len self, self, os)))
      in if load_fmt self = ERF_MAGIC then load_erf self os \<bind> result
         else if load_fmt self = PCAP_SWAP_MAGIC \<or> load_fmt self = PCAP_MAGIC then load_pcap self os \<bind> result
         else if load_fmt self = PCAPNG_MAGIC then do {
           r \<leftarrow> load_pcapng (Suc (bytes_left (load_fd self) os)) self os;
           (case r of Return (self, os) \<Rightarrow> Some (Return (load_len self, self, os)) | Panic \<Rightarrow> Some Panic | Hang \<Rightarrow> Some Hang) }
         else if load_fmt self = NETMON_MAGIC then load_netmon self os \<bind> result
         else result (self, os))"

section \<open>Opening a file\<close>

text \<open>\<open>timegm(3)\<close> for the fields the reader sets: the month is carried into the year, then the seconds since the
  epoch are those of the formula of the standard.\<close>

definition days_before :: "int list" where
  "days_before = [0, 31, 59, 90, 120, 151, 181, 212, 243, 273, 304, 334]"

definition timegm :: "int \<Rightarrow> int \<Rightarrow> int \<Rightarrow> int \<Rightarrow> int \<Rightarrow> int \<Rightarrow> int" where
  "timegm tm_year tm_mon tm_mday tm_hour tm_min tm_sec =
     (let year = tm_year + tm_mon div 12;
          mon = tm_mon mod 12;
          leap = ((year + 1900) mod 4 = 0 \<and> (year + 1900) mod 100 \<noteq> 0) \<or> (year + 1900) mod 400 = 0;
          yday = days_before ! nat mon + (if leap \<and> 2 \<le> mon then 1 else 0) + tm_mday - 1
      in tm_sec + tm_min * 60 + tm_hour * 3600 + yday * 86400 + (year - 70) * 31536000 +
         ((year - 69) div 4) * 86400 - ((year - 1) div 100) * 86400 + ((year + 299) div 400) * 86400)"

text \<open>What the branches of the format detection set: the format, the link type and the frame table of a Network
  Monitor file with its length and start time. \<open>None\<close> is the jump to \<open>peak_load_init_close\<close>.\<close>

record load_format =
  f_fmt :: u32
  f_ll :: u32
  f_table :: "mem option"
  f_length :: u32
  f_time :: u64

definition format_zero :: load_format where
  "format_zero = \<lparr>f_fmt = ERF_MAGIC, f_ll = LINKTYPE_ETHERNET, f_table = None, f_length = 0, f_time = 0\<rparr>"

definition init_pcap :: "u32 \<Rightarrow> int \<Rightarrow> os \<Rightarrow> (load_format option \<times> os) option" where
  "init_pcap file_magic fd os = (case sys_read fd 24 os of (ret, hdr, os) \<Rightarrow>
     if ret \<noteq> 24 then Some (None, os)
     else do {
       net \<leftarrow> peak_le32dec hdr 20;
       let swap = (file_magic = PCAP_SWAP_MAGIC);
       Some (Some (format_zero\<lparr>f_fmt := if swap then PCAP_SWAP_MAGIC else PCAP_MAGIC, f_ll := swap_if swap net\<rparr>), os) })"

text \<open>The offsets in the Network Monitor header: the versions at 4 and 5, the network at 6, the start time from 8 on,
  offset and length of the frame table at 24 and 28, 64 bytes in all. \<open>malloc\<close> says that there is memory for
  the table; the allocator of the library refuses a request for no bytes.\<close>

definition init_netmon :: "bool \<Rightarrow> int \<Rightarrow> os \<Rightarrow> (load_format option \<times> os) option" where
  "init_netmon malloc fd os = (case sys_read fd 64 os of (ret, hdr, os) \<Rightarrow>
     if ret \<noteq> 64 then Some (None, os)
     else do {
       version_minor \<leftarrow> load8 hdr 4;
       version_major \<leftarrow> load8 hdr 5;
       net \<leftarrow> peak_le16dec hdr 6;
       start_year \<leftarrow> peak_le16dec hdr 8;
       start_month \<leftarrow> peak_le16dec hdr 10;
       start_day \<leftarrow> peak_le16dec hdr 14;
       start_hour \<leftarrow> peak_le16dec hdr 16;
       start_min \<leftarrow> peak_le16dec hdr 18;
       start_sec \<leftarrow> peak_le16dec hdr 20;
       frame_table_offset \<leftarrow> peak_le32dec hdr 24;
       frame_table_length \<leftarrow> peak_le32dec hdr 28;
       if version_minor \<noteq> 0 \<or> version_major \<noteq> 2 then Some (None, os)
       else if 1 < net then Some (None, os)
       else if frame_table_length = 0 \<or> \<not> malloc then Some (None, os)
       else do {
         let time = timegm (int (unat start_year) - 1900) (int (unat start_month) - 1) (int (unat start_day))
           (int (unat start_hour)) (int (unat start_min)) (int (unat start_sec));
         let os = snd (sys_lseek fd (int (unat frame_table_offset)) SEEK_SET os);
         (case sys_read fd (ucast frame_table_length) os of (ret, table, os) \<Rightarrow>
          if ret \<noteq> int (unat frame_table_length) then Some (None, os)
          else Some (Some (format_zero\<lparr>f_fmt := NETMON_MAGIC, f_table := Some table, f_length := frame_table_length,
            f_time := word_of_int time\<rparr>), os)) }})"

definition init_pcapng :: "int \<Rightarrow> os \<Rightarrow> (load_format option \<times> os) option" where
  "init_pcapng fd os = (case sys_read fd 8 os of (ret, hdr, os) \<Rightarrow>
     if ret \<noteq> 8 then Some (None, os)
     else do {
       length' \<leftarrow> peak_le32dec hdr 4;
       let os = snd (sys_lseek fd (sint (ucast length' - 8 :: u64)) SEEK_CUR os);
       Some (Some (format_zero\<lparr>f_fmt := PCAPNG_MAGIC, f_ll := 0\<rparr>), os) })"

definition init_detect :: "bool \<Rightarrow> int \<Rightarrow> os \<Rightarrow> (load_format option \<times> os) option" where
  "init_detect malloc fd os = (case sys_read fd 4 os of (ret, m, os) \<Rightarrow>
     if ret \<noteq> 4 then Some (None, os)
     else do {
       file_magic \<leftarrow> peak_le32dec m 0;
       let os = snd (sys_lseek fd 0 SEEK_SET os);
       if file_magic = PCAP_SWAP_MAGIC \<or> file_magic = PCAP_MAGIC then init_pcap file_magic fd os
       else if file_magic = NETMON_MAGIC then init_netmon malloc fd os
       else if file_magic = PCAPNG_MAGIC then init_pcapng fd os
       else Some (Some format_zero, os) })"

definition close_file :: "int \<Rightarrow> os \<Rightarrow> os" where
  "close_file fd os = (if fd \<noteq> STDIN_FILENO then sys_close fd os else os)"

definition peak_load_init :: "string option \<Rightarrow> bool \<Rightarrow> bool \<Rightarrow> os \<Rightarrow> (peak_load option \<times> os) option" where
  "peak_load_init file malloc calloc os =
     (let finish = (\<lambda>fd f os. if \<not> calloc then (None, close_file fd os)
        else (Some \<lparr>netmon_table = f_table f, netmon_count = f_length f div 4, netmon_pos = 0, netmon_time = f_time f,
          load_fmt = f_fmt f, load_fd = fd, load_ts = \<lparr>tv_sec = 0, tv_usec = 0\<rparr>, load_len = 0, load_ll = f_ll f,
          load_buf = replicate SIZEOF_BUF 0\<rparr>, os))
      in case file of
        None \<Rightarrow> Some (finish STDIN_FILENO format_zero os)
      | Some file \<Rightarrow> (case open_rdonly file os of (fd, os) \<Rightarrow>
          if fd < 0 then Some (None, os)
          else do {
            (f, os) \<leftarrow> init_detect malloc fd os;
            (case f of None \<Rightarrow> Some (None, close_file fd os) | Some f \<Rightarrow> Some (finish fd f os)) }))"

definition peak_load_exit :: "peak_load option \<Rightarrow> os \<Rightarrow> os" where
  "peak_load_exit self os = (case self of None \<Rightarrow> os | Some self \<Rightarrow> close_file (load_fd self) os)"

section \<open>The object stays well-formed\<close>

definition load_ok :: "peak_load \<Rightarrow> bool" where
  "load_ok self \<longleftrightarrow> length (load_buf self) = SIZEOF_BUF \<and> netmon_pos self \<le> netmon_count self \<and>
     4 * unat (netmon_count self) \<le> (case netmon_table self of None \<Rightarrow> 0 | Some t \<Rightarrow> length t)"

text \<open>What reading a packet never changes.\<close>

definition same_file :: "peak_load \<Rightarrow> peak_load \<Rightarrow> bool" where
  "same_file self self' \<longleftrightarrow> load_fd self' = load_fd self \<and> load_fmt self' = load_fmt self"

text \<open>A packet reader keeps the object well-formed and stays inside the buffer, whatever the file holds; \<open>get\<close>
  is the object in its result.\<close>

definition safely :: "('r \<Rightarrow> peak_load) \<Rightarrow> peak_load \<Rightarrow> 'r option \<Rightarrow> bool" where
  "safely get self r \<longleftrightarrow> (\<exists>x. r = Some x \<and> load_ok (get x) \<and> same_file self (get x))"

abbreviation reads_safely :: "peak_load \<Rightarrow> (peak_load \<times> os) option \<Rightarrow> bool" where
  "reads_safely \<equiv> safely fst"

lemma safely_Some [simp]: "safely get self (Some x) \<longleftrightarrow> load_ok (get x) \<and> same_file self (get x)"
  by (simp add: safely_def)

lemma load_ok_updates [simp]:
  "load_ok (self\<lparr>load_len := n\<rparr>) = load_ok self" "load_ok (self\<lparr>load_ll := n\<rparr>) = load_ok self" "load_ok (self\<lparr>load_ts := t\<rparr>) = load_ok self"
  "load_ok (self\<lparr>load_buf := b, load_ts := t, load_len := n\<rparr>) = load_ok (self\<lparr>load_buf := b\<rparr>)"
  by (simp_all add: load_ok_def)

lemma same_file_updates [simp]:
  "same_file self self" "same_file self (self\<lparr>load_buf := b\<rparr>)" "same_file self (self\<lparr>load_ll := n\<rparr>)" "same_file self (self\<lparr>load_len := n\<rparr>)"
  "same_file self (self\<lparr>load_buf := b, load_ts := t, load_len := n\<rparr>)" "same_file self (self\<lparr>netmon_pos := x\<rparr>)"
  by (simp_all add: same_file_def)

lemma read_fill:
  assumes "load_ok self" "sint n < 0 \<or> unat n \<le> SIZEOF_BUF" "sys_read d n os = (ret, bs, os')"
  obtains b where "fill (load_buf self) bs = Some b" "load_ok (self\<lparr>load_buf := b\<rparr>)"
proof -
  have "length bs \<le> SIZEOF_BUF"
    using sys_read_short[OF assms(3)] assms(2,3) by (auto simp: sys_read_def Let_def split: option.splits if_splits)
  then have "fill (load_buf self) bs = Some (bs @ drop (length bs) (load_buf self))" "length (bs @ drop (length bs) (load_buf self)) = SIZEOF_BUF"
    using assms(1) by (simp_all add: fill_def load_ok_def)
  moreover from this(2) have "load_ok (self\<lparr>load_buf := bs @ drop (length bs) (load_buf self)\<rparr>)" using assms(1) by (simp add: load_ok_def)
  ultimately show thesis by (intro that)
qed

lemma fill_safely:
  assumes "load_ok self" "sint n < 0 \<or> unat n \<le> SIZEOF_BUF"
    and "\<And>b ret os'. load_ok (self\<lparr>load_buf := b\<rparr>) \<Longrightarrow> safely get self (f ret b os')"
  shows "safely get self (case sys_read d n os of (ret, bs, os') \<Rightarrow> fill (load_buf self) bs \<bind> (\<lambda>b. f ret b os'))"
proof -
  obtain ret bs os' where r: "sys_read d n os = (ret, bs, os')" by (cases "sys_read d n os") auto
  from read_fill[OF assms(1,2) this] obtain b where b: "fill (load_buf self) bs = Some b" "load_ok (self\<lparr>load_buf := b\<rparr>)" .
  from assms(3)[OF b(2)] b(1) r show ?thesis by simp
qed

lemma header_safely:
  assumes "load_ok self" "0 \<le> n" "\<And>os'. get (e os') = self" "\<And>hdr os'. length hdr = nat n \<Longrightarrow> safely get self (f hdr os')"
  shows "safely get self (case sys_read d k os of (ret, hdr, os') \<Rightarrow> if ret \<noteq> n then Some (e os') else f hdr os')"
proof -
  obtain ret hdr os' where r: "sys_read d k os = (ret, hdr, os')" by (cases "sys_read d k os") auto
  with assms show ?thesis using sys_read_length[OF r] by auto
qed

lemma load_erf_safe: assumes "load_ok self" shows "reads_safely self (load_erf self os)"
  unfolding load_erf_def
proof (rule header_safely[OF assms], goal_cases)
  case (3 hdr os')
  then obtain r w t where "peak_be16dec hdr 10 = Some r" "peak_be16dec hdr 14 = Some w" "peak_le64dec hdr 0 = Some t"
    using decode_total[of 10 hdr] decode_total[of 14 hdr] decode_total[of 0 hdr] by auto
  then show ?case using assms by (auto simp: Let_def not_less intro!: fill_safely)
qed simp_all

lemma load_pcap_safe: assumes "load_ok self" shows "reads_safely self (load_pcap self os)"
  unfolding load_pcap_def
proof (rule header_safely[OF assms], goal_cases)
  case (3 hdr os')
  then obtain x y z where "peak_le32dec hdr 0 = Some x" "peak_le32dec hdr 4 = Some y" "peak_le32dec hdr 8 = Some z"
    using decode_total[of 0 hdr] decode_total[of 4 hdr] decode_total[of 8 hdr] by auto
  then show ?case using assms by (auto simp: Let_def not_less intro!: fill_safely)
qed simp_all

lemma load_netmon_record_safe: assumes "load_ok self" shows "reads_safely self (load_netmon_record self os)"
  unfolding load_netmon_record_def
proof (rule header_safely[OF assms], goal_cases)
  case (3 hdr os')
  then obtain x y z where "peak_le64dec hdr 0 = Some x" "peak_le32dec hdr 8 = Some y" "peak_le32dec hdr 12 = Some z"
    using decode_total[of 0 hdr] decode_total[of 8 hdr] decode_total[of 12 hdr] by auto
  then show ?case using assms by (auto simp: Let_def not_less intro!: fill_safely)
qed simp_all

lemma load_netmon_safe: assumes "load_ok self" shows "reads_safely self (load_netmon self os)"
proof (cases "netmon_pos self = netmon_count self")
  case False
  let ?self = "self\<lparr>netmon_pos := netmon_pos self + 1\<rparr>"
  have lt: "netmon_pos self < netmon_count self" using assms False by (simp add: load_ok_def order_less_le)
  then have nat: "unat (netmon_pos self) < unat (netmon_count self)" by (simp add: word_less_nat_alt)
  then obtain t where t: "netmon_table self = Some t" "4 * unat (netmon_count self) \<le> length t"
    using assms by (auto simp: load_ok_def split: option.splits)
  then obtain off where off: "peak_le32dec t (4 * unat (netmon_pos self)) = Some off"
    using nat decode_total(3)[of "4 * unat (netmon_pos self)" t] by auto
  have "load_ok ?self" using assms inc_le[OF lt] by (simp add: load_ok_def)
  from load_netmon_record_safe[OF this] have "reads_safely ?self (load_netmon self os)"
    using False t(1) off by (simp add: load_netmon_def Let_def)
  then show ?thesis by (simp add: safely_def same_file_def)
qed (use assms in \<open>auto simp: load_netmon_def\<close>)

primrec round_val :: "'a round \<Rightarrow> 'a" where
  "round_val (Done x) = x"
| "round_val (Again x) = x"

lemma sint_of_int: "- (2 ^ 63) \<le> x \<Longrightarrow> x < 2 ^ 63 \<Longrightarrow> sint (word_of_int x :: u64) = x"
  using signed_take_bit_int_eq_self[of 63 x] by (simp add: sint_sbintrunc')

lemma sint_ucast_minus:
  assumes "0 \<le> k" "k \<le> 100"
  shows "sint (ucast (n :: u32) - word_of_int k :: u64) = int (unat n) - k"
proof -
  have "ucast n - word_of_int k = (word_of_int (uint n - k) :: u64)" unfolding ucast_eq by (simp only: of_int_diff)
  moreover have "0 \<le> uint n" "uint n < 2 ^ 32" using uint_lt2p[of n] by auto
  then have "- (2 ^ 63) \<le> uint n - k \<and> uint n - k < 2 ^ 63" using assms by (simp, linarith)
  ultimately show ?thesis using sint_of_int[of "uint n - k"] by simp
qed

text \<open>The three differences of a block length and the sizes of the structures before the data.\<close>

lemma block_offsets:
  "sint (ucast (n :: u32) - 8 - 20 :: u64) = int (unat n) - 28" "sint (ucast n - 8 - 8 :: u64) = int (unat n) - 16"
  "sint (ucast n - 8 :: u64) = int (unat n) - 8"
  using sint_ucast_minus[of 28 n] sint_ucast_minus[of 16 n] sint_ucast_minus[of 8 n] by simp_all

lemma packet_block_size:
  fixes n :: u32
  assumes "unat n \<le> SIZEOF_BUF"
  shows "sint (ucast n - 8 - 20 :: u64) < 0 \<or> unat (ucast n - 8 - 20 :: u64) \<le> SIZEOF_BUF"
proof (cases "28 \<le> unat n")
  case True
  then have "unat (ucast n - 28 :: u64) = unat n - 28" by (simp add: unat_sub word_le_nat_alt)
  then have "unat (ucast n - 28 :: u64) \<le> SIZEOF_BUF" using assms by linarith
  then show ?thesis by simp
next
  case False
  then have "int (unat n) - 28 < 0" by linarith
  then show ?thesis unfolding block_offsets ..
qed

lemma load_packet_block_safe:
  assumes "load_ok self" "unat n \<le> SIZEOF_BUF"
  shows "reads_safely self (load_packet_block self n os)"
  unfolding load_packet_block_def
proof (rule header_safely[OF assms(1)], goal_cases)
  case (3 pkt os')
  then obtain x y z where "peak_le32dec pkt 4 = Some x" "peak_le32dec pkt 8 = Some y" "peak_le32dec pkt 16 = Some z"
    using decode_total[of 4 pkt] decode_total[of 8 pkt] decode_total[of 16 pkt] by auto
  then show ?case using assms packet_block_size[OF assms(2)] by (auto simp: Let_def not_less intro!: fill_safely)
qed simp_all

lemma load_iface_block_safe: assumes "load_ok self" shows "safely (fst \<circ> round_val) self (load_iface_block self n os)"
  unfolding load_iface_block_def
proof (rule header_safely[OF assms], goal_cases)
  case (3 iface os')
  then obtain x where "peak_le16dec iface 0 = Some x" using decode_total[of 0 iface] by auto
  with assms show ?case by (simp add: Let_def)
qed simp_all

lemma load_block_safe: assumes "load_ok self" shows "safely (fst \<circ> round_val) self (load_block self os)"
  unfolding load_block_def
proof (rule header_safely[OF assms], goal_cases)
  case (3 hdr os')
  then obtain t n where tn: "peak_le32dec hdr 0 = Some t" "peak_le32dec hdr 4 = Some n"
    using decode_total[of 0 hdr] decode_total[of 4 hdr] by auto
  have "safely (fst \<circ> round_val) self (map_option Done (load_packet_block self n os'))" if "unat n \<le> SIZEOF_BUF"
    using load_packet_block_safe[OF assms that, of os'] by (auto simp: safely_def)
  then show ?case using tn assms load_iface_block_safe[OF assms] by (simp add: not_less)
qed simp_all

section \<open>Walking over pcapng blocks\<close>

text \<open>Where the block after the one at \<open>p\<close> begins, when the reader passes over it.\<close>

definition block_skip :: "mem \<Rightarrow> nat \<Rightarrow> nat option" where
  "block_skip c p = do {
     type \<leftarrow> peak_le32dec c p;
     n \<leftarrow> peak_le32dec c (p + 4);
     if unat n \<le> SIZEOF_BUF \<and> type \<noteq> 2 \<and> type \<noteq> 6 \<and> (type = 1 \<longrightarrow> p + 16 \<le> length c) then Some (p + unat n) else None }"

lemma load_iface_block_skip:
  assumes f: "fd_file os (load_fd self) = Some f" "\<not> file_write f" "8 \<le> file_pos f"
  shows "if file_pos f + 8 \<le> length (content os (file_path f))
    then \<exists>w. load_iface_block self n os = Some (Again (self\<lparr>load_ll := w\<rparr>, put_fd os (load_fd self) (Some (f\<lparr>file_pos := file_pos f - 8 + unat n\<rparr>))))
    else \<exists>x. load_iface_block self n os = Some (Done x)"
proof (cases "file_pos f + 8 \<le> length (content os (file_path f))")
  case True
  let ?bs = "take 8 (drop (file_pos f) (content os (file_path f)))" and ?os = "put_fd os (load_fd self) (Some (f\<lparr>file_pos := file_pos f + 8\<rparr>))"
  have r: "sys_read (load_fd self) 8 os = (8, ?bs, ?os)" using sys_read_in[OF f(1,2), of 8] True by simp
  have "0 \<le> int (file_pos f) + 8 + (int (unat n) - 16)" "nat (int (file_pos f) + 8 + (int (unat n) - 16)) = file_pos f - 8 + unat n"
    using f(3) by linarith+
  then have k: "snd (sys_lseek (load_fd self) (sint (ucast n - 8 - 8 :: u64)) SEEK_CUR ?os) = put_fd os (load_fd self) (Some (f\<lparr>file_pos := file_pos f - 8 + unat n\<rparr>))"
    unfolding block_offsets using seek_in[of ?os "load_fd self" "f\<lparr>file_pos := file_pos f + 8\<rparr>" "int (unat n) - 16"] f(1)
    by (simp del: of_nat_unat)
  obtain w where "peak_le16dec ?bs 0 = Some w" using decode_total(1)[of 0 ?bs] True by auto
  with r k True show ?thesis by (auto simp: load_iface_block_def Let_def)
next
  case False
  then obtain ret bs os' where "sys_read (load_fd self) 8 os = (ret, bs, os')" "ret \<noteq> 8" using sys_read_eof[OF f(1,2), of 8] by auto
  with False show ?thesis by (simp add: load_iface_block_def)
qed

lemma load_block_skip:
  assumes ok: "load_ok self" and f: "fd_file os (load_fd self) = Some f" "\<not> file_write f"
  defines "c \<equiv> content os (file_path f)"
  shows "case block_skip c (file_pos f) of
      None \<Rightarrow> \<exists>x. load_block self os = Some (Done x)
    | Some q \<Rightarrow> \<exists>w. load_block self os = Some (Again (self\<lparr>load_ll := w\<rparr>, put_fd os (load_fd self) (Some (f\<lparr>file_pos := q\<rparr>))))"
proof (cases "file_pos f + 8 \<le> length c")
  case False
  then have "peak_le32dec c (file_pos f + 4) = None" by (simp add: decode_eq_None_iff)
  then have "block_skip c (file_pos f) = None" by (simp add: block_skip_def bind_eq_None_conv)
  moreover obtain ret bs os' where "sys_read (load_fd self) 8 os = (ret, bs, os')" "ret \<noteq> 8"
    using sys_read_eof[OF f, of 8] False by (auto simp: c_def)
  ultimately show ?thesis by (simp add: load_block_def)
next
  case True
  let ?p = "file_pos f" and ?os = "put_fd os (load_fd self) (Some (f\<lparr>file_pos := file_pos f + 8\<rparr>))"
  obtain t n where tn: "peak_le32dec c ?p = Some t" "peak_le32dec c (?p + 4) = Some n"
    using decode_total(3)[of ?p c] decode_total(3)[of "?p + 4" c] True by auto
  have r: "sys_read (load_fd self) 8 os = (8, take 8 (drop ?p c), ?os)"
    using sys_read_in[OF f, of 8] True by (simp add: c_def)
  have "peak_le32dec (take 8 (drop ?p c)) 0 = Some t" "peak_le32dec (take 8 (drop ?p c)) 4 = Some n"
    using tn le32dec_window[of 0 8 ?p c] le32dec_window[of 4 8 ?p c] True by simp_all
  with r have step: "load_block self os = (if SIZEOF_BUF < unat n then Some (Done (self, ?os))
       else if t = 2 \<or> t = 6 then map_option Done (load_packet_block self n ?os)
       else if t = 1 then load_iface_block self n ?os
       else Some (Again (self, snd (sys_lseek (load_fd self) (sint (ucast n - 8 :: u64)) SEEK_CUR ?os))))"
    by (simp add: load_block_def)
  have g: "fd_file ?os (load_fd self) = Some (f\<lparr>file_pos := ?p + 8\<rparr>)" using f(1) by simp
  consider "SIZEOF_BUF < unat n" | "unat n \<le> SIZEOF_BUF" "t = 2 \<or> t = 6" | "unat n \<le> SIZEOF_BUF" "t = 1" | "unat n \<le> SIZEOF_BUF" "t \<noteq> 2" "t \<noteq> 6" "t \<noteq> 1"
    by linarith
  then show ?thesis
  proof cases
    case 2
    from load_packet_block_safe[OF ok 2(1), of ?os] obtain x where "load_packet_block self n ?os = Some x" by (auto simp: safely_def)
    with 2 show ?thesis using tn step by (auto simp: block_skip_def)
  next
    case 3
    from load_iface_block_skip[OF g, of n] f have "(?p + 16 \<le> length c \<and> (\<exists>w. load_iface_block self n ?os =
        Some (Again (self\<lparr>load_ll := w\<rparr>, put_fd os (load_fd self) (Some (f\<lparr>file_pos := ?p + unat n\<rparr>)))))) \<or>
      (\<not> ?p + 16 \<le> length c \<and> (\<exists>x. load_iface_block self n ?os = Some (Done x)))"
      by (cases "?p + 16 \<le> length c") (simp_all add: c_def add.commute)
    with 3 show ?thesis using tn step by (auto simp: block_skip_def)
  next
    case 4
    then have "block_skip c ?p = Some (?p + unat n)" using tn by (simp add: block_skip_def)
    moreover have "snd (sys_lseek (load_fd self) (sint (ucast n - 8 :: u64)) SEEK_CUR ?os) = put_fd os (load_fd self) (Some (f\<lparr>file_pos := ?p + unat n\<rparr>))"
      unfolding block_offsets using seek_in[OF g, of "int (unat n) - 8"] f(1) by (simp del: of_nat_unat add: nat_int_add)
    ultimately show ?thesis using step 4 by (auto intro: exI[of _ "load_ll self"])
  qed (use tn step in \<open>auto simp: block_skip_def\<close>)
qed

text \<open>From block to block.\<close>

definition block_next :: "mem \<Rightarrow> nat \<Rightarrow> nat \<Rightarrow> bool" where
  "block_next c p q \<longleftrightarrow> block_skip c p = Some q"

lemma block_skip_bounds: "block_skip c p = Some q \<Longrightarrow> p \<le> q \<and> p + 8 \<le> length c"
  using decode_eq_None_iff(3)[of c "p + 4"] by (auto simp: block_skip_def bind_eq_Some_conv split: if_splits)

text \<open>A position from which the loop cannot move: it is at a block whose length is zero.\<close>

definition stuck :: "mem \<Rightarrow> nat \<Rightarrow> bool" where
  "stuck c p \<longleftrightarrow> (\<exists>q. (block_next c)\<^sup>*\<^sup>* p q \<and> block_skip c q = Some q)"

lemma stuck_step: "block_next c p q \<Longrightarrow> stuck c q \<Longrightarrow> stuck c p"
  unfolding stuck_def by (meson converse_rtranclp_into_rtranclp)

lemma block_progress: "((block_next c) ^^ n) p q \<Longrightarrow> stuck c p \<or> p + n \<le> q"
proof (induction n arbitrary: p)
  case (Suc n)
  then obtain z where z: "block_next c p z" "((block_next c) ^^ n) z q" by (meson relpowp_Suc_D2)
  show ?case
  proof (cases "z = p")
    case True
    with z(1) show ?thesis by (auto simp: stuck_def block_next_def)
  next
    case False
    then have "Suc p \<le> z" using z(1) block_skip_bounds[of c p z] by (auto simp: block_next_def)
    with Suc.IH[OF z(2)] stuck_step[OF z(1)] show ?thesis by auto
  qed
qed simp

lemma stuck_forever: "stuck c p \<Longrightarrow> \<exists>q. ((block_next c) ^^ n) p q"
proof -
  assume "stuck c p"
  then obtain z where z: "(block_next c)\<^sup>*\<^sup>* p z" "block_next c z z" by (auto simp: stuck_def block_next_def)
  from z(1) show ?thesis
  proof (induction arbitrary: n rule: converse_rtranclp_induct)
    case base
    have "((block_next c) ^^ n) z z" using z(2) by (induction n) auto
    then show ?case ..
  next
    case (step y x)
    show ?case
    proof (cases n)
      case (Suc m)
      with step show ?thesis by (meson relpowp_Suc_I2)
    qed auto
  qed
qed

lemma enough_fuel: "(\<exists>q. ((block_next c) ^^ Suc (length c - p)) p q) \<longleftrightarrow> stuck c p"
proof
  assume "\<exists>q. ((block_next c) ^^ Suc (length c - p)) p q"
  then obtain z q where z: "((block_next c) ^^ (length c - p)) p z" "block_next c z q" by auto
  have "\<not> p + (length c - p) \<le> z" using block_skip_bounds[of c z q] z(2) by (auto simp: block_next_def)
  with block_progress[OF z(1)] show "stuck c p" by blast
qed (rule stuck_forever)

lemma load_pcapng_hang:
  assumes "load_ok self" "fd_file os (load_fd self) = Some f" "\<not> file_write f" "c = content os (file_path f)"
  shows "load_pcapng fuel self os = Some Hang \<longleftrightarrow> (\<exists>q. ((block_next c) ^^ fuel) (file_pos f) q)"
  using assms
proof (induction fuel arbitrary: self os f)
  case (Suc fuel)
  note step = load_block_skip[OF Suc.prems(1-3), folded Suc.prems(4)]
  show ?case
  proof (cases "block_skip c (file_pos f)")
    case None
    with step have "load_pcapng (Suc fuel) self os \<noteq> Some Hang" by (auto split: prod.split)
    moreover have "\<not> ((block_next c) ^^ Suc fuel) (file_pos f) q" for q
      using None relpowp_Suc_D2[of fuel "block_next c" "file_pos f" q] by (auto simp: block_next_def)
    ultimately show ?thesis by blast
  next
    case (Some q)
    let ?os = "put_fd os (load_fd self) (Some (f\<lparr>file_pos := q\<rparr>))"
    from step Some obtain w where w: "load_block self os = Some (Again (self\<lparr>load_ll := w\<rparr>, ?os))" by auto
    have "load_pcapng fuel (self\<lparr>load_ll := w\<rparr>) ?os = Some Hang \<longleftrightarrow> (\<exists>r. ((block_next c) ^^ fuel) q r)"
      using Suc.IH[of "self\<lparr>load_ll := w\<rparr>" ?os "f\<lparr>file_pos := q\<rparr>"] Suc.prems by simp
    moreover have "((block_next c) ^^ Suc fuel) (file_pos f) r \<longleftrightarrow> ((block_next c) ^^ fuel) q r" for r
      using Some relpowp_Suc_I2[of "block_next c" "file_pos f" q fuel r] relpowp_Suc_D2[of fuel "block_next c" "file_pos f" r]
      by (auto simp: block_next_def)
    ultimately show ?thesis using w by simp
  qed
qed simp

lemma load_pcapng_safe:
  assumes "load_ok self"
  shows "load_pcapng fuel self os = Some Hang \<or> (\<exists>self' os'. load_pcapng fuel self os = Some (Return (self', os')) \<and> load_ok self' \<and> same_file self self')"
  using assms
proof (induction fuel arbitrary: self os)
  case (Suc fuel)
  from load_block_safe[OF Suc.prems, of os] obtain r where r: "load_block self os = Some r" "load_ok (fst (round_val r))" "same_file self (fst (round_val r))"
    by (auto simp: safely_def)
  show ?case
  proof (cases r)
    case (Done x)
    with r show ?thesis by (cases x) auto
  next
    case (Again x)
    with r Suc.IH[of "fst x" "snd x"] show ?thesis by (cases x) (auto simp: same_file_def)
  qed
qed simp

lemma peak_load_packet_safe:
  assumes "load_ok self"
  shows "peak_load_packet self os = Some Hang \<or>
    (\<exists>n self' os'. peak_load_packet self os = Some (Return (n, self', os')) \<and> load_ok self' \<and> same_file self self' \<and> n = load_len self')"
proof -
  let ?self = "self\<lparr>load_len := 0\<rparr>"
  have ok: "load_ok ?self" using assms by simp
  have keep: "same_file self self'" if "same_file ?self self'" for self' using that by (simp add: same_file_def)
  have ret: "\<exists>n self' os'. r \<bind> (\<lambda>(self, os). Some (Return (load_len self, self, os))) = Some (Return (n, self', os')) \<and>
    load_ok self' \<and> same_file self self' \<and> n = load_len self'" if "reads_safely ?self r" for r
    using that keep by (auto simp: safely_def)
  note packet = peak_load_packet_def Let_def
  consider "load_fmt self = ERF_MAGIC" | "load_fmt self = PCAP_SWAP_MAGIC \<or> load_fmt self = PCAP_MAGIC" | "load_fmt self = PCAPNG_MAGIC"
    | "load_fmt self = NETMON_MAGIC" | "load_fmt self \<notin> {ERF_MAGIC, PCAP_SWAP_MAGIC, PCAP_MAGIC, PCAPNG_MAGIC, NETMON_MAGIC}" by blast
  then show ?thesis
  proof cases
    case 1
    then show ?thesis using ret[OF load_erf_safe[OF ok, of os]] by (simp add: packet)
  next
    case 2
    then show ?thesis using ret[OF load_pcap_safe[OF ok, of os]] by (auto simp: packet)
  next
    case 3
    with load_pcapng_safe[OF ok, of "Suc (bytes_left (load_fd ?self) os)" os] keep show ?thesis by (auto simp: packet simp del: load_pcapng.simps)
  next
    case 4
    then show ?thesis using ret[OF load_netmon_safe[OF ok, of os]] by (simp add: packet)
  qed (use ok in \<open>simp add: packet\<close>)
qed

section \<open>Opening a file\<close>

text \<open>Detecting the format ends with a table as long as announced, or gives up, and only moves the file position.\<close>

definition detects :: "int \<Rightarrow> os \<Rightarrow> (load_format option \<times> os) option \<Rightarrow> bool" where
  "detects d os r \<longleftrightarrow> (\<exists>x os'. r = Some (x, os') \<and> moves d os os' \<and>
     (\<forall>f. x = Some f \<longrightarrow> unat (f_length f) \<le> (case f_table f of None \<Rightarrow> 0 | Some t \<Rightarrow> length t)))"

lemma detects_trans: "moves d os os1 \<Longrightarrow> detects d os1 r \<Longrightarrow> detects d os r"
  unfolding detects_def using moves_trans by blast

lemma header_detects:
  assumes "fd_file os d = Some f" "0 \<le> n" "\<And>hdr os1 f1. length hdr = nat n \<Longrightarrow> fd_file os1 d = Some f1 \<Longrightarrow> detects d os1 (k hdr os1)"
  shows "detects d os (case sys_read d m os of (ret, hdr, os1) \<Rightarrow> if ret \<noteq> n then Some (None, os1) else k hdr os1)"
proof -
  obtain ret hdr os1 where r: "sys_read d m os = (ret, hdr, os1)" by (cases "sys_read d m os") auto
  have m: "moves d os os1" using sys_read_moves[OF assms(1) r] .
  show ?thesis
  proof (cases "ret = n")
    case True
    with assms(2) sys_read_length[OF r] have "length hdr = nat n" by simp
    with assms(3) moves_open[OF m] have "detects d os1 (k hdr os1)" by blast
    with True r detects_trans[OF m] show ?thesis by simp
  qed (use r m in \<open>simp add: detects_def\<close>)
qed

lemma detects_done: "fd_file os d = Some f \<Longrightarrow> detects d os (Some (None, os))" "fd_file os d = Some f \<Longrightarrow> f_length g = 0 \<Longrightarrow> detects d os (Some (Some g, os))"
  using moves_refl by (auto simp: detects_def)

lemma init_pcap_detects: "fd_file os d = Some f \<Longrightarrow> detects d os (init_pcap m d os)"
  unfolding init_pcap_def
proof (rule header_detects, goal_cases)
  case (3 hdr os1 f1)
  then obtain x where "peak_le32dec hdr 20 = Some x" using decode_total(3)[of 20 hdr] by auto
  with detects_done(2)[OF 3(3)] show ?case by (simp add: Let_def format_zero_def)
qed simp_all

lemma init_pcapng_detects: "fd_file os d = Some f \<Longrightarrow> detects d os (init_pcapng d os)"
  unfolding init_pcapng_def
proof (rule header_detects, goal_cases)
  case (3 hdr os1 f1)
  then obtain x where "peak_le32dec hdr 4 = Some x" using decode_total(3)[of 4 hdr] by auto
  with sys_lseek_moves[OF 3(3)] show ?case by (simp add: Let_def detects_def format_zero_def)
qed simp_all

lemma init_netmon_detects: "fd_file os d = Some f \<Longrightarrow> detects d os (init_netmon mem d os)"
  unfolding init_netmon_def
proof (rule header_detects, goal_cases)
  case (3 hdr os1 f1)
  then have len: "length hdr = 64" by simp
  define x where "x p = the (peak_le16dec hdr p)" for p
  define y where "y p = the (peak_le32dec hdr p)" for p
  have x: "peak_le16dec hdr p = Some (x p)" if "p \<le> 62" for p using decode_total(1)[of p hdr] len that by (auto simp: x_def)
  have y: "peak_le32dec hdr p = Some (y p)" if "p \<le> 60" for p using decode_total(3)[of p hdr] len that by (auto simp: y_def)
  have b: "load8 hdr 4 = Some (hdr ! 4)" "load8 hdr 5 = Some (hdr ! 5)" using len by (simp_all add: load8_def)
  define os2 where "os2 = snd (sys_lseek d (int (unat (y 24))) SEEK_SET os1)"
  have m: "moves d os1 os2" unfolding os2_def by (rule sys_lseek_moves[OF 3(3)])
  from moves_open[OF m] obtain f2 where f2: "fd_file os2 d = Some f2" ..
  have "detects d os2 (case sys_read d (ucast (y 28)) os2 of (ret, table, os) \<Rightarrow> if ret \<noteq> int (unat (y 28)) then Some (None, os)
    else Some (Some (format_zero\<lparr>f_fmt := NETMON_MAGIC, f_table := Some table, f_length := y 28, f_time := t\<rparr>), os))" for t
    by (rule header_detects[OF f2]) (auto simp: detects_def dest: moves_refl)
  from detects_trans[OF m this] show ?case using detects_done(1)[OF 3(3)] by (simp add: b x y Let_def os2_def)
qed simp_all

lemma init_detect_detects: "fd_file os d = Some f \<Longrightarrow> detects d os (init_detect mem d os)"
  unfolding init_detect_def
proof (rule header_detects, goal_cases)
  case (3 m os1 f1)
  then obtain x where "peak_le32dec m 0 = Some x" using decode_total(3)[of 0 m] by auto
  moreover have mv: "moves d os1 (snd (sys_lseek d 0 SEEK_SET os1))" by (rule sys_lseek_moves[OF 3(3)])
  from moves_open[OF mv] obtain f2 where f2: "fd_file (snd (sys_lseek d 0 SEEK_SET os1)) d = Some f2" ..
  note all = init_pcap_detects[OF f2] init_netmon_detects[OF f2] init_pcapng_detects[OF f2] detects_done(2)[OF f2, of format_zero]
  from all all[THEN detects_trans[OF mv]] calculation show ?case by (simp add: Let_def format_zero_def)
qed simp_all

lemma peak_load_init_safe:
  "\<exists>x os'. peak_load_init path mem obj os = Some (x, os') \<and> (\<forall>self. x = Some self \<longrightarrow> load_ok self)"
proof (cases path)
  case None
  then show ?thesis by (auto simp: peak_load_init_def load_ok_def format_zero_def Let_def)
next
  case (Some p)
  obtain d os1 where o: "open_rdonly p os = (d, os1)" by (cases "open_rdonly p os")
  show ?thesis
  proof (cases "d < 0")
    case False
    then obtain f where "fd_file os1 d = Some f" using open_rdonly_spec[OF o] by (auto split: if_splits)
    from init_detect_detects[OF this, of mem] obtain x os2 where x: "init_detect mem d os1 = Some (x, os2)"
      "\<And>f. x = Some f \<Longrightarrow> unat (f_length f) \<le> (case f_table f of None \<Rightarrow> 0 | Some t \<Rightarrow> length t)" by (auto simp: detects_def)
    have "4 * unat (f_length f div 4) \<le> (case f_table f of None \<Rightarrow> 0 | Some t \<Rightarrow> length t)" if "x = Some f" for f
      using x(2)[OF that] by (simp add: unat_div) 
    with False o Some x(1) show ?thesis by (cases x) (auto simp: peak_load_init_def load_ok_def Let_def)
  qed (use o Some in \<open>auto simp: peak_load_init_def Let_def\<close>)
qed

lemma peak_load_init_failed:
  assumes "peak_load_init (Some p) mem obj os = Some (None, os')" "fd_file os STDIN_FILENO \<noteq> None"
  shows "same_open os os'"
proof (cases "disk os p = None")
  case True
  then have "os' = os" using assms(1) by (simp add: peak_load_init_def open_rdonly_def Let_def)
  then show ?thesis by (simp add: same_open_def)
next
  case False
  let ?f = "\<lparr>file_path = p, file_pos = 0, file_write = False\<rparr>"
  obtain d os1 where o: "open_new ?f os = (d, os1)" by (cases "open_new ?f os")
  note spec = open_new_spec[OF o]
  have d: "d \<noteq> STDIN_FILENO" using spec(2) assms(2) by auto
  from init_detect_detects[OF spec(3), of mem] obtain x os2 k where x: "init_detect mem d os1 = Some (x, os2)"
    "os2 = put_fd os1 d (Some (?f\<lparr>file_pos := k\<rparr>))" using spec(3) by (auto simp: detects_def moves_def)
  have "os' = sys_close d os2" using assms(1) False o spec(1) d x(1)
    by (auto simp: peak_load_init_def open_rdonly_def Let_def close_file_def split: option.splits if_splits)
  then show ?thesis using open_put_close(1)[OF o] x(2) by simp
qed

section \<open>Reading a pcap file\<close>

text \<open>A pcap file in the byte order of the host or in the other one, with any version and snap length.\<close>

definition pcap_record :: "bool \<Rightarrow> packet \<Rightarrow> mem" where
  "pcap_record swap = (\<lambda>(b, s, u). le32_bytes (swap_if swap s) @ le32_bytes (swap_if swap u) @
     le32_bytes (swap_if swap (of_nat (length b))) @ le32_bytes (swap_if swap (of_nat (length b))) @ b)"

definition pcap_file :: "bool \<Rightarrow> mem \<Rightarrow> u32 \<Rightarrow> packet list \<Rightarrow> mem" where
  "pcap_file swap mid net ps = le32_bytes (swap_if swap PCAP_MAGIC) @ mid @ le32_bytes (swap_if swap net) @ concat (map (pcap_record swap) ps)"

lemma swap_if_twice [simp]: "swap_if s (swap_if s w) = w"
proof -
  have "peak_bswap32 (peak_bswap32 (push_bit 24 (ucast (ucast (drop_bit 24 w) :: u8)) OR push_bit 16 (ucast (ucast (drop_bit 16 w) :: u8))
     OR push_bit 8 (ucast (ucast (drop_bit 8 w) :: u8)) OR ucast (ucast w :: u8))) = w"
    unfolding bswap32_join by (rule split32)
  then show ?thesis by (simp add: swap_if_def split32)
qed

lemma length_pcap_record [simp]: "length (pcap_record swap (b, s, u)) = 16 + length b"
  by (simp add: pcap_record_def)

lemma load_pcap_record:
  assumes f: "fd_file os (load_fd self) = Some f" "\<not> file_write f" "file_pos f = length pre"
    and c: "content os (file_path f) = pre @ pcap_record (load_fmt self = PCAP_SWAP_MAGIC) (b, s, u) @ post"
    and b: "length b \<le> SIZEOF_BUF" "length (load_buf self) = SIZEOF_BUF"
  shows "load_pcap self os = Some (self\<lparr>load_buf := b @ drop (length b) (load_buf self),
      load_ts := \<lparr>tv_sec = int (unat s), tv_usec = int (unat u)\<rparr>, load_len := of_nat (length b)\<rparr>,
    put_fd os (load_fd self) (Some (f\<lparr>file_pos := length pre + 16 + length b\<rparr>)))"
proof -
  define swap where "swap = (load_fmt self = PCAP_SWAP_MAGIC)"
  define n :: u32 where "n = of_nat (length b)"
  define h where "h = le32_bytes (swap_if swap s) @ le32_bytes (swap_if swap u) @ le32_bytes (swap_if swap n) @ le32_bytes (swap_if swap n)"
  have c': "content os (file_path f) = pre @ h @ b @ post" using c by (simp add: pcap_record_def h_def n_def swap_def)
  have n: "unat n = length b" using b(1) by (simp add: n_def unat_of_nat)
  let ?os = "put_fd os (load_fd self) (Some (f\<lparr>file_pos := length pre + 16\<rparr>))"
  have r1: "sys_read (load_fd self) 16 os = (16, h, ?os)"
    using sys_read_at[OF f(1,2) c' f(3), of 16] by (simp add: h_def)
  have r2: "sys_read (load_fd self) (ucast n) ?os = (int (length b), b, put_fd os (load_fd self) (Some (f\<lparr>file_pos := length pre + 16 + length b\<rparr>)))"
    using sys_read_at[of ?os "load_fd self" "f\<lparr>file_pos := length pre + 16\<rparr>" "pre @ h" b post "ucast n"] f c' n b(1)
    by (simp add: h_def add.assoc)
  have "peak_le32dec h 0 = Some (swap_if swap s)" "peak_le32dec h 4 = Some (swap_if swap u)" "peak_le32dec h 8 = Some (swap_if swap n)"
    by (simp_all add: h_def le32dec_struct)
  with r1 r2 n b show ?thesis by (simp add: load_pcap_def swap_def[symmetric] Let_def fill_def n_def[symmetric] del: of_nat_unat)
qed

text \<open>A caller that reads packets until there are no more, at most \<open>n\<close> of them.\<close>

fun load_all :: "nat \<Rightarrow> peak_load \<Rightarrow> os \<Rightarrow> (mem \<times> int \<times> int) list option" where
  "load_all 0 self os = Some []"
| "load_all (Suc n) self os = do {
     r \<leftarrow> peak_load_packet self os;
     (case r of
        Return (k, self, os) \<Rightarrow>
          if k = 0 then Some []
          else do {
            ps \<leftarrow> load_all n self os;
            Some ((take (unat k) (load_buf self), tv_sec (load_ts self), tv_usec (load_ts self)) # ps) }
      | Panic \<Rightarrow> None
      | Hang \<Rightarrow> None) }"

definition packet_seen :: "packet \<Rightarrow> mem \<times> int \<times> int" where
  "packet_seen = (\<lambda>(b, s, u). (b, int (unat s), int (unat u)))"

lemma load_pcap_end:
  assumes "fd_file os (load_fd self) = Some f" "\<not> file_write f" "length (content os (file_path f)) < file_pos f + 16"
  shows "\<exists>os'. load_pcap self os = Some (self, os')"
  using sys_read_eof[OF assms(1,2), of 16] assms(3) by (auto simp: load_pcap_def)

lemma load_all_records:
  assumes "fd_file os (load_fd self) = Some f" "\<not> file_write f" "file_pos f = length pre"
    and "content os (file_path f) = pre @ concat (map (pcap_record (load_fmt self = PCAP_SWAP_MAGIC)) ps)"
    and "load_fmt self = PCAP_SWAP_MAGIC \<or> load_fmt self = PCAP_MAGIC" "load_ok self"
    and "\<forall>(b, s, u) \<in> set ps. b \<noteq> [] \<and> length b \<le> SIZEOF_BUF"
  shows "load_all (Suc (length ps)) self os = Some (map packet_seen ps)"
  using assms
proof (induction ps arbitrary: self os f pre)
  case Nil
  let ?self = "self\<lparr>load_len := 0\<rparr>"
  from Nil.prems(1-4) have "\<exists>os'. load_pcap ?self os = Some (?self, os')" by (intro load_pcap_end[of os ?self f]) simp_all
  with Nil.prems(5) show ?case by (auto simp: peak_load_packet_def Let_def)
next
  case (Cons x ps)
  obtain b s u where x: "x = (b, s, u)" by (cases x)
  let ?self = "self\<lparr>load_len := 0\<rparr>"
  let ?swap = "load_fmt self = PCAP_SWAP_MAGIC" and ?f = "f\<lparr>file_pos := length pre + 16 + length b\<rparr>"
  let ?os = "put_fd os (load_fd self) (Some ?f)"
  define self' where "self' = ?self\<lparr>load_buf := b @ drop (length b) (load_buf self), load_ts := \<lparr>tv_sec = int (unat s), tv_usec = int (unat u)\<rparr>,
    load_len := of_nat (length b)\<rparr>"
  have b: "b \<noteq> []" "length b \<le> SIZEOF_BUF" "length (load_buf self) = SIZEOF_BUF" using Cons.prems(6,7) by (simp_all add: x load_ok_def)
  have "load_pcap ?self os = Some (self', ?os)"
    using load_pcap_record[of os ?self f pre b s u "concat (map (pcap_record ?swap) ps)"] Cons.prems(1-4) b by (simp add: x self'_def)
  then have p: "peak_load_packet self os = Some (Return (of_nat (length b), self', ?os))"
    using Cons.prems(5) by (auto simp: peak_load_packet_def Let_def self'_def)
  have n: "unat (of_nat (length b) :: u32) = length b" using b(2) by (simp add: unat_of_nat)
  then have nz: "(of_nat (length b) :: u32) \<noteq> 0" using b(1) by (metis length_0_conv unat_0)
  have "load_all (Suc (length ps)) self' ?os = Some (map packet_seen ps)"
    by (rule Cons.IH[of _ _ ?f "pre @ pcap_record ?swap x"]) (use Cons.prems b in \<open>auto simp: self'_def x load_ok_def\<close>)
  then show ?case using p n nz by (simp add: x packet_seen_def self'_def del: load_all.simps(2) add: load_all.simps(2)[of "Suc (length ps)"])
qed

lemma swap_magic: "swap_if swap PCAP_MAGIC = (if swap then PCAP_SWAP_MAGIC else PCAP_MAGIC)"
  by (simp add: swap_if_def peak_bswap32_def peak_bswap16_def)

lemma init_pcap_file:
  assumes "disk os p = Some (pcap_file swap mid net ps)" "length mid = 16"
  obtains self os' where "peak_load_init (Some p) mem True os = Some (Some self, os')" "load_ok self" "load_ll self = net"
    "load_fmt self = (if swap then PCAP_SWAP_MAGIC else PCAP_MAGIC)" "disk os' = disk os"
    "fd_file os' (load_fd self) = Some \<lparr>file_path = p, file_pos = 24, file_write = False\<rparr>"
proof -
  let ?f = "\<lambda>k. \<lparr>file_path = p, file_pos = k, file_write = False\<rparr>"
  obtain d os1 where o: "open_new (?f 0) os = (d, os1)" by (cases "open_new (?f 0) os")
  note spec = open_new_spec[OF o]
  define m where "m = le32_bytes (swap_if swap PCAP_MAGIC)"
  define rest where "rest = concat (map (pcap_record swap) ps)"
  define h where "h = m @ mid @ le32_bytes (swap_if swap net)"
  have c: "content os1 p = [] @ m @ mid @ le32_bytes (swap_if swap net) @ rest" "content os1 p = [] @ h @ rest"
    using assms(1) spec(4) by (simp_all add: content_def pcap_file_def m_def h_def rest_def)
  have len: "length m = 4" "length h = 24" using assms(2) by (simp_all add: m_def h_def)
  have r1: "sys_read d 4 os1 = (4, m, put_fd os1 d (Some (?f 4)))" using sys_read_at[OF spec(3), of "[]" m _ 4] c(1) len by simp
  have r2: "sys_read d 24 os1 = (24, h, put_fd os1 d (Some (?f 24)))" using sys_read_at[OF spec(3), of "[]" h _ 24] c(2) len by simp
  have s: "snd (sys_lseek d 0 SEEK_SET (put_fd os1 d (Some (?f 4)))) = os1" using spec(3) by (simp add: sys_lseek_def put_fd_same)
  have "peak_le32dec m 0 = Some (swap_if swap PCAP_MAGIC)" by (simp add: m_def le32dec_le32_bytes)
  moreover have "peak_le32dec h 20 = Some (swap_if swap net)" using assms(2) len by (simp add: h_def le32dec_struct)
  ultimately have "init_detect mem d os1 = Some (Some (format_zero\<lparr>f_fmt := if swap then PCAP_SWAP_MAGIC else PCAP_MAGIC, f_ll := net\<rparr>), put_fd os1 d (Some (?f 24)))"
    using r1 r2 s by (simp add: init_detect_def init_pcap_def swap_magic Let_def)
  then have "peak_load_init (Some p) mem True os = Some (Some \<lparr>netmon_table = None, netmon_count = 0, netmon_pos = 0, netmon_time = 0,
      load_fmt = if swap then PCAP_SWAP_MAGIC else PCAP_MAGIC, load_fd = d, load_ts = \<lparr>tv_sec = 0, tv_usec = 0\<rparr>, load_len = 0, load_ll = net,
      load_buf = replicate SIZEOF_BUF 0\<rparr>, put_fd os1 d (Some (?f 24)))"
    using assms(1) o spec(1) by (simp add: peak_load_init_def open_rdonly_def Let_def format_zero_def)
  then show thesis by (rule that) (use spec in \<open>simp_all add: load_ok_def\<close>)
qed

text \<open>The packets of a pcap file.\<close>

lemma load_pcap_file:
  assumes "disk os p = Some (pcap_file swap mid net ps)" "length mid = 16"
    and "\<forall>(b, s, u) \<in> set ps. b \<noteq> [] \<and> length b \<le> SIZEOF_BUF"
  shows "\<exists>self os'. peak_load_init (Some p) mem True os = Some (Some self, os') \<and> load_ll self = net \<and>
    load_all (Suc (length ps)) self os' = Some (map packet_seen ps)"
proof -
  from init_pcap_file[OF assms(1,2), of mem] obtain self os' where
    i: "peak_load_init (Some p) mem True os = Some (Some self, os')" "load_ok self" "load_ll self = net"
    "load_fmt self = (if swap then PCAP_SWAP_MAGIC else PCAP_MAGIC)" "disk os' = disk os"
    "fd_file os' (load_fd self) = Some \<lparr>file_path = p, file_pos = 24, file_write = False\<rparr>" .
  let ?pre = "le32_bytes (swap_if swap PCAP_MAGIC) @ mid @ le32_bytes (swap_if swap net)"
  have "(load_fmt self = PCAP_SWAP_MAGIC) = swap" using i(4) by simp
  with i assms have "load_all (Suc (length ps)) self os' = Some (map packet_seen ps)"
    by (intro load_all_records[OF i(6), of ?pre]) (simp_all add: content_def pcap_file_def)
  with i(1,3) show ?thesis by blast
qed

lemma pcap_image_file: "pcap_image ps = pcap_file False (le16_bytes 2 @ le16_bytes 4 @ le32_bytes 0 @ le32_bytes 0 @ le32_bytes 65535) 1 ps"
  by (simp add: pcap_image_def pcap_file_def file_header_bytes_def store_file_header_def packet_record_def[abs_def] pcap_record_def[abs_def]
    packet_header_bytes_def swap_if_def split_def)

section \<open>Properties\<close>

text \<open>The objects a program can hold: opened, read from any number of times, with anything else happening to the
  system in between.\<close>

inductive load_reach :: "peak_load \<Rightarrow> os \<Rightarrow> bool" where
  opened: "peak_load_init path mem obj os = Some (Some self, os') \<Longrightarrow> load_reach self os'"
| packet: "load_reach self os \<Longrightarrow> peak_load_packet self os = Some (Return (n, self', os')) \<Longrightarrow> load_reach self' os'"
| other: "load_reach self os \<Longrightarrow> load_reach self os'"

lemma load_reach_ok: "load_reach self os \<Longrightarrow> load_ok self"
proof (induction rule: load_reach.induct)
  case (opened path mem obj os self os')
  with peak_load_init_safe[of path mem obj os] show ?case by auto
next
  case (packet self os n self' os')
  with peak_load_packet_safe[of self os] show ?case by auto
qed

text \<open>C19. Whatever file is opened and whatever bytes it holds, every object a program can reach is well-formed (the
  buffer has its 32 KiB, the frame table has an entry for every position that is still to be read), and reading a packet from it
  neither writes outside the buffer nor reads outside the table: it returns a well-formed object, or runs forever over
  pcapng blocks.\<close>

theorem load_type_safe:
  assumes "load_reach self os"
  shows "load_ok self \<and> (peak_load_packet self os = Some Hang \<or>
    (\<exists>n self' os'. peak_load_packet self os = Some (Return (n, self', os')) \<and> load_ok self' \<and> n = load_len self'))"
  using load_reach_ok[OF assms] peak_load_packet_safe[of self os] by blast

definition os_none :: os where
  "os_none = \<lparr>disk = Map.empty, may_create = (\<lambda>p. True), room = 1000, fds = []\<rparr>"

definition load_stdin :: peak_load where
  "load_stdin = \<lparr>netmon_table = None, netmon_count = 0, netmon_pos = 0, netmon_time = 0, load_fmt = ERF_MAGIC, load_fd = STDIN_FILENO,
     load_ts = \<lparr>tv_sec = 0, tv_usec = 0\<rparr>, load_len = 0, load_ll = LINKTYPE_ETHERNET, load_buf = replicate SIZEOF_BUF 0\<rparr>"

lemma load_stdin_init: "peak_load_init None True True os_none = Some (Some load_stdin, os_none)"
  by (simp add: peak_load_init_def load_stdin_def format_zero_def Let_def)

theorem load_type_safe_witness: "load_ok load_stdin \<and> peak_load_packet load_stdin os_none \<noteq> None"
  using load_type_safe[OF load_reach.opened[OF load_stdin_init]] by auto

text \<open>C21. The loop over pcapng blocks does not return exactly when it comes to a block of length zero that it passes over:
  with any amount of fuel it then runs out of it, and otherwise the fuel of the model, the bytes that are left in the
  file, is enough.\<close>

theorem pcapng_returns_iff:
  assumes "load_ok self" "load_fmt self = PCAPNG_MAGIC" "fd_file os (load_fd self) = Some f" "\<not> file_write f"
  shows "(peak_load_packet self os = Some Hang \<longleftrightarrow>
      (\<exists>q. (block_next (content os (file_path f)))\<^sup>*\<^sup>* (file_pos f) q \<and> block_skip (content os (file_path f)) q = Some q)) \<and>
    (peak_load_packet self os = Some Hang \<longleftrightarrow> (\<forall>fuel. load_pcapng fuel (self\<lparr>load_len := 0\<rparr>) os = Some Hang))"
proof -
  let ?self = "self\<lparr>load_len := 0\<rparr>" and ?c = "content os (file_path f)"
  have hang: "load_pcapng fuel ?self os = Some Hang \<longleftrightarrow> (\<exists>q. ((block_next ?c) ^^ fuel) (file_pos f) q)" for fuel
    using assms by (intro load_pcapng_hang) simp_all
  have left: "bytes_left (load_fd self) os = length ?c - file_pos f" using assms(3) by (simp add: bytes_left_def)
  have "peak_load_packet self os = Some Hang \<longleftrightarrow> load_pcapng (Suc (bytes_left (load_fd self) os)) ?self os = Some Hang"
    using assms(2) load_pcapng_safe[of ?self "Suc (bytes_left (load_fd self) os)" os] assms(1)
    by (auto simp: peak_load_packet_def Let_def simp del: load_pcapng.simps)
  also have "\<dots> \<longleftrightarrow> stuck ?c (file_pos f)" unfolding hang left by (rule enough_fuel)
  finally have "peak_load_packet self os = Some Hang \<longleftrightarrow> stuck ?c (file_pos f)" .
  moreover have "(\<forall>fuel. load_pcapng fuel ?self os = Some Hang) \<longleftrightarrow> stuck ?c (file_pos f)"
    unfolding hang using stuck_forever[of ?c "file_pos f"] enough_fuel[of ?c "file_pos f"] by blast
  ultimately show ?thesis by (simp add: stuck_def)
qed

definition load_capture :: "u32 \<Rightarrow> peak_load" where
  "load_capture m = load_stdin\<lparr>load_fmt := m\<rparr>"

definition os_with :: "mem \<Rightarrow> os" where
  "os_with c = os_none\<lparr>disk := [''capture'' \<mapsto> c], fds := [Some \<lparr>file_path = ''capture'', file_pos = 0, file_write = False\<rparr>]\<rparr>"

lemma load_capture_simps [simp]: "load_ok (load_capture m)" "load_fmt (load_capture m) = m" "load_fd (load_capture m) = 0"
  "fd_file (os_with c) 0 = Some \<lparr>file_path = ''capture'', file_pos = 0, file_write = False\<rparr>" "content (os_with c) ''capture'' = c"
  "disk (os_with c) ''capture'' = Some c"
  by (simp_all add: load_capture_def load_stdin_def load_ok_def fd_file_def os_with_def os_none_def content_def)

theorem pcapng_returns_iff_witness:
  "peak_load_packet (load_capture PCAPNG_MAGIC) (os_with [9, 0, 0, 0, 0, 0, 0, 0]) = Some Hang \<and>
   peak_load_packet (load_capture PCAPNG_MAGIC) (os_with []) \<noteq> Some Hang"
proof
  have "block_skip [9, 0, 0, 0, 0, 0, 0, 0] 0 = Some 0" by (simp add: block_skip_def peak_le32dec_def load8_def)
  then show "peak_load_packet (load_capture PCAPNG_MAGIC) (os_with [9, 0, 0, 0, 0, 0, 0, 0]) = Some Hang"
    using pcapng_returns_iff[of "load_capture PCAPNG_MAGIC" "os_with [9, 0, 0, 0, 0, 0, 0, 0]"] by auto
  have "block_skip [] q = None" for q by (simp add: block_skip_def peak_le32dec_def load8_def)
  then show "peak_load_packet (load_capture PCAPNG_MAGIC) (os_with []) \<noteq> Some Hang"
    using pcapng_returns_iff[of "load_capture PCAPNG_MAGIC" "os_with []"] by auto
qed

text \<open>C20. What the writer stores, the reader loads: after creating a file, storing packets in it and closing it,
  opening the file and reading until no packet is left gives the same packets with their time stamps in the same order, on
  the link type Ethernet. The packets may not be empty and may not exceed the buffer of the reader.\<close>

theorem store_load_round_trip:
  assumes "may_create os p" "length (pcap_image ps) \<le> room os" "\<forall>(b, s, u) \<in> set ps. b \<noteq> [] \<and> length b \<le> SIZEOF_BUF"
  shows "\<exists>fd os1 os2 self os3. peak_store_init p os = (fd, os1) \<and> 0 \<le> fd \<and> store_all fd ps os1 = Some (True, os2) \<and>
    peak_load_init (Some p) True True (peak_store_exit fd os2) = Some (Some self, os3) \<and> load_ll self = LINKTYPE_ETHERNET \<and>
    load_all (Suc (length ps)) self os3 = Some (map packet_seen ps)"
proof -
  have "\<forall>(b, s, u) \<in> set ps. length b < 2 ^ 32" using assms(3) by auto
  from store_run[OF assms(1,2) this] obtain fd os1 os2 where s: "peak_store_init p os = (fd, os1)" "0 \<le> fd" "store_all fd ps os1 = Some (True, os2)"
    "disk (peak_store_exit fd os2) = (disk os)(p \<mapsto> pcap_image ps)" .
  have "disk (peak_store_exit fd os2) p = Some (pcap_file False (le16_bytes 2 @ le16_bytes 4 @ le32_bytes 0 @ le32_bytes 0 @ le32_bytes 65535) 1 ps)"
    using s(4) by (simp add: pcap_image_file)
  from load_pcap_file[OF this _ assms(3)] s(1-3) show ?thesis by fastforce
qed

theorem store_load_round_trip_witness:
  "\<exists>fd os1 os2 self os3. peak_store_init ''out'' os_none = (fd, os1) \<and> 0 \<le> fd \<and> store_all fd [([1, 2, 3], 5, 6), ([4], 7, 8)] os1 = Some (True, os2) \<and>
    peak_load_init (Some ''out'') True True (peak_store_exit fd os2) = Some (Some self, os3) \<and> load_ll self = 1 \<and>
    load_all 3 self os3 = Some [([1, 2, 3], 5, 6), ([4], 7, 8)]"
  using store_load_round_trip[of os_none "''out''" "[([1, 2, 3], 5, 6), ([4], 7, 8)]"]
  by (simp add: os_none_def pcap_image_def packet_seen_def numeral_3_eq_3)

text \<open>A pcap file is read the same in both byte orders: with the magic number, the link type and the headers of the packets
  in the order of the host or all of them swapped, the reader delivers the link type and the packets that are in the file.\<close>

lemma pcap_either_order:
  assumes "length mid = 16" "\<forall>(b, s, u) \<in> set ps. b \<noteq> [] \<and> length b \<le> SIZEOF_BUF" "disk os p = Some (pcap_file swap mid net ps)"
  shows "\<exists>self os'. peak_load_init (Some p) mem True os = Some (Some self, os') \<and> load_ll self = net \<and>
    load_all (Suc (length ps)) self os' = Some (map packet_seen ps)"
  using load_pcap_file[OF assms(3,1,2)] .

lemma pcap_either_order_witness:
  "\<exists>self os'. peak_load_init (Some ''capture'') False True (os_with (pcap_file True (replicate 16 0) 113 [([1, 2, 3], 5, 6)])) = Some (Some self, os') \<and>
    load_ll self = 113 \<and> load_all (Suc (Suc 0)) self os' = Some [([1, 2, 3], 5, 6)]"
  using pcap_either_order[of "replicate 16 0" "[([1, 2, 3], 5, 6)]" "os_with (pcap_file True (replicate 16 0) 113 [([1, 2, 3], 5, 6)])" "''capture''" True 113 False]
  by (simp add: packet_seen_def del: load_all.simps)

text \<open>Opening a file that cannot be read as a capture (no such file, a truncated header, an unsupported version, no memory)
  returns no object and leaves no descriptor open, as long as standard input is.\<close>

lemma load_init_error:
  assumes "peak_load_init (Some p) mem obj os = Some (None, os')" "fd_file os STDIN_FILENO \<noteq> None"
  shows "disk os' = disk os \<and> (\<forall>fd. fd_file os' fd = fd_file os fd)"
  using peak_load_init_failed[OF assms] by (simp add: same_open_def)

lemma load_init_error_witness:
  "\<exists>os'. peak_load_init (Some ''capture'') True True (os_with [1, 2, 3]) = Some (None, os') \<and> fd_file os' 1 = None"
proof -
  have "\<exists>os'. peak_load_init (Some ''capture'') True True (os_with [1, 2, 3]) = Some (None, os')"
    by (simp add: peak_load_init_def open_rdonly_def open_new_def init_detect_def sys_read_def os_with_def os_none_def put_fd_def set_fd_def
      fd_file_def content_def Let_def)
  then obtain os' where os': "peak_load_init (Some ''capture'') True True (os_with [1, 2, 3]) = Some (None, os')" ..
  from load_init_error[OF this] have "fd_file os' 1 = fd_file (os_with [1, 2, 3]) 1" by simp
  with os' show ?thesis by (simp add: fd_file_def os_with_def)
qed

lemma load_pcap_len:
  assumes r: "load_pcap self os = Some (self', os')" and "load_len self = 0"
  shows "unat (load_len self') \<le> SIZEOF_BUF"
proof -
  obtain ret hdr os1 where r1: "sys_read (load_fd self) 16 os = (ret, hdr, os1)" by (cases "sys_read (load_fd self) 16 os") auto
  show ?thesis
  proof (cases "ret = 16")
    case True
    then have "length hdr = 16" using sys_read_length[OF r1] by simp
    then obtain x y z where dec: "peak_le32dec hdr 0 = Some x" "peak_le32dec hdr 4 = Some y" "peak_le32dec hdr 8 = Some z"
      using decode_total(3)[of 0 hdr] decode_total(3)[of 4 hdr] decode_total(3)[of 8 hdr] by auto
    define n where "n = swap_if (load_fmt self = PCAP_SWAP_MAGIC) z"
    obtain ret2 bs os2 where r2: "sys_read (load_fd self) (ucast n) os1 = (ret2, bs, os2)" by (cases "sys_read (load_fd self) (ucast n) os1") auto
    from r True r1 r2 dec assms(2) show ?thesis
      by (auto simp: load_pcap_def Let_def bind_eq_Some_conv n_def[symmetric] not_less simp del: of_nat_unat split: if_splits)
  qed (use assms r1 in \<open>auto simp: load_pcap_def\<close>)
qed

lemma pcap_length_bounded:
  assumes "load_ok self" "load_fmt self = PCAP_SWAP_MAGIC \<or> load_fmt self = PCAP_MAGIC"
    "peak_load_packet self os = Some (Return (n, self', os'))"
  shows "unat n \<le> length (load_buf self')"
proof -
  from assms(2,3) have "load_pcap (self\<lparr>load_len := 0\<rparr>) os = Some (self', os')" "n = load_len self'"
    by (auto simp: peak_load_packet_def Let_def bind_eq_Some_conv)
  with load_pcap_len have "unat n \<le> SIZEOF_BUF" by fastforce
  moreover from peak_load_packet_safe[OF assms(1), of os] assms(3) have "length (load_buf self') = SIZEOF_BUF" by (auto simp: load_ok_def)
  ultimately show ?thesis by simp
qed

text \<open>For a pcap file the length that the reader reports is never more than its buffer holds (\<open>pcap_length_bounded\<close>), but
  for an ERF file it is the length on the wire, which the file alone determines: there is a file of 18 bytes, without any packet
  data, for which a packet of 65535 bytes is reported while the buffer ends after 32768.\<close>

lemma erf_length_beyond_buffer:
  "\<exists>c self os n self' os'. length c = 18 \<and> peak_load_init (Some ''capture'') True True (os_with c) = Some (Some self, os) \<and>
     peak_load_packet self os = Some (Return (n, self', os')) \<and> length (load_buf self') < unat n"
proof -
  let ?c = "[0, 0, 0, 0, 0, 0, 0, 0, 1, 0, 0, 18, 0, 0, 255, 255, 0, 0] :: mem"
  let ?f = "\<lambda>k. \<lparr>file_path = ''capture'', file_pos = k, file_write = False\<rparr>"
  let ?os = "(os_with ?c)\<lparr>fds := [Some (?f 0), Some (?f 0)]\<rparr>" and ?self = "load_stdin\<lparr>load_fd := 1\<rparr>"
  have init: "peak_load_init (Some ''capture'') True True (os_with ?c) = Some (Some ?self, ?os)"
    by (simp add: peak_load_init_def open_rdonly_def open_new_def init_detect_def sys_read_def sys_lseek_def os_with_def os_none_def put_fd_def
      set_fd_def fd_file_def content_def Let_def peak_le32dec_def load8_def format_zero_def load_stdin_def)
  have "\<exists>self' os'. load_erf (?self\<lparr>load_len := 0\<rparr>) ?os = Some (self', os') \<and> load_len self' = 65535"
    by (simp add: load_erf_def sys_read_def os_with_def os_none_def put_fd_def set_fd_def fd_file_def content_def Let_def peak_be16dec_def
      peak_le64dec_def peak_le32dec_def load8_def fill_def load_stdin_def)
  then obtain self' os' where r: "load_erf (?self\<lparr>load_len := 0\<rparr>) ?os = Some (self', os')" "load_len self' = 65535" by blast
  then have p: "peak_load_packet ?self ?os = Some (Return (65535, self', os'))" by (simp add: peak_load_packet_def load_stdin_def)
  have "load_ok ?self" by (simp add: load_stdin_def load_ok_def)
  from peak_load_packet_safe[OF this, of ?os] p have "length (load_buf self') = SIZEOF_BUF" by (auto simp: load_ok_def)
  then show ?thesis using init p by (intro exI[of _ ?c] exI) auto
qed

end
