(* ===== verification/Peak_Search.thy ===== *)
theory Peak_Search
  imports Peak_Prelude
begin

text \<open>
  Sorted tables: \<open>strcmp(3)\<close>, \<open>strcasecmp(3)\<close> and \<open>bsearch(3)\<close> as the library uses them, the promise of \<open>bsearch\<close> as a
  locale, and tables of keywords, which the geolocation and the file types have.
\<close>

section \<open>Searching\<close>

text \<open>\<open>strcmp(3)\<close> and \<open>strcasecmp(3)\<close>, of which only the sign matters, and \<open>bsearch(3)\<close> over the elements from \<open>lo\<close> up to \<open>hi\<close>.\<close>

fun strcmp :: "string \<Rightarrow> string \<Rightarrow> int" where
  "strcmp [] [] = 0"
| "strcmp [] (d # ds) = - 1"
| "strcmp (c # cs) [] = 1"
| "strcmp (c # cs) (d # ds) =
     (if (of_char c :: int) < of_char d then - 1 else if (of_char d :: int) < of_char c then 1 else strcmp cs ds)"

definition tolower :: "char \<Rightarrow> char" where
  "tolower c = (if 65 \<le> (of_char c :: int) \<and> (of_char c :: int) \<le> 90 then char_of (of_char c + 32 :: int) else c)"

definition strcasecmp :: "string \<Rightarrow> string \<Rightarrow> int" where
  "strcasecmp x y = strcmp (map tolower x) (map tolower y)"

function bsearch_loop :: "('k \<Rightarrow> 'e \<Rightarrow> int) \<Rightarrow> 'k \<Rightarrow> 'e list \<Rightarrow> nat \<Rightarrow> nat \<Rightarrow> nat option" where
  "bsearch_loop compar key base lo hi =
     (if lo < hi then
        let idx = (lo + hi) div 2; r = compar key (base ! idx)
        in if r < 0 then bsearch_loop compar key base lo idx
           else if 0 < r then bsearch_loop compar key base (Suc idx) hi
           else Some idx
      else None)"
  by pat_completeness auto
termination
  by (relation "measure (\<lambda>(compar, key, base, lo, hi). hi - lo)") auto

declare bsearch_loop.simps [simp del]

definition bsearch :: "('k \<Rightarrow> 'e \<Rightarrow> int) \<Rightarrow> 'k \<Rightarrow> 'e list \<Rightarrow> nat option" where
  "bsearch compar key base = bsearch_loop compar key base 0 (length base)"

section \<open>What the searches rely on\<close>

text \<open>The elements before the key compare positive, those behind it negative.\<close>

definition ordered_for :: "('k \<Rightarrow> 'e \<Rightarrow> int) \<Rightarrow> 'k \<Rightarrow> 'e list \<Rightarrow> bool" where
  "ordered_for compar key base \<longleftrightarrow> (\<forall>j < length base. \<forall>i < j.
     (0 < compar key (base ! j) \<longrightarrow> 0 < compar key (base ! i)) \<and> (compar key (base ! i) < 0 \<longrightarrow> compar key (base ! j) < 0))"

text \<open>The promise of \<open>bsearch(3)\<close>: what it returns matches, and it finds a match in an ordered array if there is one.\<close>

locale array_search =
  fixes search :: "('k \<Rightarrow> 'e \<Rightarrow> int) \<Rightarrow> 'k \<Rightarrow> 'e list \<Rightarrow> nat option"
  assumes hit: "search compar key base = Some i \<Longrightarrow> i < length base \<and> compar key (base ! i) = 0"
    and miss: "search compar key base = None \<Longrightarrow> ordered_for compar key base \<Longrightarrow> i < length base \<Longrightarrow> compar key (base ! i) \<noteq> 0"
begin

lemma unique:
  assumes "ordered_for compar key base" "i < length base" "compar key (base ! i) = 0"
    and "\<And>j. j < length base \<Longrightarrow> compar key (base ! j) = 0 \<Longrightarrow> j = i"
  shows "search compar key base = Some i"
proof (cases "search compar key base")
  case None
  from miss[OF None assms(1,2)] assms(3) show ?thesis by simp
next
  case (Some j)
  with hit[OF Some] assms(4) show ?thesis by simp
qed

text \<open>At most one element matches: the search is the linear one.\<close>

lemma linear:
  assumes "ordered_for compar key base"
    and "\<And>i j. i < length base \<Longrightarrow> j < length base \<Longrightarrow> compar key (base ! i) = 0 \<Longrightarrow> compar key (base ! j) = 0 \<Longrightarrow> i = j"
  shows "map_option (\<lambda>i. base ! i) (search compar key base) = find (\<lambda>e. compar key e = 0) base"
proof (cases "search compar key base")
  case None
  have "\<not> (\<exists>e \<in> set base. compar key e = 0)" using miss[OF None assms(1)] by (auto simp: in_set_conv_nth)
  with None show ?thesis by (simp add: find_None_iff[THEN iffD2])
next
  case (Some i)
  note h = hit[OF Some]
  have "compar key (base ! j) \<noteq> 0" if "j < i" for j using that h assms(2)[of i j] by auto
  with h have "find (\<lambda>e. compar key e = 0) base = Some (base ! i)" unfolding find_Some_iff by blast
  with Some show ?thesis by simp
qed

end

lemma bsearch_loop_hit: "bsearch_loop compar key base lo hi = Some i \<Longrightarrow> lo \<le> i \<and> i < hi \<and> compar key (base ! i) = 0"
proof (induction compar key base lo hi rule: bsearch_loop.induct)
  case (1 compar key base lo hi)
  let ?idx = "(lo + hi) div 2"
  show ?case
  proof (cases "lo < hi")
    case True
    then have mid: "lo \<le> ?idx" "?idx < hi" by auto
    from "1.prems" True consider "compar key (base ! ?idx) < 0" "bsearch_loop compar key base lo ?idx = Some i"
      | "0 < compar key (base ! ?idx)" "bsearch_loop compar key base (Suc ?idx) hi = Some i" | "compar key (base ! ?idx) = 0" "i = ?idx"
      by (subst (asm) bsearch_loop.simps) (auto simp: Let_def split: if_splits)
    then show ?thesis
    proof cases
      case 1
      from "1.IH"(1)[OF True refl refl this] mid show ?thesis by simp
    next
      case 2
      from "1.IH"(2)[OF True refl refl _ this] 2 mid show ?thesis by simp
    qed (use mid in auto)
  qed (use "1.prems" in \<open>simp add: bsearch_loop.simps\<close>)
qed

lemma bsearch_loop_miss:
  assumes "bsearch_loop compar key base lo hi = None" "ordered_for compar key base" "hi \<le> length base" "lo \<le> i" "i < hi"
  shows "compar key (base ! i) \<noteq> 0"
  using assms
proof (induction compar key base lo hi rule: bsearch_loop.induct)
  case (1 compar key base lo hi)
  let ?idx = "(lo + hi) div 2"
  have lt: "lo < hi" using "1.prems" by simp
  then have mid: "lo \<le> ?idx" "?idx < hi" by auto
  have ord: "j < length base \<Longrightarrow> k < j \<Longrightarrow> 0 < compar key (base ! j) \<Longrightarrow> 0 < compar key (base ! k)"
    "j < length base \<Longrightarrow> k < j \<Longrightarrow> compar key (base ! k) < 0 \<Longrightarrow> compar key (base ! j) < 0" for j k
    using "1.prems"(2) by (auto simp: ordered_for_def)
  from "1.prems"(1) lt consider "compar key (base ! ?idx) < 0" "bsearch_loop compar key base lo ?idx = None"
    | "0 < compar key (base ! ?idx)" "bsearch_loop compar key base (Suc ?idx) hi = None"
    by (subst (asm) bsearch_loop.simps) (auto simp: Let_def split: if_splits)
  then show ?case
  proof cases
    case 1
    show ?thesis
    proof (cases "i < ?idx")
      case True
      from "1.IH"(1)[OF lt refl refl 1 "1.prems"(2)] mid "1.prems"(3,4) True show ?thesis by simp
    next
      case False
      then show ?thesis using ord(2)[of i ?idx] 1(1) "1.prems"(3,5) by (cases "i = ?idx") auto
    qed
  next
    case 2
    show ?thesis
    proof (cases "?idx < i")
      case True
      from "1.IH"(2)[OF lt refl refl _ 2 "1.prems"(2)] 2(1) "1.prems"(3,5) True show ?thesis by simp
    next
      case False
      then show ?thesis using ord(1)[of ?idx i] 2(1) mid "1.prems"(3) by (cases "i = ?idx") auto
    qed
  qed
qed

interpretation bs: array_search bsearch
proof
  show "i < length base \<and> compar key (base ! i) = 0" if "bsearch compar key base = Some i" for compar key base i
    using bsearch_loop_hit[of compar key base 0 "length base" i] that by (simp add: bsearch_def)
  show "compar key (base ! i) \<noteq> 0" if "bsearch compar key base = None" "ordered_for compar key base" "i < length base" for compar key base i
    using bsearch_loop_miss[of compar key base 0 "length base" i] that by (simp add: bsearch_def)
qed

section \<open>Tables of keywords\<close>

text \<open>A table that is sorted by the name of its entries for a comparison of strings: every entry is found by its name, and
  what is found has the name that was looked for.\<close>

locale keyword_table =
  fixes compar :: "string \<Rightarrow> string \<Rightarrow> int" and name :: "'e \<Rightarrow> string" and items :: "'e list"
  assumes swap: "compar y x = - compar x y"
    and trans: "compar x y \<le> 0 \<Longrightarrow> compar y z < 0 \<Longrightarrow> compar x z < 0"
    and sorted: "successively (\<lambda>x y. compar x y < 0) (map name items)"
begin

lemma names_less: "i < j \<Longrightarrow> j < length items \<Longrightarrow> compar (name (items ! i)) (name (items ! j)) < 0"
proof -
  assume ij: "i < j" "j < length items"
  have "transp (\<lambda>x y. compar x y < 0)" by (rule transpI) (meson trans less_imp_le)
  with sorted have "sorted_wrt (\<lambda>x y. compar x y < 0) (map name items)" by (simp add: successively_conv_sorted_wrt)
  with ij show ?thesis by (simp add: sorted_wrt_iff_nth_less)
qed

lemma ordered: "ordered_for (\<lambda>k e. compar k (name e)) key items"
  unfolding ordered_for_def
proof (intro allI impI)
  fix i j assume j: "j < length items" and i: "i < j"
  let ?x = "name (items ! i)" and ?y = "name (items ! j)"
  have "compar ?x ?y < 0" using names_less[OF i j] .
  then show "(0 < compar key ?y \<longrightarrow> 0 < compar key ?x) \<and> (compar key ?x < 0 \<longrightarrow> compar key ?y < 0)"
    using trans[of ?x ?y key] trans[of key ?x ?y] swap[of key ?x] swap[of key ?y] by auto
qed

lemma found:
  assumes i: "i < length items" and eq: "compar key (name (items ! i)) = 0"
  shows "bsearch (\<lambda>k e. compar k (name e)) key items = Some i"
proof (rule bs.unique[OF ordered i eq])
  fix j assume j: "j < length items" "compar key (name (items ! j)) = 0"
  show "j = i" using names_less[of i j] names_less[of j i] i eq j
      trans[of key "name (items ! i)" "name (items ! j)"] trans[of key "name (items ! j)" "name (items ! i)"]
    by (cases i j rule: linorder_cases) auto
qed

end

section \<open>Comparing strings\<close>

lemma strcmp_eq_0_iff: "strcmp x y = 0 \<longleftrightarrow> x = y"
  by (induction x y rule: strcmp.induct) auto

lemma strcmp_swap: "strcmp y x = - strcmp x y"
  by (induction x y rule: strcmp.induct) auto

lemma strcmp_trans: "strcmp x y < 0 \<Longrightarrow> strcmp y z < 0 \<Longrightarrow> strcmp x z < 0"
proof (induction x y arbitrary: z rule: strcmp.induct)
  case (2 d ds)
  then show ?case by (cases z) auto
next
  case (4 c cs d ds)
  then obtain e es where z: "z = e # es" by (cases z) auto
  define a b g where abg: "a = (of_char c :: int)" "b = (of_char d :: int)" "g = (of_char e :: int)"
  note IH = "4.IH"[of es]
  from "4.prems" have "a < b \<or> a = b \<and> strcmp cs ds < 0" "b < g \<or> b = g \<and> strcmp ds es < 0"
    unfolding z strcmp.simps abg[symmetric] by (auto split: if_splits)
  then consider "a < g" | "a = b" "b = g" "strcmp cs ds < 0" "strcmp ds es < 0" by linarith
  then show ?case
  proof cases
    case 2
    with IH abg show ?thesis unfolding z strcmp.simps abg[symmetric] by simp
  qed (simp add: z abg)
qed auto

interpretation str: cmp_order strcmp UNIV
proof
  show "strcmp y x < 0 \<longleftrightarrow> 0 < strcmp x y" for x y by (simp add: strcmp_swap[of y x])
  show "strcmp x z \<le> 0" if "strcmp x y \<le> 0" "strcmp y z \<le> 0" for x y z
    using that strcmp_trans[of x y z] strcmp_eq_0_iff[of x y] strcmp_eq_0_iff[of y z] by (auto simp: le_less)
qed

lemma strcasecmp_swap: "strcasecmp y x = - strcasecmp x y"
  unfolding strcasecmp_def by (rule strcmp_swap)

lemma strcmp_le_trans: "strcmp x y \<le> 0 \<Longrightarrow> strcmp y z < 0 \<Longrightarrow> strcmp x z < 0"
  using str.le_less_trans[of x y z] by simp

lemma strcasecmp_trans: "strcasecmp x y \<le> 0 \<Longrightarrow> strcasecmp y z < 0 \<Longrightarrow> strcasecmp x z < 0"
  unfolding strcasecmp_def by (rule strcmp_le_trans)

end
