(* ===== verification/Peak_Locate.thy ===== *)
theory Peak_Locate
  imports Peak_Os Peak_Net Peak_Search
begin

text \<open>
  Geolocation, \<open>src/lib/peak_locate.c\<close> and \<open>src/lib/peak_locate.h\<close>: the table of the locations with its lookups by name and
  by number, reading a database of address ranges from a file, and finding the range of an address in it.

  The enumeration of the locations is the list of its enumerators, whose values are their positions; the table of the
  locations refers to them by name, as in the code. Strings are lists of characters. A range is a record of its addresses and its
  location; in the file it occupies 40 bytes.
\<close>

section \<open>Locations\<close>

definition locate_enum :: "string list" where
  "locate_enum =
    [''LOCATE_UNKNOWN'', ''LOCATE_AD'', ''LOCATE_AE'', ''LOCATE_AF'', ''LOCATE_AG'', ''LOCATE_AI'', ''LOCATE_AL'', ''LOCATE_AM'',
     ''LOCATE_AO'', ''LOCATE_AQ'', ''LOCATE_AR'', ''LOCATE_AS'', ''LOCATE_AT'', ''LOCATE_AU'', ''LOCATE_AW'', ''LOCATE_AX'',
     ''LOCATE_AZ'', ''LOCATE_BA'', ''LOCATE_BB'', ''LOCATE_BD'', ''LOCATE_BE'', ''LOCATE_BF'', ''LOCATE_BG'', ''LOCATE_BH'',
     ''LOCATE_BI'', ''LOCATE_BJ'', ''LOCATE_BL'', ''LOCATE_BM'', ''LOCATE_BN'', ''LOCATE_BO'', ''LOCATE_BQ'', ''LOCATE_BR'',
     ''LOCATE_BS'', ''LOCATE_BT'', ''LOCATE_BV'', ''LOCATE_BW'', ''LOCATE_BY'', ''LOCATE_BZ'', ''LOCATE_CA'', ''LOCATE_CC'',
     ''LOCATE_CD'', ''LOCATE_CF'', ''LOCATE_CG'', ''LOCATE_CH'', ''LOCATE_CI'', ''LOCATE_CK'', ''LOCATE_CL'', ''LOCATE_CM'',
     ''LOCATE_CN'', ''LOCATE_CO'', ''LOCATE_CR'', ''LOCATE_CU'', ''LOCATE_CV'', ''LOCATE_CW'', ''LOCATE_CX'', ''LOCATE_CY'',
     ''LOCATE_CZ'', ''LOCATE_DE'', ''LOCATE_DJ'', ''LOCATE_DK'', ''LOCATE_DM'', ''LOCATE_DO'', ''LOCATE_DZ'', ''LOCATE_EC'',
     ''LOCATE_EE'', ''LOCATE_EG'', ''LOCATE_EH'', ''LOCATE_ER'', ''LOCATE_ES'', ''LOCATE_ET'', ''LOCATE_FI'', ''LOCATE_FJ'',
     ''LOCATE_FK'', ''LOCATE_FM'', ''LOCATE_FO'', ''LOCATE_FR'', ''LOCATE_GA'', ''LOCATE_GB'', ''LOCATE_GD'', ''LOCATE_GE'',
     ''LOCATE_GF'', ''LOCATE_GG'', ''LOCATE_GH'', ''LOCATE_GI'', ''LOCATE_GL'', ''LOCATE_GM'', ''LOCATE_GN'', ''LOCATE_GP'',
     ''LOCATE_GQ'', ''LOCATE_GR'', ''LOCATE_GS'', ''LOCATE_GT'', ''LOCATE_GU'', ''LOCATE_GW'', ''LOCATE_GY'', ''LOCATE_HK'',
     ''LOCATE_HM'', ''LOCATE_HN'', ''LOCATE_HR'', ''LOCATE_HT'', ''LOCATE_HU'', ''LOCATE_ID'', ''LOCATE_IE'', ''LOCATE_IL'',
     ''LOCATE_IM'', ''LOCATE_IN'', ''LOCATE_IO'', ''LOCATE_IQ'', ''LOCATE_IR'', ''LOCATE_IS'', ''LOCATE_IT'', ''LOCATE_JE'',
     ''LOCATE_JM'', ''LOCATE_JO'', ''LOCATE_JP'', ''LOCATE_KE'', ''LOCATE_KG'', ''LOCATE_KH'', ''LOCATE_KI'', ''LOCATE_KM'',
     ''LOCATE_KN'', ''LOCATE_KP'', ''LOCATE_KR'', ''LOCATE_KW'', ''LOCATE_KY'', ''LOCATE_KZ'', ''LOCATE_LA'', ''LOCATE_LB'',
     ''LOCATE_LC'', ''LOCATE_LI'', ''LOCATE_LK'', ''LOCATE_LR'', ''LOCATE_LS'', ''LOCATE_LT'', ''LOCATE_LU'', ''LOCATE_LV'',
     ''LOCATE_LY'', ''LOCATE_MA'', ''LOCATE_MC'', ''LOCATE_MD'', ''LOCATE_ME'', ''LOCATE_MF'', ''LOCATE_MG'', ''LOCATE_MH'',
     ''LOCATE_MK'', ''LOCATE_ML'', ''LOCATE_MM'', ''LOCATE_MN'', ''LOCATE_MO'', ''LOCATE_MP'', ''LOCATE_MQ'', ''LOCATE_MR'',
     ''LOCATE_MS'', ''LOCATE_MT'', ''LOCATE_MU'', ''LOCATE_MV'', ''LOCATE_MW'', ''LOCATE_MX'', ''LOCATE_MY'', ''LOCATE_MZ'',
     ''LOCATE_NA'', ''LOCATE_NC'', ''LOCATE_NE'', ''LOCATE_NF'', ''LOCATE_NG'', ''LOCATE_NI'', ''LOCATE_NL'', ''LOCATE_NO'',
     ''LOCATE_NP'', ''LOCATE_NR'', ''LOCATE_NU'', ''LOCATE_NZ'', ''LOCATE_OM'', ''LOCATE_PA'', ''LOCATE_PE'', ''LOCATE_PF'',
     ''LOCATE_PG'', ''LOCATE_PH'', ''LOCATE_PK'', ''LOCATE_PL'', ''LOCATE_PM'', ''LOCATE_PN'', ''LOCATE_PR'', ''LOCATE_PS'',
     ''LOCATE_PT'', ''LOCATE_PW'', ''LOCATE_PY'', ''LOCATE_QA'', ''LOCATE_RE'', ''LOCATE_RO'', ''LOCATE_RS'', ''LOCATE_RU'',
     ''LOCATE_RW'', ''LOCATE_SA'', ''LOCATE_SB'', ''LOCATE_SC'', ''LOCATE_SD'', ''LOCATE_SE'', ''LOCATE_SG'', ''LOCATE_SH'',
     ''LOCATE_SI'', ''LOCATE_SJ'', ''LOCATE_SK'', ''LOCATE_SL'', ''LOCATE_SM'', ''LOCATE_SN'', ''LOCATE_SO'', ''LOCATE_SR'',
     ''LOCATE_SS'', ''LOCATE_ST'', ''LOCATE_SV'', ''LOCATE_SX'', ''LOCATE_SY'', ''LOCATE_SZ'', ''LOCATE_TC'', ''LOCATE_TD'',
     ''LOCATE_TF'', ''LOCATE_TG'', ''LOCATE_TH'', ''LOCATE_TJ'', ''LOCATE_TK'', ''LOCATE_TL'', ''LOCATE_TM'', ''LOCATE_TN'',
     ''LOCATE_TO'', ''LOCATE_TR'', ''LOCATE_TT'', ''LOCATE_TV'', ''LOCATE_TW'', ''LOCATE_TZ'', ''LOCATE_UA'', ''LOCATE_UG'',
     ''LOCATE_UM'', ''LOCATE_US'', ''LOCATE_UY'', ''LOCATE_UZ'', ''LOCATE_VA'', ''LOCATE_VC'', ''LOCATE_VE'', ''LOCATE_VG'',
     ''LOCATE_VI'', ''LOCATE_VN'', ''LOCATE_VU'', ''LOCATE_WF'', ''LOCATE_WS'', ''LOCATE_XX'', ''LOCATE_YE'', ''LOCATE_YT'',
     ''LOCATE_ZA'', ''LOCATE_ZM'', ''LOCATE_ZW'', ''LOCATE_MAX'']"

fun enum_index :: "string list \<Rightarrow> string \<Rightarrow> nat" where
  "enum_index [] e = 0"
| "enum_index (x # xs) e = (if x = e then 0 else Suc (enum_index xs e))"

definition enum_value :: "string \<Rightarrow> u32" where
  "enum_value e = of_nat (enum_index locate_enum e)"

definition LOCATE_UNKNOWN :: u32 where
  "LOCATE_UNKNOWN = enum_value ''LOCATE_UNKNOWN''"

definition LOCATE_XX :: u32 where
  "LOCATE_XX = enum_value ''LOCATE_XX''"

definition LOCATE_MAX :: u32 where
  "LOCATE_MAX = enum_value ''LOCATE_MAX''"

record locate_item =
  guid :: u32
  item_name :: string
  item_desc :: string

definition locate_table :: "(string \<times> string \<times> string) list" where
  "locate_table =
    [(''LOCATE_UNKNOWN'', '''', ''unknown''), (''LOCATE_AD'', ''AD'', ''Andorra''), (''LOCATE_AE'', ''AE'', ''United Arab Emirates''),
     (''LOCATE_AF'', ''AF'', ''Afghanistan''), (''LOCATE_AG'', ''AG'', ''Antigua & Barbuda''), (''LOCATE_AI'', ''AI'', ''Anguilla''),
     (''LOCATE_AL'', ''AL'', ''Albania''), (''LOCATE_AM'', ''AM'', ''Armenia''), (''LOCATE_AO'', ''AO'', ''Angola''),
     (''LOCATE_AQ'', ''AQ'', ''Antarctica''), (''LOCATE_AR'', ''AR'', ''Argentina''), (''LOCATE_AS'', ''AS'', ''Samoa (American)''),
     (''LOCATE_AT'', ''AT'', ''Austria''), (''LOCATE_AU'', ''AU'', ''Australia''), (''LOCATE_AW'', ''AW'', ''Aruba''),
     (''LOCATE_AX'', ''AX'', ''Aaland Islands''), (''LOCATE_AZ'', ''AZ'', ''Azerbaijan''), (''LOCATE_BA'', ''BA'', ''Bosnia & Herzegovina''),
     (''LOCATE_BB'', ''BB'', ''Barbados''), (''LOCATE_BD'', ''BD'', ''Bangladesh''), (''LOCATE_BE'', ''BE'', ''Belgium''),
     (''LOCATE_BF'', ''BF'', ''Burkina Faso''), (''LOCATE_BG'', ''BG'', ''Bulgaria''), (''LOCATE_BH'', ''BH'', ''Bahrain''),
     (''LOCATE_BI'', ''BI'', ''Burundi''), (''LOCATE_BJ'', ''BJ'', ''Benin''), (''LOCATE_BL'', ''BL'', ''St Barthelemy''),
     (''LOCATE_BM'', ''BM'', ''Bermuda''), (''LOCATE_BN'', ''BN'', ''Brunei''), (''LOCATE_BO'', ''BO'', ''Bolivia''),
     (''LOCATE_BQ'', ''BQ'', ''Caribbean Netherlands''), (''LOCATE_BR'', ''BR'', ''Brazil''), (''LOCATE_BS'', ''BS'', ''Bahamas''),
     (''LOCATE_BT'', ''BT'', ''Bhutan''), (''LOCATE_BV'', ''BV'', ''Bouvet Island''), (''LOCATE_BW'', ''BW'', ''Botswana''),
     (''LOCATE_BY'', ''BY'', ''Belarus''), (''LOCATE_BZ'', ''BZ'', ''Belize''), (''LOCATE_CA'', ''CA'', ''Canada''),
     (''LOCATE_CC'', ''CC'', ''Cocos (Keeling) Islands''), (''LOCATE_CD'', ''CD'', ''Congo (Dem. Rep.)''), (''LOCATE_CF'', ''CF'', ''Central African Rep.''),
     (''LOCATE_CG'', ''CG'', ''Congo (Rep.)''), (''LOCATE_CH'', ''CH'', ''Switzerland''), (''LOCATE_CI'', ''CI'', ''Cote d'' @ [CHR 0x27] @ ''Ivoire''),
     (''LOCATE_CK'', ''CK'', ''Cook Islands''), (''LOCATE_CL'', ''CL'', ''Chile''), (''LOCATE_CM'', ''CM'', ''Cameroon''),
     (''LOCATE_CN'', ''CN'', ''China''), (''LOCATE_CO'', ''CO'', ''Colombia''), (''LOCATE_CR'', ''CR'', ''Costa Rica''),
     (''LOCATE_CU'', ''CU'', ''Cuba''), (''LOCATE_CV'', ''CV'', ''Cape Verde''), (''LOCATE_CW'', ''CW'', ''Curacao''),
     (''LOCATE_CX'', ''CX'', ''Christmas Island''), (''LOCATE_CY'', ''CY'', ''Cyprus''), (''LOCATE_CZ'', ''CZ'', ''Czech Republic''),
     (''LOCATE_DE'', ''DE'', ''Germany''), (''LOCATE_DJ'', ''DJ'', ''Djibouti''), (''LOCATE_DK'', ''DK'', ''Denmark''),
     (''LOCATE_DM'', ''DM'', ''Dominica''), (''LOCATE_DO'', ''DO'', ''Dominican Republic''), (''LOCATE_DZ'', ''DZ'', ''Algeria''),
     (''LOCATE_EC'', ''EC'', ''Ecuador''), (''LOCATE_EE'', ''EE'', ''Estonia''), (''LOCATE_EG'', ''EG'', ''Egypt''),
     (''LOCATE_EH'', ''EH'', ''Western Sahara''), (''LOCATE_ER'', ''ER'', ''Eritrea''), (''LOCATE_ES'', ''ES'', ''Spain''),
     (''LOCATE_ET'', ''ET'', ''Ethiopia''), (''LOCATE_FI'', ''FI'', ''Finland''), (''LOCATE_FJ'', ''FJ'', ''Fiji''),
     (''LOCATE_FK'', ''FK'', ''Falkland Islands''), (''LOCATE_FM'', ''FM'', ''Micronesia''), (''LOCATE_FO'', ''FO'', ''Faroe Islands''),
     (''LOCATE_FR'', ''FR'', ''France''), (''LOCATE_GA'', ''GA'', ''Gabon''), (''LOCATE_GB'', ''GB'', ''Britain (UK)''),
     (''LOCATE_GD'', ''GD'', ''Grenada''), (''LOCATE_GE'', ''GE'', ''Georgia''), (''LOCATE_GF'', ''GF'', ''French Guiana''),
     (''LOCATE_GG'', ''GG'', ''Guernsey''), (''LOCATE_GH'', ''GH'', ''Ghana''), (''LOCATE_GI'', ''GI'', ''Gibraltar''),
     (''LOCATE_GL'', ''GL'', ''Greenland''), (''LOCATE_GM'', ''GM'', ''Gambia''), (''LOCATE_GN'', ''GN'', ''Guinea''),
     (''LOCATE_GP'', ''GP'', ''Guadeloupe''), (''LOCATE_GQ'', ''GQ'', ''Equatorial Guinea''), (''LOCATE_GR'', ''GR'', ''Greece''),
     (''LOCATE_GS'', ''GS'', ''South Georgia & the South Sandwich Islands''), (''LOCATE_GT'', ''GT'', ''Guatemala''), (''LOCATE_GU'', ''GU'', ''Guam''),
     (''LOCATE_GW'', ''GW'', ''Guinea-Bissau''), (''LOCATE_GY'', ''GY'', ''Guyana''), (''LOCATE_HK'', ''HK'', ''Hong Kong''),
     (''LOCATE_HM'', ''HM'', ''Heard Island & McDonald Islands''), (''LOCATE_HN'', ''HN'', ''Honduras''), (''LOCATE_HR'', ''HR'', ''Croatia''),
     (''LOCATE_HT'', ''HT'', ''Haiti''), (''LOCATE_HU'', ''HU'', ''Hungary''), (''LOCATE_ID'', ''ID'', ''Indonesia''),
     (''LOCATE_IE'', ''IE'', ''Ireland''), (''LOCATE_IL'', ''IL'', ''Israel''), (''LOCATE_IM'', ''IM'', ''Isle of Man''),
     (''LOCATE_IN'', ''IN'', ''India''), (''LOCATE_IO'', ''IO'', ''British Indian Ocean Territory''), (''LOCATE_IQ'', ''IQ'', ''Iraq''),
     (''LOCATE_IR'', ''IR'', ''Iran''), (''LOCATE_IS'', ''IS'', ''Iceland''), (''LOCATE_IT'', ''IT'', ''Italy''),
     (''LOCATE_JE'', ''JE'', ''Jersey''), (''LOCATE_JM'', ''JM'', ''Jamaica''), (''LOCATE_JO'', ''JO'', ''Jordan''),
     (''LOCATE_JP'', ''JP'', ''Japan''), (''LOCATE_KE'', ''KE'', ''Kenya''), (''LOCATE_KG'', ''KG'', ''Kyrgyzstan''),
     (''LOCATE_KH'', ''KH'', ''Cambodia''), (''LOCATE_KI'', ''KI'', ''Kiribati''), (''LOCATE_KM'', ''KM'', ''Comoros''),
     (''LOCATE_KN'', ''KN'', ''St Kitts & Nevis''), (''LOCATE_KP'', ''KP'', ''Korea (North)''), (''LOCATE_KR'', ''KR'', ''Korea (South)''),
     (''LOCATE_KW'', ''KW'', ''Kuwait''), (''LOCATE_KY'', ''KY'', ''Cayman Islands''), (''LOCATE_KZ'', ''KZ'', ''Kazakhstan''),
     (''LOCATE_LA'', ''LA'', ''Laos''), (''LOCATE_LB'', ''LB'', ''Lebanon''), (''LOCATE_LC'', ''LC'', ''St Lucia''),
     (''LOCATE_LI'', ''LI'', ''Liechtenstein''), (''LOCATE_LK'', ''LK'', ''Sri Lanka''), (''LOCATE_LR'', ''LR'', ''Liberia''),
     (''LOCATE_LS'', ''LS'', ''Lesotho''), (''LOCATE_LT'', ''LT'', ''Lithuania''), (''LOCATE_LU'', ''LU'', ''Luxembourg''),
     (''LOCATE_LV'', ''LV'', ''Latvia''), (''LOCATE_LY'', ''LY'', ''Libya''), (''LOCATE_MA'', ''MA'', ''Morocco''),
     (''LOCATE_MC'', ''MC'', ''Monaco''), (''LOCATE_MD'', ''MD'', ''Moldova''), (''LOCATE_ME'', ''ME'', ''Montenegro''),
     (''LOCATE_MF'', ''MF'', ''St Martin (French part)''), (''LOCATE_MG'', ''MG'', ''Madagascar''), (''LOCATE_MH'', ''MH'', ''Marshall Islands''),
     (''LOCATE_MK'', ''MK'', ''Macedonia''), (''LOCATE_ML'', ''ML'', ''Mali''), (''LOCATE_MM'', ''MM'', ''Myanmar (Burma)''),
     (''LOCATE_MN'', ''MN'', ''Mongolia''), (''LOCATE_MO'', ''MO'', ''Macau''), (''LOCATE_MP'', ''MP'', ''Northern Mariana Islands''),
     (''LOCATE_MQ'', ''MQ'', ''Martinique''), (''LOCATE_MR'', ''MR'', ''Mauritania''), (''LOCATE_MS'', ''MS'', ''Montserrat''),
     (''LOCATE_MT'', ''MT'', ''Malta''), (''LOCATE_MU'', ''MU'', ''Mauritius''), (''LOCATE_MV'', ''MV'', ''Maldives''),
     (''LOCATE_MW'', ''MW'', ''Malawi''), (''LOCATE_MX'', ''MX'', ''Mexico''), (''LOCATE_MY'', ''MY'', ''Malaysia''),
     (''LOCATE_MZ'', ''MZ'', ''Mozambique''), (''LOCATE_NA'', ''NA'', ''Namibia''), (''LOCATE_NC'', ''NC'', ''New Caledonia''),
     (''LOCATE_NE'', ''NE'', ''Niger''), (''LOCATE_NF'', ''NF'', ''Norfolk Island''), (''LOCATE_NG'', ''NG'', ''Nigeria''),
     (''LOCATE_NI'', ''NI'', ''Nicaragua''), (''LOCATE_NL'', ''NL'', ''Netherlands''), (''LOCATE_NO'', ''NO'', ''Norway''),
     (''LOCATE_NP'', ''NP'', ''Nepal''), (''LOCATE_NR'', ''NR'', ''Nauru''), (''LOCATE_NU'', ''NU'', ''Niue''),
     (''LOCATE_NZ'', ''NZ'', ''New Zealand''), (''LOCATE_OM'', ''OM'', ''Oman''), (''LOCATE_PA'', ''PA'', ''Panama''),
     (''LOCATE_PE'', ''PE'', ''Peru''), (''LOCATE_PF'', ''PF'', ''French Polynesia''), (''LOCATE_PG'', ''PG'', ''Papua New Guinea''),
     (''LOCATE_PH'', ''PH'', ''Philippines''), (''LOCATE_PK'', ''PK'', ''Pakistan''), (''LOCATE_PL'', ''PL'', ''Poland''),
     (''LOCATE_PM'', ''PM'', ''St Pierre & Miquelon''), (''LOCATE_PN'', ''PN'', ''Pitcairn''), (''LOCATE_PR'', ''PR'', ''Puerto Rico''),
     (''LOCATE_PS'', ''PS'', ''Palestine''), (''LOCATE_PT'', ''PT'', ''Portugal''), (''LOCATE_PW'', ''PW'', ''Palau''),
     (''LOCATE_PY'', ''PY'', ''Paraguay''), (''LOCATE_QA'', ''QA'', ''Qatar''), (''LOCATE_RE'', ''RE'', ''Reunion''),
     (''LOCATE_RO'', ''RO'', ''Romania''), (''LOCATE_RS'', ''RS'', ''Serbia''), (''LOCATE_RU'', ''RU'', ''Russia''),
     (''LOCATE_RW'', ''RW'', ''Rwanda''), (''LOCATE_SA'', ''SA'', ''Saudi Arabia''), (''LOCATE_SB'', ''SB'', ''Solomon Islands''),
     (''LOCATE_SC'', ''SC'', ''Seychelles''), (''LOCATE_SD'', ''SD'', ''Sudan''), (''LOCATE_SE'', ''SE'', ''Sweden''),
     (''LOCATE_SG'', ''SG'', ''Singapore''), (''LOCATE_SH'', ''SH'', ''St Helena''), (''LOCATE_SI'', ''SI'', ''Slovenia''),
     (''LOCATE_SJ'', ''SJ'', ''Svalbard & Jan Mayen''), (''LOCATE_SK'', ''SK'', ''Slovakia''), (''LOCATE_SL'', ''SL'', ''Sierra Leone''),
     (''LOCATE_SM'', ''SM'', ''San Marino''), (''LOCATE_SN'', ''SN'', ''Senegal''), (''LOCATE_SO'', ''SO'', ''Somalia''),
     (''LOCATE_SR'', ''SR'', ''Suriname''), (''LOCATE_SS'', ''SS'', ''South Sudan''), (''LOCATE_ST'', ''ST'', ''Sao Tome & Principe''),
     (''LOCATE_SV'', ''SV'', ''El Salvador''), (''LOCATE_SX'', ''SX'', ''St Maarten (Dutch part)''), (''LOCATE_SY'', ''SY'', ''Syria''),
     (''LOCATE_SZ'', ''SZ'', ''Swaziland''), (''LOCATE_TC'', ''TC'', ''Turks & Caicos Is''), (''LOCATE_TD'', ''TD'', ''Chad''),
     (''LOCATE_TF'', ''TF'', ''French Southern & Antarctic Lands''), (''LOCATE_TG'', ''TG'', ''Togo''), (''LOCATE_TH'', ''TH'', ''Thailand''),
     (''LOCATE_TJ'', ''TJ'', ''Tajikistan''), (''LOCATE_TK'', ''TK'', ''Tokelau''), (''LOCATE_TL'', ''TL'', ''East Timor''),
     (''LOCATE_TM'', ''TM'', ''Turkmenistan''), (''LOCATE_TN'', ''TN'', ''Tunisia''), (''LOCATE_TO'', ''TO'', ''Tonga''),
     (''LOCATE_TR'', ''TR'', ''Turkey''), (''LOCATE_TT'', ''TT'', ''Trinidad & Tobago''), (''LOCATE_TV'', ''TV'', ''Tuvalu''),
     (''LOCATE_TW'', ''TW'', ''Taiwan''), (''LOCATE_TZ'', ''TZ'', ''Tanzania''), (''LOCATE_UA'', ''UA'', ''Ukraine''),
     (''LOCATE_UG'', ''UG'', ''Uganda''), (''LOCATE_UM'', ''UM'', ''US minor outlying islands''), (''LOCATE_US'', ''US'', ''United States''),
     (''LOCATE_UY'', ''UY'', ''Uruguay''), (''LOCATE_UZ'', ''UZ'', ''Uzbekistan''), (''LOCATE_VA'', ''VA'', ''Vatican City''),
     (''LOCATE_VC'', ''VC'', ''St Vincent''), (''LOCATE_VE'', ''VE'', ''Venezuela''), (''LOCATE_VG'', ''VG'', ''Virgin Islands (UK)''),
     (''LOCATE_VI'', ''VI'', ''Virgin Islands (US)''), (''LOCATE_VN'', ''VN'', ''Vietnam''), (''LOCATE_VU'', ''VU'', ''Vanuatu''),
     (''LOCATE_WF'', ''WF'', ''Wallis & Futuna''), (''LOCATE_WS'', ''WS'', ''Samoa (western)''), (''LOCATE_XX'', ''XX'', ''undefined''),
     (''LOCATE_YE'', ''YE'', ''Yemen''), (''LOCATE_YT'', ''YT'', ''Mayotte''), (''LOCATE_ZA'', ''ZA'', ''South Africa''),
     (''LOCATE_ZM'', ''ZM'', ''Zambia''), (''LOCATE_ZW'', ''ZW'', ''Zimbabwe'')]"

definition locate_items :: "locate_item list" where
  "locate_items = map (\<lambda>(e, n, d). \<lparr>guid = enum_value e, item_name = n, item_desc = d\<rparr>) locate_table"

section \<open>Address ranges\<close>

record peak_locate =
  loc_min :: netaddr
  loc_max :: netaddr
  loc_location :: u32
  loc_reserved :: u32

record peak_locates =
  locs_mem :: "peak_locate list option"
  locs_count :: u64

definition peak_locate_cmp :: "peak_locate \<Rightarrow> peak_locate \<Rightarrow> int" where
  "peak_locate_cmp x y =
     (if netcmp (loc_max x) (loc_min y) < 0 then - 1
      else if netcmp (loc_min x) (loc_max y) > 0 then 1
      else 0)"

text \<open>The members of \<open>ref\<close> other than the addresses are not initialised and not compared; they are zero here. A count
  without an array would be a search through a null pointer.\<close>

definition peak_locate_get :: "peak_locates \<Rightarrow> netaddr \<Rightarrow> u32 option" where
  "peak_locate_get self me =
     (if locs_count self \<noteq> 0 then do {
        mem \<leftarrow> locs_mem self;
        let ref = \<lparr>loc_min = me, loc_max = me, loc_location = 0, loc_reserved = 0\<rparr>;
        Some (case bsearch peak_locate_cmp ref (take (unat (locs_count self)) mem) of
          Some elm \<Rightarrow> loc_location (mem ! elm) | None \<Rightarrow> LOCATE_XX) }
      else Some LOCATE_UNKNOWN)"

section \<open>Reading the database\<close>

definition LOCATE_MAGIC :: u64 where
  "LOCATE_MAGIC = 0x10CA7E10CA7E7412"

definition LOCATE_REVISION :: u32 where
  "LOCATE_REVISION = 1"

definition locate_record :: "mem \<Rightarrow> peak_locate option" where
  "locate_record ref = do {
     location \<leftarrow> peak_le32dec ref 32;
     reserved \<leftarrow> peak_le32dec ref 36;
     Some \<lparr>loc_min = take 16 ref, loc_max = take 16 (drop 16 ref), loc_location = location, loc_reserved = reserved\<rparr> }"

text \<open>The loop over the records; the inner \<open>None\<close> is an incomplete file.\<close>

fun locate_read :: "nat \<Rightarrow> int \<Rightarrow> os \<Rightarrow> (peak_locate list option \<times> os) option" where
  "locate_read 0 fd os = Some (Some [], os)"
| "locate_read (Suc n) fd os = (case sys_read fd 40 os of (ret, ref, os) \<Rightarrow>
     if ret \<noteq> 40 then Some (None, os)
     else do {
       r \<leftarrow> locate_record ref;
       (rs, os) \<leftarrow> locate_read n fd os;
       Some (map_option ((#) r) rs, os) })"

definition locate_load :: "bool \<Rightarrow> int \<Rightarrow> os \<Rightarrow> (peak_locates \<times> os) option" where
  "locate_load reallocarray fd os =
     (let ret = \<lparr>locs_mem = None, locs_count = 0\<rparr>
      in case sys_read fd 16 os of (r, hdr, os) \<Rightarrow>
        if r \<noteq> 16 then Some (ret, os)
        else do {
          magic \<leftarrow> peak_le64dec hdr 0;
          revision \<leftarrow> peak_le32dec hdr 8;
          count \<leftarrow> peak_le32dec hdr 12;
          if magic \<noteq> LOCATE_MAGIC then Some (ret, os)
          else if revision \<noteq> LOCATE_REVISION then Some (ret, os)
          else if count = 0 then Some (ret, os)
          else if \<not> reallocarray then Some (ret, os)
          else do {
            (rs, os) \<leftarrow> locate_read (unat count) fd os;
            (case rs of None \<Rightarrow> Some (ret, os) | Some rs \<Rightarrow> Some (\<lparr>locs_mem = Some rs, locs_count = ucast count\<rparr>, os)) }})"

definition LOCATE_DEFAULT :: string where
  "LOCATE_DEFAULT = ''/usr/local/var/peak/locate.bin''"

definition peak_locate_init :: "string option \<Rightarrow> bool \<Rightarrow> bool \<Rightarrow> os \<Rightarrow> (peak_locates option \<times> os) option" where
  "peak_locate_init file malloc reallocarray os =
     (if \<not> malloc then Some (None, os)
      else let file = (case file of None \<Rightarrow> LOCATE_DEFAULT | Some f \<Rightarrow> f)
           in case open_rdonly file os of (fd, os) \<Rightarrow>
             if fd < 0 then Some (Some \<lparr>locs_mem = None, locs_count = 0\<rparr>, os)
             else do {
               (ret, os) \<leftarrow> locate_load reallocarray fd os;
               Some (Some ret, sys_close fd os) })"

section \<open>Names and descriptions\<close>

definition kw_cmp :: "string \<Rightarrow> locate_item \<Rightarrow> int" where
  "kw_cmp x y = strcmp x (item_name y)"

definition peak_locate_number :: "string \<Rightarrow> u32" where
  "peak_locate_number name = (case bsearch kw_cmp name locate_items of
     None \<Rightarrow> LOCATE_UNKNOWN | Some location \<Rightarrow> guid (locate_items ! location))"

text \<open>The outer \<open>None\<close> is an access outside the table, the inner one \<open>NULL\<close>.\<close>

definition peak_locate_name :: "u32 \<Rightarrow> string option option" where
  "peak_locate_name number =
     (if LOCATE_MAX \<le> number then Some None
      else if unat number < length locate_items then Some (Some (item_name (locate_items ! unat number))) else None)"

definition peak_locate_desc :: "u32 \<Rightarrow> string option option" where
  "peak_locate_desc number =
     (if LOCATE_MAX \<le> number then Some None
      else if unat number < length locate_items then Some (Some (item_desc (locate_items ! unat number))) else None)"

section \<open>Finding an address\<close>

definition in_range :: "netaddr \<Rightarrow> peak_locate \<Rightarrow> bool" where
  "in_range me r \<longleftrightarrow> netcmp (loc_min r) me \<le> 0 \<and> netcmp me (loc_max r) \<le> 0"

text \<open>What a database has to be: ranges of addresses in ascending order that do not overlap.\<close>

definition ranges_ok :: "peak_locate list \<Rightarrow> bool" where
  "ranges_ok rs \<longleftrightarrow> (\<forall>r \<in> set rs. length (loc_min r) = 16 \<and> length (loc_max r) = 16 \<and> netcmp (loc_min r) (loc_max r) \<le> 0) \<and>
     sorted_wrt (\<lambda>x y. netcmp (loc_max x) (loc_min y) < 0) rs"

definition address_ref :: "netaddr \<Rightarrow> peak_locate" where
  "address_ref me = \<lparr>loc_min = me, loc_max = me, loc_location = 0, loc_reserved = 0\<rparr>"

lemma cmp_address:
  "peak_locate_cmp (address_ref me) r = 0 \<longleftrightarrow> in_range me r"
  "peak_locate_cmp (address_ref me) r < 0 \<longleftrightarrow> netcmp me (loc_min r) < 0"
  "0 < peak_locate_cmp (address_ref me) r \<longleftrightarrow> 0 \<le> netcmp me (loc_min r) \<and> 0 < netcmp me (loc_max r)"
  using netcmp_swap[of me "loc_min r"] by (auto simp: peak_locate_cmp_def address_ref_def in_range_def)

lemma ranges_ordered:
  assumes ok: "ranges_ok rs" and me: "length me = 16"
  shows "ordered_for peak_locate_cmp (address_ref me) rs"
    and "i < length rs \<Longrightarrow> j < length rs \<Longrightarrow> in_range me (rs ! i) \<Longrightarrow> in_range me (rs ! j) \<Longrightarrow> i = j"
proof -
  have wf: "length (loc_min (rs ! i)) = 16" "length (loc_max (rs ! i)) = 16" "netcmp (loc_min (rs ! i)) (loc_max (rs ! i)) \<le> 0"
    if "i < length rs" for i using ok that by (auto simp: ranges_ok_def)
  have gap: "netcmp (loc_max (rs ! i)) (loc_min (rs ! j)) < 0" if "i < j" "j < length rs" for i j
    using ok that by (simp add: ranges_ok_def sorted_wrt_iff_nth_less)
  show "ordered_for peak_locate_cmp (address_ref me) rs"
    unfolding ordered_for_def cmp_address
  proof (intro allI impI conjI)
    fix i j assume j: "j < length rs" and i: "i < j"
    then have il: "i < length rs" by simp
    note w = wf[OF j] wf[OF il] gap[OF i j] me
    {
      assume "0 \<le> netcmp me (loc_min (rs ! j)) \<and> 0 < netcmp me (loc_max (rs ! j))"
      then have "netcmp (loc_min (rs ! j)) me \<le> 0" using netcmp_swap[of me "loc_min (rs ! j)"] by simp
      with w have up: "netcmp (loc_max (rs ! i)) me < 0" by - (rule net.less_trans[of _ "loc_min (rs ! j)"], simp_all)
      with w have "netcmp (loc_min (rs ! i)) me < 0" by - (rule net.le_less_trans[of _ "loc_max (rs ! i)"], simp_all)
      with up show "0 \<le> netcmp me (loc_min (rs ! i))" "0 < netcmp me (loc_max (rs ! i))"
        using netcmp_swap[of me "loc_min (rs ! i)"] netcmp_swap[of me "loc_max (rs ! i)"] by simp_all
    next
      assume "netcmp me (loc_min (rs ! i)) < 0"
      with w have "netcmp me (loc_max (rs ! i)) < 0" by - (rule net.less_trans[of _ "loc_min (rs ! i)"], simp_all)
      with w show "netcmp me (loc_min (rs ! j)) < 0" by - (rule net.less_trans[of _ "loc_max (rs ! i)"], simp_all)
    }
  qed
  have no: False if "i < j" "j < length rs" "in_range me (rs ! i)" "in_range me (rs ! j)" for i j
  proof -
    have il: "i < length rs" using that by simp
    note w = wf[OF that(2)] wf[OF il] gap[OF that(1,2)] me
    have "netcmp me (loc_min (rs ! j)) < 0" using w that(3) by - (rule net.le_less_trans[of _ "loc_max (rs ! i)"], simp_all add: in_range_def)
    with that(4) show False using netcmp_swap[of me "loc_min (rs ! j)"] by (simp add: in_range_def)
  qed
  show "i < length rs \<Longrightarrow> j < length rs \<Longrightarrow> in_range me (rs ! i) \<Longrightarrow> in_range me (rs ! j) \<Longrightarrow> i = j"
    using no[of i j] no[of j i] by (cases i j rule: linorder_cases) auto
qed

lemma get_linear:
  assumes ok: "ranges_ok rs" "length me = 16" and n: "rs \<noteq> []" "length rs < 2 ^ 64"
  shows "peak_locate_get \<lparr>locs_mem = Some rs, locs_count = of_nat (length rs)\<rparr> me =
    Some (case find (in_range me) rs of Some r \<Rightarrow> loc_location r | None \<Rightarrow> LOCATE_XX)"
proof -
  have len: "unat (of_nat (length rs) :: u64) = length rs" using n(2) by (rule unat_of_nat_small)
  then have nz: "(of_nat (length rs) :: u64) \<noteq> 0" using n(1) by (metis length_0_conv unat_0)
  have "map_option (\<lambda>i. rs ! i) (bsearch peak_locate_cmp (address_ref me) rs) = find (\<lambda>r. peak_locate_cmp (address_ref me) r = 0) rs"
    by (rule bs.linear[OF ranges_ordered(1)[OF ok]]) (auto simp: cmp_address intro: ranges_ordered(2)[OF ok])
  then have "find (in_range me) rs = map_option (\<lambda>i. rs ! i) (bsearch peak_locate_cmp (address_ref me) rs)" by (simp add: cmp_address)
  then show ?thesis using len nz
    by (cases "bsearch peak_locate_cmp (address_ref me) rs") (simp_all add: peak_locate_get_def Let_def address_ref_def)
qed

section \<open>Names\<close>

lemma names_successive: "successively (\<lambda>x y. strcmp x y < 0) (map (fst \<circ> snd) locate_table)"
  by code_simp

lemma locate_enum_split: "locate_enum = map fst locate_table @ [''LOCATE_MAX'']"
  by code_simp

lemma length_table: "length locate_table = 251"
  by code_simp

text \<open>Every enumerator but the first is the name of its location behind the prefix.\<close>

lemma table_head: "locate_table = (''LOCATE_UNKNOWN'', '''', ''unknown'') # tl locate_table"
  by code_simp

lemma table_prefix: "list_all (\<lambda>(e, n, d). e = ''LOCATE_'' @ n \<and> n \<noteq> ''UNKNOWN'' \<and> n \<noteq> ''MAX'') (tl locate_table)"
  by code_simp

definition table_names :: "string list" where
  "table_names = map (fst \<circ> snd) locate_table"

interpretation kw: keyword_table strcmp item_name locate_items
proof
  have "map item_name locate_items = map (fst \<circ> snd) locate_table" by (simp add: locate_items_def split_def)
  then show "successively (\<lambda>x y. strcmp x y < 0) (map item_name locate_items)" using names_successive by simp
qed (rule strcmp_swap, rule strcmp_le_trans)

lemma names_sorted: "sorted_wrt (\<lambda>x y. strcmp x y < 0) table_names"
  using names_successive strcmp_trans unfolding table_names_def by (subst (asm) successively_conv_sorted_wrt) (auto intro: transpI)

lemma enum_distinct: "distinct (map fst locate_table)"
proof -
  have "distinct table_names" using str.sorted_distinct[OF names_sorted] by simp
  then have n: "distinct (map (fst \<circ> snd) (tl locate_table))" unfolding table_names_def by (metis distinct_tl map_tl)
  have e: "map fst (tl locate_table) = map (\<lambda>n. ''LOCATE_'' @ n) (map (fst \<circ> snd) (tl locate_table))"
    using table_prefix by (auto simp: list_all_iff)
  have "distinct ns \<Longrightarrow> distinct (map (\<lambda>n. p @ n) ns)" for p :: string and ns by (induction ns) auto
  from this[OF n] have d: "distinct (map fst (tl locate_table))" unfolding e .
  have "''LOCATE_UNKNOWN'' \<notin> set (map fst (tl locate_table))"
    using table_prefix unfolding e by (auto simp: list_all_iff)
  with d show ?thesis by (subst table_head) simp
qed

lemma enum_index_nth: "distinct xs \<Longrightarrow> i < length xs \<Longrightarrow> enum_index (xs @ ys) (xs ! i) = i"
proof (induction xs arbitrary: i)
  case (Cons x xs)
  then show ?case by (cases i) (auto simp: nth_Cons)
qed simp

lemma length_items: "length locate_items = 251"
  by (simp add: locate_items_def length_table)

lemma item_nth: "i < 251 \<Longrightarrow> guid (locate_items ! i) = of_nat i \<and> item_name (locate_items ! i) = table_names ! i"
proof -
  assume i: "i < 251"
  then have "enum_index locate_enum (map fst locate_table ! i) = i"
    unfolding locate_enum_split by (intro enum_index_nth enum_distinct) (simp add: length_table)
  with i show ?thesis by (simp add: locate_items_def length_table split_def enum_value_def table_names_def)
qed

lemma LOCATE_MAX_251: "LOCATE_MAX = 251"
proof -
  have "''LOCATE_MAX'' \<notin> set (map fst (tl locate_table))" using table_prefix by (auto simp: list_all_iff)
  then have "''LOCATE_MAX'' \<notin> set (map fst locate_table)" by (subst table_head) simp
  moreover have "e \<notin> set xs \<Longrightarrow> enum_index (xs @ [e]) e = length xs" for e xs by (induction xs) auto
  ultimately show ?thesis by (simp add: LOCATE_MAX_def enum_value_def locate_enum_split length_table)
qed

lemma number_nth: "i < 251 \<Longrightarrow> peak_locate_number (table_names ! i) = of_nat i"
  using item_nth[of i] kw.found[of i "table_names ! i"] by (simp add: peak_locate_number_def kw_cmp_def[abs_def] length_items strcmp_eq_0_iff)

section \<open>The database file\<close>

definition range_ok :: "peak_locate \<Rightarrow> bool" where
  "range_ok r \<longleftrightarrow> length (loc_min r) = 16 \<and> length (loc_max r) = 16"

definition range_bytes :: "peak_locate \<Rightarrow> mem" where
  "range_bytes r = loc_min r @ loc_max r @ le32_bytes (loc_location r) @ le32_bytes (loc_reserved r)"

text \<open>The file of a database: the magic number, the revision and the count, then the ranges.\<close>

definition locate_header :: "nat \<Rightarrow> mem" where
  "locate_header n = le32_bytes 0xCA7E7412 @ le32_bytes 0x10CA7E10 @ le32_bytes LOCATE_REVISION @ le32_bytes (of_nat n)"

definition locate_image :: "peak_locate list \<Rightarrow> mem" where
  "locate_image rs = locate_header (length rs) @ concat (map range_bytes rs)"

lemma length_range_bytes [simp]: "range_ok r \<Longrightarrow> length (range_bytes r) = 40"
  by (simp add: range_bytes_def range_ok_def)

lemma length_locate_header [simp]: "length (locate_header n) = 16"
  by (simp add: locate_header_def)

lemma le32_bytes_dec: "peak_le32dec m p = Some w \<Longrightarrow> le32_bytes w = take 4 (drop p m)"
proof -
  assume w: "peak_le32dec m p = Some w"
  then have len: "p + 4 \<le> length m" using decode_eq_None_iff(3)[of m p] by (auto simp: not_less[symmetric])
  then have "take 4 (drop p m) = [m ! p, m ! (p + 1), m ! (p + 2), m ! (p + 3)]"
    by (intro nth_equalityI) (auto simp: less_Suc_eq numeral_eq_Suc)
  moreover have "le32_bytes w = [m ! p, m ! (p + 1), m ! (p + 2), m ! (p + 3)]"
    using w len join_bytes[where a = "m ! p" and b = "m ! (p + 1)" and c = "m ! (p + 2)" and d = "m ! (p + 3)"]
    by (auto simp: peak_le32dec_def load8_def le32_bytes_def)
  ultimately show ?thesis by simp
qed

lemma locate_record_total:
  "length ref = 40 \<Longrightarrow> \<exists>r. locate_record ref = Some r \<and> range_ok r \<and> range_bytes r = ref"
proof -
  assume len: "length ref = 40"
  then obtain l v where lv: "peak_le32dec ref 32 = Some l" "peak_le32dec ref 36 = Some v"
    using decode_total(3)[of 32 ref] decode_total(3)[of 36 ref] by auto
  from le32_bytes_dec[OF lv(1)] le32_bytes_dec[OF lv(2)] len
  have "le32_bytes l @ le32_bytes v = drop 32 ref" using append_take_drop_id[of 4 "drop 32 ref"] by simp
  moreover have "take 16 ref @ take 16 (drop 16 ref) @ drop 32 ref = ref"
    using append_take_drop_id[of 16 ref] append_take_drop_id[of 16 "drop 16 ref"] by simp
  ultimately show ?thesis using lv len by (simp add: locate_record_def range_bytes_def range_ok_def)
qed

lemma locate_read_spec:
  assumes "fd_file os d = Some f" "\<not> file_write f" "c = drop (file_pos f) (content os (file_path f))"
  shows "\<exists>x os'. locate_read n d os = Some (x, os') \<and> moves d os os' \<and>
    (case x of None \<Rightarrow> length c < 40 * n
     | Some rs \<Rightarrow> length rs = n \<and> (\<forall>r \<in> set rs. range_ok r) \<and> (\<exists>rest. c = concat (map range_bytes rs) @ rest))"
  using assms
proof (induction n arbitrary: os f c)
  case 0
  then show ?case by (auto intro: moves_refl)
next
  case (Suc n)
  show ?case
  proof (cases "40 \<le> length c")
    case True
    let ?ref = "take 40 c" and ?f = "f\<lparr>file_pos := file_pos f + 40\<rparr>"
    let ?os = "put_fd os d (Some ?f)"
    have r: "sys_read d 40 os = (40, ?ref, ?os)" using sys_read_in[OF Suc.prems(1,2), of 40] True Suc.prems(3) by simp
    have m: "moves d os ?os" using movesI[OF Suc.prems(1)] .
    obtain q where q: "locate_record ?ref = Some q" "range_ok q" "range_bytes q = ?ref" using locate_record_total[of ?ref] True by auto
    have "fd_file ?os d = Some ?f" "\<not> file_write ?f" "drop 40 c = drop (file_pos ?f) (content ?os (file_path ?f))"
      using Suc.prems by (simp_all add: add.commute)
    from Suc.IH[OF this] obtain x os' where x: "locate_read n d ?os = Some (x, os')" "moves d ?os os'"
      "case x of None \<Rightarrow> length (drop 40 c) < 40 * n
       | Some rs \<Rightarrow> length rs = n \<and> (\<forall>r \<in> set rs. range_ok r) \<and> (\<exists>rest. drop 40 c = concat (map range_bytes rs) @ rest)" by blast
    have c: "c = range_bytes q @ drop 40 c" using q(3) by simp
    have "locate_read (Suc n) d os = Some (map_option ((#) q) x, os')" using r q(1) x(1) by simp
    moreover have "moves d os os'" using moves_trans[OF m x(2)] .
    moreover have "case map_option ((#) q) x of None \<Rightarrow> length c < 40 * Suc n
     | Some rs \<Rightarrow> length rs = Suc n \<and> (\<forall>r \<in> set rs. range_ok r) \<and> (\<exists>rest. c = concat (map range_bytes rs) @ rest)"
    proof (cases x)
      case (Some rs)
      with x(3) obtain rest where rest: "drop 40 c = concat (map range_bytes rs) @ rest" and "length rs = n" "\<forall>r \<in> set rs. range_ok r" by auto
      moreover have "c = concat (map range_bytes (q # rs)) @ rest" using c unfolding rest by simp
      ultimately show ?thesis using Some q(2) by auto
    qed (use x(3) True in simp)
    ultimately show ?thesis by blast
  next
    case False
    then have "length (content os (file_path f)) < file_pos f + unat (40 :: u64)" using Suc.prems(3) by simp
    from sys_read_eof[OF Suc.prems(1,2) _ _ this] obtain ret bs os' where r: "sys_read d 40 os = (ret, bs, os')" "ret \<noteq> 40" by auto
    with False sys_read_moves[OF Suc.prems(1) r(1)] show ?thesis by simp
  qed
qed

lemma locate_header_iff:
  assumes "length h = 16" "peak_le64dec h 0 = Some m" "peak_le32dec h 8 = Some v" "peak_le32dec h 12 = Some n"
  shows "h = locate_header (unat n) \<longleftrightarrow> m = LOCATE_MAGIC \<and> v = LOCATE_REVISION"
proof -
  from assms(2) obtain hi lo where hl: "peak_le32dec h 4 = Some hi" "peak_le32dec h 0 = Some lo" "m = push_bit 32 (ucast hi) OR ucast lo"
    by (auto simp: peak_le64dec_def bind_eq_Some_conv)
  have "take 16 h = take 8 h @ take 8 (drop 8 h)" "take 8 h = take 4 h @ take 4 (drop 4 h)" "take 8 (drop 8 h) = take 4 (drop 8 h) @ take 4 (drop 12 h)"
    using take_add[of 8 8 h] take_add[of 4 4 h] take_add[of 4 4 "drop 8 h"] by simp_all
  then have "take 16 h = take 4 h @ take 4 (drop 4 h) @ take 4 (drop 8 h) @ take 4 (drop 12 h)" by (simp only: append_assoc)
  moreover have "take 16 h = h" using assms(1) by simp
  moreover have "le32_bytes lo = take 4 h" "le32_bytes hi = take 4 (drop 4 h)" "le32_bytes v = take 4 (drop 8 h)" "le32_bytes n = take 4 (drop 12 h)"
    using le32_bytes_dec[OF hl(2)] le32_bytes_dec[OF hl(1)] le32_bytes_dec[OF assms(3)] le32_bytes_dec[OF assms(4)] by simp_all
  ultimately have h: "h = le32_bytes lo @ le32_bytes hi @ le32_bytes v @ le32_bytes n" by metis
  have inj: "le32_bytes a = le32_bytes b \<longleftrightarrow> a = b" for a b by (metis le32dec_le32_bytes option.inject)
  have "lo = ucast m" "hi = ucast (drop_bit 32 m)" unfolding hl(3) low32_join high32_join by simp_all
  moreover have "m = LOCATE_MAGIC \<longleftrightarrow> ucast m = (0xCA7E7412 :: u32) \<and> ucast (drop_bit 32 m) = (0x10CA7E10 :: u32)"
  proof
    assume "ucast m = (0xCA7E7412 :: u32) \<and> ucast (drop_bit 32 m) = (0x10CA7E10 :: u32)"
    then show "m = LOCATE_MAGIC" using split64[of m] by (simp add: LOCATE_MAGIC_def)
  qed (simp add: LOCATE_MAGIC_def)
  ultimately show ?thesis unfolding h locate_header_def by (auto simp: inj)
qed

text \<open>What a file holds: a database, when it begins with the image of one.\<close>

definition holds_db :: "mem \<Rightarrow> peak_locate list \<Rightarrow> bool" where
  "holds_db c rs \<longleftrightarrow> rs \<noteq> [] \<and> (\<forall>r \<in> set rs. range_ok r) \<and> length rs < 2 ^ 32 \<and> (\<exists>rest. c = locate_image rs @ rest)"

definition locate_empty :: peak_locates where
  "locate_empty = \<lparr>locs_mem = None, locs_count = 0\<rparr>"

lemma length_concat_ranges: "\<forall>r \<in> set rs. range_ok r \<Longrightarrow> length (concat (map range_bytes rs)) = 40 * length rs"
  by (induction rs) auto

lemma holds_db_header:
  assumes "holds_db c rs" "length h = 16" "take 16 c = h" "peak_le32dec h 12 = Some n"
  shows "h = locate_header (unat n)" "unat n = length rs" "16 + 40 * unat n \<le> length c"
proof -
  from assms(1) obtain rest where c: "c = locate_header (length rs) @ concat (map range_bytes rs) @ rest" "length rs < 2 ^ 32"
    "\<forall>r \<in> set rs. range_ok r" by (auto simp: holds_db_def locate_image_def)
  then have h: "h = locate_header (length rs)" using assms(3) by simp
  then have "n = of_nat (length rs)" using assms(4) by (simp add: locate_header_def le32dec_struct)
  then show n: "unat n = length rs" using c(2) by (simp add: unat_of_nat)
  then show "h = locate_header (unat n)" using h by simp
  show "16 + 40 * unat n \<le> length c" using n c(1) length_concat_ranges[OF c(3)] by simp
qed

lemma locate_load_spec:
  assumes f: "fd_file os d = Some f" "\<not> file_write f" "file_pos f = 0" and c: "content os (file_path f) = c"
  shows "\<exists>db os'. locate_load True d os = Some (db, os') \<and> moves d os os' \<and>
    (db = locate_empty \<and> (\<forall>rs. \<not> holds_db c rs) \<or> (\<exists>rs. holds_db c rs \<and> db = \<lparr>locs_mem = Some rs, locs_count = of_nat (length rs)\<rparr>))"
proof (cases "16 \<le> length c")
  case False
  then have "\<not> holds_db c rs" for rs by (auto simp: holds_db_def locate_image_def)
  moreover from False obtain r bs os1 where r: "sys_read d 16 os = (r, bs, os1)" "r \<noteq> 16" using sys_read_eof[OF f(1,2), of 16] f(3) c by auto
  ultimately show ?thesis using sys_read_moves[OF f(1) r(1)] by (auto simp: locate_load_def locate_empty_def Let_def)
next
  case True
  let ?h = "take 16 c" and ?f = "f\<lparr>file_pos := 16\<rparr>"
  let ?os = "put_fd os d (Some ?f)"
  have r: "sys_read d 16 os = (16, ?h, ?os)" using sys_read_in[OF f(1,2), of 16] True f(3) c by simp
  have m: "moves d os ?os" using movesI[OF f(1)] .
  have len: "length ?h = 16" using True by simp
  obtain g v n where dec: "peak_le64dec ?h 0 = Some g" "peak_le32dec ?h 8 = Some v" "peak_le32dec ?h 12 = Some n"
    using decode_total(4)[of 0 ?h] decode_total(3)[of 8 ?h] decode_total(3)[of 12 ?h] True by auto
  note hdr = locate_header_iff[OF len dec] and db = holds_db_header[OF _ len refl dec(3)]
  show ?thesis
  proof (cases "?h = locate_header (unat n) \<and> n \<noteq> 0")
    case False
    then have "locate_load True d os = Some (locate_empty, ?os)" using r dec hdr by (auto simp: locate_load_def locate_empty_def Let_def)
    moreover have "\<not> holds_db c rs" for rs using False db(1)[of rs] db(2)[of rs] by (auto simp: holds_db_def)
    ultimately show ?thesis using m by blast
  next
    case True
    have "fd_file ?os d = Some ?f" "\<not> file_write ?f" "drop 16 c = drop (file_pos ?f) (content ?os (file_path ?f))" using f c by simp_all
    from locate_read_spec[OF this, of "unat n"] obtain x os' where x: "locate_read (unat n) d ?os = Some (x, os')" "moves d ?os os'"
      "case x of None \<Rightarrow> length (drop 16 c) < 40 * unat n
       | Some rs \<Rightarrow> length rs = unat n \<and> (\<forall>r \<in> set rs. range_ok r) \<and> (\<exists>rest. drop 16 c = concat (map range_bytes rs) @ rest)" by blast
    have load: "locate_load True d os = Some (case x of None \<Rightarrow> (locate_empty, os') | Some rs \<Rightarrow> (\<lparr>locs_mem = Some rs, locs_count = ucast n\<rparr>, os'))"
      using r dec hdr True x(1) by (auto simp: locate_load_def locate_empty_def Let_def split: option.split)
    have mv: "moves d os os'" using moves_trans[OF m x(2)] .
    show ?thesis
    proof (cases x)
      case None
      then have "\<not> holds_db c rs" for rs using x(3) db(3)[of rs] by auto
      with None load mv show ?thesis by auto
    next
      case (Some rs)
      with x(3) obtain rest where rest: "length rs = unat n" "\<forall>r \<in> set rs. range_ok r" "drop 16 c = concat (map range_bytes rs) @ rest" by auto
      have "rs \<noteq> []" using rest(1) True by (metis list.size(3) unat_eq_0)
      moreover have "c = locate_image rs @ rest" using append_take_drop_id[of 16 c] rest(1,3) True by (simp add: locate_image_def)
      moreover have "length rs < 2 ^ 32" unfolding rest(1) using unsigned_less[of n, where 'a = nat] by simp
      ultimately have "holds_db c rs" using rest(2) by (auto simp: holds_db_def)
      moreover have "ucast n = (of_nat (length rs) :: u64)" unfolding rest(1) by simp
      ultimately show ?thesis using Some load mv by auto
    qed
  qed
qed

lemma locate_init_spec:
  assumes "disk os p = Some c"
  shows "\<exists>db os'. peak_locate_init (Some p) True True os = Some (Some db, os') \<and> same_open os os' \<and>
    (db = locate_empty \<and> (\<forall>rs. \<not> holds_db c rs) \<or> (\<exists>rs. holds_db c rs \<and> db = \<lparr>locs_mem = Some rs, locs_count = of_nat (length rs)\<rparr>))"
proof -
  let ?f = "\<lparr>file_path = p, file_pos = 0, file_write = False\<rparr>"
  obtain d os1 where o: "open_new ?f os = (d, os1)" by (cases "open_new ?f os")
  note spec = open_new_spec[OF o]
  have "content os1 p = c" using spec(4) assms by (simp add: content_def)
  with locate_load_spec[OF spec(3)] obtain db os2 where l: "locate_load True d os1 = Some (db, os2)" "moves d os1 os2"
    "db = locate_empty \<and> (\<forall>rs. \<not> holds_db c rs) \<or> (\<exists>rs. holds_db c rs \<and> db = \<lparr>locs_mem = Some rs, locs_count = of_nat (length rs)\<rparr>)"
    by auto
  from l(2) spec(3) obtain k where "os2 = put_fd os1 d (Some (?f\<lparr>file_pos := k\<rparr>))" by (auto simp: moves_def)
  then have "same_open os (sys_close d os2)" using open_put_close(1)[OF o] by simp
  moreover have "peak_locate_init (Some p) True True os = Some (Some db, sys_close d os2)"
    using assms o spec(1) l(1) by (simp add: peak_locate_init_def open_rdonly_def)
  ultimately show ?thesis using l(3) by blast
qed

lemma range_bytes_inj: "range_ok r \<Longrightarrow> range_ok q \<Longrightarrow> range_bytes r = range_bytes q \<Longrightarrow> r = q"
proof -
  assume ok: "range_ok r" "range_ok q" and eq: "range_bytes r = range_bytes q"
  have "locate_record (range_bytes r) = Some r" if "range_ok r" for r
    using that by (simp add: locate_record_def range_bytes_def range_ok_def le32dec_struct)
  from this[OF ok(1)] this[OF ok(2)] eq show ?thesis by (metis option.inject)
qed

lemma holds_db_unique: "holds_db c rs \<Longrightarrow> holds_db c qs \<Longrightarrow> rs = qs"
proof -
  assume db: "holds_db c rs" "holds_db c qs"
  have ok: "\<forall>r \<in> set rs. range_ok r" "\<forall>r \<in> set qs. range_ok r" using db by (simp_all add: holds_db_def)
  from db(1) obtain a where a: "c = locate_image rs @ a" by (auto simp: holds_db_def)
  from db(2) obtain b where b: "c = locate_image qs @ b" by (auto simp: holds_db_def)
  note c = a b
  have h: "length (take 16 c) = 16" using c(1) by (simp add: locate_image_def)
  then obtain n where n: "peak_le32dec (take 16 c) 12 = Some n" using decode_total(3)[of 12 "take 16 c"] by auto
  have len: "length rs = length qs" using holds_db_header(2)[OF db(1) h refl n] holds_db_header(2)[OF db(2) h refl n] by simp
  have "take (40 * length rs) (drop 16 c) = concat (map range_bytes rs)" using c(1) length_concat_ranges[OF ok(1)] by (simp add: locate_image_def)
  moreover have "take (40 * length rs) (drop 16 c) = concat (map range_bytes qs)" using c(2) length_concat_ranges[OF ok(2)] len by (simp add: locate_image_def)
  ultimately have "concat (map range_bytes rs) = concat (map range_bytes qs)" by simp
  then have "map range_bytes rs = map range_bytes qs"
  proof (rule concat_injective)
    show "\<forall>(x, y) \<in> set (zip (map range_bytes rs) (map range_bytes qs)). length x = length y"
    proof (clarsimp simp: zip_map1 zip_map2)
      fix a b assume "(a, b) \<in> set (zip rs qs)"
      then have "range_ok a" "range_ok b" using ok set_zip_leftD[of a b rs qs] set_zip_rightD[of a b rs qs] by blast+
      then show "length (range_bytes a) = length (range_bytes b)" by simp
    qed
  qed (simp add: len)
  with ok len show ?thesis by (auto simp: list_eq_iff_nth_eq intro: range_bytes_inj)
qed

section \<open>Properties\<close>

text \<open>C22. Looking an address up in a database file: when the file begins with a database whose ranges ascend and do not
  overlap, the database is loaded and the binary search returns the location of the range that holds the address, as going through
  the ranges one by one would, and the placeholder for undefined locations when there is none.\<close>

theorem locate_file_lookup:
  assumes "disk os p = Some (locate_image rs @ rest)" "ranges_ok rs" "rs \<noteq> []" "length rs < 2 ^ 32" "length me = 16"
  shows "\<exists>db os'. peak_locate_init (Some p) True True os = Some (Some db, os') \<and>
    peak_locate_get db me = Some (case find (in_range me) rs of Some r \<Rightarrow> loc_location r | None \<Rightarrow> LOCATE_XX)"
proof -
  have db: "holds_db (locate_image rs @ rest) rs" using assms(2-4) by (auto simp: holds_db_def ranges_ok_def range_ok_def)
  have "length rs < 2 ^ 64" using assms(4) by simp
  from get_linear[OF assms(2,5,3) this] locate_init_spec[OF assms(1)] holds_db_unique[OF db] db show ?thesis by blast
qed

text \<open>Every location below the end of the enumeration has a name inside the table, and looking this name up gives the
  location back.\<close>

lemma locate_name_round_trip:
  assumes "number < LOCATE_MAX"
  shows "\<exists>name. peak_locate_name number = Some (Some name) \<and> peak_locate_number name = number"
proof -
  have n: "unat number < 251" using assms by (simp add: LOCATE_MAX_251 word_less_nat_alt)
  with assms have "peak_locate_name number = Some (Some (table_names ! unat number))"
    using item_nth[OF n] by (simp add: peak_locate_name_def length_items not_le)
  moreover have "peak_locate_number (table_names ! unat number) = number" using number_nth[OF n] by simp
  ultimately show ?thesis by blast
qed

lemma locate_name_round_trip_witness: "\<exists>name. peak_locate_name 57 = Some (Some name) \<and> peak_locate_number name = 57"
  using locate_name_round_trip[of 57] by (simp add: LOCATE_MAX_251)

text \<open>C23. Reading a database from an existing file is all or nothing if memory is available: either the file begins with a database
  and exactly that one is loaded, or the call returns an empty database in which every address is unknown; no descriptor is left
  open. (\<open>peak_locate.3\<close> promises an empty database only for a default one that was not found, and \<open>NULL\<close> otherwise.)\<close>

theorem locate_init_all_or_nothing:
  assumes "disk os p = Some c"
  shows "\<exists>db os'. peak_locate_init (Some p) True True os = Some (Some db, os') \<and> (\<forall>fd. fd_file os' fd = fd_file os fd) \<and>
    ((\<forall>me. peak_locate_get db me = Some LOCATE_UNKNOWN) \<and> (\<forall>rs. \<not> holds_db c rs) \<or>
     (\<exists>rs. holds_db c rs \<and> db = \<lparr>locs_mem = Some rs, locs_count = of_nat (length rs)\<rparr>))"
proof -
  have "peak_locate_get locate_empty me = Some LOCATE_UNKNOWN" for me by (simp add: peak_locate_get_def locate_empty_def)
  with locate_init_spec[OF assms] show ?thesis by (fastforce simp: same_open_def)
qed

definition os_db :: "mem \<Rightarrow> os" where
  "os_db c = \<lparr>disk = [''locate.bin'' \<mapsto> c], may_create = (\<lambda>p. False), room = 0, fds = []\<rparr>"

definition range_example :: peak_locate where
  "range_example = \<lparr>loc_min = replicate 16 1, loc_max = replicate 16 2, loc_location = 57, loc_reserved = 0\<rparr>"

theorem locate_file_lookup_witness:
  "\<exists>db os'. peak_locate_init (Some ''locate.bin'') True True (os_db (locate_image [range_example] @ [])) = Some (Some db, os') \<and>
    peak_locate_get db (replicate 16 1) = Some 57"
proof -
  have "ranges_ok [range_example]" by (simp add: ranges_ok_def range_example_def netcmp_def numeral_eq_Suc)
  moreover have "find (in_range (replicate 16 1)) [range_example] = Some range_example"
    by (simp add: in_range_def range_example_def netcmp_def numeral_eq_Suc)
  ultimately show ?thesis
    using locate_file_lookup[of "os_db (locate_image [range_example] @ [])" "''locate.bin''" "[range_example]" "[]" "replicate 16 1"]
    by (simp add: os_db_def range_example_def)
qed

theorem locate_init_all_or_nothing_witness:
  "\<exists>db os'. peak_locate_init (Some ''locate.bin'') True True (os_db [1, 2, 3]) = Some (Some db, os') \<and> fd_file os' 0 = None \<and>
    peak_locate_get db [] = Some LOCATE_UNKNOWN"
proof -
  have "\<not> holds_db [1, 2, 3] rs" for rs
  proof
    assume "holds_db [1, 2, 3] rs"
    then obtain rest where "[1, 2, 3] = locate_image rs @ rest" by (auto simp: holds_db_def)
    from arg_cong[OF this, of length] show False by (simp add: locate_image_def)
  qed
  moreover have "disk (os_db [1, 2, 3]) ''locate.bin'' = Some [1, 2, 3]" "fd_file (os_db [1, 2, 3]) 0 = None" by (simp_all add: os_db_def fd_file_def)
  ultimately show ?thesis using locate_init_all_or_nothing[of "os_db [1, 2, 3]" "''locate.bin''" "[1, 2, 3]"] by auto
qed

end
