(* ===== verification/Peak_Magic.thy ===== *)
theory Peak_Magic
  imports Peak_Search
begin

text \<open>
  File types, \<open>src/lib/peak_magic.c\<close> and \<open>src/lib/peak_magic.h\<close>: the table of the file types with its lookups by MIME type and
  by number, and the classification of a buffer by what \<open>libmagic(3)\<close> says of it.

  The enumerators are their values. \<open>libmagic\<close> is not part of the repository: whether it can be opened and loaded, and the MIME
  type \<open>magic_buffer\<close> reports for a buffer, are parameters.
\<close>

record magic_item =
  guid :: u32
  description :: string
  mime_type :: string

definition MAGIC_UNKNOWN :: u32 where
  "MAGIC_UNKNOWN = 0"

definition MAGIC_PACKED_DATA :: u32 where
  "MAGIC_PACKED_DATA = 6"

definition MAGIC_MAX :: u32 where
  "MAGIC_MAX = 186"

definition magic_table :: "(u32 \<times> string \<times> string) list" where
  "magic_table =
    [(0, ''unknown'', ''''),
     (1, ''DICOM medical imaging data'', ''application/dicom''),
     (2, ''Node.js script text executable'', ''application/javascript''),
     (3, ''BinHex binary text'', ''application/mac-binhex40''),
     (4, ''MARC21'', ''application/marc''),
     (5, ''Microsoft Word Document'', ''application/msword''),
     (6, ''packed data'', ''application/octet-stream''),
     (7, ''Ogg data'', ''application/ogg''),
     (8, ''PDF document'', ''application/pdf''),
     (9, ''PGP message'', ''application/pgp''),
     (10, ''PGP public key block'', ''application/pgp-keys''),
     (11, ''PGP signature'', ''application/pgp-signature''),
     (12, ''PostScript document text'', ''application/postscript''),
     (13, ''Sereal data'', ''application/sereal''),
     (14, ''part of multipart Debian package'', ''application/vnd.debian.binary-package''),
     (15, ''FDF document'', ''application/vnd.fdf''),
     (16, ''Spline Font Database'', ''application/vnd.font-fontforge-sfd''),
     (17, ''Google KML document'', ''application/vnd.google-earth.kml+xml''),
     (18, ''Compressed Google KML Document, including resources.'', ''application/vnd.google-earth.kmz''),
     (19, ''Sun KCMS ICC Profile'', ''application/vnd.iccprofile''),
     (20, ''Lotus WordPro'', ''application/vnd.lotus-wordpro''),
     (21, ''Microsoft Cabinet archive data'', ''application/vnd.ms-cab-compressed''),
     (22, ''Microsoft Excel Worksheet'', ''application/vnd.ms-excel''),
     (23, ''Embedded OpenType (EOT)'', ''application/vnd.ms-fontobject''),
     (24, ''OpenType font data'', ''application/vnd.ms-opentype''),
     (25, ''Transport Neutral Encapsulation Format'', ''application/vnd.ms-tnef''),
     (26, ''Microsoft Word 2007+'', ''application/vnd.openxmlformats-officedocument.wordprocessingml.document''),
     (27, ''RealMedia file'', ''application/vnd.rn-realmedia''),
     (28, ''Symbian installation file'', ''application/vnd.symbian.install''),
     (29, ''tcpdump capture file'', ''application/vnd.tcpdump.pcap''),
     (30, ''Lotus 1-2-3'', ''application/x-123''),
     (31, ''abook address book'', ''application/x-abook-addressbook''),
     (32, ''ARC archive data'', ''application/x-arc''),
     (33, ''MIPS archive'', ''application/x-archive''),
     (34, ''ARJ archive data'', ''application/x-arj''),
     (35, ''BitTorrent file'', ''application/x-bittorrent''),
     (36, ''bzip2 compressed data'', ''application/x-bzip2''),
     (37, ''compress'' @ [CHR 0x27] @ ''d data'', ''application/x-compress''),
     (38, ''byte-swapped cpio archive'', ''application/x-cpio''),
     (39, ''Berkeley DB'', ''application/x-dbm''),
     (40, ''Windows Program Information File'', ''application/x-dosexec''),
     (41, ''TeX DVI file'', ''application/x-dvi''),
     (42, ''EET archive'', ''application/x-eet''),
     (43, ''Emacs  byte-compiled Lisp data'', ''application/x-elc''),
     (44, ''X11 SNF font data, LSB first'', ''application/x-font-sfn''),
     (45, ''TrueType font data'', ''application/x-font-ttf''),
     (46, ''Freemind document'', ''application/x-freemind''),
     (47, ''Freeplane document'', ''application/x-freeplane''),
     (48, ''GNU dbm or ndbm database'', ''application/x-gdbm''),
     (49, ''Gnumeric spreadsheet'', ''application/x-gnumeric''),
     (50, ''GPG key public ring'', ''application/x-gnupg-keyring''),
     (51, ''gzip compressed data'', ''application/x-gzip''),
     (52, ''Hierarchical Data Format data'', ''application/x-hdf''),
     (53, ''Hangul (Korean) Word Processor File 2000'', ''application/x-hwp''),
     (54, ''Internet Archive File'', ''application/x-ia-arc''),
     (55, ''Just System Word Processor Ichitaro'', ''application/x-ichitaro4''),
     (56, ''Just System Word Processor Ichitaro v5'', ''application/x-ichitaro5''),
     (57, ''Just System Word Processor Ichitaro v6'', ''application/x-ichitaro6''),
     (58, ''ISO 9660 CD-ROM filesystem data (raw 2352 byte sectors)'', ''application/x-iso9660-image''),
     (59, ''Java Applet'', ''application/x-java-applet''),
     (60, ''Java JCE KeyStore'', ''application/x-java-jce-keystore''),
     (61, ''Java KeyStore'', ''application/x-java-keystore''),
     (62, ''KDE file'', ''application/x-kdelnk''),
     (63, ''LHa archive data'', ''application/x-lha''),
     (64, ''LHarc 1.x/ARX archive data [lh0]'', ''application/x-lharc''),
     (65, ''LZ4 compressed data (v0.1-v0.9)'', ''application/x-lz4''),
     (66, ''lzip compressed data'', ''application/x-lzip''),
     (67, ''LZMA compressed data,'', ''application/x-lzma''),
     (68, ''FrameMaker file'', ''application/x-mif''),
     (69, ''Microsoft Access Database'', ''application/x-msaccess''),
     (70, ''PGP key ring'', ''application/x-pgp-keyring''),
     (71, ''Windows Precompiled iNF'', ''application/x-pnf''),
     (72, ''Motorola Quark Express Document (English)'', ''application/x-quark-xpress-3''),
     (73, ''Apple QuickTime compressed archive'', ''application/x-quicktime-player''),
     (74, ''RAR archive data,'', ''application/x-rar''),
     (75, ''RPM'', ''application/x-rpm''),
     (76, ''sc spreadsheet file'', ''application/x-sc''),
     (77, ''Scribus Document'', ''application/x-scribus''),
     (78, ''snappy framed data'', ''application/x-snappy-framed''),
     (79, ''StuffIt Archive'', ''application/x-stuffit''),
     (80, ''pkg Datastream (SVR4)'', ''application/x-svr4-package''),
     (81, ''GNU tar archive'', ''application/x-tar''),
     (82, ''TeX font metric data'', ''application/x-tex-tfm''),
     (83, ''INItialization configuration'', ''application/x-wine-extension-ini''),
     (84, ''XZ compressed data'', ''application/x-xz''),
     (85, ''Zoo archive data'', ''application/x-zoo''),
     (86, ''XML document text'', ''application/xml''),
     (87, ''XML Sitemap document text'', ''application/xml-sitemap''),
     (88, ''Zip multi-volume archive data, at least PKZIP v2.50 to extract'', ''application/zip''),
     (89, ''Standard MIDI data'', ''audio/midi''),
     (90, ''MPEG ADTS'', ''audio/mpeg''),
     (91, ''ATSC A/52 aka AC-3 aka Dolby Digital stream,'', ''audio/vnd.dolby.dd-raw''),
     (92, ''Monkey'' @ [CHR 0x27] @ ''s Audio compressed format'', ''audio/x-ape''),
     (93, ''FLAC audio bitstream data'', ''audio/x-flac''),
     (94, ''MPEG ADIF, AAC'', ''audio/x-hx-aac-adif''),
     (95, ''MPEG ADTS, AAC'', ''audio/x-hx-aac-adts''),
     (96, ''module sound data'', ''audio/x-mod''),
     (97, ''MPEG-4 LOAS'', ''audio/x-mp4a-latm''),
     (98, ''Musepack audio'', ''audio/x-musepack''),
     (99, ''RealAudio sound file'', ''audio/x-pn-realaudio''),
     (100, ''Unknown audio format'', ''audio/x-unknown''),
     (101, ''MBWF/RF64 audio'', ''audio/x-wav''),
     (102, ''Protein Data Bank data, ID Code s'', ''chemical/x-pdb''),
     (103, ''GIF image data'', ''image/gif''),
     (104, ''JPEG 2000 image'', ''image/jp2''),
     (105, ''JPEG image data'', ''image/jpeg''),
     (106, ''PNG image data'', ''image/png''),
     (107, ''SVG Scalable Vector Graphics image'', ''image/svg+xml''),
     (108, ''TIFF image data'', ''image/tiff''),
     (109, ''Adobe Photoshop Image'', ''image/vnd.adobe.photoshop''),
     (110, ''DjVu multiple page document'', ''image/vnd.djvu''),
     (111, ''DWG AutoDesk AutoCAD Release 1.40'', ''image/vnd.dwg''),
     (112, ''Award BIOS Logo, 136 x 126'', ''image/x-award-bioslogo''),
     (113, ''Award BIOS bitmap'', ''image/x-award-bmp''),
     (114, ''Canon CR2 raw image data'', ''image/x-canon-cr2''),
     (115, ''Canon CIFF raw image data'', ''image/x-canon-crw''),
     (116, ''Cartesian Perceptual Compression image'', ''image/x-cpi''),
     (117, ''MS Windows cursor resource'', ''image/x-cur''),
     (118, ''DPX image data, big-endian,'', ''image/x-dpx''),
     (119, ''OpenEXR image data,'', ''image/x-exr''),
     (120, ''MS Windows icon resource'', ''image/x-icon''),
     (121, ''SYSLINUX'' @ [CHR 0x27] @ '' LSS16 image data'', ''image/x-lss16''),
     (122, ''PC bitmap, OS/2 1.x format'', ''image/x-ms-bmp''),
     (123, ''NIFF image data'', ''image/x-niff''),
     (124, ''Olympus ORF raw image data, big-endian'', ''image/x-olympus-orf''),
     (125, ''Paint.NET image data'', ''image/x-paintnet''),
     (126, ''PCX'', ''image/x-pcx''),
     (127, ''Progressive Graphics image data,'', ''image/x-pgf''),
     (128, ''Polar Monitor Bitmap text'', ''image/x-polar-monitor-bitmap''),
     (129, ''Netpbm PPM image file'', ''image/x-portable-pixmap''),
     (130, ''Apple QuickTime image (fast start)'', ''image/x-quicktime''),
     (131, ''Unknown image format'', ''image/x-unknown''),
     (132, ''Foveon X3F raw image data'', ''image/x-x3f''),
     (133, ''GIMP XCF image data,'', ''image/x-xcf''),
     (134, ''Xcursor data'', ''image/x-xcursor''),
     (135, ''X pixmap image text'', ''image/x-xpmi''),
     (136, ''XWD X Window Dump image data'', ''image/x-xwindowdump''),
     (137, ''news text'', ''message/news''),
     (138, ''mail text'', ''message/rfc822''),
     (139, ''VRML file'', ''model/vrml''),
     (140, ''X3D (Extensible 3D) model xml text'', ''model/x3d''),
     (141, ''vCalendar calendar file'', ''text/calendar''),
     (142, ''HTML document text'', ''text/html''),
     (143, ''PGP encrypted data'', ''text/PGP''),
     (144, ''Rich Text Format data,'', ''text/rtf''),
     (145, ''TeXmacs document text'', ''text/texmacs''),
     (146, ''troff or preprocessor input text'', ''text/troff''),
     (147, ''assembler source text'', ''text/x-asm''),
     (148, ''awk script text executable'', ''text/x-awk''),
     (149, ''BCPL source text'', ''text/x-bcpl''),
     (150, ''C source text'', ''text/x-c''),
     (151, ''C++ source text'', ''text/x-c++''),
     (152, ''unified diff output text'', ''text/x-diff''),
     (153, ''FORTRAN program'', ''text/x-fortran''),
     (154, ''GNU awk script text executable'', ''text/x-gawk''),
     (155, ''GNU Info text'', ''text/x-info''),
     (156, ''Java source'', ''text/x-java''),
     (157, ''Lisp/Scheme program text'', ''text/x-lisp''),
     (158, ''Lua script text executable'', ''text/x-lua''),
     (159, ''M4 macro processor script text'', ''text/x-m4''),
     (160, ''makefile script text'', ''text/x-makefile''),
     (161, ''DOS batch file text'', ''text/x-msdos-batch''),
     (162, ''new awk script text executable'', ''text/x-nawk''),
     (163, ''Pascal source text'', ''text/x-pascal''),
     (164, ''Perl script text'', ''text/x-perl''),
     (165, ''PHP script text'', ''text/x-php''),
     (166, ''GNU gettext message catalogue text'', ''text/x-po''),
     (167, ''Python script text executable'', ''text/x-python''),
     (168, ''Ruby source text'', ''text/x-ruby''),
     (169, ''Shellscript text executable'', ''text/x-shellscript''),
     (170, ''Tcl/Tk script text executable'', ''text/x-tcl''),
     (171, ''LaTeX file'', ''text/x-tex''),
     (172, ''Texinfo source text'', ''text/x-texinfo''),
     (173, ''vCard visiting card'', ''text/x-vcard''),
     (174, ''xmcd database file for kscd'', ''text/x-xmcd''),
     (175, ''MPEG sequence'', ''video/mpeg''),
     (176, ''Apple QuickTime movie'', ''video/quicktime''),
     (177, ''WebM'', ''video/webm''),
     (178, ''FLC animation'', ''video/x-flc''),
     (179, ''FLI animation, 320x200x8'', ''video/x-fli''),
     (180, ''Macromedia Flash Video'', ''video/x-flv''),
     (181, ''JNG video data,'', ''video/x-jng''),
     (182, ''MNG video data,'', ''video/x-mng''),
     (183, ''Microsoft ASF'', ''video/x-ms-asf''),
     (184, ''Silicon Graphics movie file'', ''video/x-sgi-movie''),
     (185, ''Symbian installation file (Symbian OS 9.x)'', ''x-epoc/x-sisx-app'')]"

definition magic_items :: "magic_item list" where
  "magic_items = map (\<lambda>(g, d, m). \<lparr>guid = g, description = d, mime_type = m\<rparr>) magic_table"

record 'h peak_magic =
  handle :: 'h

definition kw_cmp :: "string \<Rightarrow> magic_item \<Rightarrow> int" where
  "kw_cmp x y = strcasecmp x (mime_type y)"

definition peak_magic_number :: "string \<Rightarrow> u32" where
  "peak_magic_number name = (case bsearch kw_cmp name magic_items of
     None \<Rightarrow> MAGIC_PACKED_DATA | Some mime \<Rightarrow> guid (magic_items ! mime))"

text \<open>\<open>magic_buffer\<close> reads \<open>len\<close> bytes of the buffer.\<close>

definition peak_magic_get :: "('h \<Rightarrow> mem \<Rightarrow> string option) \<Rightarrow> 'h peak_magic \<Rightarrow> mem \<Rightarrow> u64 \<Rightarrow> u32 option" where
  "peak_magic_get magic_buffer self buf len =
     (if length buf < unat len then None
      else Some (case magic_buffer (handle self) (take (unat len) buf) of
        None \<Rightarrow> MAGIC_PACKED_DATA | Some name \<Rightarrow> peak_magic_number name))"

text \<open>The result and the number of handles that stay open: the object owns the one it was given.\<close>

definition peak_magic_exit :: "'h peak_magic option \<Rightarrow> nat \<Rightarrow> nat" where
  "peak_magic_exit self handles = (case self of None \<Rightarrow> handles | Some self \<Rightarrow> handles - 1)"

definition peak_magic_init :: "bool \<Rightarrow> 'h option \<Rightarrow> ('h \<Rightarrow> int) \<Rightarrow> nat \<Rightarrow> 'h peak_magic option \<times> nat" where
  "peak_magic_init calloc magic_open magic_load handles =
     (if \<not> calloc then (None, handles)
      else case magic_open of
        None \<Rightarrow> (None, handles)
      | Some h \<Rightarrow>
          let self = \<lparr>handle = h\<rparr>; handles = handles + 1
          in if magic_load h \<noteq> 0 then (None, peak_magic_exit (Some self) handles) else (Some self, handles))"

text \<open>The outer \<open>None\<close> is an access outside the table, the inner one \<open>NULL\<close>.\<close>

definition peak_magic_name :: "u32 \<Rightarrow> string option option" where
  "peak_magic_name number =
     (if MAGIC_MAX \<le> number then Some None
      else if unat number < length magic_items then Some (Some (mime_type (magic_items ! unat number))) else None)"

definition peak_magic_desc :: "u32 \<Rightarrow> string option option" where
  "peak_magic_desc number =
     (if MAGIC_MAX \<le> number then Some None
      else if unat number < length magic_items then Some (Some (description (magic_items ! unat number))) else None)"

section \<open>The table\<close>

lemma mime_successive: "successively (\<lambda>x y. strcasecmp x y < 0) (map (snd \<circ> snd) magic_table)"
  by code_simp

lemma magic_guids: "map fst magic_table = map of_nat [0..<186]"
  by code_simp

interpretation kw: keyword_table strcasecmp mime_type magic_items
proof
  have "map mime_type magic_items = map (snd \<circ> snd) magic_table" by (simp add: magic_items_def split_def)
  then show "successively (\<lambda>x y. strcasecmp x y < 0) (map mime_type magic_items)" using mime_successive by simp
qed (rule strcasecmp_swap, rule strcasecmp_trans)

lemma length_magic: "length magic_items = 186"
proof -
  have "length (map fst magic_table) = 186" unfolding magic_guids by simp
  then show ?thesis by (simp add: magic_items_def)
qed

lemma guid_nth: "i < 186 \<Longrightarrow> guid (magic_items ! i) = of_nat i"
proof -
  assume i: "i < 186"
  have "guid (magic_items ! i) = map fst magic_table ! i" using i length_magic by (simp add: magic_items_def split_def)
  then show ?thesis using i unfolding magic_guids by simp
qed

section \<open>Properties\<close>

lemma magic_number_found:
  assumes "number < MAGIC_MAX" "strcasecmp x (mime_type (magic_items ! unat number)) = 0"
  shows "peak_magic_number x = number"
  using assms kw.found[of "unat number" x] guid_nth[of "unat number"]
  by (simp add: peak_magic_number_def kw_cmp_def[abs_def] length_magic MAGIC_MAX_def word_less_nat_alt)

lemma magic_number_not_found:
  assumes "\<And>i. i < length magic_items \<Longrightarrow> strcasecmp x (mime_type (magic_items ! i)) \<noteq> 0"
  shows "peak_magic_number x = MAGIC_PACKED_DATA"
proof (cases "bsearch kw_cmp x magic_items")
  case (Some i)
  from bs.hit[OF Some] assms show ?thesis by (auto simp: kw_cmp_def)
qed (simp add: peak_magic_number_def)

lemma magic_name_nth: "number < MAGIC_MAX \<Longrightarrow> peak_magic_name number = Some (Some (mime_type (magic_items ! unat number)))"
  by (auto simp: peak_magic_name_def length_magic MAGIC_MAX_def word_less_nat_alt word_le_nat_alt)

text \<open>C28. Classifying a buffer inside its bounds always ends in a file type that has a name in the table: the one \<open>libmagic\<close>
  reported, in whatever capitals, if it is in the table, and packed data otherwise, which is also the type when \<open>libmagic\<close> fails.\<close>

theorem magic_get_classifies:
  assumes "unat len \<le> length buf" "magic_buffer (handle self) (take (unat len) buf) = answer"
  shows "\<exists>number name. peak_magic_get magic_buffer self buf len = Some number \<and> number < MAGIC_MAX \<and>
    peak_magic_name number = Some (Some name) \<and>
    (if \<exists>x i. answer = Some x \<and> i < MAGIC_MAX \<and> (\<exists>m. peak_magic_name i = Some (Some m) \<and> strcasecmp x m = 0)
     then strcasecmp (the answer) name = 0 else number = MAGIC_PACKED_DATA)"
proof -
  let ?known = "\<exists>x i. answer = Some x \<and> i < MAGIC_MAX \<and> (\<exists>m. peak_magic_name i = Some (Some m) \<and> strcasecmp x m = 0)"
  let ?get = "case answer of None \<Rightarrow> MAGIC_PACKED_DATA | Some x \<Rightarrow> peak_magic_number x"
  have get: "peak_magic_get magic_buffer self buf len = Some ?get" using assms by (simp add: peak_magic_get_def)
  have packed: "MAGIC_PACKED_DATA < MAGIC_MAX" by (simp add: MAGIC_PACKED_DATA_def MAGIC_MAX_def)
  show ?thesis
  proof (cases ?known)
    case True
    then obtain x i where "answer = Some x" "i < MAGIC_MAX" "strcasecmp x (mime_type (magic_items ! unat i)) = 0"
      by (auto simp: magic_name_nth)
    with magic_number_found[of i x] get True show ?thesis by (simp add: magic_name_nth)
  next
    case False
    have "?get = MAGIC_PACKED_DATA"
    proof (cases answer)
      case (Some x)
      have "strcasecmp x (mime_type (magic_items ! i)) \<noteq> 0" if "i < length magic_items" for i
      proof -
        have "unat (of_nat i :: u32) = i" "(of_nat i :: u32) < MAGIC_MAX"
          using that by (simp_all add: length_magic MAGIC_MAX_def word_less_nat_alt unat_of_nat)
        with False Some magic_name_nth[of "of_nat i"] show ?thesis by auto
      qed
      then show ?thesis using magic_number_not_found[of x] Some by simp
    qed simp
    with get packed False show ?thesis by (auto simp: magic_name_nth)
  qed
qed

text \<open>A document: \<open>libmagic\<close> answers in capitals.\<close>

theorem magic_get_classifies_witness:
  "\<exists>number name. peak_magic_get (\<lambda>h b. Some ''Application/PDF'') \<lparr>handle = ()\<rparr> [0x25, 0x50, 0x44, 0x46] 4 = Some number \<and>
    number < MAGIC_MAX \<and> peak_magic_name number = Some (Some name)"
  using magic_get_classifies[of 4 "[0x25, 0x50, 0x44, 0x46]" "\<lambda>h b. Some ''Application/PDF''" "\<lparr>handle = ()\<rparr>"] by force

text \<open>The number of a file type, its name and back.\<close>

lemma magic_name_number:
  assumes "number < MAGIC_MAX"
  shows "\<exists>name. peak_magic_name number = Some (Some name) \<and> peak_magic_number name = number"
  using magic_number_found[OF assms] magic_name_nth[OF assms] by (auto simp: strcasecmp_def strcmp_eq_0_iff)

text \<open>Initialisation leaves no handle of \<open>libmagic\<close> open unless it returns an object, which owns exactly one.\<close>

lemma magic_init_handles:
  assumes "peak_magic_init calloc magic_open magic_load handles = (self, handles')"
  shows "handles' = handles + (if self = None then 0 else 1)" "peak_magic_exit self handles' = handles"
  using assms by (auto simp: peak_magic_init_def peak_magic_exit_def Let_def split: if_splits option.splits)

end
