(* ===== verification/Peak_Netmap.thy ===== *)
theory Peak_Netmap
  imports Peak_Packet "HOL-Library.Multiset"
begin

text \<open>
  Packet transfer over \<open>netmap(4)\<close>, \<open>src/lib/peak_netmap.c\<close> with \<open>src/include/peak_transfer.h\<close>: the table of attached
  devices, claiming a received packet, and releasing it by a drop, to its original destination or, without a copy, into a
  transmit ring.

  The rings are memory shared with the kernel: \<open>rings\<close> maps the address of a ring, which is a mapping and an offset in it,
  to its contents, and an access outside a mapping or a slot array is \<open>None\<close>. What \<open>netmap(4)\<close> provides (its inline functions
  and its address computations) is the record \<open>netmap_api\<close>, what the system calls answer is an argument of the operation that
  makes them. \<open>used\<close>, the flags of slots and rings and the events of \<open>poll(2)\<close> are booleans, one for each bit the code uses.
  The thread has one \<open>netmap_priv\<close>, so \<open>private_data\<close> is a boolean that says whether it is that address or \<open>NULL\<close>; the name a
  packet points at is that of a device in the table and is the index of the device.
\<close>

section \<open>State\<close>

abbreviation (input) NETMAP_MAX :: nat where "NETMAP_MAX \<equiv> 64"
abbreviation (input) IFNAMSIZ :: nat where "IFNAMSIZ \<equiv> 16"
abbreviation (input) NETMAP_DFLT :: u32 where "NETMAP_DFLT \<equiv> 0"
abbreviation (input) NETMAP_WIRE :: u32 where "NETMAP_WIRE \<equiv> 1"
abbreviation (input) NETMAP_HOST :: u32 where "NETMAP_HOST \<equiv> 2"
abbreviation (input) NETMAP_PIPE :: u32 where "NETMAP_PIPE \<equiv> 3"

datatype nr_reg = NR_REG_ALL_NIC | NR_REG_PIPE_MASTER | NR_REG_PIPE_SLAVE

record netmap_slot =
  buf_idx :: u32
  slot_len :: u16
  ns_buf_changed :: bool
  ns_forward :: bool

record netmap_ring =
  num_slots :: u32
  ring_head :: u32
  ring_cur :: u32
  ring_tail :: u32
  ring_slot :: "netmap_slot list"
  ring_ts :: peak_timeval
  nr_forward :: bool
  nr_timestamp :: bool

datatype map_ptr = At (mapping: nat) (map_ofs: u32)
type_synonym ring_store = "map_ptr \<rightharpoonup> netmap_ring"

record netmap_api =
  nm_ring_empty :: "netmap_ring \<Rightarrow> bool"
  nm_ring_next :: "netmap_ring \<Rightarrow> u32 \<Rightarrow> u32"
  NETMAP_IF :: "nat \<Rightarrow> u32 \<Rightarrow> map_ptr"
  NETMAP_RXRING :: "map_ptr \<Rightarrow> u32 \<Rightarrow> map_ptr"
  NETMAP_TXRING :: "map_ptr \<Rightarrow> u32 \<Rightarrow> map_ptr"
  NETMAP_BUF :: "map_ptr \<Rightarrow> u32 \<Rightarrow> nat"
  NETMAP_RING_MASK :: u16
  IF_FLAGS :: u32 \<comment> \<open>\<open>IFF_UP | IFF_PPROMISC\<close>\<close>
  IF_CAPS :: u32 \<comment> \<open>\<open>IFCAP_HWCSUM | IFCAP_TSO | IFCAP_TOE\<close>\<close>

record peak_netmap_dev =
  dev_ifname :: string
  dev_nifp :: map_ptr
  dev_mem :: nat
  dev_fd :: int
  dev_type :: nr_reg
  dev_memsize :: u32
  dev_begin :: u32
  dev_end :: u32

record pollfd =
  poll_fd :: int
  poll_in :: bool
  poll_rin :: bool
  poll_rerr :: bool

record peak_netmap =
  priv_ring :: "map_ptr option"
  priv_used :: bool
  priv_i :: u32

record peak_netmaps =
  nm_count :: u32
  nm_last :: u32
  nm_dev :: "peak_netmap_dev list"
  nm_fd :: "pollfd list"

record peak_transfer =
  pkt_ts :: peak_timeval
  pkt_ifname :: "nat option"
  private_data :: bool
  pkt_type :: u32
  pkt_len :: u32
  pkt_ll :: u32
  pkt_id :: u32
  pkt_buf :: ptr

record netmap_state =
  nm_self :: peak_netmaps
  netmap_priv :: peak_netmap
  netmap_ts :: peak_timeval
  rings :: ring_store
  netmap_mutex :: bool
  open_fds :: "int list"
  if_state :: "string \<Rightarrow> u32 \<times> u32" \<comment> \<open>flags and capabilities of the interfaces\<close>

definition transfer_zero :: peak_transfer where
  "transfer_zero = \<lparr>pkt_ts = \<lparr>tv_sec = 0, tv_usec = 0\<rparr>, pkt_ifname = None, private_data = False, pkt_type = 0, pkt_len = 0,
     pkt_ll = 0, pkt_id = 0, pkt_buf = None\<rparr>"

definition priv_zero :: peak_netmap where
  "priv_zero = \<lparr>priv_ring = None, priv_used = False, priv_i = 0\<rparr>"

definition dev_zero :: peak_netmap_dev where
  "dev_zero = \<lparr>dev_ifname = [], dev_nifp = At 0 0, dev_mem = 0, dev_fd = 0, dev_type = NR_REG_ALL_NIC, dev_memsize = 0,
     dev_begin = 0, dev_end = 0\<rparr>"

definition netmap_start :: "(string \<Rightarrow> u32 \<times> u32) \<Rightarrow> int list \<Rightarrow> netmap_state" where
  "netmap_start ifs fds = \<lparr>nm_self = \<lparr>nm_count = 0, nm_last = 0, nm_dev = replicate NETMAP_MAX dev_zero,
     nm_fd = replicate NETMAP_MAX \<lparr>poll_fd = 0, poll_in = False, poll_rin = False, poll_rerr = False\<rparr>\<rparr>,
     netmap_priv = priv_zero, netmap_ts = \<lparr>tv_sec = 0, tv_usec = 0\<rparr>, rings = Map.empty, netmap_mutex = False, open_fds = fds,
     if_state = ifs\<rparr>"

definition dev_at :: "netmap_state \<Rightarrow> nat \<Rightarrow> peak_netmap_dev option" where
  "dev_at st d = (if d < length (nm_dev (nm_self st)) then Some (nm_dev (nm_self st) ! d) else None)"

text \<open>The rings \<open>NR_FOREACH_WIRE\<close> and \<open>NR_FOREACH_HOST\<close> visit. The step of either loop also computes the address of the ring
  behind the last one before the condition ends the loop; that address is never used, and the lists hold the rings the bodies see.
  In the layout of netmap(4) the offset read for it is that of the host ring at the end of the wire rings, which every interface
  has, and that of the first receive ring behind the host transmit ring. Behind the host receive ring it is not an offset of the
  interface any more: \<open>NETMAP_RXRING(nifp, end + 1)\<close> reads one entry past the end of \<open>ring_ofs\<close>, memory of the same mapping whose
  value has no effect. These accesses are left out here.\<close>

definition wire_rings :: "peak_netmap_dev \<Rightarrow> u32 list" where
  "wire_rings dev = map of_nat [unat (dev_begin dev)..<unat (dev_end dev)]"

definition host_rings :: "peak_netmap_dev \<Rightarrow> u32 list" where
  "host_rings dev = [dev_end dev]"

section \<open>Opening a device\<close>

text \<open>\<open>netmap_sys\<close> is what the system calls of an attach answer: the descriptor, which of the four requests about the
  interface fail, the registration, and the mapping with the rings that are in it. An unsuccessful \<open>mmap(2)\<close> is \<open>None\<close>.\<close>

record nmreq =
  nr_name :: string
  nr_version :: u32
  nr_flags :: nr_reg
  nr_ringid :: u16
  nr_arg1 :: u16
  nr_memsize :: u32
  nr_offset :: u32
  nr_rx_rings :: u16

record netmap_sys =
  sys_open :: int
  sys_gifflags :: bool
  sys_sifflags :: bool
  sys_gifcap :: bool
  sys_sifcap :: bool
  sys_regif :: "nmreq \<Rightarrow> nmreq option"
  sys_mmap :: "(nat \<times> (u32 \<rightharpoonup> netmap_ring)) option"

definition strlcpy_name :: "string \<Rightarrow> string" where
  "strlcpy_name s = take (IFNAMSIZ - 1) s"

text \<open>\<open>atoi(3)\<close>: blanks, a sign and digits; a value that is not an \<open>int\<close> is undefined.\<close>

definition digit :: "char \<Rightarrow> int option" where
  "digit c = (let v = of_char c - 48 :: int in if 0 \<le> v \<and> v \<le> 9 then Some v else None)"

fun atoi_digits :: "int \<Rightarrow> string \<Rightarrow> int" where
  "atoi_digits v [] = v"
| "atoi_digits v (c # cs) = (case digit c of None \<Rightarrow> v | Some x \<Rightarrow> atoi_digits (10 * v + x) cs)"

definition atoi :: "string \<Rightarrow> int option" where
  "atoi s =
    (let s = dropWhile (\<lambda>c. (of_char c :: int) = 32 \<or> 9 \<le> (of_char c :: int) \<and> (of_char c :: int) \<le> 13) s;
         v = (case s of [] \<Rightarrow> 0
              | c # cs \<Rightarrow> if c = CHR ''-'' then - atoi_digits 0 cs else if c = CHR ''+'' then atoi_digits 0 cs else atoi_digits 0 s)
     in if - (2 ^ 31) \<le> v \<and> v < 2 ^ 31 then Some v else None)"

text \<open>\<open>__peak_netmap_init\<close>: the interface goes up and promiscuous, then offloading is switched off.\<close>

definition if_init :: "netmap_api \<Rightarrow> netmap_sys \<Rightarrow> peak_netmap_dev \<Rightarrow> netmap_state \<Rightarrow> bool \<times> netmap_state" where
  "if_init api sys dev st =
    (let name = strlcpy_name (dev_ifname dev); (flags, caps) = if_state st name
     in if sys_gifflags sys then (True, st)
        else if sys_sifflags sys then (True, st)
        else
          let flags = flags OR IF_FLAGS api; st = st\<lparr>if_state := (if_state st)(name := (flags, caps))\<rparr>
          in if sys_gifcap sys then (True, st)
             else if sys_sifcap sys then (True, st)
             else (False, st\<lparr>if_state := (if_state st)(name := (flags, caps AND NOT (IF_CAPS api)))\<rparr>))"

definition nmreq_zero :: nmreq where
  "nmreq_zero = \<lparr>nr_name = [], nr_version = 0, nr_flags = NR_REG_ALL_NIC, nr_ringid = 0, nr_arg1 = 0, nr_memsize = 0,
     nr_offset = 0, nr_rx_rings = 0\<rparr>"

text \<open>The request of \<open>_peak_netmap_init\<close>; the inner \<open>None\<close> is a ring id that is too large.\<close>

definition dev_request :: "netmap_api \<Rightarrow> peak_netmap_dev \<Rightarrow> nmreq option option" where
  "dev_request api dev =
    (let req = nmreq_zero\<lparr>nr_version := 11, nr_flags := dev_type dev\<rparr>
     in if dev_type dev \<noteq> NR_REG_ALL_NIC then do {
          id \<leftarrow> atoi (dev_ifname dev);
          let ringid = (of_int id :: u16);
          Some (if NETMAP_RING_MASK api \<le> ringid then None
                else Some (req\<lparr>nr_name := ''vale'', nr_ringid := ringid, nr_arg1 := 16\<rparr>)) }
        else Some (Some (req\<lparr>nr_name := strlcpy_name (dev_ifname dev), nr_ringid := 0\<rparr>)))"

definition fd_close :: "int \<Rightarrow> netmap_state \<Rightarrow> netmap_state" where
  "fd_close fd st = st\<lparr>open_fds := remove1 fd (open_fds st)\<rparr>"

text \<open>The rings after \<open>mmap(2)\<close> and \<open>munmap(2)\<close> of a mapping.\<close>

definition mapped_at :: "nat \<Rightarrow> (u32 \<rightharpoonup> netmap_ring) \<Rightarrow> ring_store \<Rightarrow> ring_store" where
  "mapped_at mem mapped rs = (\<lambda>r. if mapping r = mem then mapped (map_ofs r) else rs r)"

text \<open>\<open>_peak_netmap_init\<close>: the first component says that it failed.\<close>

definition dev_init :: "netmap_api \<Rightarrow> netmap_sys \<Rightarrow> peak_netmap_dev \<Rightarrow> netmap_state \<Rightarrow> (bool \<times> peak_netmap_dev \<times> netmap_state) option" where
  "dev_init api sys dev st =
    (let fd = sys_open sys; dev = dev\<lparr>dev_fd := fd\<rparr>
     in if fd < 0 then Some (True, dev, st)
        else
          let st = st\<lparr>open_fds := fd # open_fds st\<rparr>;
              (err, st) = (if dev_type dev = NR_REG_ALL_NIC then if_init api sys dev st else (False, st))
          in if err then Some (True, dev, fd_close fd st)
             else do {
               req \<leftarrow> dev_request api dev;
               case req of None \<Rightarrow> Some (True, dev, fd_close fd st)
               | Some req \<Rightarrow> (case sys_regif sys req of None \<Rightarrow> Some (True, dev, fd_close fd st)
                 | Some req \<Rightarrow>
                     let dev = dev\<lparr>dev_memsize := nr_memsize req\<rparr>
                     in (case sys_mmap sys of None \<Rightarrow> Some (True, dev, fd_close fd st)
                        | Some (mem, mapped) \<Rightarrow>
                            Some (False, dev\<lparr>dev_mem := mem, dev_nifp := NETMAP_IF api mem (nr_offset req), dev_begin := 0,
                                             dev_end := ucast (nr_rx_rings req)\<rparr>,
                                  st\<lparr>rings := mapped_at mem mapped (rings st)\<rparr>))) })"

section \<open>The device table\<close>

fun find_loop :: "peak_netmaps \<Rightarrow> string \<Rightarrow> nr_reg \<Rightarrow> nat \<Rightarrow> nat \<Rightarrow> nat" where
  "find_loop self ifname ignore i 0 = i"
| "find_loop self ifname ignore i (Suc n) =
    (if ignore \<noteq> NR_REG_ALL_NIC \<and> ignore = dev_type (nm_dev self ! i) then find_loop self ifname ignore (Suc i) n
     else if ifname = dev_ifname (nm_dev self ! i) then i
     else find_loop self ifname ignore (Suc i) n)"

definition peak_netmap_find :: "peak_netmaps \<Rightarrow> string option \<Rightarrow> nr_reg \<Rightarrow> nat" where
  "peak_netmap_find self ifname ignore = (case ifname of None \<Rightarrow> unat (nm_count self)
     | Some ifname \<Rightarrow> find_loop self ifname ignore 0 (unat (nm_count self)))"

section \<open>Receiving\<close>

text \<open>\<open>___peak_netmap_recv\<close>: the packet at the front of a ring. \<open>None\<close> as a packet is \<open>NULL\<close>; the caller's structure then is as it was.\<close>

definition ring_recv :: "netmap_api \<Rightarrow> nat \<Rightarrow> map_ptr \<Rightarrow> u32 \<Rightarrow> netmap_state \<Rightarrow> (peak_transfer option \<times> netmap_state) outcome option" where
  "ring_recv api d r rx st = do {
     ring \<leftarrow> rings st r;
     dev \<leftarrow> dev_at st d;
     if nm_ring_empty api ring then Some (Return (None, st))
     else if length (ring_slot ring) \<le> unat (ring_cur ring) then None
     else
       let i = ring_cur ring; slot = ring_slot ring ! unat i; idx = buf_idx slot
       in if idx < 2 then Some Panic
          else
            let priv = \<lparr>priv_ring = Some r, priv_used = True, priv_i = i\<rparr>;
                old = netmap_ts st;
                ts = (if tv_sec old < tv_sec (ring_ts ring) \<or> 3 \<le> tv_sec old - tv_sec (ring_ts ring) then ring_ts ring else old)
            in Some (Return (Some \<lparr>pkt_ts = ts, pkt_ifname = Some d, private_data = True,
                 pkt_type = (if dev_type dev = NR_REG_PIPE_SLAVE then NETMAP_PIPE
                             else if rx \<noteq> dev_end dev then NETMAP_WIRE else NETMAP_HOST),
                 pkt_len = ucast (slot_len slot), pkt_ll = LINKTYPE_ETHERNET, pkt_id = idx, pkt_buf = Some (NETMAP_BUF api r idx)\<rparr>,
               st\<lparr>netmap_priv := priv, netmap_ts := ts\<rparr>)) }"

fun recv_rings :: "netmap_api \<Rightarrow> nat \<Rightarrow> map_ptr \<Rightarrow> u32 list \<Rightarrow> netmap_state \<Rightarrow> (peak_transfer option \<times> netmap_state) outcome option" where
  "recv_rings api d nifp [] st = Some (Return (None, st))"
| "recv_rings api d nifp (rx # rxs) st =
    obind (ring_recv api d (NETMAP_RXRING api nifp rx) rx st) (\<lambda>(packet, st).
      case packet of None \<Rightarrow> recv_rings api d nifp rxs st | Some p \<Rightarrow> Some (Return (Some p, st)))"

text \<open>\<open>__peak_netmap_recv\<close>: the host ring first, if it is asked for and there is one.\<close>

definition dev_recv :: "netmap_api \<Rightarrow> nat \<Rightarrow> u32 \<Rightarrow> netmap_state \<Rightarrow> (peak_transfer option \<times> netmap_state) outcome option" where
  "dev_recv api d mode st = do {
     dev \<leftarrow> dev_at st d;
     if dev_type dev = NR_REG_PIPE_MASTER then Some (Return (None, st))
     else if (mode = NETMAP_DFLT \<or> mode = NETMAP_HOST) \<and> dev_type dev \<noteq> NR_REG_PIPE_SLAVE then
       obind (recv_rings api d (dev_nifp dev) (host_rings dev) st) (\<lambda>(packet, st).
         case packet of Some p \<Rightarrow> Some (Return (Some p, st))
         | None \<Rightarrow> if mode = NETMAP_HOST then Some (Return (None, st)) else recv_rings api d (dev_nifp dev) (wire_rings dev) st)
     else recv_rings api d (dev_nifp dev) (wire_rings dev) st }"

text \<open>\<open>_peak_netmap_recv\<close>: the devices in turn, from the one behind the last that had a packet.\<close>

fun any_loop :: "netmap_api \<Rightarrow> u32 \<Rightarrow> nat \<Rightarrow> u32 \<Rightarrow> netmap_state \<Rightarrow> (peak_transfer option \<times> netmap_state) outcome option" where
  "any_loop api mode 0 j st = Some (Return (None, st))"
| "any_loop api mode (Suc n) j st =
    (let j = (j + 1) mod nm_count (nm_self st)
     in obind (dev_recv api (unat j) mode st) (\<lambda>(packet, st).
       case packet of None \<Rightarrow> any_loop api mode n j st
       | Some p \<Rightarrow> Some (Return (Some p, st\<lparr>nm_self := (nm_self st)\<lparr>nm_last := j\<rparr>\<rparr>))))"

definition any_recv :: "netmap_api \<Rightarrow> u32 \<Rightarrow> netmap_state \<Rightarrow> (peak_transfer option \<times> netmap_state) outcome option" where
  "any_recv api mode st = any_loop api mode (unat (nm_count (nm_self st))) (nm_last (nm_self st)) st"

definition poll_prepare :: "pollfd \<Rightarrow> pollfd" where
  "poll_prepare fd = fd\<lparr>poll_in := True, poll_rin := False, poll_rerr := False\<rparr>"

text \<open>\<open>poll(2)\<close> gets the descriptors, the timeout and the rings, which it synchronises; it answers with its result, the
  descriptors with their events and the rings.\<close>

type_synonym poll_call = "pollfd list \<Rightarrow> int \<Rightarrow> ring_store \<Rightarrow> int \<times> pollfd list \<times> ring_store"

definition set_fds :: "nat \<Rightarrow> pollfd list \<Rightarrow> netmap_state \<Rightarrow> netmap_state" where
  "set_fds i fds st = st\<lparr>nm_self := (nm_self st)\<lparr>nm_fd :=
     take i (nm_fd (nm_self st)) @ fds @ drop (i + length fds) (nm_fd (nm_self st))\<rparr>\<rparr>"

definition poll_range :: "poll_call \<Rightarrow> nat \<Rightarrow> nat \<Rightarrow> int \<Rightarrow> netmap_state \<Rightarrow> (int \<times> netmap_state) option" where
  "poll_range poll i n timeout st =
    (if length (nm_fd (nm_self st)) < i + n then None
     else let (ret, fds, rs) = poll (map poll_prepare (take n (drop i (nm_fd (nm_self st))))) timeout (rings st)
          in Some (ret, set_fds i fds (st\<lparr>rings := rs\<rparr>)))"

text \<open>The first device with an incoming event: \<open>POLLERR\<close> is only reported.\<close>

fun first_ready :: "pollfd list \<Rightarrow> nat \<Rightarrow> nat option" where
  "first_ready [] i = None"
| "first_ready (fd # fds) i = (if poll_rin fd then Some i else first_ready fds (Suc i))"

definition peak_netmap_recv :: "netmap_api \<Rightarrow> poll_call \<Rightarrow> int \<Rightarrow> string option \<Rightarrow> u32 \<Rightarrow> netmap_state \<Rightarrow>
    (peak_transfer option \<times> netmap_state) outcome option" where
  "peak_netmap_recv api poll timeout ifname mode st =
    (if priv_used (netmap_priv st) then Some (Return (None, st))
     else
       let count = unat (nm_count (nm_self st))
       in case ifname of
         Some _ \<Rightarrow>
           let i = peak_netmap_find (nm_self st) ifname NR_REG_PIPE_MASTER
           in if count \<le> i then Some (Return (None, st))
              else obind (dev_recv api i mode st) (\<lambda>(packet, st).
                case packet of Some p \<Rightarrow> Some (Return (Some p, st))
                | None \<Rightarrow> do {
                    (ret, st) \<leftarrow> poll_range poll i 1 timeout st;
                    if ret \<le> 0 then Some (Return (None, st))
                    else if poll_rin (nm_fd (nm_self st) ! i) then dev_recv api i mode st
                    else Some (Return (None, st)) })
       | None \<Rightarrow>
           obind (any_recv api mode st) (\<lambda>(packet, st).
             case packet of Some p \<Rightarrow> Some (Return (Some p, st))
             | None \<Rightarrow> do {
                 (ret, st) \<leftarrow> poll_range poll 0 count timeout st;
                 if ret \<le> 0 then Some (Return (None, st))
                 else case first_ready (take count (nm_fd (nm_self st))) 0 of
                   None \<Rightarrow> Some (Return (None, st))
                 | Some i \<Rightarrow> dev_recv api i mode (st\<lparr>nm_self := (nm_self st)\<lparr>nm_last := of_nat i\<rparr>\<rparr>) }))"

section \<open>Releasing the packet\<close>

definition slot_update :: "map_ptr \<Rightarrow> u32 \<Rightarrow> (netmap_slot \<Rightarrow> netmap_slot) \<Rightarrow> ring_store \<Rightarrow> ring_store option" where
  "slot_update r i f rs = do {
     ring \<leftarrow> rs r;
     if unat i < length (ring_slot ring)
     then Some (rs(r \<mapsto> ring\<lparr>ring_slot := (ring_slot ring)[unat i := f (ring_slot ring ! unat i)]\<rparr>)) else None }"

definition slot_at :: "map_ptr \<Rightarrow> u32 \<Rightarrow> ring_store \<Rightarrow> netmap_slot option" where
  "slot_at r i rs = do { ring \<leftarrow> rs r; if unat i < length (ring_slot ring) then Some (ring_slot ring ! unat i) else None }"

text \<open>\<open>ring->head = ring->cur = nm_ring_next(ring, ring->cur)\<close>.\<close>

definition ring_advance :: "netmap_api \<Rightarrow> map_ptr \<Rightarrow> ring_store \<Rightarrow> ring_store option" where
  "ring_advance api r rs = do {
     ring \<leftarrow> rs r;
     let i = nm_ring_next api ring (ring_cur ring);
     Some (rs(r \<mapsto> ring\<lparr>ring_cur := i, ring_head := i\<rparr>)) }"

definition scrub :: "ring_store \<Rightarrow> netmap_state \<Rightarrow> netmap_state" where
  "scrub rs st = st\<lparr>rings := rs, netmap_priv := priv_zero\<rparr>"

text \<open>\<open>peak_netmap_forward\<close> and \<open>peak_netmap_drop\<close> differ in the bit they leave in the slot. The result has the packet behind.\<close>

definition release_slot :: "netmap_api \<Rightarrow> bool \<Rightarrow> peak_transfer \<Rightarrow> netmap_state \<Rightarrow> (peak_transfer \<times> netmap_state) option" where
  "release_slot api fwd packet st =
    (if \<not> private_data packet then None
     else do {
       source \<leftarrow> priv_ring (netmap_priv st);
       rs \<leftarrow> slot_update source (priv_i (netmap_priv st)) (\<lambda>s. s\<lparr>ns_forward := fwd\<rparr>) (rings st);
       rs \<leftarrow> ring_advance api source rs;
       Some (transfer_zero, scrub rs st) })"

definition peak_netmap_forward :: "netmap_api \<Rightarrow> peak_transfer \<Rightarrow> netmap_state \<Rightarrow> (u32 \<times> peak_transfer \<times> netmap_state) option" where
  "peak_netmap_forward api packet st = map_option (\<lambda>(packet, st). (0, packet, st)) (release_slot api True packet st)"

definition peak_netmap_drop :: "netmap_api \<Rightarrow> peak_transfer \<Rightarrow> netmap_state \<Rightarrow> (u32 \<times> peak_transfer \<times> netmap_state) option" where
  "peak_netmap_drop api packet st = map_option (\<lambda>(packet, st). (0, packet, st)) (release_slot api False packet st)"

text \<open>\<open>_peak_netmap_send\<close>: the buffers of the received slot and of the next slot to transmit change places.\<close>

definition ring_send :: "netmap_api \<Rightarrow> map_ptr \<Rightarrow> peak_transfer \<Rightarrow> netmap_state \<Rightarrow> (u32 \<times> peak_transfer \<times> netmap_state) option" where
  "ring_send api r packet st =
    (if \<not> private_data packet then None
     else do {
       ring \<leftarrow> rings st r;
       if nm_ring_empty api ring then Some (1, packet, st)
       else do {
         curr \<leftarrow> priv_ring (netmap_priv st);
         let i = ring_cur ring;
         rslot \<leftarrow> slot_at curr (priv_i (netmap_priv st)) (rings st);
         tslot \<leftarrow> slot_at r i (rings st);
         rs \<leftarrow> slot_update r i (\<lambda>s. s\<lparr>buf_idx := buf_idx rslot, slot_len := slot_len rslot, ns_buf_changed := True\<rparr>) (rings st);
         rs \<leftarrow> slot_update curr (priv_i (netmap_priv st))
                 (\<lambda>s. s\<lparr>buf_idx := buf_idx tslot, ns_buf_changed := True, ns_forward := False\<rparr>) rs;
         rs \<leftarrow> ring_advance api curr rs;
         rs \<leftarrow> ring_advance api r rs;
         Some (0, transfer_zero, scrub rs st) }})"

text \<open>\<open>ioctl(dev->fd, NIOCTXSYNC)\<close> lets the kernel work on the rings.\<close>

fun send_rings :: "netmap_api \<Rightarrow> (int \<Rightarrow> ring_store \<Rightarrow> ring_store) \<Rightarrow> peak_netmap_dev \<Rightarrow> u32 list \<Rightarrow> peak_transfer \<Rightarrow> netmap_state \<Rightarrow>
    (u32 \<times> peak_transfer \<times> netmap_state) option" where
  "send_rings api txsync dev [] packet st = Some (1, packet, st)"
| "send_rings api txsync dev (tx # txs) packet st = do {
     (ret, packet, st) \<leftarrow> ring_send api (NETMAP_TXRING api (dev_nifp dev) tx) packet st;
     if ret = 0 then Some (0, packet, st\<lparr>rings := txsync (dev_fd dev) (rings st)\<rparr>)
     else send_rings api txsync dev txs packet st }"

definition peak_netmap_send :: "netmap_api \<Rightarrow> (int \<Rightarrow> ring_store \<Rightarrow> ring_store) \<Rightarrow> peak_transfer \<Rightarrow> string option \<Rightarrow> u32 \<Rightarrow> netmap_state \<Rightarrow>
    (u32 \<times> peak_transfer \<times> netmap_state) option" where
  "peak_netmap_send api txsync packet ifname mode st =
    (if \<not> private_data packet \<or> \<not> priv_used (netmap_priv st) then Some (1, packet, st)
     else case ifname of
       None \<Rightarrow> map_option (\<lambda>(_, packet, st). (0, packet, st)) (peak_netmap_drop api packet st)
     | Some _ \<Rightarrow>
         let i = peak_netmap_find (nm_self st) ifname NR_REG_PIPE_SLAVE
         in if unat (nm_count (nm_self st)) \<le> i then Some (1, packet, st)
            else do {
              dev \<leftarrow> dev_at st i;
              send_rings api txsync dev (if mode = NETMAP_HOST then host_rings dev else wire_rings dev) packet st })"

section \<open>Attaching and detaching\<close>

fun configure_rings :: "netmap_api \<Rightarrow> map_ptr \<Rightarrow> u32 list \<Rightarrow> ring_store \<Rightarrow> ring_store option" where
  "configure_rings api nifp [] rs = Some rs"
| "configure_rings api nifp (i # is) rs = do {
     ring \<leftarrow> rs (NETMAP_RXRING api nifp i);
     configure_rings api nifp is (rs(NETMAP_RXRING api nifp i \<mapsto> ring\<lparr>nr_forward := True, nr_timestamp := True\<rparr>)) }"

definition peak_netmap_configure :: "netmap_api \<Rightarrow> peak_netmap_dev \<Rightarrow> netmap_state \<Rightarrow> netmap_state option" where
  "peak_netmap_configure api dev st = do {
     rs \<leftarrow> configure_rings api (dev_nifp dev) (wire_rings dev) (rings st);
     rs \<leftarrow> configure_rings api (dev_nifp dev) (host_rings dev) rs;
     Some (st\<lparr>rings := rs\<rparr>) }"

definition set_dev :: "nat \<Rightarrow> peak_netmap_dev \<Rightarrow> netmap_state \<Rightarrow> netmap_state" where
  "set_dev i dev st = st\<lparr>nm_self := (nm_self st)\<lparr>nm_dev := (nm_dev (nm_self st))[i := dev]\<rparr>\<rparr>"

definition unlock :: "netmap_state \<Rightarrow> netmap_state" where
  "unlock st = st\<lparr>netmap_mutex := False\<rparr>"

definition attach_ignore :: "nr_reg \<Rightarrow> nr_reg" where
  "attach_ignore type = (case type of NR_REG_PIPE_MASTER \<Rightarrow> NR_REG_PIPE_SLAVE | NR_REG_PIPE_SLAVE \<Rightarrow> NR_REG_PIPE_MASTER | _ \<Rightarrow> type)"

text \<open>\<open>_peak_netmap_attach\<close>: the other end of a pipe with the same name is no obstacle.\<close>

definition netmap_attach :: "netmap_api \<Rightarrow> netmap_sys \<Rightarrow> string option \<Rightarrow> nr_reg \<Rightarrow> netmap_state \<Rightarrow> (u32 \<times> netmap_state) option" where
  "netmap_attach api sys ifname type st =
    (if netmap_mutex st then Some (1, st)
     else
       let st = st\<lparr>netmap_mutex := True\<rparr>;
           ignore = attach_ignore type;
           count = unat (nm_count (nm_self st))
       in if peak_netmap_find (nm_self st) ifname ignore < count then Some (1, unlock st)
          else if NETMAP_MAX \<le> count then Some (1, unlock st)
          else do {
            name \<leftarrow> ifname;
            (err, dev, st) \<leftarrow> dev_init api sys (dev_zero\<lparr>dev_ifname := strlcpy_name name, dev_type := type\<rparr>) st;
            let st = set_dev count dev st;
            if err then Some (1, unlock st)
            else do {
              st \<leftarrow> peak_netmap_configure api dev st;
              Some (0, unlock (st\<lparr>nm_self := (nm_self st)\<lparr>
                nm_fd := (nm_fd (nm_self st))[count := (nm_fd (nm_self st) ! count)\<lparr>poll_fd := dev_fd dev\<rparr>],
                nm_count := nm_count (nm_self st) + 1\<rparr>\<rparr>)) }})"

definition peak_netmap_master :: "netmap_api \<Rightarrow> netmap_sys \<Rightarrow> string option \<Rightarrow> netmap_state \<Rightarrow> (u32 \<times> netmap_state) option" where
  "peak_netmap_master api sys pipeid st = netmap_attach api sys pipeid NR_REG_PIPE_MASTER st"

definition peak_netmap_slave :: "netmap_api \<Rightarrow> netmap_sys \<Rightarrow> string option \<Rightarrow> netmap_state \<Rightarrow> (u32 \<times> netmap_state) option" where
  "peak_netmap_slave api sys pipeid st = netmap_attach api sys pipeid NR_REG_PIPE_SLAVE st"

definition peak_netmap_attach :: "netmap_api \<Rightarrow> netmap_sys \<Rightarrow> string option \<Rightarrow> netmap_state \<Rightarrow> (u32 \<times> netmap_state) option" where
  "peak_netmap_attach api sys ifname st = netmap_attach api sys ifname NR_REG_ALL_NIC st"

definition peak_netmap_detach :: "string option \<Rightarrow> netmap_state \<Rightarrow> u32 \<times> netmap_state" where
  "peak_netmap_detach ifname st =
    (if netmap_mutex st then (1, st)
     else
       let st = st\<lparr>netmap_mutex := True\<rparr>;
           self = nm_self st;
           count = unat (nm_count self);
           i = peak_netmap_find self ifname NR_REG_ALL_NIC
       in if count \<le> i then (1, unlock st)
          else
            let dev = nm_dev self ! i;
                st = (if dev_mem dev \<noteq> 0 then st\<lparr>rings := mapped_at (dev_mem dev) Map.empty (rings st)\<rparr> else st);
                st = fd_close (dev_fd dev) st;
                self = (if i < count - 1 then self\<lparr>nm_dev := (nm_dev self)[i := nm_dev self ! (count - 1)],
                                                    nm_fd := (nm_fd self)[i := nm_fd self ! (count - 1)]\<rparr> else self)
            in (0, unlock (st\<lparr>nm_self := self\<lparr>nm_count := nm_count self - 1\<rparr>\<rparr>)))"

text \<open>\<open>Hang\<close>: the thread waits for the mutex, for ever if it holds it itself.\<close>

definition peak_netmap_lock :: "netmap_state \<Rightarrow> netmap_state outcome" where
  "peak_netmap_lock st = (if netmap_mutex st then Hang else Return (st\<lparr>netmap_mutex := True\<rparr>))"

definition peak_netmap_unlock :: "netmap_state \<Rightarrow> netmap_state" where
  "peak_netmap_unlock st = unlock st"

section \<open>Without netmap\<close>

text \<open>The functions of \<open>src/include/peak_transfer.h\<close> that \<open>transfer_netmap\<close> refers to where there is no \<open>netmap(4)\<close>: nothing can be
  attached, received or sent.\<close>

definition peak_transfer_send :: "peak_transfer \<Rightarrow> string option \<Rightarrow> u32 \<Rightarrow> u32" where
  "peak_transfer_send x y z = 1"

definition peak_transfer_recv :: "peak_transfer \<Rightarrow> int \<Rightarrow> string option \<Rightarrow> u32 \<Rightarrow> peak_transfer option" where
  "peak_transfer_recv x y z a = None"

definition peak_transfer_forward :: "peak_transfer \<Rightarrow> u32" where
  "peak_transfer_forward x = 1"

definition peak_transfer_master :: "string option \<Rightarrow> u32" where
  "peak_transfer_master x = 1"

definition peak_transfer_slave :: "string option \<Rightarrow> u32" where
  "peak_transfer_slave x = 1"

definition peak_transfer_attach :: "string option \<Rightarrow> u32" where
  "peak_transfer_attach x = 1"

definition peak_transfer_detach :: "string option \<Rightarrow> u32" where
  "peak_transfer_detach x = 1"

section \<open>What netmap and the kernel promise\<close>

text \<open>\<open>net/netmap_user.h\<close>: the next index stays inside the ring and depends only on its number of slots, and the rings of an interface lie in its mapping.\<close>

definition api_ok :: "netmap_api \<Rightarrow> bool" where
  "api_ok api \<longleftrightarrow> (\<forall>ring i. i < num_slots ring \<longrightarrow> nm_ring_next api ring i < num_slots ring) \<and>
     (\<forall>ring ring' i. num_slots ring = num_slots ring' \<longrightarrow> nm_ring_next api ring i = nm_ring_next api ring' i) \<and>
     (\<forall>nifp i. mapping (NETMAP_RXRING api nifp i) = mapping nifp) \<and> (\<forall>nifp i. mapping (NETMAP_TXRING api nifp i) = mapping nifp) \<and>
     (\<forall>mem ofs. mapping (NETMAP_IF api mem ofs) = mem)"

text \<open>A ring has its slots, its current index is one of them, and its buffers are not the two reserved ones.\<close>

definition ring_ok :: "netmap_ring \<Rightarrow> bool" where
  "ring_ok ring \<longleftrightarrow> length (ring_slot ring) = unat (num_slots ring) \<and> ring_cur ring < num_slots ring \<and>
     (\<forall>s \<in> set (ring_slot ring). 2 \<le> buf_idx s)"

definition rings_ok :: "ring_store \<Rightarrow> bool" where
  "rings_ok rs \<longleftrightarrow> finite (dom rs) \<and> (\<forall>ring \<in> ran rs. ring_ok ring)"

text \<open>A synchronisation changes the contents of rings, but adds and removes none and leaves the user's index alone.\<close>

definition sync_ok :: "ring_store \<Rightarrow> ring_store \<Rightarrow> bool" where
  "sync_ok rs rs' \<longleftrightarrow> rings_ok rs' \<and> (\<forall>r. map_option ring_cur (rs' r) = map_option ring_cur (rs r))"

text \<open>The rings of a device that \<open>peak_netmap_dev\<close> describes.\<close>

definition dev_rings :: "netmap_api \<Rightarrow> map_ptr \<Rightarrow> u32 \<Rightarrow> map_ptr set" where
  "dev_rings api nifp n = NETMAP_RXRING api nifp ` {..n} \<union> NETMAP_TXRING api nifp ` {..n}"

section \<open>The invariant\<close>

definition dev_ok :: "netmap_api \<Rightarrow> ring_store \<Rightarrow> peak_netmap_dev \<Rightarrow> bool" where
  "dev_ok api rs dev \<longleftrightarrow> dev_mem dev \<noteq> 0 \<and> mapping (dev_nifp dev) = dev_mem dev \<and> dev_begin dev = 0 \<and>
     dev_rings api (dev_nifp dev) (dev_end dev) \<subseteq> dom rs"

definition devs :: "netmap_state \<Rightarrow> peak_netmap_dev list" where
  "devs st = take (unat (nm_count (nm_self st))) (nm_dev (nm_self st))"

text \<open>Two devices may only share a name if they are the two ends of a pipe.\<close>

definition names_ok :: "peak_netmap_dev list \<Rightarrow> bool" where
  "names_ok ds \<longleftrightarrow> distinct (map (\<lambda>dev. (dev_ifname dev, dev_type dev)) ds) \<and>
     (\<forall>x \<in> set ds. \<forall>y \<in> set ds. dev_ifname x = dev_ifname y \<longrightarrow> dev_type x = NR_REG_ALL_NIC \<longrightarrow> dev_type y = NR_REG_ALL_NIC)"

definition self_ok :: "peak_netmaps \<Rightarrow> bool" where
  "self_ok self \<longleftrightarrow> length (nm_dev self) = NETMAP_MAX \<and> length (nm_fd self) = NETMAP_MAX \<and> nm_count self \<le> of_nat NETMAP_MAX \<and>
     nm_last self < of_nat NETMAP_MAX \<and> map poll_fd (take (unat (nm_count self)) (nm_fd self)) = map dev_fd (take (unat (nm_count self)) (nm_dev self))"

definition priv_ok :: "netmap_state \<Rightarrow> bool" where
  "priv_ok st \<longleftrightarrow> (if priv_used (netmap_priv st)
     then \<exists>r ring. priv_ring (netmap_priv st) = Some r \<and> rings st r = Some ring \<and> priv_i (netmap_priv st) = ring_cur ring
     else netmap_priv st = priv_zero)"

definition netmap_inv :: "netmap_api \<Rightarrow> int list \<Rightarrow> netmap_state \<Rightarrow> bool" where
  "netmap_inv api fds st \<longleftrightarrow> self_ok (nm_self st) \<and> rings_ok (rings st) \<and> priv_ok st \<and>
     (\<forall>dev \<in> set (devs st). dev_ok api (rings st) dev) \<and> distinct (map dev_mem (devs st)) \<and> names_ok (devs st) \<and>
     mset (open_fds st) = mset (map dev_fd (devs st)) + mset fds"

section \<open>Receiving a packet\<close>

lemma rings_okD: "rings_ok rs \<Longrightarrow> rs r = Some ring \<Longrightarrow> ring_ok ring"
  by (auto simp: rings_ok_def ranI)

lemma rings_ok_update: "rings_ok rs \<Longrightarrow> ring_ok ring \<Longrightarrow> rings_ok (rs(r \<mapsto> ring))"
  by (auto simp: rings_ok_def ran_def split: if_splits)

lemma ring_recv_empty: "rings st r = Some ring \<Longrightarrow> dev_at st d = Some dev \<Longrightarrow> nm_ring_empty api ring \<Longrightarrow> ring_recv api d r rx st = Some (Return (None, st))"
  by (simp add: ring_recv_def)

text \<open>What a successful claim has done.\<close>

definition claimed :: "netmap_api \<Rightarrow> nat \<Rightarrow> map_ptr \<Rightarrow> netmap_state \<Rightarrow> peak_transfer \<Rightarrow> netmap_state \<Rightarrow> bool" where
  "claimed api d r st p st' \<longleftrightarrow> (\<exists>ring. rings st r = Some ring \<and> \<not> nm_ring_empty api ring \<and>
     st' = st\<lparr>netmap_priv := \<lparr>priv_ring = Some r, priv_used = True, priv_i = ring_cur ring\<rparr>, netmap_ts := pkt_ts p\<rparr> \<and>
     private_data p \<and> pkt_ifname p = Some d \<and> pkt_id p = buf_idx (ring_slot ring ! unat (ring_cur ring)) \<and>
     pkt_len p = ucast (slot_len (ring_slot ring ! unat (ring_cur ring))) \<and> pkt_buf p = Some (NETMAP_BUF api r (pkt_id p)) \<and>
     (pkt_ts p = ring_ts ring \<or> pkt_ts p = netmap_ts st) \<and>
     (tv_sec (netmap_ts st) \<le> tv_sec (pkt_ts p) \<or> 3 \<le> tv_sec (netmap_ts st) - tv_sec (pkt_ts p)))"

lemma ring_recv_claims:
  assumes "rings_ok (rings st)" "rings st r = Some ring" "dev_at st d = Some dev" "\<not> nm_ring_empty api ring"
  shows "\<exists>p st'. ring_recv api d r rx st = Some (Return (Some p, st')) \<and> claimed api d r st p st'"
proof -
  have ok: "ring_ok ring" using rings_okD assms by blast
  then have i: "unat (ring_cur ring) < length (ring_slot ring)" by (simp add: ring_ok_def word_less_nat_alt)
  then have "2 \<le> buf_idx (ring_slot ring ! unat (ring_cur ring))" using ok by (simp add: ring_ok_def)
  then have "\<not> buf_idx (ring_slot ring ! unat (ring_cur ring)) < 2" by simp
  with i assms show ?thesis by (simp add: ring_recv_def claimed_def Let_def)
qed

lemma recv_rings_append:
  "recv_rings api d nifp (xs @ ys) st = obind (recv_rings api d nifp xs st) (\<lambda>(packet, st).
     case packet of None \<Rightarrow> recv_rings api d nifp ys st | Some p \<Rightarrow> Some (Return (Some p, st)))"
proof (induction xs arbitrary: st)
  case (Cons rx xs)
  show ?case
    by (cases "ring_recv api d (NETMAP_RXRING api nifp rx) rx st") (auto simp: Cons.IH obind_def split: outcome.splits option.splits)
qed simp

text \<open>The rings a device is read from, in this order.\<close>

definition readable :: "peak_netmap_dev \<Rightarrow> u32 \<Rightarrow> u32 list" where
  "readable dev mode = (if dev_type dev = NR_REG_PIPE_MASTER then []
     else if (mode = NETMAP_DFLT \<or> mode = NETMAP_HOST) \<and> dev_type dev \<noteq> NR_REG_PIPE_SLAVE
     then host_rings dev @ (if mode = NETMAP_HOST then [] else wire_rings dev) else wire_rings dev)"

lemma obind_return: "obind m (\<lambda>(packet, st). case packet of Some p \<Rightarrow> Some (Return (Some p, st)) | None \<Rightarrow> Some (Return (None, st))) = m"
  by (auto simp: obind_def split: option.splits outcome.splits)

lemma dev_recv_readable: "dev_at st d = Some dev \<Longrightarrow> dev_recv api d mode st = recv_rings api d (dev_nifp dev) (readable dev mode) st"
  by (auto simp: dev_recv_def readable_def recv_rings_append intro!: arg_cong[where f = "obind _"] split: option.splits)

lemma wire_rings_le: "dev_begin dev = 0 \<Longrightarrow> rx \<in> set (wire_rings dev) \<Longrightarrow> rx \<le> dev_end dev"
  by (auto simp: wire_rings_def word_le_nat_alt unat_of_nat intro: order_trans[OF mod_less_eq_dividend] less_imp_le)

lemma readable_le: "dev_begin dev = 0 \<Longrightarrow> rx \<in> set (readable dev mode) \<Longrightarrow> rx \<le> dev_end dev"
  by (auto simp: readable_def host_rings_def wire_rings_le split: if_splits)

text \<open>A device has a packet if one of the rings it is read from is not empty.\<close>

definition waiting :: "netmap_api \<Rightarrow> ring_store \<Rightarrow> peak_netmap_dev \<Rightarrow> u32 \<Rightarrow> u32 list" where
  "waiting api rs dev mode = filter (\<lambda>rx. case rs (NETMAP_RXRING api (dev_nifp dev) rx) of None \<Rightarrow> False | Some ring \<Rightarrow> \<not> nm_ring_empty api ring) (readable dev mode)"

lemma recv_rings_claims:
  assumes ok: "rings_ok (rings st)" and d: "dev_at st d = Some dev" and sub: "\<forall>rx \<in> set rxs. NETMAP_RXRING api nifp rx \<in> dom (rings st)"
  shows "case filter (\<lambda>rx. case rings st (NETMAP_RXRING api nifp rx) of None \<Rightarrow> False | Some ring \<Rightarrow> \<not> nm_ring_empty api ring) rxs of
      [] \<Rightarrow> recv_rings api d nifp rxs st = Some (Return (None, st))
    | rx # _ \<Rightarrow> \<exists>p st'. recv_rings api d nifp rxs st = Some (Return (Some p, st')) \<and> claimed api d (NETMAP_RXRING api nifp rx) st p st'"
  using sub
proof (induction rxs)
  case (Cons rx rxs)
  then obtain ring where ring: "rings st (NETMAP_RXRING api nifp rx) = Some ring" by auto
  show ?case
  proof (cases "nm_ring_empty api ring")
    case True
    with Cons ring show ?thesis by (auto simp: ring_recv_empty[OF ring d True] split: list.splits)
  next
    case False
    with ring ring_recv_claims[OF ok ring d False, of rx] show ?thesis by auto
  qed
qed simp

lemma dev_recv_claims:
  assumes ok: "rings_ok (rings st)" and d: "dev_at st d = Some dev" and dev: "dev_ok api (rings st) dev"
  shows "case waiting api (rings st) dev mode of
      [] \<Rightarrow> dev_recv api d mode st = Some (Return (None, st))
    | rx # _ \<Rightarrow> \<exists>p st'. dev_recv api d mode st = Some (Return (Some p, st')) \<and> claimed api d (NETMAP_RXRING api (dev_nifp dev) rx) st p st'"
proof -
  have "\<forall>rx \<in> set (readable dev mode). NETMAP_RXRING api (dev_nifp dev) rx \<in> dom (rings st)"
    using dev readable_le[of dev] by (fastforce simp: dev_ok_def dev_rings_def)
  from recv_rings_claims[OF ok d this] show ?thesis unfolding dev_recv_readable[OF d] waiting_def .
qed

lemma dev_at_count: "self_ok (nm_self st) \<Longrightarrow> d < unat (nm_count (nm_self st)) \<Longrightarrow> dev_at st d = Some (devs st ! d) \<and> devs st ! d \<in> set (devs st)"
  using nth_mem[of d "devs st"] by (simp add: self_ok_def dev_at_def devs_def word_le_nat_alt)

lemma length_devs [simp]: "self_ok (nm_self st) \<Longrightarrow> length (devs st) = unat (nm_count (nm_self st))"
  by (simp add: self_ok_def devs_def word_le_nat_alt)

text \<open>The devices after \<open>j\<close> in turn.\<close>

definition turn :: "nat \<Rightarrow> nat \<Rightarrow> nat \<Rightarrow> nat list" where
  "turn m n j = map (\<lambda>k. (j + k) mod m) [1..<Suc n]"

lemma turn_Suc: "turn m (Suc n) j = (Suc j mod m) # turn m n (Suc j mod m)"
proof -
  have "map (\<lambda>k. (j + k) mod m) [2..<Suc (Suc n)] = map (\<lambda>k. (Suc j mod m + k) mod m) [1..<Suc n]"
    by (simp add: map_Suc_upt[symmetric] numeral_2_eq_2 mod_simps del: upt_Suc)
  then show ?thesis by (simp add: turn_def upt_conv_Cons numeral_2_eq_2 del: upt_Suc)
qed

lemma set_turn: "0 < n \<Longrightarrow> set (turn n n j) = {..<n}"
proof -
  assume c: "0 < n"
  have "d \<in> set (turn n n j)" if d: "d < n" for d
  proof -
    define k where "k = (d + n * (j + 1) - (j + 1)) mod n + 1"
    have "1 \<le> k" "k < Suc n" using c by (simp_all add: k_def)
    moreover have "(j + k) mod n = d"
    proof -
      have "j + 1 \<le> n * (j + 1)" using c mult_le_mono1[of 1 n "j + 1"] by simp
      then have "j + 1 + (d + n * (j + 1) - (j + 1)) = d + n * (j + 1)" by simp
      then have "(j + 1 + (d + n * (j + 1) - (j + 1))) mod n = d" using d by (simp only: mod_mult_self2 mod_less)
      moreover have "j + k = j + 1 + (d + n * (j + 1) - (j + 1)) mod n" by (simp add: k_def)
      ultimately show ?thesis by (simp only: mod_add_right_eq)
    qed
    ultimately show ?thesis unfolding turn_def by (force simp del: upt_Suc)
  qed
  then show ?thesis using c by (auto simp: turn_def)
qed

lemma next_device: "self_ok self \<Longrightarrow> 0 < unat (nm_count self) \<Longrightarrow> j < 64 \<Longrightarrow> unat ((j + 1) mod nm_count self) = Suc (unat j) mod unat (nm_count self)"
proof -
  assume "j < 64"
  then have "unat j < 64" by (simp add: word_less_nat_alt)
  then have "unat (j + 1) = unat j + 1" by (simp add: unat_word_ariths)
  then show ?thesis by (simp add: unat_mod_distrib)
qed

definition has_packet :: "netmap_api \<Rightarrow> u32 \<Rightarrow> netmap_state \<Rightarrow> nat \<Rightarrow> bool" where
  "has_packet api mode st d \<longleftrightarrow> waiting api (rings st) (devs st ! d) mode \<noteq> []"

lemma any_loop_claims:
  assumes self: "self_ok (nm_self st)" and ok: "rings_ok (rings st)" and devs: "\<forall>dev \<in> set (devs st). dev_ok api (rings st) dev"
    and "0 < unat (nm_count (nm_self st)) \<or> n = 0" "j < 64"
  shows "case filter (has_packet api mode st) (turn (unat (nm_count (nm_self st))) n (unat j)) of
      [] \<Rightarrow> any_loop api mode n j st = Some (Return (None, st))
    | d # _ \<Rightarrow> \<exists>p st' rx. any_loop api mode n j st = Some (Return (Some p, st'\<lparr>nm_self := (nm_self st')\<lparr>nm_last := of_nat d\<rparr>\<rparr>)) \<and>
        d < unat (nm_count (nm_self st)) \<and> rx \<in> set (waiting api (rings st) (devs st ! d) mode) \<and>
        claimed api d (NETMAP_RXRING api (dev_nifp (devs st ! d)) rx) st p st'"
  using assms(4-5)
proof (induction n arbitrary: j)
  case 0
  then show ?case by (simp add: turn_def)
next
  case (Suc n)
  let ?c = "unat (nm_count (nm_self st))"
  define k where "k = (j + 1) mod nm_count (nm_self st)"
  have pos: "0 < ?c" using Suc.prems by simp
  have kj: "unat k = Suc (unat j) mod ?c" using next_device[OF self pos] Suc.prems by (simp add: k_def)
  then have kc: "unat k < ?c" using pos by simp
  moreover have "?c \<le> 64" using self by (simp add: self_ok_def word_le_nat_alt)
  ultimately have k64: "k < 64" by (simp add: word_less_nat_alt)
  have d: "dev_at st (unat k) = Some (devs st ! unat k)" "dev_ok api (rings st) (devs st ! unat k)"
    using dev_at_count[OF self kc] devs by auto
  note recv = dev_recv_claims[OF ok d, of mode]
  show ?case
  proof (cases "waiting api (rings st) (devs st ! unat k) mode")
    case Nil
    with recv have loop: "any_loop api mode (Suc n) j st = any_loop api mode n k st" by (simp add: k_def[symmetric])
    have turn: "filter (has_packet api mode st) (turn ?c (Suc n) (unat j)) = filter (has_packet api mode st) (turn ?c n (unat k))"
      using Nil by (simp add: turn_Suc kj[symmetric] has_packet_def)
    show ?thesis unfolding loop turn using Suc.IH[of k] pos k64 by blast
  next
    case (Cons rx rxs)
    with recv obtain p st' where "dev_recv api (unat k) mode st = Some (Return (Some p, st'))"
      "claimed api (unat k) (NETMAP_RXRING api (dev_nifp (devs st ! unat k)) rx) st p st'" by auto
    with Cons kc show ?thesis by (auto simp: turn_Suc k_def[symmetric] kj[symmetric] has_packet_def)
  qed
qed

section \<open>Receiving keeps the invariant\<close>

definition poll_ok :: "poll_call \<Rightarrow> bool" where
  "poll_ok poll \<longleftrightarrow> (\<forall>fds timeout rs ret fds' rs'. rings_ok rs \<longrightarrow> poll fds timeout rs = (ret, fds', rs') \<longrightarrow>
     map poll_fd fds' = map poll_fd fds \<and> sync_ok rs rs')"

lemma sync_ok_dom: "sync_ok rs rs' \<Longrightarrow> dom rs' = dom rs"
  unfolding sync_ok_def dom_def by (metis option.map_disc_iff)

lemma netmap_inv_sync:
  assumes inv: "netmap_inv api fds st" and sync: "sync_ok (rings st) rs"
  shows "netmap_inv api fds (st\<lparr>rings := rs\<rparr>)"
proof -
  have "priv_ok (st\<lparr>rings := rs\<rparr>)"
  proof (cases "priv_used (netmap_priv st)")
    case True
    with inv obtain r ring where r: "priv_ring (netmap_priv st) = Some r" "rings st r = Some ring" "priv_i (netmap_priv st) = ring_cur ring"
      by (auto simp: netmap_inv_def priv_ok_def)
    have "map_option ring_cur (rs r) = map_option ring_cur (rings st r)" using sync by (simp add: sync_ok_def)
    with r obtain ring' where "rs r = Some ring'" "ring_cur ring' = ring_cur ring" by (auto simp: map_option_eq_Some)
    with r True show ?thesis by (simp add: priv_ok_def)
  qed (use inv in \<open>simp add: netmap_inv_def priv_ok_def\<close>)
  with inv sync sync_ok_dom[OF sync] show ?thesis by (simp add: netmap_inv_def dev_ok_def devs_def sync_ok_def)
qed

lemma priv_ok_self [simp]: "priv_ok (st\<lparr>nm_self := self\<rparr>) = priv_ok st"
  by (simp add: priv_ok_def)

lemma netmap_inv_self:
  assumes "netmap_inv api fds st" "self_ok self" "nm_count self = nm_count (nm_self st)" "nm_dev self = nm_dev (nm_self st)"
  shows "netmap_inv api fds (st\<lparr>nm_self := self\<rparr>)"
  using assms by (simp add: netmap_inv_def devs_def)

lemma claimed_inv: "netmap_inv api fds st \<Longrightarrow> claimed api d r st p st' \<Longrightarrow> netmap_inv api fds st'"
  by (auto simp: netmap_inv_def claimed_def priv_ok_def devs_def)

definition recv_ok :: "netmap_api \<Rightarrow> int list \<Rightarrow> netmap_state \<Rightarrow> (peak_transfer option \<times> netmap_state) outcome option \<Rightarrow> bool" where
  "recv_ok api fds st res \<longleftrightarrow> (\<exists>q st'. res = Some (Return (q, st')) \<and> netmap_inv api fds st' \<and> nm_count (nm_self st') = nm_count (nm_self st) \<and>
     (case q of None \<Rightarrow> netmap_priv st' = netmap_priv st | Some p \<Rightarrow> private_data p \<and> priv_used (netmap_priv st')))"

lemma netmap_invD:
  assumes "netmap_inv api fds st"
  shows "self_ok (nm_self st)" "rings_ok (rings st)" "\<forall>dev \<in> set (devs st). dev_ok api (rings st) dev"
  using assms by (simp_all add: netmap_inv_def)

lemma dev_recv_ok:
  assumes inv: "netmap_inv api fds st" and d: "d < unat (nm_count (nm_self st))"
  shows "recv_ok api fds st (dev_recv api d mode st)"
proof -
  note at = dev_at_count[OF netmap_invD(1)[OF inv] d]
  then have "dev_ok api (rings st) (devs st ! d)" using netmap_invD(3)[OF inv] by blast
  note recv = dev_recv_claims[OF netmap_invD(2)[OF inv] conjunct1[OF at] this, of mode]
  show ?thesis
  proof (cases "waiting api (rings st) (devs st ! d) mode")
    case Nil
    with recv inv show ?thesis by (simp add: recv_ok_def)
  next
    case (Cons rx rxs)
    with recv obtain p st' r where "dev_recv api d mode st = Some (Return (Some p, st'))" and c: "claimed api d r st p st'" by auto
    moreover from c have "nm_self st' = nm_self st" "private_data p" "priv_used (netmap_priv st')" by (auto simp: claimed_def)
    ultimately show ?thesis using claimed_inv[OF inv c] by (simp add: recv_ok_def)
  qed
qed

lemma any_recv_claims:
  assumes inv: "netmap_inv api fds st"
  shows "case filter (has_packet api mode st) (turn (unat (nm_count (nm_self st))) (unat (nm_count (nm_self st))) (unat (nm_last (nm_self st)))) of
      [] \<Rightarrow> any_recv api mode st = Some (Return (None, st))
    | d # _ \<Rightarrow> \<exists>p st' rx. any_recv api mode st = Some (Return (Some p, st'\<lparr>nm_self := (nm_self st')\<lparr>nm_last := of_nat d\<rparr>\<rparr>)) \<and>
        d < unat (nm_count (nm_self st)) \<and> rx \<in> set (waiting api (rings st) (devs st ! d) mode) \<and>
        claimed api d (NETMAP_RXRING api (dev_nifp (devs st ! d)) rx) st p st'"
  unfolding any_recv_def
  by (rule any_loop_claims) (use netmap_invD[OF inv] in \<open>auto simp: self_ok_def\<close>)

lemma netmap_inv_last: "netmap_inv api fds st \<Longrightarrow> d < unat (nm_count (nm_self st)) \<Longrightarrow> netmap_inv api fds (st\<lparr>nm_self := (nm_self st)\<lparr>nm_last := of_nat d\<rparr>\<rparr>)"
  by (rule netmap_inv_self) (auto dest!: netmap_invD(1) simp: self_ok_def word_le_nat_alt word_less_nat_alt unat_of_nat)

lemma any_recv_ok:
  assumes inv: "netmap_inv api fds st"
  shows "recv_ok api fds st (any_recv api mode st)"
proof -
  let ?ds = "filter (has_packet api mode st) (turn (unat (nm_count (nm_self st))) (unat (nm_count (nm_self st))) (unat (nm_last (nm_self st))))"
  show ?thesis
  proof (cases ?ds)
    case Nil
    with any_recv_claims[OF inv, of mode] inv show ?thesis by (simp add: recv_ok_def)
  next
    case (Cons d ds)
    with any_recv_claims[OF inv, of mode] obtain p st' r where
      any: "any_recv api mode st = Some (Return (Some p, st'\<lparr>nm_self := (nm_self st')\<lparr>nm_last := of_nat d\<rparr>\<rparr>))"
      and d: "d < unat (nm_count (nm_self st))" and c: "claimed api d r st p st'" by auto
    from c have "nm_self st' = nm_self st" "private_data p" "priv_used (netmap_priv st')" by (auto simp: claimed_def)
    with any d claimed_inv[OF inv c] netmap_inv_last[of api fds st' d] show ?thesis by (simp add: recv_ok_def)
  qed
qed

lemma poll_range_ok:
  assumes inv: "netmap_inv api fds st" and poll: "poll_ok poll" and i: "i + n \<le> NETMAP_MAX"
  shows "\<exists>ret st'. poll_range poll i n timeout st = Some (ret, st') \<and> netmap_inv api fds st' \<and>
    nm_count (nm_self st') = nm_count (nm_self st) \<and> netmap_priv st' = netmap_priv st"
proof -
  let ?xs = "nm_fd (nm_self st)"
  obtain ret fs rs where p: "poll (map poll_prepare (take n (drop i ?xs))) timeout (rings st) = (ret, fs, rs)" by (metis prod_cases3)
  then have fs: "map poll_fd fs = map poll_fd (take n (drop i ?xs))" and sync: "sync_ok (rings st) rs"
    using poll netmap_invD(2)[OF inv] by (fastforce simp: poll_ok_def poll_prepare_def)+
  note self = netmap_invD(1)[OF inv]
  let ?fd = "take i ?xs @ fs @ drop (i + length fs) ?xs"
  have len: "length fs = n" using arg_cong[OF fs, of length] i self by (simp add: self_ok_def)
  have same: "map poll_fd ?fd = map poll_fd ?xs"
  proof -
    have "map poll_fd ?fd = map poll_fd (take i ?xs @ take n (drop i ?xs) @ drop n (drop i ?xs))" by (simp add: fs len add.commute)
    then show ?thesis by (simp only: append_take_drop_id)
  qed
  then have "length ?fd = length ?xs" by (metis length_map)
  moreover have "map poll_fd (take k ?fd) = map poll_fd (take k ?xs)" for k using same by (metis take_map)
  ultimately have "self_ok ((nm_self st)\<lparr>nm_fd := ?fd\<rparr>)" using self by (simp add: self_ok_def)
  from netmap_inv_self[OF netmap_inv_sync[OF inv sync] this] i self p show ?thesis
    by (simp add: poll_range_def set_fds_def self_ok_def)
qed

lemma recv_ok_trans: "recv_ok api fds st' res \<Longrightarrow> netmap_priv st' = netmap_priv st \<Longrightarrow> nm_count (nm_self st') = nm_count (nm_self st) \<Longrightarrow> recv_ok api fds st res"
  by (auto simp: recv_ok_def split: option.splits)

lemma recv_ok_then:
  assumes "recv_ok api fds st m"
    and "\<And>st'. netmap_inv api fds st' \<Longrightarrow> nm_count (nm_self st') = nm_count (nm_self st) \<Longrightarrow> netmap_priv st' = netmap_priv st \<Longrightarrow> recv_ok api fds st (f st')"
  shows "recv_ok api fds st (obind m (\<lambda>(packet, st). case packet of Some p \<Rightarrow> Some (Return (Some p, st)) | None \<Rightarrow> f st))"
proof -
  from assms(1) obtain q st' where m: "m = Some (Return (q, st'))" "netmap_inv api fds st'" "nm_count (nm_self st') = nm_count (nm_self st)"
    "case q of None \<Rightarrow> netmap_priv st' = netmap_priv st | Some p \<Rightarrow> private_data p \<and> priv_used (netmap_priv st')" by (auto simp: recv_ok_def)
  then show ?thesis using assms(2)[of st'] by (cases q) (auto simp: recv_ok_def)
qed

lemma first_ready_bound: "first_ready xs i = Some k \<Longrightarrow> i \<le> k \<and> k < i + length xs"
  by (induction xs i rule: first_ready.induct) (auto split: if_splits)

lemma poll_then_ok:
  assumes "netmap_inv api fds st" "poll_ok poll" "i + n \<le> NETMAP_MAX"
    and "\<And>ret st'. netmap_inv api fds st' \<Longrightarrow> nm_count (nm_self st') = nm_count (nm_self st) \<Longrightarrow> netmap_priv st' = netmap_priv st \<Longrightarrow> recv_ok api fds st (f ret st')"
  shows "recv_ok api fds st (poll_range poll i n timeout st \<bind> (\<lambda>(ret, st'). f ret st'))"
  using poll_range_ok[OF assms(1-3), of timeout] assms(4) by auto

lemma recv_ok_None: "netmap_inv api fds st' \<Longrightarrow> nm_count (nm_self st') = nm_count (nm_self st) \<Longrightarrow> netmap_priv st' = netmap_priv st \<Longrightarrow> recv_ok api fds st (Some (Return (None, st')))"
  by (simp add: recv_ok_def)

lemma recv_named_ok:
  assumes inv: "netmap_inv api fds st" and poll: "poll_ok poll" and i: "i < unat (nm_count (nm_self st))"
  shows "recv_ok api fds st (obind (dev_recv api i mode st) (\<lambda>(packet, st).
    case packet of Some p \<Rightarrow> Some (Return (Some p, st))
    | None \<Rightarrow> do {
        (ret, st) \<leftarrow> poll_range poll i 1 timeout st;
        if ret \<le> 0 then Some (Return (None, st))
        else if poll_rin (nm_fd (nm_self st) ! i) then dev_recv api i mode st
        else Some (Return (None, st)) }))"
proof (rule recv_ok_then[OF dev_recv_ok[OF inv i]], goal_cases)
  case (1 st1)
  have "i + 1 \<le> NETMAP_MAX" using i netmap_invD(1)[OF inv] by (simp add: self_ok_def word_le_nat_alt)
  from poll_then_ok[OF 1(1) poll this] show ?case
  proof (rule recv_ok_trans, goal_cases)
    case (1 ret st2)
    with i \<open>nm_count (nm_self st1) = _\<close> recv_ok_trans[OF dev_recv_ok[OF 1(1), of i mode], of st1] show ?case by (simp add: recv_ok_None)
  qed (use 1 in simp_all)
qed

lemma find_loop_ge: "i \<le> find_loop self name ignore i n \<and> find_loop self name ignore i n \<le> i + n"
  by (induction self name ignore i n rule: find_loop.induct) auto

lemma peak_netmap_recv_ok:
  assumes inv: "netmap_inv api fds st" and poll: "poll_ok poll"
  shows "recv_ok api fds st (peak_netmap_recv api poll timeout ifname mode st)"
proof (cases "priv_used (netmap_priv st)")
  case True
  with inv show ?thesis by (simp add: peak_netmap_recv_def recv_ok_None)
next
  case False
  let ?c = "unat (nm_count (nm_self st))"
  show ?thesis
  proof (cases ifname)
    case (Some name)
    let ?i = "peak_netmap_find (nm_self st) ifname NR_REG_PIPE_MASTER"
    show ?thesis
    proof (cases "?c \<le> ?i")
      case True
      with False inv Some show ?thesis by (simp add: peak_netmap_recv_def recv_ok_None)
    next
      case i: False
      from recv_named_ok[OF inv poll, of ?i mode timeout] i False show ?thesis
        unfolding Some by (simp add: peak_netmap_recv_def Let_def)
    qed
  next
    case None
    have "recv_ok api fds st (obind (any_recv api mode st) (\<lambda>(packet, st).
      case packet of Some p \<Rightarrow> Some (Return (Some p, st))
      | None \<Rightarrow> do {
          (ret, st) \<leftarrow> poll_range poll 0 ?c timeout st;
          if ret \<le> 0 then Some (Return (None, st))
          else case first_ready (take ?c (nm_fd (nm_self st))) 0 of
            None \<Rightarrow> Some (Return (None, st))
          | Some i \<Rightarrow> dev_recv api i mode (st\<lparr>nm_self := (nm_self st)\<lparr>nm_last := of_nat i\<rparr>\<rparr>) }))"
    proof (rule recv_ok_then[OF any_recv_ok[OF inv]], goal_cases)
      case (1 st1)
      have "0 + ?c \<le> NETMAP_MAX" using netmap_invD(1)[OF inv] by (simp add: self_ok_def word_le_nat_alt)
      from poll_then_ok[OF 1(1) poll this] show ?case
      proof (rule recv_ok_trans, goal_cases)
        case (1 ret st2)
        show ?case
        proof (cases "first_ready (take ?c (nm_fd (nm_self st2))) 0")
          case (Some i)
          let ?st = "st2\<lparr>nm_self := (nm_self st2)\<lparr>nm_last := of_nat i\<rparr>\<rparr>"
          have "i < unat (nm_count (nm_self st2))"
            using first_ready_bound[OF Some] 1 \<open>nm_count (nm_self st1) = _\<close> by simp
          from dev_recv_ok[OF netmap_inv_last[OF 1(1) this], of i mode] this Some 1 show ?thesis
            by (auto intro: recv_ok_None recv_ok_trans)
        qed (use 1 in \<open>simp add: recv_ok_None\<close>)
      qed (use 1 in simp_all)
    qed
    with False None show ?thesis by (simp add: peak_netmap_recv_def Let_def)
  qed
qed

section \<open>Slots and buffers\<close>

text \<open>All buffers that the slots of the rings refer to.\<close>

definition ring_bufs :: "netmap_ring \<Rightarrow> u32 multiset" where
  "ring_bufs ring = mset (map buf_idx (ring_slot ring))"

definition buffers :: "ring_store \<Rightarrow> u32 multiset" where
  "buffers rs = (\<Sum>r \<in> dom rs. ring_bufs (the (rs r)))"

lemma buffers_update:
  assumes "finite (dom rs)" "rs r = Some ring"
  shows "buffers (rs(r \<mapsto> ring')) + ring_bufs ring = buffers rs + ring_bufs ring'"
proof -
  have r: "r \<in> dom rs" using assms by auto
  have "buffers rs = ring_bufs ring + (\<Sum>q \<in> dom rs - {r}. ring_bufs (the (rs q)))"
    using assms r by (simp add: buffers_def sum.remove[OF assms(1) r])
  moreover have "buffers (rs(r \<mapsto> ring')) = ring_bufs ring' + (\<Sum>q \<in> dom rs - {r}. ring_bufs (the (rs q)))"
    using assms r by (simp add: buffers_def insert_absorb[OF r] sum.remove[OF assms(1) r])
  ultimately show ?thesis by (simp add: union_ac)
qed

lemma ring_bufs_slot:
  assumes "i < length (ring_slot ring)"
  shows "ring_bufs (ring\<lparr>ring_slot := (ring_slot ring)[i := s]\<rparr>) + {#buf_idx (ring_slot ring ! i)#} = ring_bufs ring + {#buf_idx s#}"
  using assms by (simp add: ring_bufs_def map_update mset_update)

lemma mset_exchange: "A + R = B + R' \<Longrightarrow> R' + S = R + T \<Longrightarrow> A + S = B + (T :: 'a multiset)"
proof -
  assume "A + R = B + R'" "R' + S = R + T"
  then have "(A + R) + (R' + S) = (B + R') + (R + T)" by simp
  then have "(A + S) + (R + R') = (B + T) + (R + R')" by (simp only: ac_simps)
  then show ?thesis by simp
qed

lemma api_next: "api_ok api \<Longrightarrow> i < num_slots ring \<Longrightarrow> nm_ring_next api ring i < num_slots ring"
  unfolding api_ok_def by blast

lemma api_next_slots: "api_ok api \<Longrightarrow> num_slots ring = num_slots ring' \<Longrightarrow> nm_ring_next api ring i = nm_ring_next api ring' i"
  unfolding api_ok_def by blast

lemma slot_at_update:
  "slot_at q j (rs(r \<mapsto> ring)) = (if q = r then if unat j < length (ring_slot ring) then Some (ring_slot ring ! unat j) else None else slot_at q j rs)"
  by (simp add: slot_at_def)

lemma slot_at_ring: "rs r = Some ring \<Longrightarrow> slot_at r j rs = (if unat j < length (ring_slot ring) then Some (ring_slot ring ! unat j) else None)"
  by (simp add: slot_at_def)

lemma slot_update_ok:
  assumes ok: "rings_ok rs" and s: "slot_at r i rs = Some s" and f: "2 \<le> buf_idx (f s)"
  shows "\<exists>rs'. slot_update r i f rs = Some rs' \<and> sync_ok rs rs' \<and> buffers rs' + {#buf_idx s#} = buffers rs + {#buf_idx (f s)#} \<and>
    slot_at r i rs' = Some (f s) \<and> (\<forall>q j. (q, j) \<noteq> (r, i) \<longrightarrow> slot_at q j rs' = slot_at q j rs) \<and>
    (\<forall>q. map_option num_slots (rs' q) = map_option num_slots (rs q))"
proof -
  from s obtain ring where ring: "rs r = Some ring" and i: "unat i < length (ring_slot ring)" and si: "s = ring_slot ring ! unat i"
    by (auto simp: slot_at_def split: Option.bind_splits if_splits)
  let ?ring = "ring\<lparr>ring_slot := (ring_slot ring)[unat i := f s]\<rparr>"
  have rok: "ring_ok ring" using rings_okD[OF ok ring] .
  have "ring_ok ?ring" using rok f by (auto simp: ring_ok_def dest!: subsetD[OF set_update_subset_insert])
  from rings_ok_update[OF ok this] have "sync_ok rs (rs(r \<mapsto> ?ring))" by (auto simp: sync_ok_def ring)
  moreover have "buffers (rs(r \<mapsto> ?ring)) + {#buf_idx s#} = buffers rs + {#buf_idx (f s)#}"
  proof -
    have "finite (dom rs)" using ok by (simp add: rings_ok_def)
    from buffers_update[OF this ring, of ?ring] ring_bufs_slot[OF i, of "f s"] show ?thesis
      unfolding si by (rule mset_exchange)
  qed
  moreover have "slot_at q j (rs(r \<mapsto> ?ring)) = slot_at q j rs" if "(q, j) \<noteq> (r, i)" for q j
    using that by (auto simp: slot_at_update slot_at_ring[of rs r, OF ring] nth_list_update word_unat_eq_iff)
  moreover have "slot_update r i f rs = Some (rs(r \<mapsto> ?ring))" unfolding slot_update_def using ring i si by simp
  moreover have "slot_at r i (rs(r \<mapsto> ?ring)) = Some (f s)" using i by (simp add: slot_at_update)
  moreover have "map_option num_slots ((rs(r \<mapsto> ?ring)) q) = map_option num_slots (rs q)" for q using ring by simp
  ultimately show ?thesis by blast
qed

lemma ring_advance_ok:
  assumes api: "api_ok api" and ok: "rings_ok rs" and r: "rs r = Some ring"
  shows "\<exists>rs'. ring_advance api r rs = Some rs' \<and> rings_ok rs' \<and> dom rs' = dom rs \<and> buffers rs' = buffers rs \<and>
    (\<forall>q j. slot_at q j rs' = slot_at q j rs) \<and> map_option ring_cur (rs' r) = Some (nm_ring_next api ring (ring_cur ring)) \<and>
    (\<forall>q. q \<noteq> r \<longrightarrow> rs' q = rs q) \<and> (\<forall>q. map_option num_slots (rs' q) = map_option num_slots (rs q))"
proof -
  let ?i = "nm_ring_next api ring (ring_cur ring)"
  let ?ring = "ring\<lparr>ring_cur := ?i, ring_head := ?i\<rparr>"
  have "ring_ok ?ring" using rings_okD[OF ok r] api_next[OF api] by (simp add: ring_ok_def)
  from rings_ok_update[OF ok this] have "rings_ok (rs(r \<mapsto> ?ring))" .
  moreover have "buffers (rs(r \<mapsto> ?ring)) = buffers rs"
    using buffers_update[of rs r ring ?ring] ok r by (simp add: rings_ok_def ring_bufs_def)
  moreover have "dom (rs(r \<mapsto> ?ring)) = dom rs" using r by auto
  moreover have "ring_advance api r rs = Some (rs(r \<mapsto> ?ring))" unfolding ring_advance_def using r by (simp add: Let_def)
  moreover have "slot_at q j (rs(r \<mapsto> ?ring)) = slot_at q j rs" for q j
    using slot_at_ring[of rs r, OF r] by (simp add: slot_at_update)
  moreover have "map_option num_slots ((rs(r \<mapsto> ?ring)) q) = map_option num_slots (rs q)" for q using r by simp
  moreover have "map_option ring_cur ((rs(r \<mapsto> ?ring)) r) = Some ?i" "\<And>q. q \<noteq> r \<Longrightarrow> (rs(r \<mapsto> ?ring)) q = rs q" by simp_all
  ultimately show ?thesis by blast
qed

section \<open>Sending without a copy\<close>

lemma sync_ok_cur: "sync_ok rs rs' \<Longrightarrow> rs r = Some ring \<Longrightarrow> \<exists>ring'. rs' r = Some ring' \<and> ring_cur ring' = ring_cur ring"
  unfolding sync_ok_def by (metis map_option_eq_Some option.simps(9))

text \<open>After a successful \<open>_peak_netmap_send\<close>: the buffer of the received slot and its length are in the slot to transmit, no
  buffer was lost or duplicated, and both rings have moved on.\<close>

definition zero_copy :: "netmap_api \<Rightarrow> map_ptr \<Rightarrow> u32 \<Rightarrow> map_ptr \<Rightarrow> ring_store \<Rightarrow> ring_store \<Rightarrow> bool" where
  "zero_copy api c i t rs rs' \<longleftrightarrow> rings_ok rs' \<and> dom rs' = dom rs \<and> buffers rs' = buffers rs \<and>
     (\<exists>source ring rslot s. rs c = Some source \<and> rs t = Some ring \<and> slot_at c i rs = Some rslot \<and>
        slot_at t (ring_cur ring) rs' = Some s \<and> buf_idx s = buf_idx rslot \<and> slot_len s = slot_len rslot \<and> ns_buf_changed s \<and>
        map_option ns_forward (slot_at c i rs') = Some False \<and>
        (c \<noteq> t \<longrightarrow> map_option ring_cur (rs' c) = Some (nm_ring_next api source (ring_cur source)) \<and>
                  map_option ring_cur (rs' t) = Some (nm_ring_next api ring (ring_cur ring))) \<and>
        (\<forall>q. q \<noteq> c \<longrightarrow> q \<noteq> t \<longrightarrow> map_option ring_cur (rs' q) = map_option ring_cur (rs q)))"

lemma ring_send_full:
  assumes "private_data packet" "rings st t = Some ring" "nm_ring_empty api ring"
  shows "ring_send api t packet st = Some (1, packet, st)"
  using assms by (simp add: ring_send_def)

lemma slot_at_cur: "rings_ok rs \<Longrightarrow> rs r = Some ring \<Longrightarrow> \<exists>s. slot_at r (ring_cur ring) rs = Some s \<and> 2 \<le> buf_idx s"
  using rings_okD[of rs r ring] by (auto simp: slot_at_def ring_ok_def word_less_nat_alt)

lemma slots_swap:
  assumes ok: "rings_ok rs" and r: "slot_at c i rs = Some rslot" "2 \<le> buf_idx rslot" and t: "slot_at t j rs = Some tslot" "2 \<le> buf_idx tslot"
  shows "\<exists>rs1 rs2 s. slot_update t j (\<lambda>s. s\<lparr>buf_idx := buf_idx rslot, slot_len := slot_len rslot, ns_buf_changed := True\<rparr>) rs = Some rs1 \<and>
    slot_update c i (\<lambda>s. s\<lparr>buf_idx := buf_idx tslot, ns_buf_changed := True, ns_forward := False\<rparr>) rs1 = Some rs2 \<and>
    sync_ok rs rs2 \<and> buffers rs2 = buffers rs \<and> slot_at t j rs2 = Some s \<and> buf_idx s = buf_idx rslot \<and> slot_len s = slot_len rslot \<and> ns_buf_changed s \<and>
    map_option ns_forward (slot_at c i rs2) = Some False \<and> (\<forall>q. map_option num_slots (rs2 q) = map_option num_slots (rs q))"
proof -
  let ?f = "\<lambda>s. s\<lparr>buf_idx := buf_idx rslot, slot_len := slot_len rslot, ns_buf_changed := True\<rparr>"
  let ?g = "\<lambda>s. s\<lparr>buf_idx := buf_idx tslot, ns_buf_changed := True, ns_forward := False\<rparr>"
  from slot_update_ok[OF ok t(1), of ?f] r obtain rs1 where u1: "slot_update t j ?f rs = Some rs1" "sync_ok rs rs1"
    "buffers rs1 + {#buf_idx tslot#} = buffers rs + {#buf_idx rslot#}" "slot_at t j rs1 = Some (?f tslot)"
    "\<And>q k. (q, k) \<noteq> (t, j) \<Longrightarrow> slot_at q k rs1 = slot_at q k rs" "\<And>q. map_option num_slots (rs1 q) = map_option num_slots (rs q)" by auto
  obtain rslot1 where r1: "slot_at c i rs1 = Some rslot1" "buf_idx rslot1 = buf_idx rslot" "slot_len rslot1 = slot_len rslot"
    using u1(4,5) r by (cases "(c, i) = (t, j)") auto
  have ok1: "rings_ok rs1" using u1(2) by (simp add: sync_ok_def)
  from slot_update_ok[OF ok1 r1(1), of ?g] t obtain rs2 where u2: "slot_update c i ?g rs1 = Some rs2" "sync_ok rs1 rs2"
    "buffers rs2 + {#buf_idx rslot#} = buffers rs1 + {#buf_idx tslot#}" "slot_at c i rs2 = Some (?g rslot1)"
    "\<And>q k. (q, k) \<noteq> (c, i) \<Longrightarrow> slot_at q k rs2 = slot_at q k rs1" "\<And>q. map_option num_slots (rs2 q) = map_option num_slots (rs1 q)"
    by (auto simp: r1(2))
  have "buffers rs2 = buffers rs" using u1(3) u2(3) by (metis add_right_cancel)
  moreover have "sync_ok rs rs2" using u1(2) u2(2) by (simp add: sync_ok_def)
  moreover have "\<exists>s. slot_at t j rs2 = Some s \<and> buf_idx s = buf_idx rslot \<and> slot_len s = slot_len rslot \<and> ns_buf_changed s"
  proof (cases "(t, j) = (c, i)")
    case True
    with t r have "tslot = rslot" by simp
    with True u2(4) r1 show ?thesis by simp
  next
    case False
    with u2(5) u1(4) show ?thesis by auto
  qed
  ultimately show ?thesis using u1(1,6) u2(1,4,6) by auto
qed

lemma advance_both:
  assumes api: "api_ok api" and ok: "rings_ok rs" and c: "rs c = Some source" and t: "rs t = Some ring"
  shows "\<exists>rs1 rs2. ring_advance api c rs = Some rs1 \<and> ring_advance api t rs1 = Some rs2 \<and> rings_ok rs2 \<and> dom rs2 = dom rs \<and>
    buffers rs2 = buffers rs \<and> (\<forall>q j. slot_at q j rs2 = slot_at q j rs) \<and>
    (c \<noteq> t \<longrightarrow> map_option ring_cur (rs2 c) = Some (nm_ring_next api source (ring_cur source)) \<and>
              map_option ring_cur (rs2 t) = Some (nm_ring_next api ring (ring_cur ring))) \<and>
    (\<forall>q. q \<noteq> c \<longrightarrow> q \<noteq> t \<longrightarrow> rs2 q = rs q)"
proof -
  from ring_advance_ok[OF api ok c] obtain rs1 where a: "ring_advance api c rs = Some rs1" "rings_ok rs1" "dom rs1 = dom rs"
    "buffers rs1 = buffers rs" "\<And>q j. slot_at q j rs1 = slot_at q j rs" "map_option ring_cur (rs1 c) = Some (nm_ring_next api source (ring_cur source))"
    "\<And>q. q \<noteq> c \<Longrightarrow> rs1 q = rs q" by blast
  from a(3) t obtain ring1 where t1: "rs1 t = Some ring1" by blast
  from ring_advance_ok[OF api a(2) t1] obtain rs2 where b: "ring_advance api t rs1 = Some rs2" "rings_ok rs2" "dom rs2 = dom rs1"
    "buffers rs2 = buffers rs1" "\<And>q j. slot_at q j rs2 = slot_at q j rs1" "map_option ring_cur (rs2 t) = Some (nm_ring_next api ring1 (ring_cur ring1))"
    "\<And>q. q \<noteq> t \<Longrightarrow> rs2 q = rs1 q" by blast
  have "c \<noteq> t \<Longrightarrow> ring1 = ring" using a(7)[of t] t t1 by simp
  with a b show ?thesis by auto
qed

lemma ring_send_swap:
  assumes api: "api_ok api" and ok: "rings_ok (rings st)" and p: "private_data packet"
    and c: "priv_ring (netmap_priv st) = Some c" "rings st c = Some source" "priv_i (netmap_priv st) = ring_cur source"
    and t: "rings st t = Some ring" "\<not> nm_ring_empty api ring"
  shows "\<exists>rs. ring_send api t packet st = Some (0, transfer_zero, scrub rs st) \<and> zero_copy api c (ring_cur source) t (rings st) rs"
proof -
  let ?i = "ring_cur source" and ?j = "ring_cur ring"
  obtain rslot tslot where r: "slot_at c ?i (rings st) = Some rslot" "2 \<le> buf_idx rslot"
    and ts: "slot_at t ?j (rings st) = Some tslot" "2 \<le> buf_idx tslot" using slot_at_cur ok c(2) t(1) by blast
  from slots_swap[OF ok r ts] obtain rs1 rs2 s where u:
    "slot_update t ?j (\<lambda>s. s\<lparr>buf_idx := buf_idx rslot, slot_len := slot_len rslot, ns_buf_changed := True\<rparr>) (rings st) = Some rs1"
    "slot_update c ?i (\<lambda>s. s\<lparr>buf_idx := buf_idx tslot, ns_buf_changed := True, ns_forward := False\<rparr>) rs1 = Some rs2"
    and sync: "sync_ok (rings st) rs2" and bufs: "buffers rs2 = buffers (rings st)"
    and s: "slot_at t ?j rs2 = Some s" "buf_idx s = buf_idx rslot" "slot_len s = slot_len rslot" "ns_buf_changed s"
      "map_option ns_forward (slot_at c ?i rs2) = Some False"
    and num: "\<And>q. map_option num_slots (rs2 q) = map_option num_slots (rings st q)" by blast
  have cur: "map_option ring_cur (rs2 q) = map_option ring_cur (rings st q)" for q using sync by (simp add: sync_ok_def)
  from cur[of c] num[of c] c(2) obtain source2 where c2: "rs2 c = Some source2" "ring_cur source2 = ?i" "num_slots source2 = num_slots source" by auto
  from cur[of t] num[of t] t(1) obtain ring2 where t2: "rs2 t = Some ring2" "ring_cur ring2 = ?j" "num_slots ring2 = num_slots ring" by auto
  note nxt = api_next_slots[OF api c2(3)] api_next_slots[OF api t2(3)]
  have ok2: "rings_ok rs2" using sync by (simp add: sync_ok_def)
  from advance_both[OF api ok2 c2(1) t2(1)] obtain rs3 rs4 where a: "ring_advance api c rs2 = Some rs3" "ring_advance api t rs3 = Some rs4"
    "rings_ok rs4" "dom rs4 = dom rs2" "buffers rs4 = buffers rs2" "\<And>q j. slot_at q j rs4 = slot_at q j rs2"
    "c \<noteq> t \<Longrightarrow> map_option ring_cur (rs4 c) = Some (nm_ring_next api source ?i) \<and> map_option ring_cur (rs4 t) = Some (nm_ring_next api ring ?j)"
    "\<And>q. q \<noteq> c \<Longrightarrow> q \<noteq> t \<Longrightarrow> rs4 q = rs2 q" unfolding c2(2) t2(2) nxt by blast
  have "zero_copy api c ?i t (rings st) rs4"
    unfolding zero_copy_def using a s bufs sync_ok_dom[OF sync] c(2) t(1) r(1) cur by simp
  moreover have "ring_send api t packet st = Some (0, transfer_zero, scrub rs4 st)"
    using p c t r ts u a(1,2) by (simp add: ring_send_def)
  ultimately show ?thesis by blast
qed

lemma scrub_rings [simp]: "(scrub rs st)\<lparr>rings := rs'\<rparr> = scrub rs' st" "rings (scrub rs st) = rs"
  by (simp_all add: scrub_def)

lemma send_rings_swap:
  assumes api: "api_ok api" and ok: "rings_ok (rings st)" and p: "private_data packet"
    and c: "priv_ring (netmap_priv st) = Some c" "rings st c = Some source" "priv_i (netmap_priv st) = ring_cur source"
    and sub: "\<forall>tx \<in> set txs. NETMAP_TXRING api (dev_nifp dev) tx \<in> dom (rings st)"
  shows "case filter (\<lambda>tx. case rings st (NETMAP_TXRING api (dev_nifp dev) tx) of None \<Rightarrow> False | Some ring \<Rightarrow> \<not> nm_ring_empty api ring) txs of
      [] \<Rightarrow> send_rings api txsync dev txs packet st = Some (1, packet, st)
    | tx # _ \<Rightarrow> \<exists>rs. send_rings api txsync dev txs packet st = Some (0, transfer_zero, scrub (txsync (dev_fd dev) rs) st) \<and>
        zero_copy api c (ring_cur source) (NETMAP_TXRING api (dev_nifp dev) tx) (rings st) rs"
  using sub
proof (induction txs)
  case (Cons tx txs)
  then obtain ring where ring: "rings st (NETMAP_TXRING api (dev_nifp dev) tx) = Some ring" by auto
  show ?case
  proof (cases "nm_ring_empty api ring")
    case True
    with Cons ring show ?thesis by (auto simp: ring_send_full[OF p ring True] split: list.splits)
  next
    case False
    with ring ring_send_swap[OF api ok p c ring False] show ?thesis by auto
  qed
qed simp

lemma scrub_inv: "netmap_inv api fds st \<Longrightarrow> rings_ok rs \<Longrightarrow> dom rs = dom (rings st) \<Longrightarrow> netmap_inv api fds (scrub rs st)"
  by (simp add: netmap_inv_def scrub_def devs_def dev_ok_def priv_ok_def priv_zero_def)

lemma scrub_priv [simp]: "netmap_priv (scrub rs st) = priv_zero" "priv_used priv_zero = False" "private_data transfer_zero = False"
  by (simp_all add: scrub_def priv_zero_def transfer_zero_def)

lemma release_slot_ok:
  assumes api: "api_ok api" and inv: "netmap_inv api fds st" and p: "private_data packet" and used: "priv_used (netmap_priv st)"
  shows "\<exists>rs. release_slot api fwd packet st = Some (transfer_zero, scrub rs st) \<and> netmap_inv api fds (scrub rs st) \<and> buffers rs = buffers (rings st)"
proof -
  from inv used obtain c source where c: "priv_ring (netmap_priv st) = Some c" "rings st c = Some source" "priv_i (netmap_priv st) = ring_cur source"
    by (auto simp: netmap_inv_def priv_ok_def)
  note ok = netmap_invD(2)[OF inv]
  from slot_at_cur[OF ok c(2)] obtain s where s: "slot_at c (ring_cur source) (rings st) = Some s" "2 \<le> buf_idx s" by blast
  from slot_update_ok[OF ok s(1), of "\<lambda>s. s\<lparr>ns_forward := fwd\<rparr>"] s(2) obtain rs where
    u: "slot_update c (ring_cur source) (\<lambda>s. s\<lparr>ns_forward := fwd\<rparr>) (rings st) = Some rs" "sync_ok (rings st) rs" "buffers rs = buffers (rings st)" by auto
  then obtain ring where "rs c = Some ring" using sync_ok_cur[OF u(2) c(2)] by blast
  with ring_advance_ok[OF api, of rs c ring] u(2) obtain rs' where a: "ring_advance api c rs = Some rs'" "rings_ok rs'" "dom rs' = dom rs" "buffers rs' = buffers rs"
    by (auto simp: sync_ok_def)
  with u c p sync_ok_dom[OF u(2)] scrub_inv[OF inv a(2)] show ?thesis by (auto simp: release_slot_def)
qed

definition txsync_ok :: "(int \<Rightarrow> ring_store \<Rightarrow> ring_store) \<Rightarrow> bool" where
  "txsync_ok txsync \<longleftrightarrow> (\<forall>fd rs. rings_ok rs \<longrightarrow> sync_ok rs (txsync fd rs))"

text \<open>The rings a packet may be transmitted on.\<close>

definition writable :: "peak_netmap_dev \<Rightarrow> u32 \<Rightarrow> u32 list" where
  "writable dev mode = (if mode = NETMAP_HOST then host_rings dev else wire_rings dev)"

definition room :: "netmap_api \<Rightarrow> ring_store \<Rightarrow> peak_netmap_dev \<Rightarrow> u32 \<Rightarrow> u32 list" where
  "room api rs dev mode = filter (\<lambda>tx. case rs (NETMAP_TXRING api (dev_nifp dev) tx) of None \<Rightarrow> False | Some ring \<Rightarrow> \<not> nm_ring_empty api ring) (writable dev mode)"

lemma writable_le: "dev_begin dev = 0 \<Longrightarrow> tx \<in> set (writable dev mode) \<Longrightarrow> tx \<le> dev_end dev"
  by (auto simp: writable_def host_rings_def wire_rings_le split: if_splits)

lemma send_named:
  assumes api: "api_ok api" and inv: "netmap_inv api fds st" and p: "private_data packet" and used: "priv_used (netmap_priv st)"
    and i: "peak_netmap_find (nm_self st) (Some name) NR_REG_PIPE_SLAVE = i" "i < unat (nm_count (nm_self st))"
  shows "case room api (rings st) (devs st ! i) mode of
      [] \<Rightarrow> peak_netmap_send api txsync packet (Some name) mode st = Some (1, packet, st)
    | tx # _ \<Rightarrow> \<exists>c rs. priv_ring (netmap_priv st) = Some c \<and>
        peak_netmap_send api txsync packet (Some name) mode st = Some (0, transfer_zero, scrub (txsync (dev_fd (devs st ! i)) rs) st) \<and>
        zero_copy api c (priv_i (netmap_priv st)) (NETMAP_TXRING api (dev_nifp (devs st ! i)) tx) (rings st) rs"
proof -
  from inv used obtain c source where c: "priv_ring (netmap_priv st) = Some c" "rings st c = Some source" "priv_i (netmap_priv st) = ring_cur source"
    by (auto simp: netmap_inv_def priv_ok_def)
  note at = dev_at_count[OF netmap_invD(1)[OF inv] i(2)]
  then have "dev_ok api (rings st) (devs st ! i)" using netmap_invD(3)[OF inv] by blast
  then have sub: "\<forall>tx \<in> set (writable (devs st ! i) mode). NETMAP_TXRING api (dev_nifp (devs st ! i)) tx \<in> dom (rings st)"
    using writable_le[of "devs st ! i"] by (fastforce simp: dev_ok_def dev_rings_def)
  have "peak_netmap_send api txsync packet (Some name) mode st = send_rings api txsync (devs st ! i) (writable (devs st ! i) mode) packet st"
    using p used i at by (simp add: peak_netmap_send_def writable_def)
  with send_rings_swap[OF api netmap_invD(2)[OF inv] p c sub] c show ?thesis
    unfolding room_def by (auto split: list.splits)
qed

lemma send_ok:
  assumes api: "api_ok api" and inv: "netmap_inv api fds st" and sync: "txsync_ok txsync" and p: "private_data packet = priv_used (netmap_priv st)"
  shows "\<exists>ret packet' st'. peak_netmap_send api txsync packet ifname mode st = Some (ret, packet', st') \<and> netmap_inv api fds st' \<and>
    private_data packet' = priv_used (netmap_priv st')"
proof (cases "private_data packet")
  case True
  with p have used: "priv_used (netmap_priv st)" by simp
  show ?thesis
  proof (cases ifname)
    case None
    with release_slot_ok[OF api inv True used, of False] True used show ?thesis by (auto simp: peak_netmap_send_def peak_netmap_drop_def)
  next
    case (Some name)
    let ?i = "peak_netmap_find (nm_self st) (Some name) NR_REG_PIPE_SLAVE"
    show ?thesis
    proof (cases "?i < unat (nm_count (nm_self st))")
      case i: True
      note send = send_named[OF api inv True used refl i, of txsync mode]
      show ?thesis
      proof (cases "room api (rings st) (devs st ! ?i) mode")
        case Nil
        with send p inv Some show ?thesis by auto
      next
        case (Cons tx txs)
        with send obtain rs where "peak_netmap_send api txsync packet (Some name) mode st = Some (0, transfer_zero, scrub (txsync (dev_fd (devs st ! ?i)) rs) st)"
          and "rings_ok rs" "dom rs = dom (rings st)" by (auto simp: zero_copy_def)
        moreover have s: "sync_ok rs (txsync (dev_fd (devs st ! ?i)) rs)" using sync \<open>rings_ok rs\<close> by (simp add: txsync_ok_def)
        ultimately show ?thesis using scrub_inv[OF inv, of "txsync (dev_fd (devs st ! ?i)) rs"] sync_ok_dom[OF s] Some
          by (simp add: s[unfolded sync_ok_def])
      qed
    qed (use inv p Some True in \<open>simp add: peak_netmap_send_def\<close>)
  qed
qed (use inv p in \<open>simp add: peak_netmap_send_def\<close>)

section \<open>Attaching\<close>

text \<open>\<open>mmap(2)\<close> answers with an unused address, and the mapping holds the rings that the registration announced, among them the
  host rings and as many transmit as receive rings.\<close>

definition sys_ok :: "netmap_api \<Rightarrow> netmap_state \<Rightarrow> netmap_sys \<Rightarrow> bool" where
  "sys_ok api st sys \<longleftrightarrow> (\<forall>req req' mem mapped. sys_regif sys req = Some req' \<longrightarrow> sys_mmap sys = Some (mem, mapped) \<longrightarrow>
     mem \<noteq> 0 \<and> (\<forall>r. mapping r = mem \<longrightarrow> rings st r = None) \<and> finite (dom mapped) \<and> (\<forall>ring \<in> ran mapped. ring_ok ring) \<and>
     map_ofs ` dev_rings api (NETMAP_IF api mem (nr_offset req')) (ucast (nr_rx_rings req')) \<subseteq> dom mapped)"

lemma if_init_state: "\<exists>err ifs. if_init api sys dev st = (err, st\<lparr>if_state := ifs\<rparr>)"
  by (auto simp: if_init_def Let_def split: prod.splits) (metis netmap_state.surjective netmap_state.update_convs(7))+

lemma dev_init_ok:
  assumes req: "dev_request api (dev\<lparr>dev_fd := sys_open sys\<rparr>) = Some q"
  shows "\<exists>err dev' ifs. dev_ifname dev' = dev_ifname dev \<and> dev_type dev' = dev_type dev \<and>
    (if err then dev_init api sys dev st = Some (True, dev', st\<lparr>if_state := ifs\<rparr>)
     else \<exists>mem mapped r r'. sys_mmap sys = Some (mem, mapped) \<and> sys_regif sys r = Some r' \<and>
       dev' = dev\<lparr>dev_fd := sys_open sys, dev_memsize := nr_memsize r', dev_mem := mem, dev_nifp := NETMAP_IF api mem (nr_offset r'),
                  dev_begin := 0, dev_end := ucast (nr_rx_rings r')\<rparr> \<and>
       dev_init api sys dev st = Some (False, dev', st\<lparr>if_state := ifs, open_fds := sys_open sys # open_fds st, rings := mapped_at mem mapped (rings st)\<rparr>))"
proof -
  let ?dev = "dev\<lparr>dev_fd := sys_open sys\<rparr>" and ?st = "st\<lparr>open_fds := sys_open sys # open_fds st\<rparr>"
  have same: "st\<lparr>if_state := if_state st\<rparr> = st" "?st\<lparr>if_state := if_state st\<rparr> = ?st" by simp_all
  obtain err ifs where init: "(if dev_type dev = NR_REG_ALL_NIC then if_init api sys ?dev ?st else (False, ?st)) = (err, ?st\<lparr>if_state := ifs\<rparr>)"
    using if_init_state[of api sys ?dev ?st] same by (metis (full_types))
  have close: "fd_close (sys_open sys) (?st\<lparr>if_state := ifs\<rparr>) = st\<lparr>if_state := ifs\<rparr>" by (simp add: fd_close_def)
  consider "sys_open sys < 0" | "\<not> sys_open sys < 0" "err" | "\<not> sys_open sys < 0" "\<not> err" by blast
  then show ?thesis
  proof cases
    case 1
    then show ?thesis using same(1) by (intro exI[of _ True] exI[of _ ?dev] exI[of _ "if_state st"]) (simp add: dev_init_def)
  next
    case 2
    then show ?thesis using init close by (intro exI[of _ True] exI[of _ ?dev] exI[of _ ifs]) (simp add: dev_init_def)
  next
    case 3
    show ?thesis
    proof (cases "\<exists>r r' mem mapped. q = Some r \<and> sys_regif sys r = Some r' \<and> sys_mmap sys = Some (mem, mapped)")
      case True
      then obtain r r' mem mapped where q: "q = Some r" "sys_regif sys r = Some r'" "sys_mmap sys = Some (mem, mapped)" by blast
      let ?d = "dev\<lparr>dev_fd := sys_open sys, dev_memsize := nr_memsize r', dev_mem := mem, dev_nifp := NETMAP_IF api mem (nr_offset r'),
        dev_begin := 0, dev_end := ucast (nr_rx_rings r')\<rparr>"
      have "dev_init api sys dev st = Some (False, ?d, st\<lparr>if_state := ifs, open_fds := sys_open sys # open_fds st, rings := mapped_at mem mapped (rings st)\<rparr>)"
        using 3 init req q by (simp add: dev_init_def Let_def)
      with q show ?thesis by (intro exI[of _ False] exI[of _ ?d] exI[of _ ifs]) auto
    next
      case False
      have "\<exists>d. dev_ifname d = dev_ifname dev \<and> dev_type d = dev_type dev \<and> dev_init api sys dev st = Some (True, d, st\<lparr>if_state := ifs\<rparr>)"
        using False 3 init req close by (auto simp: dev_init_def Let_def split: option.splits)
      then show ?thesis by metis
    qed
  qed
qed

lemma configure_rings_ok:
  assumes "rings_ok rs" "\<forall>i \<in> set is. NETMAP_RXRING api nifp i \<in> dom rs" "\<forall>i. mapping (NETMAP_RXRING api nifp i) = mem"
  shows "\<exists>rs'. configure_rings api nifp is rs = Some rs' \<and> sync_ok rs rs' \<and> (\<forall>r. mapping r \<noteq> mem \<longrightarrow> rs' r = rs r)"
  using assms
proof (induction "is" arbitrary: rs)
  case Nil
  then show ?case by (simp add: sync_ok_def)
next
  case (Cons i "is")
  let ?r = "NETMAP_RXRING api nifp i"
  from Cons.prems obtain ring where ring: "rs ?r = Some ring" by auto
  let ?rs = "rs(?r \<mapsto> ring\<lparr>nr_forward := True, nr_timestamp := True\<rparr>)"
  have "ring_ok (ring\<lparr>nr_forward := True, nr_timestamp := True\<rparr>)" using rings_okD[OF Cons.prems(1) ring] by (simp add: ring_ok_def)
  then have ok: "rings_ok ?rs" by (rule rings_ok_update[OF Cons.prems(1)])
  have "\<forall>j \<in> set is. NETMAP_RXRING api nifp j \<in> dom ?rs" using Cons.prems(2) by simp
  from Cons.IH[OF ok this Cons.prems(3)] obtain rs' where
    "configure_rings api nifp is ?rs = Some rs'" "sync_ok ?rs rs'" "\<forall>r. mapping r \<noteq> mem \<longrightarrow> rs' r = ?rs r" by blast
  moreover have "sync_ok rs rs'" using ring \<open>sync_ok ?rs rs'\<close> by (auto simp: sync_ok_def)
  ultimately show ?case using ring Cons.prems(3) by auto
qed

text \<open>A device the search for a name does not pass over.\<close>

definition candidate :: "string \<Rightarrow> nr_reg \<Rightarrow> peak_netmap_dev \<Rightarrow> bool" where
  "candidate name ignore dev \<longleftrightarrow> (ignore = NR_REG_ALL_NIC \<or> ignore \<noteq> dev_type dev) \<and> dev_ifname dev = name"

lemma find_loop_Suc:
  "find_loop self name ignore i (Suc n) = (if candidate name ignore (nm_dev self ! i) then i else find_loop self name ignore (Suc i) n)"
  by (auto simp: candidate_def)

lemma find_loop_candidate:
  "if find_loop self name ignore i n < i + n then candidate name ignore (nm_dev self ! find_loop self name ignore i n)
   else \<forall>j. i \<le> j \<longrightarrow> j < i + n \<longrightarrow> \<not> candidate name ignore (nm_dev self ! j)"
proof (induction n arbitrary: i)
  case (Suc n)
  show ?case
  proof (cases "candidate name ignore (nm_dev self ! i)")
    case False
    have "i \<le> j \<longleftrightarrow> j = i \<or> Suc i \<le> j" for j by auto
    with False Suc.IH[of "Suc i"] show ?thesis by (auto simp: find_loop_Suc simp del: find_loop.simps split: if_splits)
  qed (simp add: find_loop_Suc del: find_loop.simps)
qed simp

lemma find_candidate:
  assumes "self_ok (nm_self st)"
  shows "peak_netmap_find (nm_self st) (Some name) ignore < unat (nm_count (nm_self st)) \<longleftrightarrow> (\<exists>dev \<in> set (devs st). candidate name ignore dev)"
    and "peak_netmap_find (nm_self st) (Some name) ignore < unat (nm_count (nm_self st)) \<Longrightarrow>
      candidate name ignore (devs st ! peak_netmap_find (nm_self st) (Some name) ignore)"
proof -
  let ?c = "unat (nm_count (nm_self st))" and ?k = "peak_netmap_find (nm_self st) (Some name) ignore"
  have c: "?c \<le> length (nm_dev (nm_self st))" using assms by (simp add: self_ok_def word_le_nat_alt)
  have k: "?k = find_loop (nm_self st) name ignore 0 ?c" by (simp add: peak_netmap_find_def)
  have nth: "j < ?c \<Longrightarrow> devs st ! j = nm_dev (nm_self st) ! j" for j by (simp add: devs_def)
  note loop = find_loop_candidate[of "nm_self st" name ignore 0 ?c, folded k, simplified]
  show hit: "?k < ?c \<Longrightarrow> candidate name ignore (devs st ! ?k)" using loop nth by simp
  show "?k < ?c \<longleftrightarrow> (\<exists>dev \<in> set (devs st). candidate name ignore dev)"
  proof (cases "?k < ?c")
    case True
    with hit nth_mem[of ?k "devs st"] assms show ?thesis by auto
  next
    case False
    with loop nth assms show ?thesis by (auto simp: in_set_conv_nth)
  qed
qed

lemma netmap_inv_cong:
  "nm_self st' = nm_self st \<Longrightarrow> rings st' = rings st \<Longrightarrow> netmap_priv st' = netmap_priv st \<Longrightarrow> open_fds st' = open_fds st \<Longrightarrow>
   netmap_inv api fds st' = netmap_inv api fds st"
  by (simp add: netmap_inv_def devs_def priv_ok_def)

lemma set_dev_beyond:
  assumes "netmap_inv api fds st"
  shows "netmap_inv api fds (set_dev (unat (nm_count (nm_self st))) dev st)" "devs (set_dev (unat (nm_count (nm_self st))) dev st) = devs st"
  using assms by (simp_all add: netmap_inv_def set_dev_def devs_def self_ok_def)

lemma api_mapping:
  assumes "api_ok api"
  shows "mapping (NETMAP_RXRING api nifp i) = mapping nifp" "mapping (NETMAP_TXRING api nifp i) = mapping nifp" "mapping (NETMAP_IF api mem ofs) = mem"
  using assms unfolding api_ok_def by blast+

lemma dev_rings_mapping: "api_ok api \<Longrightarrow> r \<in> dev_rings api nifp n \<Longrightarrow> mapping r = mapping nifp"
  by (auto simp: dev_rings_def api_mapping)

lemma dev_ok_mapping: "api_ok api \<Longrightarrow> dev_ok api rs dev \<Longrightarrow> \<exists>r. mapping r = dev_mem dev \<and> r \<in> dom rs"
  by (rule exI[of _ "NETMAP_RXRING api (dev_nifp dev) 0"]) (auto simp: dev_ok_def dev_rings_def api_mapping image_subset_iff)

lemma dev_ok_other:
  assumes "api_ok api" "dev_ok api rs dev" "\<And>r. mapping r = dev_mem dev \<Longrightarrow> rs' r = rs r"
  shows "dev_ok api rs' dev"
proof -
  have "r \<in> dom rs'" if "r \<in> dev_rings api (dev_nifp dev) (dev_end dev)" for r
    using that assms dev_rings_mapping[OF assms(1) that] by (auto simp: dev_ok_def dom_def)
  with assms(2) show ?thesis by (auto simp: dev_ok_def)
qed

lemma append_dev_inv:
  assumes api: "api_ok api" and inv: "netmap_inv api fds st" and room: "unat (nm_count (nm_self st)) < NETMAP_MAX"
    and dev: "dev_ok api (rings st') dev" "rings_ok (rings st')" "names_ok (devs st @ [dev])"
    and other: "\<And>r. mapping r \<noteq> dev_mem dev \<Longrightarrow> rings st' r = rings st r" and fresh: "\<And>r. mapping r = dev_mem dev \<Longrightarrow> rings st r = None"
    and st': "nm_self st' = (nm_self st)\<lparr>nm_dev := (nm_dev (nm_self st))[unat (nm_count (nm_self st)) := dev],
        nm_fd := (nm_fd (nm_self st))[unat (nm_count (nm_self st)) := fd], nm_count := nm_count (nm_self st) + 1\<rparr>"
      "poll_fd fd = dev_fd dev" "netmap_priv st' = netmap_priv st" "open_fds st' = dev_fd dev # open_fds st"
  shows "netmap_inv api fds st' \<and> devs st' = devs st @ [dev]"
proof -
  let ?c = "unat (nm_count (nm_self st))"
  note self = netmap_invD(1)[OF inv]
  have c: "unat (nm_count (nm_self st) + 1) = Suc ?c" using room by (simp add: unat_word_ariths)
  have devs: "devs st' = devs st @ [dev]"
    using self room st'(1) c by (simp add: devs_def self_ok_def take_Suc_conv_app_nth)
  have "take (Suc ?c) ((nm_fd (nm_self st))[?c := fd]) = take ?c (nm_fd (nm_self st)) @ [fd]"
    "take (Suc ?c) ((nm_dev (nm_self st))[?c := dev]) = take ?c (nm_dev (nm_self st)) @ [dev]"
    using self room by (simp_all add: self_ok_def take_Suc_conv_app_nth)
  with self room c st'(1,2) have self': "self_ok (nm_self st')" by (simp add: self_ok_def word_le_nat_alt)
  have new: "dev_mem x \<noteq> dev_mem dev" if "x \<in> set (devs st)" for x
    using dev_ok_mapping[OF api, of "rings st" x] netmap_invD(3)[OF inv] that fresh by fastforce
  have old: "dev_ok api (rings st') x" if "x \<in> set (devs st)" for x
    by (rule dev_ok_other[OF api, of "rings st"]) (use netmap_invD(3)[OF inv] that new[OF that] other in auto)
  have "priv_ok st'"
  proof (cases "priv_used (netmap_priv st)")
    case True
    with inv obtain r ring where r: "priv_ring (netmap_priv st) = Some r" "rings st r = Some ring" "priv_i (netmap_priv st) = ring_cur ring"
      by (auto simp: netmap_inv_def priv_ok_def)
    with fresh[of r] other[of r] have "rings st' r = Some ring" by auto
    with r True st'(3) show ?thesis by (simp add: priv_ok_def)
  qed (use inv st'(3) in \<open>simp add: netmap_inv_def priv_ok_def\<close>)
  moreover have "dev_mem dev \<notin> dev_mem ` set (devs st)" using new by (metis (no_types) imageE)
  ultimately show ?thesis using inv self' dev old devs st'(4) by (simp add: netmap_inv_def)
qed

lemma names_ok_append:
  assumes "names_ok ds" "dev_type dev = type"
    and "\<not> (\<exists>x \<in> set ds. candidate (dev_ifname dev) (attach_ignore type) x)"
  shows "names_ok (ds @ [dev])"
proof -
  have other: "dev_type x \<noteq> type \<and> dev_type x \<noteq> NR_REG_ALL_NIC \<and> type \<noteq> NR_REG_ALL_NIC" if "x \<in> set ds" "dev_ifname x = dev_ifname dev" for x
  proof -
    have "\<not> candidate (dev_ifname dev) (attach_ignore type) x"
      using assms(3) that by blast
    with that show ?thesis by (cases type) (auto simp: candidate_def attach_ignore_def)
  qed
  then have "(dev_ifname dev, dev_type dev) \<notin> (\<lambda>dev. (dev_ifname dev, dev_type dev)) ` set ds" using assms(2) by fastforce
  moreover have "distinct (map (\<lambda>dev. (dev_ifname dev, dev_type dev)) ds)" using assms(1) by (simp only: names_ok_def)
  ultimately have dist: "distinct (map (\<lambda>dev. (dev_ifname dev, dev_type dev)) (ds @ [dev]))" by simp
  have "dev_type y = NR_REG_ALL_NIC"
    if "x \<in> set (ds @ [dev])" "y \<in> set (ds @ [dev])" and n: "dev_ifname x = dev_ifname y" and x: "dev_type x = NR_REG_ALL_NIC" for x y
  proof -
    from that(1,2) consider "y = x" | "x = dev" "y \<in> set ds" | "x \<in> set ds" "y = dev" | "x \<in> set ds" "y \<in> set ds" by auto
    then show ?thesis
    proof cases
      case 2
      with other[of y] n x assms(2) show ?thesis by metis
    next
      case 3
      with other[of x] n x show ?thesis by metis
    next
      case 4
      with assms(1) n x show ?thesis unfolding names_ok_def by blast
    qed (use x in simp)
  qed
  with dist show ?thesis unfolding names_ok_def by blast
qed

text \<open>A request can be made if the name of a pipe is a number.\<close>

definition name_ok :: "string \<Rightarrow> nr_reg \<Rightarrow> bool" where
  "name_ok name type \<longleftrightarrow> length name < IFNAMSIZ \<and> (type \<noteq> NR_REG_ALL_NIC \<longrightarrow> atoi name \<noteq> None)"

lemma dev_request_ok: "name_ok name type \<Longrightarrow> \<exists>q. dev_request api (dev\<lparr>dev_ifname := name, dev_type := type, dev_fd := fd\<rparr>) = Some q"
  by (auto simp: dev_request_def name_ok_def Let_def)

definition attached :: "netmap_api \<Rightarrow> int list \<Rightarrow> string \<Rightarrow> nr_reg \<Rightarrow> netmap_state \<Rightarrow> u32 \<Rightarrow> netmap_state \<Rightarrow> bool" where
  "attached api fds name type st ret st' \<longleftrightarrow> netmap_inv api fds st' \<and> netmap_priv st' = netmap_priv st \<and> \<not> netmap_mutex st' \<and>
     (if ret = 0 then \<exists>dev. devs st' = devs st @ [dev] \<and> dev_ifname dev = name \<and> dev_type dev = type \<and>
         open_fds st' = dev_fd dev # open_fds st \<and>
         (\<forall>r. if mapping r = dev_mem dev then rings st r = None else rings st' r = rings st r)
      else ret = 1 \<and> devs st' = devs st \<and> open_fds st' = open_fds st \<and> rings st' = rings st)"

lemma mapped_at_ok:
  assumes "rings_ok rs" "finite (dom mapped)" "\<forall>ring \<in> ran mapped. ring_ok ring"
  shows "rings_ok (mapped_at mem mapped rs)"
proof -
  have "dom (mapped_at mem mapped rs) \<subseteq> dom rs \<union> At mem ` dom mapped"
  proof
    fix r assume "r \<in> dom (mapped_at mem mapped rs)"
    then show "r \<in> dom rs \<union> At mem ` dom mapped" by (cases r) (auto simp: mapped_at_def split: if_splits)
  qed
  then have "finite (dom (mapped_at mem mapped rs))" by (rule finite_subset) (use assms in \<open>simp add: rings_ok_def\<close>)
  moreover have "ran (mapped_at mem mapped rs) \<subseteq> ran rs \<union> ran mapped" by (auto simp: mapped_at_def ran_def split: if_splits)
  ultimately show ?thesis using assms by (auto simp: rings_ok_def)
qed

lemma configure_ok:
  assumes api: "api_ok api" and ok: "rings_ok (rings st)" and dev: "dev_begin dev = 0" "dev_rings api (dev_nifp dev) (dev_end dev) \<subseteq> dom (rings st)"
  shows "\<exists>rs. peak_netmap_configure api dev st = Some (st\<lparr>rings := rs\<rparr>) \<and> sync_ok (rings st) rs \<and> (\<forall>r. mapping r \<noteq> mapping (dev_nifp dev) \<longrightarrow> rs r = rings st r)"
proof -
  let ?n = "dev_nifp dev"
  have in_dom: "NETMAP_RXRING api ?n i \<in> dom (rings st)" if "i \<le> dev_end dev" for i using dev(2) that by (auto simp: dev_rings_def)
  have m: "\<forall>i. mapping (NETMAP_RXRING api ?n i) = mapping ?n" by (simp add: api_mapping[OF api])
  have "\<forall>i \<in> set (wire_rings dev). NETMAP_RXRING api ?n i \<in> dom (rings st)" using in_dom wire_rings_le[OF dev(1)] by blast
  from configure_rings_ok[OF ok this m] obtain rs1 where 1: "configure_rings api ?n (wire_rings dev) (rings st) = Some rs1" "sync_ok (rings st) rs1"
    "\<forall>r. mapping r \<noteq> mapping ?n \<longrightarrow> rs1 r = rings st r" by blast
  have "\<forall>i \<in> set (host_rings dev). NETMAP_RXRING api ?n i \<in> dom rs1" using in_dom sync_ok_dom[OF 1(2)] by (simp add: host_rings_def)
  from configure_rings_ok[OF _ this m] 1(2) obtain rs2 where 2: "configure_rings api ?n (host_rings dev) rs1 = Some rs2" "sync_ok rs1 rs2"
    "\<forall>r. mapping r \<noteq> mapping ?n \<longrightarrow> rs2 r = rs1 r" by (auto simp: sync_ok_def)
  moreover have "sync_ok (rings st) rs2" using 1(2) 2(2) by (simp add: sync_ok_def)
  ultimately show ?thesis using 1 by (auto simp: peak_netmap_configure_def)
qed

lemma attached_failed:
  assumes inv: "netmap_inv api fds st" and "nm_self st' = nm_self (set_dev (unat (nm_count (nm_self st))) dev st)" "rings st' = rings st"
    "netmap_priv st' = netmap_priv st" "open_fds st' = open_fds st" "\<not> netmap_mutex st'"
  shows "attached api fds name type st 1 st'"
proof -
  have "netmap_inv api fds st'" using set_dev_beyond(1)[OF inv, of dev] assms netmap_inv_cong[of st' "set_dev (unat (nm_count (nm_self st))) dev st"]
    by (simp add: set_dev_def)
  moreover have "devs st' = devs st" using set_dev_beyond(2)[OF inv, of dev] assms(2) by (simp add: devs_def)
  ultimately show ?thesis using assms by (simp add: attached_def)
qed

lemma set_dev_same: "set_dev i (nm_dev (nm_self st) ! i) st = st"
  by (simp add: set_dev_def)

lemma attached_opened:
  assumes api: "api_ok api" and inv: "netmap_inv api fds st" and sys: "sys_ok api st sys"
    and m: "sys_mmap sys = Some (mem, mapped)" "sys_regif sys q = Some q'"
    and dev: "dev_ifname dev = name" "dev_type dev = type" "dev_mem dev = mem" "dev_nifp dev = NETMAP_IF api mem (nr_offset q')"
      "dev_begin dev = 0" "dev_end dev = ucast (nr_rx_rings q')"
    and room: "unat (nm_count (nm_self st)) < NETMAP_MAX"
    and free: "\<not> (\<exists>x \<in> set (devs st). candidate name (attach_ignore type) x)"
    and st1: "nm_self st1 = nm_self (set_dev (unat (nm_count (nm_self st))) dev st)" "rings st1 = mapped_at mem mapped (rings st)"
      "netmap_priv st1 = netmap_priv st" "open_fds st1 = dev_fd dev # open_fds st"
  shows "\<exists>rs. peak_netmap_configure api dev st1 = Some (st1\<lparr>rings := rs\<rparr>) \<and>
    attached api fds name type st 0 (unlock (st1\<lparr>rings := rs, nm_self := (nm_self st1)\<lparr>
      nm_fd := (nm_fd (nm_self st1))[unat (nm_count (nm_self st)) := (nm_fd (nm_self st1) ! unat (nm_count (nm_self st)))\<lparr>poll_fd := dev_fd dev\<rparr>],
      nm_count := nm_count (nm_self st1) + 1\<rparr>\<rparr>))"
proof -
  let ?nifp = "NETMAP_IF api mem (nr_offset q')"
  from sys m have mem: "mem \<noteq> 0" "\<And>r. mapping r = mem \<Longrightarrow> rings st r = None" "finite (dom mapped)" "\<forall>ring \<in> ran mapped. ring_ok ring"
    and maps: "map_ofs ` dev_rings api ?nifp (ucast (nr_rx_rings q')) \<subseteq> dom mapped" unfolding sys_ok_def by blast+
  have nifp: "mapping ?nifp = mem" by (simp add: api_mapping[OF api])
  have ok1: "rings_ok (rings st1)" unfolding st1 by (rule mapped_at_ok[OF netmap_invD(2)[OF inv] mem(3,4)])
  have sub: "dev_rings api (dev_nifp dev) (dev_end dev) \<subseteq> dom (rings st1)"
  proof
    fix r assume r: "r \<in> dev_rings api (dev_nifp dev) (dev_end dev)"
    then have "mapping r = mem" "map_ofs r \<in> dom mapped" using dev_rings_mapping[OF api r] nifp maps dev by auto
    then show "r \<in> dom (rings st1)" by (auto simp: st1 mapped_at_def)
  qed
  from configure_ok[OF api ok1 dev(5) sub] obtain rs where conf: "peak_netmap_configure api dev st1 = Some (st1\<lparr>rings := rs\<rparr>)"
    and rs: "sync_ok (rings st1) rs" "\<And>r. mapping r \<noteq> mem \<Longrightarrow> rs r = rings st1 r" using dev(4) nifp by auto
  let ?st' = "unlock (st1\<lparr>rings := rs, nm_self := (nm_self st1)\<lparr>
      nm_fd := (nm_fd (nm_self st1))[unat (nm_count (nm_self st)) := (nm_fd (nm_self st1) ! unat (nm_count (nm_self st)))\<lparr>poll_fd := dev_fd dev\<rparr>],
      nm_count := nm_count (nm_self st1) + 1\<rparr>\<rparr>)"
  have dok: "dev_ok api (rings ?st') dev" using sub sync_ok_dom[OF rs(1)] mem(1) dev nifp by (simp add: dev_ok_def unlock_def)
  have names: "names_ok (devs st @ [dev])"
    by (rule names_ok_append[OF _ dev(2)]) (use free dev(1) inv in \<open>simp_all add: netmap_inv_def\<close>)
  have other: "rings ?st' r = rings st r" if "mapping r \<noteq> dev_mem dev" for r
    using that rs(2)[of r] dev(3) by (simp add: unlock_def st1 mapped_at_def)
  have "netmap_inv api fds ?st' \<and> devs ?st' = devs st @ [dev]"
  proof (rule append_dev_inv[OF api inv room dok _ names other])
    show "rings_ok (rings ?st')" using rs(1) by (simp add: sync_ok_def unlock_def)
    show "rings st r = None" if "mapping r = dev_mem dev" for r using that mem(2) dev(3) by simp
  qed (auto simp: unlock_def st1 set_dev_def)
  with other mem(2) dev st1(3,4) have "attached api fds name type st 0 ?st'" by (auto simp: attached_def unlock_def)
  with conf show ?thesis by blast
qed

lemma netmap_attach_eq:
  assumes free: "\<not> netmap_mutex st" and name: "length name < IFNAMSIZ"
  shows "netmap_attach api sys (Some name) type st =
    (let c = unat (nm_count (nm_self st)); st = st\<lparr>netmap_mutex := True\<rparr>
     in if peak_netmap_find (nm_self st) (Some name) (attach_ignore type) < c \<or> NETMAP_MAX \<le> c then Some (1, unlock st)
     else do {
       (err, dev, st1) \<leftarrow> dev_init api sys (dev_zero\<lparr>dev_ifname := name, dev_type := type\<rparr>) st;
       if err then Some (1, unlock (set_dev c dev st1))
       else do {
         st2 \<leftarrow> peak_netmap_configure api dev (set_dev c dev st1);
         Some (0, unlock (st2\<lparr>nm_self := (nm_self st2)\<lparr>
           nm_fd := (nm_fd (nm_self st2))[c := (nm_fd (nm_self st2) ! c)\<lparr>poll_fd := dev_fd dev\<rparr>],
           nm_count := nm_count (nm_self st2) + 1\<rparr>\<rparr>)) }})"
  using assms by (simp add: netmap_attach_def Let_def strlcpy_name_def cong: if_cong)

lemma netmap_attach_ok:
  assumes api: "api_ok api" and inv: "netmap_inv api fds st" and sys: "sys_ok api st sys" and name: "name_ok name type" and free: "\<not> netmap_mutex st"
  shows "\<exists>ret st'. netmap_attach api sys (Some name) type st = Some (ret, st') \<and> attached api fds name type st ret st'"
proof -
  let ?c = "unat (nm_count (nm_self st))" and ?st = "st\<lparr>netmap_mutex := True\<rparr>"
  let ?dev = "dev_zero\<lparr>dev_ifname := name, dev_type := type\<rparr>"
  have "length name < IFNAMSIZ" using name by (simp add: name_ok_def)
  note att = netmap_attach_eq[OF free this, of api sys type]
  show ?thesis
  proof (cases "peak_netmap_find (nm_self st) (Some name) (attach_ignore type) < ?c \<or> NETMAP_MAX \<le> ?c")
    case True
    moreover have "attached api fds name type st 1 (unlock ?st)"
      by (rule attached_failed[OF inv, of _ "nm_dev (nm_self st) ! ?c"]) (simp_all add: set_dev_same unlock_def)
    ultimately show ?thesis unfolding att by simp
  next
    case False
    then have no: "\<not> (\<exists>x \<in> set (devs st). candidate name (attach_ignore type) x)" and room: "?c < NETMAP_MAX"
      using find_candidate(1)[OF netmap_invD(1)[OF inv], of name "attach_ignore type"] by auto
    obtain q where q: "dev_request api (?dev\<lparr>dev_fd := sys_open sys\<rparr>) = Some q" using dev_request_ok[OF name, of api "sys_open sys" dev_zero] by blast
    from dev_init_ok[OF q, of ?st] obtain err dev ifs where init: "dev_ifname dev = name" "dev_type dev = type"
      "if err then dev_init api sys ?dev ?st = Some (True, dev, ?st\<lparr>if_state := ifs\<rparr>)
       else \<exists>mem mapped r r'. sys_mmap sys = Some (mem, mapped) \<and> sys_regif sys r = Some r' \<and>
         dev = ?dev\<lparr>dev_fd := sys_open sys, dev_memsize := nr_memsize r', dev_mem := mem, dev_nifp := NETMAP_IF api mem (nr_offset r'),
                    dev_begin := 0, dev_end := ucast (nr_rx_rings r')\<rparr> \<and>
         dev_init api sys ?dev ?st = Some (False, dev, ?st\<lparr>if_state := ifs, open_fds := sys_open sys # open_fds ?st, rings := mapped_at mem mapped (rings ?st)\<rparr>)"
      by auto
    show ?thesis
    proof (cases err)
      case True
      have "attached api fds name type st 1 (unlock (set_dev ?c dev (?st\<lparr>if_state := ifs\<rparr>)))"
        by (rule attached_failed[OF inv, of _ dev]) (simp_all add: set_dev_def unlock_def)
      with False True init(3) show ?thesis unfolding att by simp
    next
      case ok: False
      with init(3) obtain mem mapped r r' where m: "sys_mmap sys = Some (mem, mapped)" "sys_regif sys r = Some r'"
        and dev: "dev = ?dev\<lparr>dev_fd := sys_open sys, dev_memsize := nr_memsize r', dev_mem := mem, dev_nifp := NETMAP_IF api mem (nr_offset r'),
          dev_begin := 0, dev_end := ucast (nr_rx_rings r')\<rparr>"
        and di: "dev_init api sys ?dev ?st = Some (False, dev, ?st\<lparr>if_state := ifs, open_fds := sys_open sys # open_fds ?st, rings := mapped_at mem mapped (rings ?st)\<rparr>)"
        by auto
      let ?st1 = "set_dev ?c dev (?st\<lparr>if_state := ifs, open_fds := sys_open sys # open_fds ?st, rings := mapped_at mem mapped (rings ?st)\<rparr>)"
      have "\<exists>rs. peak_netmap_configure api dev ?st1 = Some (?st1\<lparr>rings := rs\<rparr>) \<and> attached api fds name type st 0 (unlock (?st1\<lparr>rings := rs, nm_self := (nm_self ?st1)\<lparr>
          nm_fd := (nm_fd (nm_self ?st1))[?c := (nm_fd (nm_self ?st1) ! ?c)\<lparr>poll_fd := dev_fd dev\<rparr>], nm_count := nm_count (nm_self ?st1) + 1\<rparr>\<rparr>))"
        by (rule attached_opened[OF api inv sys m]) (use no room in \<open>simp_all add: dev set_dev_def\<close>)
      with False di show ?thesis unfolding att by (auto simp: Let_def)
    qed
  qed
qed

section \<open>Detaching\<close>

text \<open>The element at the end of the table fills the hole.\<close>

lemma mset_fill_hole:
  assumes "i < n" "n \<le> length xs"
  shows "mset (take (n - 1) (if i < n - 1 then xs[i := xs ! (n - 1)] else xs)) + {#xs ! i#} = mset (take n xs)"
proof -
  have n: "n = Suc (n - 1)" using assms by simp
  have "take n xs = take (n - 1) xs @ [xs ! (n - 1)]" using take_Suc_conv_app_nth[of "n - 1" xs] n assms by simp
  moreover have "mset ((take (n - 1) xs)[i := xs ! (n - 1)]) + {#xs ! i#} = mset (take (n - 1) xs) + {#xs ! (n - 1)#}" if "i < n - 1"
    using that assms mset_update[of i "take (n - 1) xs" "xs ! (n - 1)"] nth_mem[of i "take (n - 1) xs"] by simp
  moreover have "i = n - 1" if "\<not> i < n - 1" using that assms by simp
  ultimately show ?thesis using assms by (cases "i < n - 1") (simp_all add: take_update_swap)
qed

lemma mset_map_eq: "mset xs = mset ys \<Longrightarrow> mset (map f xs) = mset (map f ys)"
  by (metis mset_map)

definition detached :: "netmap_state \<Rightarrow> peak_netmap_dev \<Rightarrow> netmap_state \<Rightarrow> bool" where
  "detached st dev st' \<longleftrightarrow> mset (devs st') + {#dev#} = mset (devs st) \<and> open_fds st' = remove1 (dev_fd dev) (open_fds st) \<and>
     (\<forall>r. rings st' r = (if mapping r = dev_mem dev then None else rings st r)) \<and> netmap_priv st' = netmap_priv st \<and> \<not> netmap_mutex st'"

lemma detached_inv:
  assumes api: "api_ok api" and inv: "netmap_inv api fds st" and d: "detached st dev st'" and self: "self_ok (nm_self st')"
    and claim: "\<And>r. priv_ring (netmap_priv st) = Some r \<Longrightarrow> mapping r \<noteq> dev_mem dev"
  shows "netmap_inv api fds st'"
proof -
  have ds: "mset (dev # devs st') = mset (devs st)" using d by (simp add: detached_def)
  then have set: "set (devs st) = insert dev (set (devs st'))" by (metis list.simps(15) mset_eq_setD)
  have rings: "rings st' r = (if mapping r = dev_mem dev then None else rings st r)" for r using d by (simp add: detached_def)
  have ok: "rings_ok (rings st')"
  proof -
    have "dom (rings st') \<subseteq> dom (rings st)" "ran (rings st') \<subseteq> ran (rings st)" by (auto simp: rings ran_def split: if_splits)
    with netmap_invD(2)[OF inv] show ?thesis by (auto simp: rings_ok_def intro: finite_subset)
  qed
  note same = mset_map_eq[OF ds]
  have maps: "distinct (map dev_mem (dev # devs st'))"
    using inv mset_eq_imp_distinct_iff[OF same[of dev_mem]] unfolding netmap_inv_def by blast
  have devs: "dev_ok api (rings st') x" if "x \<in> set (devs st')" for x
  proof (rule dev_ok_other[OF api, of "rings st"])
    show "dev_ok api (rings st) x" using netmap_invD(3)[OF inv] set that by blast
    have "dev_mem dev \<notin> dev_mem ` set (devs st')" using maps by simp
    with that have "dev_mem x \<noteq> dev_mem dev" by (metis imageI)
    then show "rings st' r = rings st r" if "mapping r = dev_mem x" for r using that by (simp add: rings)
  qed
  have "names_ok (devs st')"
  proof -
    have names: "names_ok (devs st)" using inv by (simp add: netmap_inv_def)
    then have "distinct (map (\<lambda>dev. (dev_ifname dev, dev_type dev)) (dev # devs st'))"
      unfolding mset_eq_imp_distinct_iff[OF same] by (simp only: names_ok_def)
    then have "distinct (map (\<lambda>dev. (dev_ifname dev, dev_type dev)) (devs st'))" by simp
    with names set show ?thesis unfolding names_ok_def by blast
  qed
  moreover have "mset (open_fds st') = mset (map dev_fd (devs st')) + mset fds"
  proof -
    have "mset (open_fds st) = mset (map dev_fd (dev # devs st')) + mset fds" using inv unfolding same netmap_inv_def by blast
    then show ?thesis using d by (simp add: detached_def)
  qed
  moreover have "priv_ok st'"
    using inv claim d rings by (auto simp: netmap_inv_def priv_ok_def detached_def split: if_splits)
  ultimately show ?thesis using self ok devs maps by (simp add: netmap_inv_def)
qed

lemma unat_pred: "i < unat w \<Longrightarrow> unat (w - 1) = unat w - 1"
  by (simp add: unat_minus_one unat_gt_0 flip: unat_eq_0)

lemma detach_self_ok:
  assumes self: "self_ok self" and i: "i < unat (nm_count self)"
  shows "self_ok ((if i < unat (nm_count self) - 1
    then self\<lparr>nm_dev := (nm_dev self)[i := nm_dev self ! (unat (nm_count self) - 1)], nm_fd := (nm_fd self)[i := nm_fd self ! (unat (nm_count self) - 1)]\<rparr>
    else self)\<lparr>nm_count := nm_count self - 1\<rparr>)"
proof -
  let ?c = "unat (nm_count self)"
  note c = unat_pred[OF i]
  have le: "?c \<le> NETMAP_MAX" using self by (simp add: self_ok_def word_le_nat_alt)
  have eq: "map poll_fd (take ?c (nm_fd self)) = map dev_fd (take ?c (nm_dev self))" using self by (simp add: self_ok_def)
  have nth: "poll_fd (nm_fd self ! j) = dev_fd (nm_dev self ! j)" if "j < ?c" for j
  proof -
    have "length (nm_fd self) = NETMAP_MAX" "length (nm_dev self) = NETMAP_MAX" using self by (simp_all add: self_ok_def)
    moreover have "map poll_fd (take ?c (nm_fd self)) ! j = map dev_fd (take ?c (nm_dev self)) ! j" by (simp only: eq)
    ultimately show ?thesis using that le by simp
  qed
  have "map poll_fd (take (?c - 1) (nm_fd self)) = map dev_fd (take (?c - 1) (nm_dev self))"
    by (rule nth_equalityI) (use nth le self in \<open>auto simp: self_ok_def\<close>)
  with nth[of "?c - 1"] le c self i show ?thesis
    by (auto simp: self_ok_def word_le_nat_alt take_update_swap map_update)
qed

lemma peak_netmap_detach_ok:
  assumes inv: "netmap_inv api fds st" and free: "\<not> netmap_mutex st"
  shows "if \<exists>dev \<in> set (devs st). dev_ifname dev = name
    then \<exists>dev st'. peak_netmap_detach (Some name) st = (0, st') \<and> dev \<in> set (devs st) \<and> dev_ifname dev = name \<and> detached st dev st' \<and> self_ok (nm_self st')
    else peak_netmap_detach (Some name) st = (1, st)"
proof -
  let ?c = "unat (nm_count (nm_self st))" and ?i = "peak_netmap_find (nm_self st) (Some name) NR_REG_ALL_NIC"
  note self = netmap_invD(1)[OF inv]
  have cand: "candidate name NR_REG_ALL_NIC dev \<longleftrightarrow> dev_ifname dev = name" for dev by (simp add: candidate_def)
  note find = find_candidate[OF self, of name NR_REG_ALL_NIC, unfolded cand]
  have same: "st\<lparr>netmap_mutex := False\<rparr> = st" using free by simp
  show ?thesis
  proof (cases "?i < ?c")
    case False
    with find(1) same free show ?thesis by (simp add: peak_netmap_detach_def unlock_def)
  next
    case True
    define dev where "dev = devs st ! ?i"
    have dev: "dev \<in> set (devs st)" "dev_ifname dev = name" using True find(2) dev_at_count[OF self True] by (simp_all add: dev_def)
    have nth: "nm_dev (nm_self st) ! ?i = dev" using True by (simp add: dev_def devs_def)
    have mem: "dev_mem dev \<noteq> 0" using dev(1) netmap_invD(3)[OF inv] by (auto simp: dev_ok_def)
    let ?self = "(if ?i < ?c - 1 then (nm_self st)\<lparr>nm_dev := (nm_dev (nm_self st))[?i := nm_dev (nm_self st) ! (?c - 1)],
      nm_fd := (nm_fd (nm_self st))[?i := nm_fd (nm_self st) ! (?c - 1)]\<rparr> else nm_self st)"
    let ?st' = "st\<lparr>rings := mapped_at (dev_mem dev) Map.empty (rings st), open_fds := remove1 (dev_fd dev) (open_fds st),
      nm_self := ?self\<lparr>nm_count := nm_count (nm_self st) - 1\<rparr>\<rparr>"
    have det: "peak_netmap_detach (Some name) st = (0, ?st')"
      using True free mem nth by (simp add: peak_netmap_detach_def Let_def unlock_def fd_close_def)
    note c = unat_pred[OF True]
    have le: "?c \<le> length (nm_dev (nm_self st))" using self by (simp add: self_ok_def word_le_nat_alt)
    have "mset (devs ?st') + {#dev#} = mset (devs st)"
      using mset_fill_hole[OF True le] nth by (auto simp: devs_def c)
    then have "detached st dev ?st'" using free by (simp add: detached_def mapped_at_def)
    moreover have "self_ok (nm_self ?st')" using detach_self_ok[OF self True] by simp
    ultimately have "\<exists>dev st'. peak_netmap_detach (Some name) st = (0, st') \<and> dev \<in> set (devs st) \<and> dev_ifname dev = name \<and> detached st dev st' \<and> self_ok (nm_self st')"
      using det dev by blast
    moreover have found: "\<exists>dev \<in> set (devs st). dev_ifname dev = name" using dev by blast
    ultimately show ?thesis unfolding if_P[OF found] by blast
  qed
qed

section \<open>Histories\<close>

text \<open>The calls of one thread, with what the system answers in each.\<close>

datatype netmap_op =
    Attach netmap_sys string nr_reg
  | Detach "string option"
  | Recv poll_call int "string option" u32
  | Send "int \<Rightarrow> ring_store \<Rightarrow> ring_store" "string option" u32
  | Forward
  | Lock
  | Unlock

text \<open>The state of the library and the packet structure of the caller.\<close>

fun netmap_call :: "netmap_api \<Rightarrow> netmap_op \<Rightarrow> netmap_state \<times> peak_transfer \<Rightarrow> (netmap_state \<times> peak_transfer) outcome option" where
  "netmap_call api (Attach sys name type) (st, p) = map_option (\<lambda>(_, st). Return (st, p)) (netmap_attach api sys (Some name) type st)"
| "netmap_call api (Detach name) (st, p) = Some (Return (snd (peak_netmap_detach name st), p))"
| "netmap_call api (Recv poll timeout name mode) (st, p) =
    obind (peak_netmap_recv api poll timeout name mode st) (\<lambda>(q, st). Some (Return (st, case q of None \<Rightarrow> p | Some q \<Rightarrow> q)))"
| "netmap_call api (Send txsync name mode) (st, p) = map_option (\<lambda>(_, p, st). Return (st, p)) (peak_netmap_send api txsync p name mode st)"
| "netmap_call api Forward (st, p) = map_option (\<lambda>(_, p, st). Return (st, p)) (peak_netmap_forward api p st)"
| "netmap_call api Lock (st, p) = obind (Some (peak_netmap_lock st)) (\<lambda>st. Some (Return (st, p)))"
| "netmap_call api Unlock (st, p) = Some (Return (peak_netmap_unlock st, p))"

fun netmap_calls :: "netmap_api \<Rightarrow> netmap_op list \<Rightarrow> netmap_state \<times> peak_transfer \<Rightarrow> (netmap_state \<times> peak_transfer) outcome option" where
  "netmap_calls api [] s = Some (Return s)"
| "netmap_calls api (c # cs) s = obind (netmap_call api c s) (netmap_calls api cs)"

text \<open>What the caller and the system owe: names fit their buffer, the system calls do what they are documented to do, and only a
  claimed packet is forwarded. A device is not detached while a packet is claimed, and the mutex is not locked twice.\<close>

fun call_ok :: "netmap_api \<Rightarrow> netmap_op \<Rightarrow> netmap_state \<times> peak_transfer \<Rightarrow> bool" where
  "call_ok api (Attach sys name type) (st, p) = (sys_ok api st sys \<and> name_ok name type)"
| "call_ok api (Detach name) (st, p) = (\<not> private_data p)"
| "call_ok api (Recv poll timeout name mode) (st, p) = poll_ok poll"
| "call_ok api (Send txsync name mode) (st, p) = txsync_ok txsync"
| "call_ok api Forward (st, p) = private_data p"
| "call_ok api Lock (st, p) = (\<not> netmap_mutex st)"
| "call_ok api Unlock (st, p) = netmap_mutex st"

fun calls_ok :: "netmap_api \<Rightarrow> netmap_op list \<Rightarrow> netmap_state \<times> peak_transfer \<Rightarrow> bool" where
  "calls_ok api [] s = True"
| "calls_ok api (c # cs) s = (call_ok api c s \<and> (\<forall>s'. netmap_call api c s = Some (Return s') \<longrightarrow> calls_ok api cs s'))"

text \<open>The packet of the caller is claimed exactly if the library says so.\<close>

definition client_ok :: "netmap_api \<Rightarrow> int list \<Rightarrow> netmap_state \<times> peak_transfer \<Rightarrow> bool" where
  "client_ok api fds s \<longleftrightarrow> netmap_inv api fds (fst s) \<and> private_data (snd s) = priv_used (netmap_priv (fst s))"

lemma start_ok: "client_ok api fds (netmap_start ifs fds, transfer_zero)"
  by (simp add: client_ok_def netmap_inv_def netmap_start_def self_ok_def rings_ok_def priv_ok_def devs_def names_ok_def priv_zero_def transfer_zero_def)

lemma netmap_inv_mutex [simp]: "netmap_inv api fds (st\<lparr>netmap_mutex := b\<rparr>) = netmap_inv api fds st"
  by (rule netmap_inv_cong) simp_all

lemma attach_call_ok:
  assumes "api_ok api" "netmap_inv api fds st" "sys_ok api st sys" "name_ok name type"
  shows "\<exists>ret st'. netmap_attach api sys (Some name) type st = Some (ret, st') \<and> netmap_inv api fds st' \<and> netmap_priv st' = netmap_priv st"
proof (cases "netmap_mutex st")
  case True
  then show ?thesis using assms(2) by (simp add: netmap_attach_def)
next
  case False
  from netmap_attach_ok[OF assms False] show ?thesis by (auto simp: attached_def)
qed

lemma detach_call_ok:
  assumes api: "api_ok api" and inv: "netmap_inv api fds st" and idle: "\<not> priv_used (netmap_priv st)"
  shows "netmap_inv api fds (snd (peak_netmap_detach name st)) \<and> netmap_priv (snd (peak_netmap_detach name st)) = netmap_priv st"
proof (cases "netmap_mutex st \<or> name = None")
  case True
  then show ?thesis using inv by (auto simp: peak_netmap_detach_def peak_netmap_find_def unlock_def)
next
  case False
  then obtain n where n: "name = Some n" and free: "\<not> netmap_mutex st" by auto
  have zero: "netmap_priv st = priv_zero" using inv idle by (simp add: netmap_inv_def priv_ok_def)
  show ?thesis
  proof (cases "\<exists>dev \<in> set (devs st). dev_ifname dev = n")
    case True
    with peak_netmap_detach_ok[OF inv free, of n] obtain dev st' where
      "peak_netmap_detach name st = (0, st')" and d: "detached st dev st'" "self_ok (nm_self st')" unfolding n by auto
    moreover have "netmap_inv api fds st'" by (rule detached_inv[OF api inv d]) (simp add: zero priv_zero_def)
    ultimately show ?thesis by (simp add: detached_def)
  next
    case False
    with peak_netmap_detach_ok[OF inv free, of n] inv show ?thesis unfolding n by simp
  qed
qed

lemma netmap_call_ok:
  assumes api: "api_ok api" and s: "client_ok api fds s" and c: "call_ok api c s"
  shows "\<exists>s'. netmap_call api c s = Some (Return s') \<and> client_ok api fds s'"
proof -
  obtain st p where sp: "s = (st, p)" by (cases s)
  with s have inv: "netmap_inv api fds st" and p: "private_data p = priv_used (netmap_priv st)" by (auto simp: client_ok_def)
  show ?thesis
  proof (cases c)
    case (Attach sys name type)
    with attach_call_ok[OF api inv, of sys name type] c p sp show ?thesis by (auto simp: client_ok_def)
  next
    case (Detach name)
    with detach_call_ok[OF api inv] c p sp show ?thesis by (auto simp: client_ok_def)
  next
    case (Recv poll timeout name mode)
    with peak_netmap_recv_ok[OF inv, of poll timeout name mode] c p sp show ?thesis
      by (auto simp: recv_ok_def client_ok_def split: option.splits)
  next
    case (Send txsync name mode)
    with send_ok[OF api inv, of txsync p name mode] c p sp show ?thesis by (auto simp: client_ok_def)
  next
    case Forward
    with release_slot_ok[OF api inv, of p True] c p sp show ?thesis by (auto simp: client_ok_def peak_netmap_forward_def)
  qed (use c sp inv p in \<open>auto simp: client_ok_def peak_netmap_lock_def peak_netmap_unlock_def unlock_def\<close>)
qed

lemma netmap_calls_ok: "api_ok api \<Longrightarrow> client_ok api fds s \<Longrightarrow> calls_ok api cs s \<Longrightarrow> \<exists>s'. netmap_calls api cs s = Some (Return s') \<and> client_ok api fds s'"
proof (induction cs arbitrary: s)
  case (Cons c cs)
  from netmap_call_ok[OF Cons.prems(1,2), of c] Cons.prems(3) obtain s' where "netmap_call api c s = Some (Return s')" "client_ok api fds s'" by auto
  with Cons.IH[of s'] Cons.prems show ?case by auto
qed simp

section \<open>A device with one packet\<close>

text \<open>The functions of \<open>net/netmap_user.h\<close> on an interface with one receive and one transmit ring and the two host rings.\<close>

definition sample_api :: netmap_api where
  "sample_api = \<lparr>nm_ring_empty = (\<lambda>ring. ring_cur ring = ring_tail ring),
     nm_ring_next = (\<lambda>ring i. if i + 1 = num_slots ring then 0 else i + 1),
     NETMAP_IF = At, NETMAP_RXRING = (\<lambda>nifp i. At (mapping nifp) (i + 2)), NETMAP_TXRING = (\<lambda>nifp i. At (mapping nifp) i),
     NETMAP_BUF = (\<lambda>r idx. unat idx), NETMAP_RING_MASK = 0xfff, IF_FLAGS = 0x20001, IF_CAPS = 0x303\<rparr>"

definition sample_ring :: "u32 \<Rightarrow> u32 \<Rightarrow> netmap_ring" where
  "sample_ring tail idx = \<lparr>num_slots = 2, ring_head = 0, ring_cur = 0, ring_tail = tail,
     ring_slot = [\<lparr>buf_idx = idx, slot_len = 60, ns_buf_changed = False, ns_forward = False\<rparr>,
                  \<lparr>buf_idx = idx + 1, slot_len = 0, ns_buf_changed = False, ns_forward = False\<rparr>],
     ring_ts = \<lparr>tv_sec = 7, tv_usec = 5\<rparr>, nr_forward = False, nr_timestamp = False\<rparr>"

definition sample_sys :: netmap_sys where
  "sample_sys = \<lparr>sys_open = 3, sys_gifflags = False, sys_sifflags = False, sys_gifcap = False, sys_sifcap = False,
     sys_regif = (\<lambda>req. Some (req\<lparr>nr_memsize := 4096, nr_offset := 0, nr_rx_rings := 1\<rparr>)),
     sys_mmap = Some (1, [0 \<mapsto> sample_ring 1 10, 1 \<mapsto> sample_ring 1 20, 2 \<mapsto> sample_ring 1 30, 3 \<mapsto> sample_ring 0 40])\<rparr>"

lemma sample_api_ok: "api_ok sample_api"
proof -
  have "(if i + 1 = n then 0 else i + 1) < n" if "i < n" for i n :: u32
  proof (cases "i + 1 = n")
    case True
    then show ?thesis using that by (auto simp: word_less_nat_alt)
  next
    case False
    have "i + 1 \<le> n" by (rule inc_le[OF that])
    with False show ?thesis by simp
  qed
  then show ?thesis unfolding api_ok_def sample_api_def by simp
qed

lemma sample_ring_ok: "2 \<le> idx \<Longrightarrow> 2 \<le> idx + 1 \<Longrightarrow> ring_ok (sample_ring tail idx)"
  by (simp add: ring_ok_def sample_ring_def)

lemma atMost_1: "{..(1 :: u32)} = {0, 1}"
proof -
  have "i \<le> 1 \<longleftrightarrow> i = 0 \<or> i = 1" for i :: u32
    by (auto simp: word_le_nat_alt word_unat_eq_iff le_Suc_eq)
  then show ?thesis by auto
qed

lemma sample_sys_ok: "(\<And>r. mapping r = 1 \<Longrightarrow> rings st r = None) \<Longrightarrow> sys_ok sample_api st sample_sys"
  by (auto simp: sys_ok_def sample_sys_def sample_api_def dev_rings_def atMost_1 sample_ring_ok ran_def split: if_splits)

text \<open>The device is attached, with its packet waiting or claimed.\<close>

definition sample_dev :: peak_netmap_dev where
  "sample_dev = \<lparr>dev_ifname = ''em0'', dev_nifp = At 1 0, dev_mem = 1, dev_fd = 3, dev_type = NR_REG_ALL_NIC, dev_memsize = 4096,
     dev_begin = 0, dev_end = 1\<rparr>"

definition sample_state :: "bool \<Rightarrow> netmap_state" where
  "sample_state claim = \<lparr>nm_self = \<lparr>nm_count = 1, nm_last = 0, nm_dev = sample_dev # replicate 63 dev_zero,
     nm_fd = \<lparr>poll_fd = 3, poll_in = False, poll_rin = False, poll_rerr = False\<rparr> # replicate 63 \<lparr>poll_fd = 0, poll_in = False, poll_rin = False, poll_rerr = False\<rparr>\<rparr>,
     netmap_priv = (if claim then \<lparr>priv_ring = Some (At 1 2), priv_used = True, priv_i = 0\<rparr> else priv_zero),
     netmap_ts = \<lparr>tv_sec = 0, tv_usec = 0\<rparr>,
     rings = [At 1 0 \<mapsto> sample_ring 1 10, At 1 1 \<mapsto> sample_ring 1 20, At 1 2 \<mapsto> sample_ring 1 30, At 1 3 \<mapsto> sample_ring 0 40],
     netmap_mutex = False, open_fds = [3, 0], if_state = (\<lambda>_. (0, 0))\<rparr>"

lemma sample_rings: "rings (sample_state claim) = [At 1 0 \<mapsto> sample_ring 1 10, At 1 1 \<mapsto> sample_ring 1 20, At 1 2 \<mapsto> sample_ring 1 30, At 1 3 \<mapsto> sample_ring 0 40]"
  by (simp add: sample_state_def)

lemma sample_priv: "netmap_priv (sample_state claim) = (if claim then \<lparr>priv_ring = Some (At 1 2), priv_used = True, priv_i = 0\<rparr> else priv_zero)"
  by (simp add: sample_state_def)

lemma sample_devs: "devs (sample_state claim) = [sample_dev]"
  by (simp add: devs_def sample_state_def)

lemma sample_state_inv: "netmap_inv sample_api [0] (sample_state claim)"
proof -
  have "self_ok (nm_self (sample_state claim))" by (simp add: self_ok_def sample_state_def sample_dev_def)
  moreover have "rings_ok (rings (sample_state claim))"
    by (auto simp: rings_ok_def sample_state_def sample_ring_ok ran_def split: if_splits)
  moreover have "priv_ok (sample_state claim)" by (simp add: priv_ok_def sample_state_def priv_zero_def sample_ring_def)
  moreover have "dev_ok sample_api (rings (sample_state claim)) sample_dev"
    by (simp add: dev_ok_def sample_state_def sample_dev_def dev_rings_def atMost_1 sample_api_def)
  ultimately show ?thesis
    by (simp add: netmap_inv_def sample_devs names_ok_def) (simp add: sample_state_def sample_dev_def)
qed

section \<open>Properties\<close>

text \<open>C24. Whatever one thread does with the interface, in any order, as long as it forwards only a claimed packet, detaches
  nothing while it holds one and does not lock twice: every call returns without touching memory outside the mappings or
  reporting a bogus index; the table, the descriptors and the mappings always belong together, and a packet is claimed exactly
  if the caller holds one.\<close>

theorem netmap_history_safe:
  assumes "api_ok api" "calls_ok api cs (netmap_start ifs fds, transfer_zero)"
  shows "\<exists>st p. netmap_calls api cs (netmap_start ifs fds, transfer_zero) = Some (Return (st, p)) \<and> netmap_inv api fds st \<and>
    private_data p = priv_used (netmap_priv st)"
  using netmap_calls_ok[OF assms(1) start_ok assms(2)] by (force simp: client_ok_def)

text \<open>The device is attached and its packet is received, sent back without a copy and not missed: nothing is left to receive.\<close>

theorem netmap_history_safe_witness:
  "\<exists>st p. netmap_calls sample_api [Attach sample_sys ''em0'' NR_REG_ALL_NIC, Recv (\<lambda>fds t rs. (0, fds, rs)) 0 None NETMAP_DFLT,
      Send (\<lambda>fd rs. rs) (Some ''em0'') NETMAP_WIRE, Recv (\<lambda>fds t rs. (0, fds, rs)) 0 (Some ''em0'') NETMAP_WIRE]
    (netmap_start (\<lambda>_. (0, 0)) [0, 1, 2], transfer_zero) = Some (Return (st, p)) \<and> netmap_inv sample_api [0, 1, 2] st \<and>
    private_data p = priv_used (netmap_priv st)"
proof -
  have "sys_ok sample_api (netmap_start (\<lambda>_. (0, 0)) [0, 1, 2]) sample_sys" by (rule sample_sys_ok) (simp add: netmap_start_def)
  then show ?thesis
    by (intro netmap_history_safe sample_api_ok) (simp add: name_ok_def poll_ok_def txsync_ok_def sync_ok_def)
qed

text \<open>C25. Sending the claimed packet to an attached device takes the first of its transmit rings that has room. There the
  packet is in the next slot with its length, no buffer of any ring has been lost or duplicated, both rings have moved on and
  the packet is released; if there is no room, nothing has changed and the packet is still claimed.\<close>

theorem netmap_send_zero_copy:
  assumes "api_ok api" "netmap_inv api fds st" "private_data packet" "priv_used (netmap_priv st)"
    and "peak_netmap_find (nm_self st) (Some name) NR_REG_PIPE_SLAVE = i" "i < unat (nm_count (nm_self st))"
  shows "case room api (rings st) (devs st ! i) mode of
      [] \<Rightarrow> peak_netmap_send api txsync packet (Some name) mode st = Some (1, packet, st)
    | tx # _ \<Rightarrow> \<exists>c rs. priv_ring (netmap_priv st) = Some c \<and>
        peak_netmap_send api txsync packet (Some name) mode st = Some (0, transfer_zero, scrub (txsync (dev_fd (devs st ! i)) rs) st) \<and>
        zero_copy api c (priv_i (netmap_priv st)) (NETMAP_TXRING api (dev_nifp (devs st ! i)) tx) (rings st) rs"
  by (rule send_named[OF assms])

text \<open>The received packet goes back to the wire.\<close>

theorem netmap_send_zero_copy_witness:
  "\<exists>rs. peak_netmap_send sample_api (\<lambda>fd rs. rs) (transfer_zero\<lparr>private_data := True\<rparr>) (Some ''em0'') NETMAP_WIRE (sample_state True) =
      Some (0, transfer_zero, scrub rs (sample_state True)) \<and> buffers rs = buffers (rings (sample_state True)) \<and>
    map_option buf_idx (slot_at (At 1 0) 0 rs) = Some 30"
proof -
  have find: "peak_netmap_find (nm_self (sample_state True)) (Some ''em0'') NR_REG_PIPE_SLAVE = 0"
    by (simp add: peak_netmap_find_def sample_state_def sample_dev_def)
  have "room sample_api (rings (sample_state True)) (devs (sample_state True) ! 0) NETMAP_WIRE = [0]"
    by (simp add: room_def sample_devs writable_def wire_rings_def sample_rings sample_dev_def sample_api_def sample_ring_def)
  with netmap_send_zero_copy[OF sample_api_ok sample_state_inv _ _ find, of "transfer_zero\<lparr>private_data := True\<rparr>" "\<lambda>fd rs. rs" NETMAP_WIRE]
  have "\<exists>rs. peak_netmap_send sample_api (\<lambda>fd rs. rs) (transfer_zero\<lparr>private_data := True\<rparr>) (Some ''em0'') NETMAP_WIRE (sample_state True) =
      Some (0, transfer_zero, scrub rs (sample_state True)) \<and> zero_copy sample_api (At 1 2) 0 (At 1 0) (rings (sample_state True)) rs"
    by (simp add: sample_priv sample_devs) (simp add: sample_state_def sample_dev_def sample_api_def)
  then obtain rs where "peak_netmap_send sample_api (\<lambda>fd rs. rs) (transfer_zero\<lparr>private_data := True\<rparr>) (Some ''em0'') NETMAP_WIRE (sample_state True) =
      Some (0, transfer_zero, scrub rs (sample_state True))" "zero_copy sample_api (At 1 2) 0 (At 1 0) (rings (sample_state True)) rs" by blast
  moreover then have "map_option buf_idx (slot_at (At 1 0) 0 rs) = Some 30"
    by (auto simp: zero_copy_def sample_rings slot_at_def[of _ _ "[_ \<mapsto> _, _ \<mapsto> _, _ \<mapsto> _, _ \<mapsto> _]"] sample_ring_def)
  ultimately show ?thesis by (auto simp: zero_copy_def)
qed

text \<open>C26. Receiving from any device serves them in turn: it claims the packet of the first device behind the last one served
  that has a packet, without waiting, and it comes to wait in \<open>poll(2)\<close> only if no ring of any device has one. The time stamp
  does not fall back by less than three seconds.\<close>

theorem netmap_recv_in_turn:
  assumes "netmap_inv api fds st" "\<not> priv_used (netmap_priv st)"
  shows "case filter (has_packet api mode st) (turn (unat (nm_count (nm_self st))) (unat (nm_count (nm_self st))) (unat (nm_last (nm_self st)))) of
      [] \<Rightarrow> any_recv api mode st = Some (Return (None, st)) \<and> (\<forall>d < length (devs st). waiting api (rings st) (devs st ! d) mode = [])
    | d # _ \<Rightarrow> \<exists>p st' rx. peak_netmap_recv api poll timeout None mode st = Some (Return (Some p, st'\<lparr>nm_self := (nm_self st')\<lparr>nm_last := of_nat d\<rparr>\<rparr>)) \<and>
        d < length (devs st) \<and> rx \<in> set (waiting api (rings st) (devs st ! d) mode) \<and>
        claimed api d (NETMAP_RXRING api (dev_nifp (devs st ! d)) rx) st p st'"
proof -
  let ?c = "unat (nm_count (nm_self st))"
  let ?ds = "filter (has_packet api mode st) (turn ?c ?c (unat (nm_last (nm_self st))))"
  have len: "length (devs st) = ?c" using netmap_invD(1)[OF assms(1)] by simp
  show ?thesis
  proof (cases ?ds)
    case Nil
    have "waiting api (rings st) (devs st ! d) mode = []" if "d < ?c" for d
    proof -
      have "0 < ?c" using that by simp
      from set_turn[OF this] that Nil have "\<not> has_packet api mode st d" by (auto simp: filter_empty_conv)
      then show ?thesis by (simp add: has_packet_def)
    qed
    with any_recv_claims[OF assms(1), of mode] Nil len show ?thesis by simp
  next
    case (Cons d ds)
    with any_recv_claims[OF assms(1), of mode] obtain p st' rx where
      any: "any_recv api mode st = Some (Return (Some p, st'\<lparr>nm_self := (nm_self st')\<lparr>nm_last := of_nat d\<rparr>\<rparr>))"
      and rest: "d < ?c" "rx \<in> set (waiting api (rings st) (devs st ! d) mode)"
        "claimed api d (NETMAP_RXRING api (dev_nifp (devs st ! d)) rx) st p st'" by auto
    have "peak_netmap_recv api poll timeout None mode st = Some (Return (Some p, st'\<lparr>nm_self := (nm_self st')\<lparr>nm_last := of_nat d\<rparr>\<rparr>))"
      using any assms(2) by (simp add: peak_netmap_recv_def)
    with Cons rest len show ?thesis by auto
  qed
qed

text \<open>The packet on the wire is claimed: the host ring is empty.\<close>

theorem netmap_recv_in_turn_witness:
  "\<exists>p st'. peak_netmap_recv sample_api (\<lambda>fds t rs. (0, fds, rs)) 0 None NETMAP_DFLT (sample_state False) = Some (Return (Some p, st')) \<and>
    pkt_id p = 30 \<and> pkt_len p = 60"
proof -
  have wait: "waiting sample_api (rings (sample_state False)) sample_dev NETMAP_DFLT = [0]"
    by (simp add: waiting_def readable_def host_rings_def wire_rings_def sample_rings sample_dev_def sample_api_def sample_ring_def)
  have c: "unat (nm_count (nm_self (sample_state False))) = 1" "\<not> priv_used (netmap_priv (sample_state False))"
    by (simp_all add: sample_state_def priv_zero_def)
  have turn: "filter (has_packet sample_api NETMAP_DFLT (sample_state False)) (turn 1 1 (unat (nm_last (nm_self (sample_state False))))) = [0]"
    by (simp add: turn_def has_packet_def sample_devs wait)
  have "\<exists>p st' rx. peak_netmap_recv sample_api (\<lambda>fds t rs. (0, fds, rs)) 0 None NETMAP_DFLT (sample_state False) =
      Some (Return (Some p, st'\<lparr>nm_self := (nm_self st')\<lparr>nm_last := of_nat 0\<rparr>\<rparr>)) \<and> 0 < length (devs (sample_state False)) \<and>
      rx \<in> set (waiting sample_api (rings (sample_state False)) (devs (sample_state False) ! 0) NETMAP_DFLT) \<and>
      claimed sample_api 0 (NETMAP_RXRING sample_api (dev_nifp (devs (sample_state False) ! 0)) rx) (sample_state False) p st'"
    using netmap_recv_in_turn[OF sample_state_inv c(2), of NETMAP_DFLT "\<lambda>fds t rs. (0, fds, rs)" 0] unfolding c(1) turn by simp
  then obtain p st' where p: "peak_netmap_recv sample_api (\<lambda>fds t rs. (0, fds, rs)) 0 None NETMAP_DFLT (sample_state False) = Some (Return (Some p, st'))"
    and cl: "\<exists>s. claimed sample_api 0 (NETMAP_RXRING sample_api (dev_nifp sample_dev) 0) (sample_state False) p s" by (auto simp: sample_devs wait)
  have "NETMAP_RXRING sample_api (dev_nifp sample_dev) 0 = At 1 2" by (simp add: sample_api_def sample_dev_def)
  with cl have "pkt_id p = 30 \<and> pkt_len p = 60" by (auto simp: claimed_def sample_rings sample_ring_def)
  with p show ?thesis by blast
qed

text \<open>A successful attach found the table with room and no device in its way; the device it added is the one that a detach by a new
  name finds.\<close>

lemma netmap_attach_granted:
  assumes inv: "netmap_inv api fds st" and name: "name_ok name type" and free: "\<not> netmap_mutex st"
    and att: "netmap_attach api' sys (Some name) type st = Some (0, st')"
  shows "length (devs st) < NETMAP_MAX" "\<not> (\<exists>dev. dev \<in> set (devs st) \<and> candidate name (attach_ignore type) dev)"
proof -
  have len: "length name < IFNAMSIZ" using name by (simp add: name_ok_def)
  have "\<not> (peak_netmap_find (nm_self st) (Some name) (attach_ignore type) < unat (nm_count (nm_self st)) \<or> NETMAP_MAX \<le> unat (nm_count (nm_self st)))"
    using att unfolding netmap_attach_eq[OF free len] by (auto simp: Let_def)
  then show "length (devs st) < NETMAP_MAX" "\<not> (\<exists>dev. dev \<in> set (devs st) \<and> candidate name (attach_ignore type) dev)"
    using find_candidate(1)[OF netmap_invD(1)[OF inv], of name "attach_ignore type"] by (auto simp: devs_def)
qed

lemma attached_detach:
  assumes "attached api fds name type st 0 st'"
  shows "\<exists>st''. peak_netmap_detach (Some name) st' = (0, st'') \<and>
    (name \<notin> dev_ifname ` set (devs st) \<longrightarrow> mset (devs st'') = mset (devs st) \<and> rings st'' = rings st \<and> open_fds st'' = open_fds st)"
proof -
  from assms obtain dev where d: "devs st' = devs st @ [dev]" "dev_ifname dev = name" "open_fds st' = dev_fd dev # open_fds st"
    "\<And>r. if mapping r = dev_mem dev then rings st r = None else rings st' r = rings st r"
    and inv: "netmap_inv api fds st'" and free: "\<not> netmap_mutex st'" by (auto simp: attached_def)
  have "\<exists>x \<in> set (devs st'). dev_ifname x = name" using d by simp
  with peak_netmap_detach_ok[OF inv free, of name] obtain x st'' where det: "peak_netmap_detach (Some name) st' = (0, st'')"
    and x: "x \<in> set (devs st')" "dev_ifname x = name" "detached st' x st''" by auto
  have "mset (devs st'') = mset (devs st) \<and> rings st'' = rings st \<and> open_fds st'' = open_fds st" if "name \<notin> dev_ifname ` set (devs st)"
  proof -
    have "x = dev" using x(1,2) d(1) that by auto
    with x(3) d(1,3) have same: "mset (devs st'') = mset (devs st)" "open_fds st'' = open_fds st"
      and rings: "\<And>r. rings st'' r = (if mapping r = dev_mem dev then None else rings st' r)" by (auto simp: detached_def)
    have "rings st'' = rings st"
    proof
      show "rings st'' r = rings st r" for r using rings[of r] d(4)[of r] by (simp split: if_splits)
    qed
    with same show ?thesis by simp
  qed
  with det show ?thesis by blast
qed

text \<open>C27. Attaching under a name of fewer than sixteen bytes, which for a pipe is a number, always returns. It succeeds only if the
  interface is not locked, the table has room, and no device of that name stands in the way, which is every device of that name
  except the other end of a pipe; a failure leaves table, mappings and descriptors as they were. After a success the name can be
  detached, and if no device had the name before, table, mappings and descriptors are then as they were. If the other end of a pipe
  had the name already, \<open>peak_netmap_detach\<close> may take that one, so nothing more is claimed.\<close>

theorem netmap_attach_detach:
  assumes "api_ok api" "netmap_inv api fds st" "sys_ok api st sys" "name_ok name type"
  shows "\<exists>ret st'. netmap_attach api sys (Some name) type st = Some (ret, st') \<and>
    (if ret = 0 then \<not> netmap_mutex st \<and> length (devs st) < NETMAP_MAX \<and> \<not> (\<exists>dev. dev \<in> set (devs st) \<and> candidate name (attach_ignore type) dev) \<and>
       (\<exists>st''. peak_netmap_detach (Some name) st' = (0, st'') \<and>
         (if name \<in> dev_ifname ` set (devs st) then True
          else mset (devs st'') = mset (devs st) \<and> rings st'' = rings st \<and> open_fds st'' = open_fds st))
     else ret = 1 \<and> devs st' = devs st \<and> rings st' = rings st \<and> open_fds st' = open_fds st)"
proof (cases "netmap_mutex st")
  case True
  then show ?thesis by (simp add: netmap_attach_def)
next
  case free: False
  from netmap_attach_ok[OF assms free] obtain ret st' where att: "netmap_attach api sys (Some name) type st = Some (ret, st')"
    and a: "attached api fds name type st ret st'" by blast
  show ?thesis
  proof (cases "ret = 0")
    case False
    with att a show ?thesis by (auto simp: attached_def)
  next
    case True
    then have ok: "length (devs st) < NETMAP_MAX" "\<not> (\<exists>dev. dev \<in> set (devs st) \<and> candidate name (attach_ignore type) dev)"
      using netmap_attach_granted[OF assms(2,4) free, of api sys st'] att by simp_all
    from True a have "\<exists>st''. peak_netmap_detach (Some name) st' = (0, st'') \<and>
        (name \<notin> dev_ifname ` set (devs st) \<longrightarrow> mset (devs st'') = mset (devs st) \<and> rings st'' = rings st \<and> open_fds st'' = open_fds st)"
      by (intro attached_detach) simp
    with att True free ok show ?thesis by auto
  qed
qed

text \<open>The interface of the example, attached and detached again.\<close>

theorem netmap_attach_detach_witness:
  "\<exists>ret st'. netmap_attach sample_api sample_sys (Some ''em0'') NR_REG_ALL_NIC (netmap_start (\<lambda>_. (0, 0)) [0]) = Some (ret, st') \<and>
    (if ret = 0 then \<exists>st''. peak_netmap_detach (Some ''em0'') st' = (0, st'') \<and> mset (devs st'') = mset (devs (netmap_start (\<lambda>_. (0, 0)) [0])) \<and>
       rings st'' = rings (netmap_start (\<lambda>_. (0, 0)) [0]) \<and> open_fds st'' = open_fds (netmap_start (\<lambda>_. (0, 0)) [0])
     else ret = 1 \<and> devs st' = devs (netmap_start (\<lambda>_. (0, 0)) [0]) \<and> rings st' = rings (netmap_start (\<lambda>_. (0, 0)) [0]) \<and>
       open_fds st' = open_fds (netmap_start (\<lambda>_. (0, 0)) [0]))"
proof -
  let ?st = "netmap_start (\<lambda>_. (0, 0)) [0]"
  have sys: "sys_ok sample_api ?st sample_sys" by (rule sample_sys_ok) (simp add: netmap_start_def)
  have inv: "netmap_inv sample_api [0] ?st" using start_ok[of sample_api "[0]"] by (simp add: client_ok_def)
  have name: "name_ok ''em0'' NR_REG_ALL_NIC" by (simp add: name_ok_def)
  have "''em0'' \<notin> dev_ifname ` set (devs ?st)" by (simp add: netmap_start_def devs_def)
  with netmap_attach_detach[OF sample_api_ok inv sys name] show ?thesis by (elim exE conjE) (auto split: if_splits)
qed

text \<open>A name that does not fit \<open>IFNAMSIZ\<close> is cut off in the table, so the device cannot be found by it again.\<close>

lemma netmap_long_name:
  assumes "netmap_inv api fds st" "\<not> netmap_mutex st" "\<forall>dev \<in> set (devs st). length (dev_ifname dev) < IFNAMSIZ" "IFNAMSIZ \<le> length name"
  shows "peak_netmap_detach (Some name) st = (1, st)"
proof -
  have "\<not> (\<exists>dev \<in> set (devs st). dev_ifname dev = name)" using assms(3,4) by fastforce
  with peak_netmap_detach_ok[OF assms(1,2), of name] show ?thesis by auto
qed

end
