(* ===== verification/Peak_Flows.thy ===== *)
theory Peak_Flows
  imports Peak_Track Peak_Load
begin

text \<open>
  The flow tracker as the programs use it: without time-outs (\<open>peak_track_init(n, 1)\<close>), the key object on the stack filled
  by \<open>TRACK_KEY\<close>, a full tracker being fatal. Seen from there, tree, queue, pool and store are a table of flows in the order of
  their first packets, in which the id of a flow is its position.
\<close>

definition flow_pos :: "peak_track \<Rightarrow> peak_track list \<Rightarrow> nat" where
  "flow_pos key tbl = length (takeWhile (\<lambda>t. track_key t \<noteq> track_key key) tbl)"

text \<open>The position of the flow with the key of \<open>key\<close> and the table with it; \<open>None\<close> when there is no room for a new flow.\<close>

definition flow_acquire :: "nat \<Rightarrow> peak_track \<Rightarrow> peak_track list \<Rightarrow> (nat \<times> peak_track list) option" where
  "flow_acquire cap key tbl =
    (let i = flow_pos key tbl
     in if i < length tbl then Some (i, tbl)
        else if length tbl < cap then Some (i, tbl @ [key\<lparr>li := (0, 0), fid := of_nat i\<rparr>])
        else None)"

definition flow_table :: "nat set \<Rightarrow> nat \<Rightarrow> peak_track list \<Rightarrow> track_sys \<Rightarrow> bool" where
  "flow_table C k tbl s \<longleftrightarrow> track_inv C s \<and> k \<notin> C \<and> no_timeout (tracks s) \<noteq> 0 \<and> next_flow_id s = of_nat (length tbl) \<and>
     store s ` set (tos (tracks s)) = set tbl \<and> length tbl = length (tos (tracks s)) \<and>
     distinct (map track_key tbl) \<and> map fid tbl = map of_nat [0..<length tbl]"

lemma flow_pos_less: "flow_pos key tbl < length tbl \<longleftrightarrow> track_key key \<in> track_key ` set tbl"
  unfolding flow_pos_def
proof (induction tbl)
  case (Cons t tbl)
  then show ?case by (auto intro!: rev_image_eqI)
qed simp

lemma flow_pos_nth: "flow_pos key tbl < length tbl \<Longrightarrow> track_key (tbl ! flow_pos key tbl) = track_key key"
  using nth_length_takeWhile[of "\<lambda>t. track_key t \<noteq> track_key key" tbl] by (simp add: flow_pos_def)

lemma flow_pos_le: "flow_pos key tbl \<le> length tbl"
  by (simp add: flow_pos_def length_takeWhile_le)

lemma flow_pos_cong: "track_key key = track_key key' \<Longrightarrow> flow_pos key tbl = flow_pos key' tbl"
  by (simp add: flow_pos_def)

lemma flow_acquire_bounds:
  assumes "flow_acquire cap key tbl = Some (i, tbl')"
  shows "i < length tbl'" "length tbl' \<le> Suc (length tbl)" "track_key (tbl' ! i) = track_key key" "i = flow_pos key tbl"
    "length tbl' \<le> max (length tbl) cap"
  using assms flow_pos_nth[of key tbl] flow_pos_le[of key tbl]
  by (auto simp: flow_acquire_def Let_def track_key_def nth_append split: if_splits)

lemma flow_acquire_full: "flow_acquire cap key tbl = None \<Longrightarrow> cap \<le> length tbl"
  by (auto simp: flow_acquire_def Let_def split: if_splits)

text \<open>The caller fills its key object, and writes into the flows it gets, except into their keys and ids.\<close>

lemma table_write_ref:
  assumes "flow_table C k tbl s"
  shows "flow_table C k tbl (s\<lparr>store := (store s)(k := key)\<rparr>)"
proof -
  from assms have inv: "track_inv C s" and k: "k \<notin> C" by (simp_all add: flow_table_def)
  then have "k \<notin> set (tos (tracks s))" by (auto simp: track_inv_def prealloc_inv_def)
  then have "(store s)(k := key) ` set (tos (tracks s)) = store s ` set (tos (tracks s))" by auto
  with assms track_write_ref(1)[OF inv k] show ?thesis by (simp add: flow_table_def)
qed

lemma track_inv_write:
  assumes "track_inv C s" "track_key flow = track_key (store s f)"
  shows "track_inv C (s\<lparr>store := (store s)(f := flow)\<rparr>)"
proof -
  have bytes: "track_bytes (((store s)(f := flow)) a) = track_bytes (store s a)" for a
    using assms(2) by (auto simp: track_key_def track_bytes_def)
  have "TRACK_CMP ((store s)(f := flow)) = TRACK_CMP (store s)"
    unfolding TRACK_CMP_def bytes ..
  moreover have "track_wf flow = track_wf (store s f)" using assms(2) by (simp add: track_key_def track_wf_def)
  ultimately show ?thesis using assms(1) by (auto simp: track_inv_def)
qed

lemma table_write_flow:
  assumes t: "flow_table C k tbl s" "f \<in> set (tos (tracks s))" "store s f = tbl ! i" "i < length tbl"
    and same: "track_key flow = track_key (tbl ! i)" "fid flow = fid (tbl ! i)"
  shows "flow_table C k (tbl[i := flow]) (s\<lparr>store := (store s)(f := flow)\<rparr>)"
proof -
  from t(1) have inv: "track_inv C s" and img: "store s ` set (tos (tracks s)) = set tbl" and d: "distinct (map track_key tbl)"
    by (simp_all add: flow_table_def)
  have other: "store s a \<noteq> tbl ! i" if "a \<in> set (tos (tracks s))" "a \<noteq> f" for a
    using inj_onD[OF inv_keys_inj[OF inv], of a f] that t(2,3) by metis
  have "distinct tbl" using d by (simp add: distinct_map)
  then have "set (tbl[i := flow]) = insert flow (set tbl - {tbl ! i})" by (simp add: set_update_distinct t(4))
  moreover have "(store s)(f := flow) ` set (tos (tracks s)) = insert flow (set tbl - {tbl ! i})"
    unfolding img[symmetric] using t(2,3) other by (auto simp: image_iff) 
  moreover have "map track_key (tbl[i := flow]) = map track_key tbl" "map fid (tbl[i := flow]) = map fid tbl"
    using same t(4) by (simp_all add: map_update list_update_same_conv)
  moreover have "track_inv C (s\<lparr>store := (store s)(f := flow)\<rparr>)" using track_inv_write[OF inv] same(1) t(3) by simp
  ultimately show ?thesis using t(1) by (simp add: flow_table_def)
qed

lemma track_new_store:
  assumes "track_new s r = Some (Return (Some flow, s'))" "r \<noteq> flow"
  shows "store s' flow = (store s r)\<lparr>li := (0, 0), fid := next_flow_id s\<rparr>"
  using assms by (auto simp: track_new_def Let_def track_zero_def bind_eq_Some_conv split: prod.splits option.splits if_splits)

text \<open>\<open>peak_track_acquire\<close> refines \<open>flow_acquire\<close>.\<close>

lemma table_acquire_old:
  assumes t: "flow_table C k tbl s" and wf: "track_wf (store s k)" and i: "flow_pos (store s k) tbl < length tbl"
  shows "\<exists>f s'. peak_track_acquire s (Some k) = Some (Return (Some f, s')) \<and> flow_table C k tbl s' \<and>
    f \<in> set (tos (tracks s')) \<and> store s' f = tbl ! flow_pos (store s k) tbl"
proof -
  let ?i = "flow_pos (store s k) tbl"
  from t have inv: "track_inv C s" and img: "store s ` set (tos (tracks s)) = set tbl" by (simp_all add: flow_table_def)
  from i img obtain f where f: "f \<in> set (tos (tracks s))" "store s f = tbl ! ?i" by (metis (no_types, lifting) image_iff nth_mem)
  then have "track_key (store s f) = track_key (store s k)" using flow_pos_nth[OF i] by simp
  with f(1) have find: "RB_FIND (TRACK_CMP (store s)) k (flows (tracks s)) = Some f" by (simp add: track_find[OF inv wf])
  let ?s = "s\<lparr>tracks := (tracks s)\<lparr>tos := remove1 f (tos (tracks s)) @ [f]\<rparr>\<rparr>"
  have "set (tos (tracks ?s)) = set (tos (tracks s))" "length (tos (tracks ?s)) = length (tos (tracks s))"
    using inv f(1) by (auto simp: track_inv_def set_remove1_eq length_remove1) (metis One_nat_def Suc_pred length_pos_if_in_set)
  with t track_touch_inv[OF inv f(1)] have "flow_table C k tbl ?s" by (simp add: flow_table_def)
  moreover have "peak_track_acquire s (Some k) = Some (Return (Some f, ?s))" using find by (simp add: peak_track_acquire_def)
  ultimately show ?thesis using f(2) by (intro exI[of _ f] exI[of _ ?s]) simp
qed

lemma table_acquire_new:
  assumes t: "flow_table C k tbl s" and wf: "track_wf (store s k)" and i: "\<not> flow_pos (store s k) tbl < length tbl"
    and room: "length tbl < card C"
  shows "\<exists>f s'. peak_track_acquire s (Some k) = Some (Return (Some f, s')) \<and>
    flow_table C k (tbl @ [(store s k)\<lparr>li := (0, 0), fid := of_nat (length tbl)\<rparr>]) s' \<and>
    f \<in> set (tos (tracks s')) \<and> store s' f = (store s k)\<lparr>li := (0, 0), fid := of_nat (length tbl)\<rparr>"
proof -
  let ?e = "(store s k)\<lparr>li := (0, 0), fid := of_nat (length tbl)\<rparr>"
  from t have inv: "track_inv C s" and k: "k \<notin> C" and img: "store s ` set (tos (tracks s)) = set tbl"
    and len: "length tbl = length (tos (tracks s))" and id: "next_flow_id s = of_nat (length tbl)"
    by (simp_all add: flow_table_def)
  from i have new: "\<forall>a \<in> set (tos (tracks s)). track_key (store s a) \<noteq> track_key (store s k)"
    unfolding flow_pos_less img[symmetric] by (metis imageI)
  have free: "set (tos (tracks s)) \<noteq> C" using inv_full_iff[OF inv] room len by simp
  have "RB_FIND (TRACK_CMP (store s)) k (flows (tracks s)) \<noteq> Some f" for f using new track_find[OF inv wf, of f] by auto
  then have find: "RB_FIND (TRACK_CMP (store s)) k (flows (tracks s)) = None" by blast
  from track_new_ok[OF inv free wf k new] obtain f s' where n: "track_new s k = Some (Return (Some f, s'))" "track_inv C s'"
    "f \<in> C - set (tos (tracks s))" "tos (tracks s') = tos (tracks s) @ [f]" "\<forall>a. a \<noteq> f \<longrightarrow> store s' a = store s a"
    "next_flow_id s' = next_flow_id s + 1" "no_timeout (tracks s') = no_timeout (tracks s)" by blast
  have e: "store s' f = ?e" using track_new_store[OF n(1)] n(3) k id by auto
  have "store s' ` set (tos (tracks s)) = set tbl" unfolding img[symmetric] using n(3,5) by (intro image_cong) auto
  moreover have "track_key ?e \<notin> track_key ` set tbl" using i by (simp add: flow_pos_less track_key_def)
  ultimately have "flow_table C k (tbl @ [?e]) s'"
    using t n(2,4,6,7) e by (simp add: flow_table_def)
  moreover have "peak_track_acquire s (Some k) = Some (Return (Some f, s'))"
    using find n(1) track_recycle_room[OF inv free] by (simp add: peak_track_acquire_def)
  ultimately show ?thesis using n(4) e by (intro exI[of _ f] exI[of _ s']) simp
qed

lemma table_acquire_full:
  assumes t: "flow_table C k tbl s" and wf: "track_wf (store s k)" and i: "\<not> flow_pos (store s k) tbl < length tbl"
    and full: "\<not> length tbl < card C"
  shows "\<exists>s'. peak_track_acquire s (Some k) = Some (Return (None, s'))"
proof -
  from t have inv: "track_inv C s" and img: "store s ` set (tos (tracks s)) = set tbl" and nt: "no_timeout (tracks s) \<noteq> 0"
    and len: "length tbl = length (tos (tracks s))" by (simp_all add: flow_table_def)
  from i have new: "\<forall>a \<in> set (tos (tracks s)). track_key (store s a) \<noteq> track_key (store s k)"
    unfolding flow_pos_less img[symmetric] by (metis imageI)
  have "set (tos (tracks s)) = C" using inv_full_iff[OF inv] full len by simp
  from track_recycle_fails[OF inv this nt] have "track_recycle s = Some (False, s\<lparr>taudit := peak_audit_inc AUDIT_TRACK_FAILED (taudit s)\<rparr>)" .
  moreover have "RB_FIND (TRACK_CMP (store s)) k (flows (tracks s)) \<noteq> Some f" for f using new track_find[OF inv wf, of f] by auto
  then have "RB_FIND (TRACK_CMP (store s)) k (flows (tracks s)) = None" by blast
  ultimately show ?thesis by (simp add: peak_track_acquire_def)
qed

lemma table_acquire:
  assumes "flow_table C k tbl s" "track_wf (store s k)"
  shows "case flow_acquire (card C) (store s k) tbl of
      None \<Rightarrow> \<exists>s'. peak_track_acquire s (Some k) = Some (Return (None, s'))
    | Some (i, tbl') \<Rightarrow> \<exists>f s'. peak_track_acquire s (Some k) = Some (Return (Some f, s')) \<and> flow_table C k tbl' s' \<and>
        f \<in> set (tos (tracks s')) \<and> store s' f = tbl' ! i"
proof (cases "flow_pos (store s k) tbl < length tbl")
  case True
  with table_acquire_old[OF assms] show ?thesis by (simp add: flow_acquire_def)
next
  case False
  then have "flow_pos (store s k) tbl = length tbl" using flow_pos_le[of "store s k" tbl] by simp
  with False table_acquire_new[OF assms False] table_acquire_full[OF assms False] show ?thesis
    by (cases "length tbl < card C") (simp_all add: flow_acquire_def Let_def)
qed

lemma table_init:
  assumes "peak_track_init cap no_to calloc (Some start) = Some self" "no_to \<noteq> 0" "k \<notin> pool_chunks start cap SIZEOF_PEAK_TRACK"
  shows "flow_table (pool_chunks start cap SIZEOF_PEAK_TRACK) k [] \<lparr>tracks = self, store = st, next_flow_id = 0, taudit = a\<rparr>"
  using track_init_inv(1)[OF assms(1), of st 0 a] track_init_inv(2-4)[OF assms(1)] assms(2,3) by (simp add: flow_table_def)

lemma table_exit: "flow_table C k tbl s \<Longrightarrow> peak_track_exit (Some (tracks s)) = Some (Return ())"
  by (auto simp: flow_table_def intro: track_exit_ok)

section \<open>Frames\<close>

text \<open>The packet of a frame in a buffer, if the parser accepts it and it has a network layer; both programs skip the others.\<close>

definition frame_packet :: "u32 \<Rightarrow> mem \<Rightarrow> u32 \<Rightarrow> peak_packet option" where
  "frame_packet ll m len = (case peak_packet_parse m len ll audit_zero of
     Some (Return (bad, p, a)) \<Rightarrow> if bad \<or> net_len p = 0 then None else Some p
   | _ \<Rightarrow> None)"

definition frame_returns :: "u32 \<Rightarrow> mem \<Rightarrow> u32 \<Rightarrow> bool" where
  "frame_returns ll m len = (case peak_packet_parse m len ll audit_zero of Some (Return r) \<Rightarrow> True | _ \<Rightarrow> False)"

text \<open>The result of the parser does not depend on the counters.\<close>

lemma parse_flow_audit:
  "map_option (\<lambda>(bad, p, a). (bad, p)) (parse_flow m q a) = map_option (\<lambda>(bad, p, a). (bad, p)) (parse_flow m q b)"
  unfolding parse_flow_def Let_def by (auto split: Option.bind_splits if_splits prod.splits)

lemma parse_audit:
  assumes "peak_packet_parse m len type a = Some (Return (bad, p, a'))"
  shows "\<exists>b'. peak_packet_parse m len type b = Some (Return (bad, p, b'))"
proof -
  have flow: "\<exists>b'. parse_flow m q b = Some (bad, p, b')" if "parse_flow m q a = Some (bad, p, a')" for q
    using that parse_flow_audit[of m q a b] by (cases "parse_flow m q b") auto
  from assms obtain linked where l: "parse_link m type (packet_zero\<lparr>link_type := type, mac_raw := Some 0, mac_len := len\<rparr>) = Some linked"
    by (auto simp: peak_packet_parse_def Let_def bind_eq_Some_conv)
  show ?thesis
  proof (cases linked)
    case (Some self)
    note parse = peak_packet_parse_def Let_def l Some
    consider "mac_type self = ETHERTYPE_IP" | "mac_type self = ETHERTYPE_IPV6" | "mac_type self \<noteq> ETHERTYPE_IP" "mac_type self \<noteq> ETHERTYPE_IPV6" by blast
    then show ?thesis
    proof cases
      case 1
      with assms obtain b r where r: "parse_ipv4 m self = Some (b, r)" by (auto simp: parse bind_eq_Some_conv)
      show ?thesis using assms flow[of r] by (cases b) (auto simp: parse 1 r)
    next
      case 2
      with assms obtain b r where r: "parse_ipv6 m self = Some (Return (b, r))"
        by (cases "parse_ipv6 m self") (auto simp: parse split: outcome.split_asm)
      show ?thesis using assms flow[of r] by (cases b) (auto simp: parse 2 r)
    qed (use assms in \<open>simp add: parse\<close>)
  qed (use assms l in \<open>simp add: peak_packet_parse_def\<close>)
qed

lemma frame_returns_parse:
  assumes "frame_returns ll m len"
  shows "\<exists>bad p a'. peak_packet_parse m len ll a = Some (Return (bad, p, a')) \<and>
    frame_packet ll m len = (if bad \<or> net_len p = 0 then None else Some p)"
proof -
  from assms obtain bad p a0 where p: "peak_packet_parse m len ll audit_zero = Some (Return (bad, p, a0))"
    by (auto simp: frame_returns_def split: option.splits outcome.splits)
  from parse_audit[OF this, of a] obtain a' where "peak_packet_parse m len ll a = Some (Return (bad, p, a'))" ..
  with p show ?thesis by (intro exI[of _ bad] exI[of _ p] exI[of _ a']) (simp add: frame_packet_def)
qed

lemma netaddr_length: "length (netaddr4 ip) = 16" "netaddr6 m i = Some n \<Longrightarrow> length n = 16"
  by (auto simp: netaddr4_def net_in64_def netaddr6_def split: if_splits)

definition addrs_ok :: "peak_packet \<Rightarrow> bool" where
  "addrs_ok p \<longleftrightarrow> length (net_saddr p) = 16 \<and> length (net_daddr p) = 16"

lemma parse_flow_addrs: "parse_flow m q a = Some (False, p, a') \<Longrightarrow> addrs_ok p = addrs_ok q"
  unfolding parse_flow_def Let_def
  by (auto simp: addrs_ok_def bind_eq_Some_conv same_net_def dest!: tcp_accepted(1) udp_accepted(1) split: if_splits)

lemma parse_ipv4_addrs: "parse_ipv4 m q = Some (False, p) \<Longrightarrow> addrs_ok p"
  unfolding parse_ipv4_def Let_def by (auto simp: addrs_ok_def bind_eq_Some_conv netaddr_length split: if_splits)

lemma parse_ipv6_addrs: "parse_ipv6 m q = Some (Return (b, p)) \<Longrightarrow> addrs_ok p"
proof -
  have "net_saddr p = net_saddr q \<and> net_daddr p = net_daddr q" if "peak_packet_ipv6 m q = Some (Return (b, p))" for q
    using that unfolding peak_packet_ipv6_def Let_def by (auto split: Option.bind_splits ip6_exit.splits if_splits)
  moreover assume "parse_ipv6 m q = Some (Return (b, p))"
  ultimately show ?thesis unfolding parse_ipv6_def by (fastforce simp: addrs_ok_def bind_eq_Some_conv netaddr_length)
qed

lemma parse_link_addrs: "parse_link m type q = Some (Some p) \<Longrightarrow> addrs_ok p = addrs_ok q"
  unfolding parse_link_def by (auto simp: addrs_ok_def bind_eq_Some_conv split: if_splits)

lemma frame_packet_addrs:
  assumes "frame_packet ll m len = Some p"
  shows "addrs_ok p"
proof -
  have zero: "addrs_ok (packet_zero\<lparr>link_type := x, mac_raw := y, mac_len := z\<rparr>)" for x y z by (simp add: addrs_ok_def packet_zero_def)
  from assms obtain a where "peak_packet_parse m len ll audit_zero = Some (Return (False, p, a))"
    by (auto simp: frame_packet_def split: option.splits outcome.splits if_splits)
  then show ?thesis using zero unfolding peak_packet_parse_def Let_def
    by (auto split: Option.bind_splits option.splits if_splits outcome.splits dest: parse_link_addrs)
      (simp_all add: parse_flow_addrs parse_ipv4_addrs parse_ipv6_addrs)
qed

lemma track_key_wf: "addrs_ok p \<Longrightarrow> track_wf (TRACK_KEY t p)"
  by (simp add: addrs_ok_def track_wf_def TRACK_KEY_def Let_def)

lemma track_key_entry: "(TRACK_KEY t p)\<lparr>li := x, fid := y\<rparr> = (TRACK_KEY track_zero p)\<lparr>li := x, fid := y\<rparr>"
  by (simp add: TRACK_KEY_def track_zero_def Let_def)

lemma flow_acquire_key: "flow_acquire cap (TRACK_KEY t p) tbl = flow_acquire cap (TRACK_KEY track_zero p) tbl"
proof -
  have "track_key (TRACK_KEY t p) = track_key (TRACK_KEY track_zero p)" by (simp add: track_key_def TRACK_KEY_def Let_def)
  from flow_pos_cong[OF this] show ?thesis by (simp add: flow_acquire_def Let_def track_key_entry[where t = t])
qed

section \<open>Reading frames\<close>

text \<open>The packets of a file with the buffer in which each is found: what a shorter packet does not overwrite stays.\<close>

fun frames :: "mem \<Rightarrow> packet list \<Rightarrow> (mem \<times> packet) list" where
  "frames buf [] = []"
| "frames buf ((b, s, u) # ps) = (b @ drop (length b) buf, b, s, u) # frames (b @ drop (length b) buf) ps"

lemma length_frames [simp]: "length (frames buf ps) = length ps"
  by (induction buf ps rule: frames.induct) auto

text \<open>The packet that was read last.\<close>

definition frame_loaded :: "peak_load \<Rightarrow> mem \<times> packet \<Rightarrow> bool" where
  "frame_loaded trace = (\<lambda>(m, b, s, u). load_buf trace = m \<and> load_len trace = of_nat (length b) \<and>
     load_ts trace = \<lparr>tv_sec = int (unat s), tv_usec = int (unat u)\<rparr>)"

text \<open>An open capture whose next records are \<open>ps\<close>.\<close>

definition reads :: "peak_load \<Rightarrow> os \<Rightarrow> string \<Rightarrow> packet list \<Rightarrow> bool" where
  "reads self os p ps \<longleftrightarrow> load_ok self \<and> (load_fmt self = PCAP_SWAP_MAGIC \<or> load_fmt self = PCAP_MAGIC) \<and>
     (\<exists>pre. fd_file os (load_fd self) = Some \<lparr>file_path = p, file_pos = length pre, file_write = False\<rparr> \<and>
        content os p = pre @ concat (map (pcap_record (load_fmt self = PCAP_SWAP_MAGIC)) ps)) \<and>
     (\<forall>(b, s, u) \<in> set ps. b \<noteq> [] \<and> length b \<le> SIZEOF_BUF)"

lemma reads_end:
  assumes "reads self os p []"
  obtains os' self' where "peak_load_packet self os = Some (Return (0, self', os'))" "moves (load_fd self) os os'"
    "load_fd self' = load_fd self"
proof -
  let ?self = "self\<lparr>load_len := 0\<rparr>"
  from assms obtain pre where r: "fd_file os (load_fd self) = Some \<lparr>file_path = p, file_pos = length pre, file_write = False\<rparr>" "content os p = pre"
    "load_fmt self = PCAP_SWAP_MAGIC \<or> load_fmt self = PCAP_MAGIC" by (auto simp: reads_def)
  from load_pcap_end[of os ?self] r obtain os' where l: "load_pcap ?self os = Some (?self, os')" by auto
  moreover obtain ret h os1 where h: "sys_read (load_fd self) 16 os = (ret, h, os1)" by (cases "sys_read (load_fd self) 16 os")
  have "length (content os p) < length pre + 16" using r(2) by simp
  with sys_read_eof[OF r(1), of 16] h r(2) have "ret \<noteq> 16" by auto
  with l h have "os' = os1" by (simp add: load_pcap_def)
  then have "moves (load_fd self) os os'" using sys_read_moves[OF r(1) h] by simp
  ultimately show thesis using r(3) by (intro that[of ?self os']) (auto simp: peak_load_packet_def Let_def)
qed

lemma reads_next:
  assumes "reads self os p ((b, s, u) # ps)"
  obtains self' os' where "peak_load_packet self os = Some (Return (of_nat (length b), self', os'))" "reads self' os' p ps"
    "moves (load_fd self) os os'" "load_ll self' = load_ll self"
    "frame_loaded self' (b @ drop (length b) (load_buf self), b, s, u)" "(of_nat (length b) :: u32) \<noteq> 0" "load_fd self' = load_fd self"
proof -
  let ?self = "self\<lparr>load_len := 0\<rparr>" and ?swap = "load_fmt self = PCAP_SWAP_MAGIC"
  define self' where "self' = ?self\<lparr>load_buf := b @ drop (length b) (load_buf self), load_ts := \<lparr>tv_sec = int (unat s), tv_usec = int (unat u)\<rparr>,
    load_len := of_nat (length b)\<rparr>"
  from assms obtain pre where r: "fd_file os (load_fd self) = Some \<lparr>file_path = p, file_pos = length pre, file_write = False\<rparr>" (is "_ = Some ?f")
    "content os p = pre @ pcap_record ?swap (b, s, u) @ concat (map (pcap_record ?swap) ps)"
    "load_fmt self = PCAP_SWAP_MAGIC \<or> load_fmt self = PCAP_MAGIC" "b \<noteq> []" "length b \<le> SIZEOF_BUF" "load_ok self"
    "\<forall>(b, s, u) \<in> set ps. b \<noteq> [] \<and> length b \<le> SIZEOF_BUF" by (auto simp: reads_def)
  let ?g = "?f\<lparr>file_pos := length pre + 16 + length b\<rparr>"
  let ?os = "put_fd os (load_fd self) (Some ?g)"
  have "load_pcap ?self os = Some (self', ?os)"
    using load_pcap_record[of os ?self ?f pre b s u "concat (map (pcap_record ?swap) ps)"] r by (simp add: self'_def load_ok_def)
  then have l: "peak_load_packet self os = Some (Return (of_nat (length b), self', ?os))"
    using r(3) by (auto simp: peak_load_packet_def Let_def self'_def)
  have "reads self' ?os p ps"
    unfolding reads_def using r by (auto simp: self'_def load_ok_def intro!: exI[of _ "pre @ pcap_record ?swap (b, s, u)"])
  moreover have "unat (of_nat (length b) :: u32) = length b" using r(5) by (simp add: unat_of_nat)
  then have "(of_nat (length b) :: u32) \<noteq> 0" using r(4) by (metis length_0_conv unat_0)
  ultimately show thesis using l movesI[OF r(1)] by (intro that[of self' ?os]) (simp_all add: self'_def frame_loaded_def)
qed

lemma init_reads:
  assumes "disk os p = Some (pcap_file swap mid net ps)" "length mid = 16" "\<forall>(b, s, u) \<in> set ps. b \<noteq> [] \<and> length b \<le> SIZEOF_BUF"
  obtains self os' where "peak_load_init (Some p) mem True os = Some (Some self, os')" "load_ll self = net" "reads self os' p ps" "disk os' = disk os"
    "load_buf self = replicate SIZEOF_BUF 0"
proof -
  from init_pcap_file[OF assms(1,2), of mem] obtain self os' where
    i: "peak_load_init (Some p) mem True os = Some (Some self, os')" "load_ok self" "load_ll self = net"
    "load_fmt self = (if swap then PCAP_SWAP_MAGIC else PCAP_MAGIC)" "disk os' = disk os"
    "fd_file os' (load_fd self) = Some \<lparr>file_path = p, file_pos = 24, file_write = False\<rparr>" .
  have swap: "(load_fmt self = PCAP_SWAP_MAGIC) = swap" using i(4) by simp
  let ?pre = "le32_bytes (swap_if swap PCAP_MAGIC) @ mid @ le32_bytes (swap_if swap net)"
  have "reads self os' p ps" unfolding reads_def swap
    using i assms by (auto simp: content_def pcap_file_def intro!: exI[of _ ?pre])
  moreover have "load_buf self = replicate SIZEOF_BUF 0"
    using i(1) unfolding peak_load_init_def Let_def
    by (auto simp: bind_eq_Some_conv split: prod.splits if_splits option.splits)
  ultimately show thesis using i(1,3,5) by (intro that)
qed

section \<open>A sample frame\<close>

definition udp_bytes :: mem where
  "udp_bytes = [0x45, 0, 0, 30, 0, 0, 0, 0, 64, 17, 0, 0, 10, 0, 0, 1, 10, 0, 0, 2, 0, 53, 0x30, 0x39, 0, 10, 0, 0, 0xAA, 0xBB]"

lemma udp_bytes_parsed:
  "peak_packet_parse (udp_bytes @ replicate 32738 0) 30 LINKTYPE_NULL audit_zero = Some (Return (False, udp_packet, audit_zero))"
  by (simp add: udp_bytes_def udp_packet_def peak_packet_parse_def parse_link_def parse_ipv4_def parse_flow_def peak_packet_udp_def load8_def
      decoder_defs packet_zero_def Let_def)

lemma udp_bytes_packet: "frame_packet LINKTYPE_NULL (udp_bytes @ replicate 32738 0) 30 = Some udp_packet"
    "frame_returns LINKTYPE_NULL (udp_bytes @ replicate 32738 0) 30"
  by (simp_all add: frame_packet_def frame_returns_def udp_bytes_parsed udp_packet_def)

lemma length_udp_bytes [simp]: "length udp_bytes = 30"
  by (simp add: udp_bytes_def)

end
