(* ===== verification/Peak_Peek.thy ===== *)
theory Peak_Peek
  imports Peak_Li Peak_Flows Peak_Token
begin

text \<open>
  The program \<open>src/bin/peek/peek.c\<close>, which lists the packets of a capture file with their flows and applications: the composition
  of the reader, the packet parser, the flow tracker, the application detection and the clock.

  The options are the letters \<open>getopt\<close> returns. What is printed is the list of the values, before they are formatted; a packet that
  is skipped prints nothing. The key object on the stack is an address \<open>k\<close> of the store of flows. Whether the library gets its
  memory is a parameter, as is the conversion of times. The loop over the packets of the file is bounded by fuel, \<open>Hang\<close> says that
  it did not suffice.
\<close>

section \<open>peek\<close>

datatype use = USE_APP | USE_APP_LEN | USE_FLOW | USE_IP_LEN | USE_IP_TYPE | USE_TIME | USE_SRC | USE_DST

abbreviation (input) USE_MAX :: nat where "USE_MAX \<equiv> 8"


text \<open>The \<open>switch\<close> over the letters of the command line.\<close>

definition peek_option :: "char \<Rightarrow> use option" where
  "peek_option c =
    (if c = CHR ''A'' then Some USE_APP_LEN else if c = CHR ''a'' then Some USE_APP else if c = CHR ''d'' then Some USE_DST
     else if c = CHR ''f'' then Some USE_FLOW else if c = CHR ''N'' then Some USE_IP_LEN else if c = CHR ''n'' then Some USE_IP_TYPE
     else if c = CHR ''s'' then Some USE_SRC else if c = CHR ''t'' then Some USE_TIME else None)"

text \<open>The array \<open>use_print\<close> has \<open>USE_MAX\<close> elements; a write behind it is \<open>None\<close>. The inner \<open>None\<close> is a call of \<open>usage()\<close>.\<close>

fun peek_options :: "string \<Rightarrow> use list \<Rightarrow> nat \<Rightarrow> (use list \<times> nat) option option" where
  "peek_options [] use_print use_count = Some (Some (use_print, use_count))"
| "peek_options (c # cs) use_print use_count =
    (case peek_option c of
       None \<Rightarrow> Some None
     | Some u \<Rightarrow>
         if length use_print \<le> use_count then None
         else let use_print = use_print[use_count := u]; use_count = use_count + 1
              in if USE_MAX < use_count then Some None else peek_options cs use_print use_count)"








section \<open>The packets on a table of flows\<close>














section \<open>The whole program\<close>



lemma close_file_disk [simp]: "disk (close_file fd os) = disk os" "disk (peak_load_exit self os) = disk os"
  by (simp_all add: peak_load_exit_def close_file_def sys_close_def split: option.splits)


section \<open>Properties\<close>



text \<open>The options of \<open>peek\<close> are recorded in the order of the command line, a wrong letter leads to the usage message. But the
  check of the number of options comes after the element is written: nine valid letters write behind the array of eight.\<close>

lemma peek_options_overflow:
  "peek_options opts (replicate USE_MAX USE_APP) 0 =
    (if list_all (\<lambda>c. peek_option c \<noteq> None) (take 9 opts) then
       if 9 \<le> length opts then None
       else Some (Some (map (the \<circ> peek_option) opts @ replicate (8 - length opts) USE_APP, length opts))
     else Some None)"
proof -
  have gen: "peek_options opts (us @ replicate n USE_APP) (length us) =
    (if list_all (\<lambda>c. peek_option c \<noteq> None) (take (Suc n) opts) then
       if n < length opts then None
       else Some (Some (us @ map (the \<circ> peek_option) opts @ replicate (n - length opts) USE_APP, length us + length opts))
     else Some None)" if "length us + n = 8" for us n opts
    using that
  proof (induction opts arbitrary: us n)
    case (Cons c cs)
    show ?case
    proof (cases "peek_option c")
      case (Some u)
      show ?thesis
      proof (cases n)
        case (Suc n')
        have "(us @ replicate n USE_APP)[length us := u] = (us @ [u]) @ replicate n' USE_APP" by (simp add: Suc)
        with Cons.IH[of "us @ [u]" n'] Cons.prems Some show ?thesis by (simp add: Suc Let_def)
      qed (use Some in simp)
    qed simp
  qed simp
  from gen[of "[]" 8 opts] show ?thesis by (simp add: Suc_le_eq eval_nat_numeral)
qed

end
