(* ===== verification/Peak_Flowsplit.thy ===== *)
theory Peak_Flowsplit
  imports Peak_Flows Peak_Number Peak_Netmap
begin

text \<open>
  The program \<open>src/bin/flowsplit/flowsplit.c\<close>, which distributes the packets of a capture file over several files by flow: the
  composition of the reader, the packet parser, the flow tracker and the writer.

  The options are what \<open>getopt\<close> returns. The ids of the flows are kept beside the files that are written. The loop over the packets
  is bounded by fuel, as in \<open>Peak_Peek\<close>.
\<close>

section \<open>The program\<close>

text \<open>The id of the flow of a packet as \<open>int64_t\<close>, or \<open>-1\<close>.\<close>

definition flowsplit_packet :: "nat \<Rightarrow> mem \<Rightarrow> u32 \<Rightarrow> u32 \<Rightarrow> track_sys \<Rightarrow> (int \<times> track_sys) outcome option" where
  "flowsplit_packet k m len type s =
    obind (peak_packet_parse m len type (taudit s)) (\<lambda>(bad, packet, a).
      let s = s\<lparr>taudit := a\<rparr>
      in if bad \<or> net_len packet = 0 then Some (Return (- 1, s))
         else obind (peak_track_acquire (s\<lparr>store := (store s)(k := TRACK_KEY (store s k) packet)\<rparr>) (Some k)) (\<lambda>(flow, s).
           case flow of None \<Rightarrow> Some Panic | Some f \<Rightarrow> Some (Return (sint (fid (store s f)), s))))"

text \<open>The options \<open>-f\<close> and \<open>-n\<close> with their arguments. The inner \<open>None\<close> is a call of \<open>usage()\<close>.\<close>

fun flowsplit_options :: "(char \<times> string) list \<Rightarrow> u32 \<Rightarrow> u32 \<Rightarrow> (u32 \<times> u32) option option" where
  "flowsplit_options [] flow_count file_count = Some (Some (flow_count, file_count))"
| "flowsplit_options ((c, optarg) # cs) flow_count file_count =
    (if c = CHR ''f'' then do { n \<leftarrow> atoi optarg; flowsplit_options cs (of_int n) file_count }
     else if c = CHR ''n'' then do { n \<leftarrow> atoi optarg; flowsplit_options cs flow_count (of_int n) }
     else Some None)"

text \<open>The name of the input is cut at its last dot, \<open>snprintf\<close> cuts the names of the outputs to the size of their buffer
  (\<open>PATH_MAX\<close> as on the BSD systems, the smallest of the supported ones).\<close>

abbreviation (input) PATH_MAX :: nat where "PATH_MAX \<equiv> 1024"

definition strip_suffix :: "string \<Rightarrow> string" where
  "strip_suffix file = (if CHR ''.'' \<in> set file then rev (tl (dropWhile (\<lambda>c. c \<noteq> CHR ''.'') (rev file))) else file)"

definition split_fn :: "string \<Rightarrow> nat \<Rightarrow> string" where
  "split_fn base i = take (PATH_MAX - 1) (base @ ''_'' @ map (\<lambda>d. char_of (unat d)) (dec_text i) @ ''.pcap'')"

fun open_outs :: "string \<Rightarrow> nat \<Rightarrow> nat \<Rightarrow> os \<Rightarrow> (int list \<times> os) outcome" where
  "open_outs base i 0 os = Return ([], os)"
| "open_outs base i (Suc n) os = (case peak_store_init (split_fn base i) os of (fd, os) \<Rightarrow>
     if fd < 0 then Panic
     else case open_outs base (Suc i) n os of
       Return (outs, os) \<Rightarrow> Return (fd # outs, os) | Panic \<Rightarrow> Panic | Hang \<Rightarrow> Hang)"

text \<open>The packet goes into the file its flow belongs to, or nowhere; whether it could be written is ignored. An index outside
  \<open>fds\<close> is \<open>None\<close>.\<close>

definition flowsplit_store :: "int list \<Rightarrow> peak_load \<Rightarrow> int \<Rightarrow> os \<Rightarrow> os option" where
  "flowsplit_store outs trace ret os =
    (if ret < 0 then Some os
     else let i = nat (ret mod int (length outs))
          in if length outs \<le> i then None
             else map_option snd (peak_store_packet (outs ! i) (load_buf trace) (load_len trace)
               (of_int (tv_sec (load_ts trace))) (of_int (tv_usec (load_ts trace))) os))"

text \<open>The \<open>do\<close> loop of \<open>main\<close>; \<open>continue\<close> goes on with the condition, which reads the next packet.\<close>

fun flowsplit_loop :: "nat \<Rightarrow> nat \<Rightarrow> int list \<Rightarrow> peak_load \<Rightarrow> os \<Rightarrow> track_sys \<Rightarrow> (int list \<times> peak_load \<times> os \<times> track_sys) outcome option" where
  "flowsplit_loop 0 k outs trace os s = Some Hang"
| "flowsplit_loop (Suc fuel) k outs trace os s =
    obind (flowsplit_packet k (load_buf trace) (load_len trace) (load_ll trace) s) (\<lambda>(ret, s). do {
      os \<leftarrow> flowsplit_store outs trace ret os;
      obind (peak_load_packet trace os) (\<lambda>(n, trace, os).
        if n = 0 then Some (Return ([ret], trace, os, s))
        else obind (flowsplit_loop fuel k outs trace os s) (\<lambda>(rets, r). Some (Return (ret # rets, r)))) })"

text \<open>\<open>main\<close>; \<open>usage()\<close> exits with the result \<open>None\<close>.\<close>

definition flowsplit_main :: "nat \<Rightarrow> nat \<Rightarrow> bool \<Rightarrow> bool \<Rightarrow> nat option \<Rightarrow> bool \<Rightarrow> (nat \<Rightarrow> peak_track) \<Rightarrow> peak_audit \<Rightarrow>
    (char \<times> string) list \<Rightarrow> string list \<Rightarrow> os \<Rightarrow> (int list \<times> os) option outcome option" where
  "flowsplit_main fuel k mem calloc malign realloc st a opts files os = do {
     parsed \<leftarrow> flowsplit_options opts 10000 2;
     case (parsed, files) of
       (None, _) \<Rightarrow> Some (Return None)
     | (Some counts, []) \<Rightarrow> Some (Return None)
     | (Some (flow_count, file_count), file # _) \<Rightarrow> do {
         (trace, os) \<leftarrow> peak_load_init (Some file) mem True os;
         case trace of
           None \<Rightarrow> Some Panic
         | Some trace \<Rightarrow> (case peak_track_init (ucast flow_count) 1 calloc malign of
             None \<Rightarrow> Some Panic
           | Some self \<Rightarrow>
               if \<not> realloc then Some Panic
               else if file_count = 0 then Some Panic
               else let file_count = min file_count flow_count
               in obind (Some (open_outs (strip_suffix file) 0 (unat file_count) os)) (\<lambda>(outs, os).
                 let s = \<lparr>tracks = self, store = st, next_flow_id = 0, taudit = a\<rparr>
                 in obind (peak_load_packet trace os) (\<lambda>(n, trace, os).
                   obind (if n = 0 then Some (Return ([], trace, os, s)) else flowsplit_loop fuel k outs trace os s) (\<lambda>(rets, trace, os, s).
                     let os = fold peak_store_exit outs os
                     in obind (peak_track_exit (Some (tracks s))) (\<lambda>_.
                       Some (Return (Some (rets, peak_load_exit (Some trace) os)))))))) } }"

section \<open>Several open files\<close>

lemma fd_file_put_other: "fd_file os fd = Some f \<Longrightarrow> fd' \<noteq> fd \<Longrightarrow> fd_file (put_fd os fd x) fd' = fd_file os fd'"
proof -
  assume f: "fd_file os fd = Some f" and ne: "fd' \<noteq> fd"
  have "0 \<le> fd" "nat fd < length (fds os)" using fd_file_bound[OF f] by simp_all
  moreover have "nat fd \<noteq> nat fd'" if "0 \<le> fd'" using that ne \<open>0 \<le> fd\<close> by simp
  ultimately show ?thesis unfolding fd_file_def put_fd_def set_fd_def by simp
qed

lemma write_others:
  assumes "sys_write fd bs os = (ret, os')"
  shows "fd' \<noteq> fd \<Longrightarrow> fd_file os' fd' = fd_file os fd'" "may_create os' = may_create os"
  using assms by (auto simp: sys_write_def Let_def fd_file_put_other split: option.splits if_splits)

lemma store_packet_others:
  assumes "peak_store_packet fd b n s u os = Some (ret, os')" "fd' \<noteq> fd"
  shows "fd_file os' fd' = fd_file os fd'"
  using assms by (auto simp: peak_store_packet_def Let_def split: prod.splits if_splits) (metis write_others(1))+

lemma moves_others:
  assumes "moves fd os os'"
  shows "fd' \<noteq> fd \<Longrightarrow> fd_file os' fd' = fd_file os fd'" "disk os' = disk os" "os.room os' = os.room os"
  using assms by (auto simp: moves_def fd_file_put_other)

lemma open_new_others:
  assumes "open_new f os = (fd, os')" "fd_file os fd' = Some g"
  shows "fd' \<noteq> fd" "fd_file os' fd' = Some g"
  using assms open_new_spec(2)[OF assms(1)] fd_file_bound[OF assms(2)]
  by (auto simp: open_new_def Let_def fd_file_def put_fd_def set_fd_def nth_append nth_list_update split: if_splits)

lemma store_init_others:
  assumes "peak_store_init p os = (fd, os')" "0 \<le> fd" "fd_file os fd' = Some g"
  shows "fd' \<noteq> fd \<and> fd_file os' fd' = Some g"
proof -
  let ?os = "os\<lparr>disk := (disk os)(p \<mapsto> [])\<rparr>"
  obtain d os1 where o: "open_new \<lparr>file_path = p, file_pos = 0, file_write = True\<rparr> ?os = (d, os1)" by fastforce
  have "fd_file ?os fd' = Some g" using assms(3) by simp
  note n = open_new_others[OF o this]
  from assms(1,2) o obtain ret where "fd = d" "sys_write d (file_header_bytes store_file_header) os1 = (ret, os')"
    by (auto simp: peak_store_init_def open_trunc_def split: if_splits prod.splits)
  with write_others(1)[of d _ os1 ret os' fd'] n show ?thesis by simp
qed

lemma store_init_may_create:
  "peak_store_init p os = (fd, os') \<Longrightarrow> may_create os' = may_create os"
  by (auto simp: peak_store_init_def open_trunc_def sys_close_def split: if_splits prod.splits
      dest!: open_new_spec(6) write_others(2))

text \<open>A packet is written from the buffer of the reader.\<close>

lemma store_packet_prefix:
  assumes "length b < 2 ^ 32"
  shows "peak_store_packet fd (b @ c) (of_nat (length b)) s u os = peak_store_packet fd b (of_nat (length b)) s u os"
proof -
  have "unat (of_nat (length b) :: u32) = length b" using assms by (simp add: unat_of_nat)
  then show ?thesis unfolding peak_store_packet_def by (simp only: Let_def) (simp split: prod.split)
qed

lemma reads_others:
  assumes "reads self os p ps" "fd_file os' (load_fd self) = fd_file os (load_fd self)" "disk os' p = disk os p"
  shows "reads self os' p ps"
  using assms by (simp add: reads_def content_def)

text \<open>The outputs: each is at its end, after the packets that it has got.\<close>

definition outputs :: "os \<Rightarrow> int list \<Rightarrow> (nat \<Rightarrow> string) \<Rightarrow> (nat \<Rightarrow> packet list) \<Rightarrow> bool" where
  "outputs os outs name files \<longleftrightarrow> distinct outs \<and> inj_on name {..<length outs} \<and>
     (\<forall>j < length outs. at_end os (outs ! j) (name j) (pcap_image (files j)))"

lemma outputs_others:
  assumes "outputs os outs name files" "\<And>fd. fd \<in> set outs \<Longrightarrow> fd_file os' fd = fd_file os fd" "disk os' = disk os"
  shows "outputs os' outs name files"
  using assms by (auto simp: outputs_def at_end_def)

lemma pcap_image_snoc: "pcap_image (ps @ [x]) = pcap_image ps @ packet_record x"
  by (simp add: pcap_image_def)

lemma outputs_store:
  assumes o: "outputs os outs name files" "i < length outs" and b: "16 + length b \<le> os.room os" "length b < 2 ^ 32"
  obtains os' where "peak_store_packet (outs ! i) (b @ c) (of_nat (length b)) (ucast s) (ucast u) os = Some (1, os')"
    "outputs os' outs name (files(i := files i @ [(b, s, u)]))" "os.room os' = os.room os - (16 + length b)"
    "\<And>q. q \<noteq> name i \<Longrightarrow> disk os' q = disk os q" "\<And>fd. fd \<noteq> outs ! i \<Longrightarrow> fd_file os' fd = fd_file os fd"
proof -
  have "at_end os (outs ! i) (name i) (pcap_image (files i))" using o by (simp add: outputs_def)
  from store_packet_at_end[OF this b, of s u] obtain os' where
    w: "peak_store_packet (outs ! i) b (of_nat (length b)) (ucast s) (ucast u) os = Some (1, os')"
    "at_end os' (outs ! i) (name i) (pcap_image (files i) @ packet_record (b, s, u))" "os.room os' = os.room os - (16 + length b)"
    "\<And>q. q \<noteq> name i \<Longrightarrow> disk os' q = disk os q" by blast
  note others = store_packet_others[OF w(1)]
  have "at_end os' (outs ! j) (name j) (pcap_image ((files(i := files i @ [(b, s, u)])) j))" if j: "j < length outs" for j
  proof (cases "j = i")
    case False
    then have "outs ! j \<noteq> outs ! i" "name j \<noteq> name i" using o j by (auto simp: outputs_def nth_eq_iff_index_eq inj_on_def)
    with o(1) j False others w(4) show ?thesis by (simp add: outputs_def at_end_def)
  qed (use w(2) pcap_image_snoc in simp)
  then have "outputs os' outs name (files(i := files i @ [(b, s, u)]))" using o(1) by (simp add: outputs_def)
  with w(1,3,4) others show thesis by (intro that[of os']) (simp_all add: store_packet_prefix[OF b(2)])
qed

lemma open_outs_ok:
  assumes "\<forall>j \<in> {i..<i + n}. may_create os (split_fn base j)" "24 * n \<le> os.room os" "inj_on (split_fn base) {i..<i + n}"
  shows "\<exists>outs os'. open_outs base i n os = Return (outs, os') \<and> length outs = n \<and>
    outputs os' outs (\<lambda>j. split_fn base (i + j)) (\<lambda>j. []) \<and> os.room os' = os.room os - 24 * n \<and>
    (\<forall>q. q \<notin> split_fn base ` {i..<i + n} \<longrightarrow> disk os' q = disk os q) \<and>
    (\<forall>fd f. fd_file os fd = Some f \<longrightarrow> fd_file os' fd = Some f \<and> fd \<notin> set outs)"
  using assms
proof (induction n arbitrary: i os)
  case 0
  then show ?case by (auto simp: outputs_def)
next
  case (Suc n)
  have "may_create os (split_fn base i)" "24 \<le> os.room os" using Suc.prems(1,2) by auto
  from store_init_ok[OF this] obtain fd os1 where
    o: "peak_store_init (split_fn base i) os = (fd, os1)" "0 \<le> fd" "at_end os1 fd (split_fn base i) (pcap_image [])" "os.room os1 = os.room os - 24"
    "\<And>q. q \<noteq> split_fn base i \<Longrightarrow> disk os1 q = disk os q" by blast
  have step: "{i..<i + Suc n} = insert i {Suc i..<Suc i + n}" by auto
  have "\<forall>j \<in> {Suc i..<Suc i + n}. may_create os1 (split_fn base j)" using Suc.prems(1) store_init_may_create[OF o(1)] by auto
  moreover have "24 * n \<le> os.room os1" using Suc.prems(2) o(4) by simp
  moreover have inj: "inj_on (split_fn base) {Suc i..<Suc i + n}" "split_fn base i \<notin> split_fn base ` {Suc i..<Suc i + n}"
    using Suc.prems(3) unfolding step by auto
  ultimately obtain outs os' where
    r: "open_outs base (Suc i) n os1 = Return (outs, os')" "length outs = n" "outputs os' outs (\<lambda>j. split_fn base (Suc i + j)) (\<lambda>j. [])"
    "os.room os' = os.room os1 - 24 * n" "\<forall>q. q \<notin> split_fn base ` {Suc i..<Suc i + n} \<longrightarrow> disk os' q = disk os1 q"
    "\<forall>fd f. fd_file os1 fd = Some f \<longrightarrow> fd_file os' fd = Some f \<and> fd \<notin> set outs"
    using Suc.IH[of "Suc i" os1] by blast
  have fd: "fd \<notin> set outs" "at_end os' fd (split_fn base i) (pcap_image [])"
    using r(5,6) o(3) inj(2) by (simp_all add: at_end_def)
  have "at_end os' ((fd # outs) ! j) (split_fn base (i + j)) (pcap_image [])" if "j < Suc n" for j
    using that fd(2) r(2,3) by (cases j) (auto simp: outputs_def)
  moreover have "inj_on (\<lambda>j. split_fn base (i + j)) {..<Suc n}"
  proof (rule inj_onI)
    fix x y
    assume xy: "x \<in> {..<Suc n}" "y \<in> {..<Suc n}" "split_fn base (i + x) = split_fn base (i + y)"
    have "i + x = i + y" by (rule inj_onD[OF Suc.prems(3) xy(3)]) (use xy in auto)
    then show "x = y" by simp
  qed
  ultimately have "outputs os' (fd # outs) (\<lambda>j. split_fn base (i + j)) (\<lambda>j. [])" using fd(1) r(2,3) by (simp add: outputs_def)
  moreover have "fd_file os' d = Some f \<and> d \<notin> set (fd # outs)" if "fd_file os d = Some f" for d f
    using store_init_others[OF o(1,2) that] r(6) by auto
  moreover have "disk os' q = disk os q" if "q \<notin> split_fn base ` {i..<i + Suc n}" for q using that r(5) o(5) unfolding step by simp
  ultimately show ?case using o(1,2,4) r(1,2,4) by simp blast
qed

section \<open>The packets on a table of flows\<close>

text \<open>The ids of the flows of all packets, none for the packets that are skipped; \<open>None\<close> is a full table.\<close>

fun split_ids :: "nat \<Rightarrow> u32 \<Rightarrow> peak_track list \<Rightarrow> (mem \<times> packet) list \<Rightarrow> nat option list option" where
  "split_ids cap ll tbl [] = Some []"
| "split_ids cap ll tbl ((m, b, s, u) # fs) = (case frame_packet ll m (of_nat (length b)) of
     None \<Rightarrow> map_option (Cons None) (split_ids cap ll tbl fs)
   | Some p \<Rightarrow> (case flow_acquire cap (TRACK_KEY track_zero p) tbl of
       None \<Rightarrow> None
     | Some (i, tbl) \<Rightarrow> map_option (Cons (Some i)) (split_ids cap ll tbl fs)))"

definition ret_of :: "nat option \<Rightarrow> int" where
  "ret_of d = (case d of None \<Rightarrow> - 1 | Some i \<Rightarrow> int i)"

text \<open>The packets that belong into file \<open>j\<close> of \<open>n\<close>.\<close>

definition picks :: "nat \<Rightarrow> nat option list \<Rightarrow> packet list \<Rightarrow> nat \<Rightarrow> packet list" where
  "picks n ids ps j = map snd (filter (\<lambda>(d, p). d \<noteq> None \<and> the d mod n = j) (zip ids ps))"

lemma picks_Cons: "picks n (d # ids) (p # ps) j = (if d \<noteq> None \<and> the d mod n = j then [p] else []) @ picks n ids ps j"
  by (simp add: picks_def)

definition frame_length :: "mem \<times> packet \<Rightarrow> u32" where
  "frame_length = (\<lambda>(m, b, s, u). of_nat (length b))"

lemma table_fid:
  assumes "flow_table C k tbl s" "i < length tbl"
  shows "fid (tbl ! i) = of_nat i"
proof -
  have "map fid tbl ! i = map of_nat [0..<length tbl] ! i" using assms(1) by (simp add: flow_table_def)
  with assms(2) show ?thesis by simp
qed

lemma table_small:
  assumes "flow_table C k tbl s"
  shows "length tbl \<le> card C"
proof -
  have "distinct (tos (tracks s))" "set (tos (tracks s)) \<subseteq> C" "finite C" "length tbl = length (tos (tracks s))"
    using assms by (auto simp: flow_table_def track_inv_def prealloc_inv_def)
  then show ?thesis by (metis card_mono distinct_card)
qed

lemma flowsplit_packet_step:
  assumes t: "flow_table C k tbl s" "card C < 2 ^ 63" and r: "frame_returns ll m len"
  obtains (skip) s' where "frame_packet ll m len = None" "flowsplit_packet k m len ll s = Some (Return (- 1, s'))" "flow_table C k tbl s'"
  | (flow) p i tbl' s' where "frame_packet ll m len = Some p" "flow_acquire (card C) (TRACK_KEY track_zero p) tbl = Some (i, tbl')"
      "flowsplit_packet k m len ll s = Some (Return (int i, s'))" "flow_table C k tbl' s'"
  | (full) p where "frame_packet ll m len = Some p" "flow_acquire (card C) (TRACK_KEY track_zero p) tbl = None"
      "flowsplit_packet k m len ll s = Some Panic"
proof -
  from frame_returns_parse[OF r, of "taudit s"] obtain bad p a' where p: "peak_packet_parse m len ll (taudit s) = Some (Return (bad, p, a'))"
    "frame_packet ll m len = (if bad \<or> net_len p = 0 then None else Some p)" by blast
  let ?s = "s\<lparr>taudit := a'\<rparr>"
  have t': "flow_table C k tbl ?s" using t(1) by (simp add: flow_table_def track_inv_def)
  show thesis
  proof (cases "bad \<or> net_len p = 0")
    case True
    with p t' skip show thesis by (auto simp: flowsplit_packet_def Let_def)
  next
    case False
    with p(2) have fp: "frame_packet ll m len = Some p" by simp
    let ?key = "TRACK_KEY (store s k) p"
    let ?s1 = "?s\<lparr>store := (store ?s)(k := ?key)\<rparr>"
    have t1: "flow_table C k tbl ?s1" by (rule table_write_ref[OF t'])
    have k: "store ?s1 k = ?key" by simp
    have "track_wf (store ?s1 k)" unfolding k by (rule track_key_wf[OF frame_packet_addrs[OF fp]])
    note acq = table_acquire[OF t1 this, unfolded k flow_acquire_key[of _ "store s k"]]
    show thesis
    proof (cases "flow_acquire (card C) (TRACK_KEY track_zero p) tbl")
      case None
      with acq p(1) False have "flowsplit_packet k m len ll s = Some Panic" by (auto simp: flowsplit_packet_def Let_def)
      with fp None show thesis by (rule full)
    next
      case (Some r)
      obtain i tbl' where i: "r = (i, tbl')" by (cases r)
      from acq Some i obtain fl s' where s': "peak_track_acquire ?s1 (Some k) = Some (Return (Some fl, s'))" "flow_table C k tbl' s'"
        "store s' fl = tbl' ! i" by auto
      have b: "i < length tbl'" using flow_acquire_bounds(1) Some i by blast
      then have "i < 2 ^ 63" using table_small[OF s'(2)] t(2) by simp
      then have "sint (fid (tbl' ! i)) = int i" using sint_of_int[of "int i"] by (simp add: table_fid[OF s'(2) b])
      then have "flowsplit_packet k m len ll s = Some (Return (int i, s'))"
        using p(1) False s' by (simp add: flowsplit_packet_def Let_def)
      with fp Some[unfolded i] s'(2) flow show thesis by blast
    qed
  qed
qed

lemma of_int_ucast: "(of_int (int (unat (w :: u32))) :: u64) = ucast w"
  "(of_nat (unat w) :: u64) = ucast w"
  by (simp_all add: unsigned_ucast_eq word_of_int_uint flip: ucast_eq)

lemma split_store:
  assumes o: "outputs os outs name files" "outs \<noteq> []" and f: "frame_loaded trace (b @ c, b, s, u)"
    and b: "16 + length b \<le> os.room os" "length b < 2 ^ 32"
  obtains os' where "flowsplit_store outs trace (ret_of d) os = Some os'"
    "outputs os' outs name (\<lambda>j. files j @ picks (length outs) [d] [(b, s, u)] j)" "os.room os - (16 + length b) \<le> os.room os'"
    "\<forall>q. q \<notin> name ` {..<length outs} \<longrightarrow> disk os' q = disk os q" "\<forall>fd. fd \<notin> set outs \<longrightarrow> fd_file os' fd = fd_file os fd"
proof (cases d)
  case None
  then show thesis using o(1) by (intro that[of os]) (simp_all add: flowsplit_store_def ret_of_def picks_def)
next
  case (Some i)
  let ?i = "i mod length outs"
  have i: "?i < length outs" using o(2) by simp
  from outputs_store[OF o(1) i b, of c s u] obtain os' where
    w: "peak_store_packet (outs ! ?i) (b @ c) (of_nat (length b)) (ucast s) (ucast u) os = Some (1, os')"
    "outputs os' outs name (files(?i := files ?i @ [(b, s, u)]))" "os.room os' = os.room os - (16 + length b)"
    "\<And>q. q \<noteq> name ?i \<Longrightarrow> disk os' q = disk os q" "\<And>fd. fd \<noteq> outs ! ?i \<Longrightarrow> fd_file os' fd = fd_file os fd" by blast
  have "nat (int i mod int (length outs)) = ?i" by (simp add: nat_mod_distrib)
  then have "flowsplit_store outs trace (ret_of d) os = Some os'"
    using w(1) f i by (simp add: flowsplit_store_def Some ret_of_def frame_loaded_def Let_def of_int_ucast del: of_nat_unat)
  moreover have "files(?i := files ?i @ [(b, s, u)]) = (\<lambda>j. files j @ picks (length outs) [d] [(b, s, u)] j)"
    by (auto simp: Some picks_def)
  moreover have "fd \<noteq> outs ! ?i" if "fd \<notin> set outs" for fd using that i by auto
  ultimately show thesis using w i by (intro that[of os']) auto
qed

definition packets_size :: "packet list \<Rightarrow> nat" where
  "packets_size ps = (\<Sum>(b, s, u) \<leftarrow> ps. 16 + length b)"

definition splitting :: "nat set \<Rightarrow> nat \<Rightarrow> string \<Rightarrow> (nat \<Rightarrow> string) \<Rightarrow> int list \<Rightarrow> (nat \<Rightarrow> packet list) \<Rightarrow> peak_track list \<Rightarrow> packet list \<Rightarrow> peak_load \<Rightarrow> os \<Rightarrow>
    track_sys \<Rightarrow> bool" where
  "splitting C k file name outs files tbl ps trace os s \<longleftrightarrow> flow_table C k tbl s \<and> card C < 2 ^ 63 \<and> reads trace os file ps \<and>
     outputs os outs name files \<and> outs \<noteq> [] \<and> load_fd trace \<notin> set outs \<and> file \<notin> name ` {..<length outs}"

lemma flowsplit_step_cases:
  assumes t: "flow_table C k tbl s" "card C < 2 ^ 63" and r: "frame_returns ll m (of_nat (length b))"
  obtains (more) d tbl' s' where "flowsplit_packet k m (of_nat (length b)) ll s = Some (Return (ret_of d, s'))" "flow_table C k tbl' s'"
    "\<And>fs. split_ids (card C) ll tbl ((m, b, x) # fs) = map_option (Cons d) (split_ids (card C) ll tbl' fs)"
  | (full) "flowsplit_packet k m (of_nat (length b)) ll s = Some Panic" "\<And>fs. split_ids (card C) ll tbl ((m, b, x) # fs) = None"
  using assms
proof (cases rule: flowsplit_packet_step)
  case (skip s')
  then show thesis by (intro more[of None s' tbl]) (cases x, simp_all add: ret_of_def)+
next
  case (flow p i tbl' s')
  then show thesis by (intro more[of "Some i" s' tbl']) (cases x, simp_all add: ret_of_def)+
next
  case (full p)
  then show thesis by (intro that(2)) (cases x, simp_all)+
qed

lemma flowsplit_loop_frames:
  assumes "splitting C k file name outs files tbl ps trace os s" "frame_loaded trace (m, x)" "m = fst x @ c" "length (fst x) < 2 ^ 32"
    "load_ll trace = ll" "list_all (\<lambda>(m, b, y). frame_returns ll m (of_nat (length b))) ((m, x) # frames m ps)" "length ps < fuel"
    "packets_size (x # ps) \<le> os.room os"
  shows "case split_ids (card C) ll tbl ((m, x) # frames m ps) of
      None \<Rightarrow> flowsplit_loop fuel k outs trace os s = Some Panic
    | Some ids \<Rightarrow> \<exists>trace' os' s' tbl'. flowsplit_loop fuel k outs trace os s = Some (Return (map ret_of ids, trace', os', s')) \<and>
        flow_table C k tbl' s' \<and> outputs os' outs name (\<lambda>j. files j @ picks (length outs) ids (x # ps) j) \<and>
        (\<forall>q. q \<notin> name ` {..<length outs} \<longrightarrow> disk os' q = disk os q)"
  using assms
proof (induction ps arbitrary: files tbl s trace os m x c fuel)
  case Nil
  obtain b sec usec where x: "x = (b, sec, usec)" by (cases x)
  obtain f where fuel: "fuel = Suc f" using Nil.prems(7) by (cases fuel) auto
  note inv = Nil.prems(1)[unfolded splitting_def]
  have "frame_returns ll m (of_nat (length b))" using Nil.prems(6) by (simp add: x)
  with inv[THEN conjunct1] inv[THEN conjunct2, THEN conjunct1] show ?case
  proof (cases rule: flowsplit_step_cases[where x = "(sec, usec)"])
    case (more d tbl1 s1)
    have o: "outputs os outs name files" "outs \<noteq> []" using inv by auto
    have f: "frame_loaded trace (b @ c, b, sec, usec)" "length b < 2 ^ 32" using Nil.prems(2-4) by (simp_all add: x)
    have "16 + length b \<le> os.room os" using Nil.prems(8) by (simp add: packets_size_def x)
    from split_store[OF o f(1) this f(2), of d, folded x] obtain os1 where
      w: "flowsplit_store outs trace (ret_of d) os = Some os1" "outputs os1 outs name (\<lambda>j. files j @ picks (length outs) [d] [x] j)"
      "os.room os - (16 + length b) \<le> os.room os1"
      "\<forall>q. q \<notin> name ` {..<length outs} \<longrightarrow> disk os1 q = disk os q" "\<forall>fd. fd \<notin> set outs \<longrightarrow> fd_file os1 fd = fd_file os fd"
      .
    have "reads trace os1 file []" by (rule reads_others[of trace os]) (simp_all add: inv w(4,5))
    from reads_end[OF this] obtain os2 trace2 where
      r: "peak_load_packet trace os1 = Some (Return (0, trace2, os2))" "moves (load_fd trace) os1 os2" "load_fd trace2 = load_fd trace" .
    have "outputs os2 outs name (\<lambda>j. files j @ picks (length outs) [d] [x] j)" "\<forall>q. q \<notin> name ` {..<length outs} \<longrightarrow> disk os2 q = disk os q"
      using outputs_others[OF w(2), of os2] moves_others[OF r(2)] w(4) inv by (simp_all, metis)
    with more(2) show ?thesis using more(1) w(1) r(1) Nil.prems(2,5)
      by (auto simp: fuel x frame_loaded_def more(3)[of "[]", simplified])
  next
    case full
    then show ?thesis using Nil.prems(2,5) by (simp add: fuel x frame_loaded_def)
  qed
next
  case (Cons y ps)
  obtain b sec usec where x: "x = (b, sec, usec)" by (cases x)
  obtain b' sec' usec' where y: "y = (b', sec', usec')" by (cases y)
  obtain n where fuel: "fuel = Suc n" "length ps < n" using Cons.prems(7) by (cases fuel) auto
  note inv = Cons.prems(1)[unfolded splitting_def]
  have "frame_returns ll m (of_nat (length b))" using Cons.prems(6) by (simp add: x)
  with inv[THEN conjunct1] inv[THEN conjunct2, THEN conjunct1] show ?case
  proof (cases rule: flowsplit_step_cases[where x = "(sec, usec)"])
    case (more d tbl1 s1)
    have o: "outputs os outs name files" "outs \<noteq> []" using inv by auto
    have f: "frame_loaded trace (b @ c, b, sec, usec)" "length b < 2 ^ 32" using Cons.prems(2-4) by (simp_all add: x)
    have "16 + length b \<le> os.room os" using Cons.prems(8) by (simp add: packets_size_def x)
    from split_store[OF o f(1) this f(2), of d, folded x] obtain os1 where
      w: "flowsplit_store outs trace (ret_of d) os = Some os1" "outputs os1 outs name (\<lambda>j. files j @ picks (length outs) [d] [x] j)"
      "os.room os - (16 + length b) \<le> os.room os1"
      "\<forall>q. q \<notin> name ` {..<length outs} \<longrightarrow> disk os1 q = disk os q" "\<forall>fd. fd \<notin> set outs \<longrightarrow> fd_file os1 fd = fd_file os fd"
      .
    have "reads trace os1 file ((b', sec', usec') # ps)" by (rule reads_others[of trace os]) (simp_all add: inv[unfolded y] w(4,5))
    from reads_next[OF this] obtain trace2 os2 where
      r: "peak_load_packet trace os1 = Some (Return (of_nat (length b'), trace2, os2))" "reads trace2 os2 file ps" "moves (load_fd trace) os1 os2"
      "load_ll trace2 = load_ll trace" "frame_loaded trace2 (b' @ drop (length b') (load_buf trace), b', sec', usec')"
      "(of_nat (length b') :: u32) \<noteq> 0" "load_fd trace2 = load_fd trace" .
    let ?files = "\<lambda>j. files j @ picks (length outs) [d] [x] j" and ?m = "b' @ drop (length b') m"
    have m: "load_buf trace = m" using Cons.prems(2) by (simp add: frame_loaded_def x)
    have o: "outputs os2 outs name ?files" "\<forall>q. q \<notin> name ` {..<length outs} \<longrightarrow> disk os2 q = disk os q"
      using outputs_others[OF w(2), of os2] moves_others[OF r(3)] w(4) inv by (simp_all, metis)
    have "splitting C k file name outs ?files tbl1 ps trace2 os2 s1" using inv more(2) r(2,7) o(1) by (simp add: splitting_def)
    moreover have "length b' < 2 ^ 32" using inv by (auto simp: reads_def y)
    moreover have "list_all (\<lambda>(m, b, y). frame_returns ll m (of_nat (length b))) ((?m, y) # frames ?m ps)" using Cons.prems(6) by (simp add: y)
    moreover have "packets_size (y # ps) \<le> os.room os2" using Cons.prems(8) w(3) moves_others(3)[OF r(3)] by (simp add: packets_size_def x)
    ultimately have ih: "case split_ids (card C) ll tbl1 ((?m, y) # frames ?m ps) of
        None \<Rightarrow> flowsplit_loop n k outs trace2 os2 s1 = Some Panic
      | Some ids \<Rightarrow> \<exists>trace' os' s' tbl'. flowsplit_loop n k outs trace2 os2 s1 = Some (Return (map ret_of ids, trace', os', s')) \<and>
          flow_table C k tbl' s' \<and> outputs os' outs name (\<lambda>j. ?files j @ picks (length outs) ids (y # ps) j) \<and>
          (\<forall>q. q \<notin> name ` {..<length outs} \<longrightarrow> disk os' q = disk os2 q)"
      using r(4,5) m Cons.prems(5) fuel(2) by (intro Cons.IH[where c = "drop (length b') m"]) (simp_all add: y)
    have loop: "flowsplit_loop fuel k outs trace os s = obind (flowsplit_loop n k outs trace2 os2 s1) (\<lambda>(rets, q). Some (Return (ret_of d # rets, q)))"
      using more(1) w(1) r(1,6) Cons.prems(2,5) by (simp add: fuel x frame_loaded_def)
    have "picks (length outs) [d] [x] j @ picks (length outs) ids (y # ps) j = picks (length outs) (d # ids) (x # y # ps) j" for ids j
      by (simp add: picks_def)
    with ih o(2) show ?thesis unfolding loop frames.simps y x more(3)
      by (auto simp: y x simp del: split_ids.simps split: option.splits)
  next
    case full
    then show ?thesis using Cons.prems(2,5) by (simp add: fuel x frame_loaded_def)
  qed
qed

section \<open>Names of files\<close>

lemma dec_text_length: "i < 10 ^ Suc k \<Longrightarrow> length (dec_text i) \<le> Suc k"
proof (induction k arbitrary: i)
  case 0
  then show ?case by (subst dec_text.simps) simp
next
  case (Suc k)
  then have "i div 10 < 10 ^ Suc k" by (simp add: less_mult_imp_div_less)
  from Suc.IH[OF this] show ?case by (subst dec_text.simps) simp
qed

definition short :: "string \<Rightarrow> bool" where
  "short base \<longleftrightarrow> length base + 16 < PATH_MAX"

lemma split_fn_short:
  assumes "short base" "i < 2 ^ 32"
  shows "split_fn base i = base @ ''_'' @ map (\<lambda>d. char_of (unat d)) (dec_text i) @ ''.pcap''"
  using assms dec_text_length[of i 9] by (simp add: split_fn_def short_def)

lemma split_fn_inj:
  assumes "short base" "n \<le> 2 ^ 32"
  shows "inj_on (split_fn base) {..<n}"
proof (rule inj_onI)
  fix i j
  assume ij: "i \<in> {..<n}" "j \<in> {..<n}" "split_fn base i = split_fn base j"
  have inj: "inj (\<lambda>d :: u8. char_of (unat d))"
  proof (rule injI)
    fix x y :: u8
    assume "(char_of (unat x) :: char) = char_of (unat y)"
    then have "unat x mod 256 = unat y mod 256" using of_char_of[of "unat x"] of_char_of[of "unat y"] by metis
    moreover have "unat x < 256" "unat y < 256" using unsigned_less[of x, where 'a = nat] unsigned_less[of y, where 'a = nat] by simp_all
    ultimately show "x = y" by (simp add: word_unat_eq_iff)
  qed
  have "i < 2 ^ 32" "j < 2 ^ 32" using ij(1,2) assms(2) by auto
  note short = this[THEN split_fn_short[OF assms(1)]]
  from ij(3) have "dec_text i = dec_text j" unfolding short by (simp add: inj_map_eq_map[OF inj])
  then have "int i = int j" using dec_text_spec[of i] dec_text_spec[of j] by metis
  then show "i = j" by simp
qed

lemma strip_suffix_cases: "file = strip_suffix file \<or> (\<exists>e. file = strip_suffix file @ CHR ''.'' # e)"
proof (cases "CHR ''.'' \<in> set file")
  case True
  let ?r = "dropWhile (\<lambda>c. c \<noteq> CHR ''.'') (rev file)"
  have "?r \<noteq> []" using True by (auto simp: dropWhile_eq_Nil_conv)
  then have r: "?r = CHR ''.'' # tl ?r" using hd_dropWhile[of "\<lambda>c. c \<noteq> CHR ''.''" "rev file"] by (metis list.collapse)
  have "rev file = takeWhile (\<lambda>c. c \<noteq> CHR ''.'') (rev file) @ CHR ''.'' # tl ?r" by (metis r takeWhile_dropWhile_id)
  then have "file = rev (tl ?r) @ CHR ''.'' # rev (takeWhile (\<lambda>c. c \<noteq> CHR ''.'') (rev file))"
    by (metis append.assoc append_Cons append_Nil rev.simps(2) rev_append rev_rev_ident)
  with True show ?thesis by (auto simp: strip_suffix_def)
qed (simp add: strip_suffix_def)

lemma file_not_split: "short (strip_suffix file) \<Longrightarrow> i < 2 ^ 32 \<Longrightarrow> file \<noteq> split_fn (strip_suffix file) i"
proof
  assume a: "short (strip_suffix file)" "i < 2 ^ 32" "file = split_fn (strip_suffix file) i"
  obtain e where e: "file = strip_suffix file @ CHR ''_'' # e" using a(3) split_fn_short[OF a(1,2)] by simp
  from strip_suffix_cases[of "file"] show False
  proof
    assume "file = strip_suffix file"
    with e have "length (strip_suffix file) = length (strip_suffix file @ CHR ''_'' # e)" by metis
    then show False by simp
  next
    assume "\<exists>e. file = strip_suffix file @ CHR ''.'' # e"
    then obtain e' where "file = strip_suffix file @ CHR ''.'' # e'" ..
    with e have "strip_suffix file @ CHR ''_'' # e = strip_suffix file @ CHR ''.'' # e'" by metis
    then show False by simp
  qed
qed

section \<open>Flows\<close>

definition frame_key :: "u32 \<Rightarrow> mem \<times> packet \<Rightarrow> ((netaddr \<times> netaddr) \<times> (u16 \<times> u16) \<times> u8) option" where
  "frame_key ll = (\<lambda>(m, b, s, u). map_option (\<lambda>p. track_key (TRACK_KEY track_zero p)) (frame_packet ll m (of_nat (length b))))"

definition id_ok :: "u32 \<Rightarrow> peak_track list \<Rightarrow> nat option \<Rightarrow> mem \<times> packet \<Rightarrow> bool" where
  "id_ok ll tbl d f = (case d of None \<Rightarrow> frame_key ll f = None | Some i \<Rightarrow> i < length tbl \<and> frame_key ll f = Some (track_key (tbl ! i)))"

lemma flow_acquire_extends:
  assumes "flow_acquire cap key tbl = Some (i, tbl')" "distinct (map track_key tbl)"
  shows "\<exists>X. tbl' = tbl @ X" "distinct (map track_key tbl')"
  using assms flow_pos_less[of key tbl] by (auto simp: flow_acquire_def Let_def track_key_def split: if_splits)

lemma split_ids_table:
  assumes "split_ids cap ll tbl fs = Some ids" "distinct (map track_key tbl)"
  shows "\<exists>X. distinct (map track_key (tbl @ X)) \<and> list_all2 (id_ok ll (tbl @ X)) ids fs"
  using assms
proof (induction cap ll tbl fs arbitrary: ids rule: split_ids.induct)
  case (2 cap ll tbl m b s u fs)
  show ?case
  proof (cases "frame_packet ll m (of_nat (length b))")
    case None
    with 2 show ?thesis by (force simp: id_ok_def frame_key_def)
  next
    case (Some p)
    with 2(3) obtain i tbl' ids' where f: "flow_acquire cap (TRACK_KEY track_zero p) tbl = Some (i, tbl')" "ids = Some i # ids'"
      "split_ids cap ll tbl' fs = Some ids'" by (auto split: option.splits)
    note ext = flow_acquire_extends[OF f(1) 2(4)] and b = flow_acquire_bounds[OF f(1)]
    from 2(2)[OF Some f(1) refl f(3) ext(2)] obtain X where X: "distinct (map track_key (tbl' @ X))" "list_all2 (id_ok ll (tbl' @ X)) ids' fs" by blast
    have "id_ok ll (tbl' @ X) (Some i) (m, b, s, u)" using Some b(1,3) by (simp add: id_ok_def frame_key_def nth_append)
    moreover obtain Y where "tbl' = tbl @ Y" using ext(1) by blast
    ultimately show ?thesis using X f(2) by (intro exI[of _ "Y @ X"]) auto
  qed
qed (auto intro: exI[of _ "[]"])

lemma split_ids_same_flow:
  assumes "split_ids cap ll [] fs = Some ids" "i < length fs" "j < length fs"
  shows "ids ! i = ids ! j \<longleftrightarrow> frame_key ll (fs ! i) = frame_key ll (fs ! j)"
proof -
  from split_ids_table[OF assms(1)] obtain X where X: "distinct (map track_key X)" "list_all2 (id_ok ll X) ids fs" by auto
  have "id_ok ll X (ids ! i) (fs ! i)" "id_ok ll X (ids ! j) (fs ! j)" using X(2) assms(2,3) by (simp_all add: list_all2_conv_all_nth)
  moreover have "track_key (X ! a) = track_key (X ! b) \<longleftrightarrow> a = b" if "a < length X" "b < length X" for a b
    using X(1) that nth_eq_iff_index_eq[of "map track_key X" a b] by simp
  ultimately show ?thesis by (auto simp: id_ok_def split: option.splits)
qed

section \<open>The whole program\<close>

lemma track_init_some:
  assumes "cap \<noteq> 0"
  obtains self where "peak_track_init cap 1 True (Some start) = Some self"
  using assms by (simp add: peak_track_init_def prealloc_init_def)

lemma store_exit_disk [simp]: "disk (fold peak_store_exit outs os) = disk os"
  by (induction outs arbitrary: os) (simp_all add: peak_store_exit_def sys_close_def)

lemma load_exit_disk [simp]: "disk (peak_load_exit self os) = disk os"
  by (simp add: peak_load_exit_def close_file_def sys_close_def split: option.splits)

lemma load_init_keeps:
  assumes "peak_load_init (Some p) mem True os = Some (Some self, os')"
  shows "os.room os' = os.room os" "may_create os' = may_create os"
proof -
  let ?f = "\<lparr>file_path = p, file_pos = 0, file_write = False\<rparr>"
  have p: "disk os p \<noteq> None"
  proof
    assume "disk os p = None"
    with assms show False by (simp add: peak_load_init_def open_rdonly_def Let_def)
  qed
  obtain d os1 where o: "open_new ?f os = (d, os1)" by (cases "open_new ?f os")
  note spec = open_new_spec[OF o]
  from init_detect_detects[OF spec(3), of mem] obtain x os2 where x: "init_detect mem d os1 = Some (x, os2)" "moves d os1 os2"
    by (auto simp: detects_def)
  have "os' = os2" using assms p o spec(1) x(1) by (auto simp: peak_load_init_def open_rdonly_def Let_def split: option.splits)
  then show "os.room os' = os.room os" "may_create os' = may_create os" using x(2) spec(5,6) by (auto simp: moves_def)
qed

lemma flowsplit_run:
  assumes d: "disk os file = Some (pcap_file swap mid net ps)" "length mid = 16" "\<forall>(b, s, u) \<in> set ps. b \<noteq> [] \<and> length b \<le> SIZEOF_BUF"
    and fr: "list_all (\<lambda>(m, b, y). frame_returns net m (of_nat (length b))) (frames (replicate SIZEOF_BUF 0) ps)"
    and opts: "flowsplit_options opts 10000 2 = Some (Some (flow_count, file_count))" "flow_count \<noteq> 0" "file_count \<noteq> 0"
    and k: "k \<notin> pool_chunks start (ucast flow_count) SIZEOF_PEAK_TRACK"
    and n: "n = unat (min file_count flow_count)"
    and names: "short (strip_suffix file)" "\<forall>j < n. may_create os (split_fn (strip_suffix file) j)"
    and room: "24 * n + packets_size ps \<le> os.room os"
  shows "case split_ids (unat flow_count) net [] (frames (replicate SIZEOF_BUF 0) ps) of
      None \<Rightarrow> flowsplit_main (length ps) k mem True (Some start) True st a opts [file] os = Some Panic
    | Some ids \<Rightarrow> \<exists>os'. flowsplit_main (length ps) k mem True (Some start) True st a opts [file] os = Some (Return (Some (map ret_of ids, os'))) \<and>
        (\<forall>j < n. disk os' (split_fn (strip_suffix file) j) = Some (pcap_image (picks n ids ps j))) \<and>
        (\<forall>q. q \<notin> split_fn (strip_suffix file) ` {..<n} \<longrightarrow> disk os' q = disk os q)"
proof -
  let ?base = "strip_suffix file" and ?C = "pool_chunks start (ucast flow_count) SIZEOF_PEAK_TRACK"
  have "(ucast flow_count :: u64) \<noteq> 0" using opts(2) by (metis unat_eq_0 unat_ucast_64(1))
  from track_init_some[OF this, of start] obtain self where self: "peak_track_init (ucast flow_count) 1 True (Some start) = Some self" .
  let ?s = "\<lparr>tracks = self, store = st, next_flow_id = 0, taudit = a\<rparr>"
  have card: "card ?C = unat flow_count" using track_init_inv(2)[OF self] by simp
  have "unat flow_count < 2 ^ 32" using unsigned_less[of flow_count, where 'a = nat] by simp
  then have small: "card ?C < 2 ^ 63" by (simp add: card)
  have t: "flow_table ?C k [] ?s" by (rule table_init[OF self _ k]) simp
  have n32: "0 < n" "n \<le> 2 ^ 32"
    using opts(2,3) n unsigned_less[of "min file_count flow_count", where 'a = nat] by (simp_all add: min_def unat_gt_0 split: if_splits)
  from init_reads[OF d, of mem] obtain trace os1 where
    i: "peak_load_init (Some file) mem True os = Some (Some trace, os1)" "load_ll trace = net" "reads trace os1 file ps" "disk os1 = disk os"
    "load_buf trace = replicate SIZEOF_BUF 0" .
  have i': "os.room os1 = os.room os" "may_create os1 = may_create os" using load_init_keeps[OF i(1)] .
  from open_outs_ok[of 0 n os1 ?base] split_fn_inj[OF names(1) n32(2)] names(2) room i' obtain outs os2 where
    o: "open_outs ?base 0 n os1 = Return (outs, os2)" "length outs = n" "outputs os2 outs (split_fn ?base) (\<lambda>j. [])"
    "os.room os2 = os.room os1 - 24 * n" "\<forall>q. q \<notin> split_fn ?base ` {..<n} \<longrightarrow> disk os2 q = disk os1 q"
    "\<forall>fd f. fd_file os1 fd = Some f \<longrightarrow> fd_file os2 fd = Some f \<and> fd \<notin> set outs"
    by (auto simp: atLeast0LessThan)
  have nf: "file \<notin> split_fn ?base ` {..<n}" using file_not_split[OF names(1)] n32(2) by auto
  obtain f where f: "fd_file os1 (load_fd trace) = Some f" using i(3) by (auto simp: reads_def)
  have r2: "reads trace os2 file ps" using o(5,6) f nf by (intro reads_others[OF i(3)]) auto
  have fd: "load_fd trace \<notin> set outs" using o(6) f by blast
  have main: "flowsplit_main (length ps) k mem True (Some start) True st a opts [file] os =
      obind (peak_load_packet trace os2) (\<lambda>(r, trace, os).
        obind (if r = 0 then Some (Return ([], trace, os, ?s)) else flowsplit_loop (length ps) k outs trace os ?s) (\<lambda>(rets, trace, os, s).
          obind (peak_track_exit (Some (tracks s))) (\<lambda>_. Some (Return (Some (rets, peak_load_exit (Some trace) (fold peak_store_exit outs os)))))))"
    using opts i(1) self o(1) by (simp add: flowsplit_main_def Let_def n)
  show ?thesis
  proof (cases ps)
    case Nil
    from reads_end[OF r2[unfolded Nil]] obtain os3 trace3 where
      r: "peak_load_packet trace os2 = Some (Return (0, trace3, os3))" "moves (load_fd trace) os2 os3" "load_fd trace3 = load_fd trace" .
    have "disk os3 = disk os2" by (rule moves_others(2)[OF r(2)])
    moreover have "disk os2 (split_fn ?base j) = Some (pcap_image [])" if "j < n" for j using o(2,3) that by (simp add: outputs_def at_end_def)
    ultimately show ?thesis using main r(1) table_exit[OF t] o(5) i(4) by (simp add: Nil picks_def)
  next
    case (Cons x ps')
    obtain b s u where x: "x = (b, s, u)" by (cases x)
    let ?m = "b @ drop (length b) (replicate SIZEOF_BUF 0)"
    from reads_next[OF r2[unfolded Cons x]] obtain trace3 os3 where
      r: "peak_load_packet trace os2 = Some (Return (of_nat (length b), trace3, os3))" "reads trace3 os3 file ps'" "moves (load_fd trace) os2 os3"
      "load_ll trace3 = load_ll trace" "frame_loaded trace3 (?m, b, s, u)" "(of_nat (length b) :: u32) \<noteq> 0" "load_fd trace3 = load_fd trace"
      unfolding i(5) .
    note mv = moves_others[OF r(3)]
    have "outputs os3 outs (split_fn ?base) (\<lambda>j. [])" by (rule outputs_others[OF o(3) mv(1) mv(2)]) (use fd in auto)
    then have "splitting ?C k file (split_fn ?base) outs (\<lambda>j. []) [] ps' trace3 os3 ?s"
      using t small r(2,7) fd nf o(2) n32(1) by (auto simp: splitting_def)
    moreover have fs: "frames (replicate SIZEOF_BUF 0) ps = (?m, b, s, u) # frames ?m ps'" by (simp add: Cons x)
    moreover have "length b < 2 ^ 32" using d(3) by (simp add: Cons x)
    moreover have "packets_size ((b, s, u) # ps') \<le> os.room os3" using room o(4) i'(1) mv(3) by (simp add: Cons x)
    ultimately have loop: "case split_ids (card ?C) net [] (frames (replicate SIZEOF_BUF 0) ps) of
        None \<Rightarrow> flowsplit_loop (length ps) k outs trace3 os3 ?s = Some Panic
      | Some ids \<Rightarrow> \<exists>trace' os' s' tbl'. flowsplit_loop (length ps) k outs trace3 os3 ?s = Some (Return (map ret_of ids, trace', os', s')) \<and>
          flow_table ?C k tbl' s' \<and> outputs os' outs (split_fn ?base) (\<lambda>j. [] @ picks (length outs) ids ((b, s, u) # ps') j) \<and>
          (\<forall>q. q \<notin> split_fn ?base ` {..<length outs} \<longrightarrow> disk os' q = disk os3 q)"
      using r(4,5) i(2) fr unfolding fs by (intro flowsplit_loop_frames[where c = "drop (length b) (replicate SIZEOF_BUF 0)"]) (simp_all add: Cons)
    show ?thesis
    proof (cases "split_ids (unat flow_count) net [] (frames (replicate SIZEOF_BUF 0) ps)")
      case None
      with loop main r(1,6) show ?thesis by (simp add: card)
    next
      case (Some ids)
      with loop obtain trace' os' s' tbl' where
        l: "flowsplit_loop (length ps) k outs trace3 os3 ?s = Some (Return (map ret_of ids, trace', os', s'))" "flow_table ?C k tbl' s'"
        "outputs os' outs (split_fn ?base) (picks n ids ps)" "\<forall>q. q \<notin> split_fn ?base ` {..<n} \<longrightarrow> disk os' q = disk os3 q"
        by (auto simp: card o(2) Cons x)
      have "disk os' (split_fn ?base j) = Some (pcap_image (picks n ids ps j))" if "j < n" for j
        using l(3) o(2) that by (simp add: outputs_def at_end_def)
      with l main r(1,6) Some table_exit[OF l(2)] mv(2) o(5) i(4) show ?thesis by simp
    qed
  qed
qed

section \<open>Properties\<close>

text \<open>C35. \<open>flowsplit\<close> partitions a capture file by flow. Run on a pcap file in either byte order whose frames the parser returns on, it
  panics when a packet starts one flow more than the tracker holds, and otherwise returns with as much fuel as there are packets: output
  \<open>j\<close> of \<open>n\<close> is a pcap file with exactly the packets, in their order and with their time stamps, whose flow has an id that is \<open>j\<close>
  modulo \<open>n\<close>; no other file changes. Two packets have the same id if and only if they have the same flow key, so no flow is
  spread over two files. Only packets that the parser rejects or that have no network layer are left out. Conditions: the options
  give numbers other than zero, memory is available, the packets are not empty and fit the buffer of the reader, the names of the outputs
  are not cut off, and the outputs can be created and have room on the disk.\<close>

theorem flowsplit_partitions:
  assumes "disk os file = Some (pcap_file swap mid net ps)" "length mid = 16" "\<forall>(b, s, u) \<in> set ps. b \<noteq> [] \<and> length b \<le> SIZEOF_BUF"
    and "list_all (\<lambda>(m, b, y). frame_returns net m (of_nat (length b))) (frames (replicate SIZEOF_BUF 0) ps)"
    and "flowsplit_options opts 10000 2 = Some (Some (flow_count, file_count))" "flow_count \<noteq> 0" "file_count \<noteq> 0"
    and "k \<notin> pool_chunks start (ucast flow_count) SIZEOF_PEAK_TRACK" "n = unat (min file_count flow_count)"
    and "short (strip_suffix file)" "\<forall>j < n. may_create os (split_fn (strip_suffix file) j)" "24 * n + packets_size ps \<le> os.room os"
  shows "case split_ids (unat flow_count) net [] (frames (replicate SIZEOF_BUF 0) ps) of
      None \<Rightarrow> flowsplit_main (length ps) k mem True (Some start) True st a opts [file] os = Some Panic
    | Some ids \<Rightarrow> (\<exists>os'. flowsplit_main (length ps) k mem True (Some start) True st a opts [file] os = Some (Return (Some (map ret_of ids, os'))) \<and>
        (\<forall>j < n. disk os' (split_fn (strip_suffix file) j) = Some (pcap_image (picks n ids ps j))) \<and>
        (\<forall>q. q \<notin> split_fn (strip_suffix file) ` {..<n} \<longrightarrow> disk os' q = disk os q)) \<and>
        (\<forall>i < length ps. \<forall>j < length ps. ids ! i = ids ! j \<longleftrightarrow>
          frame_key net (frames (replicate SIZEOF_BUF 0) ps ! i) = frame_key net (frames (replicate SIZEOF_BUF 0) ps ! j))"
  using flowsplit_run[OF assms, of mem st a] split_ids_same_flow[of "unat flow_count" net "frames (replicate SIZEOF_BUF 0) ps"]
  by (auto split: option.split_asm)

theorem flowsplit_partitions_witness:
  "\<exists>os'. flowsplit_main 1 0 False True (Some 4096) True (\<lambda>a. track_zero) audit_zero [(CHR ''n'', ''3'')] [''capture'']
      (os_with (pcap_file True (replicate 16 0) LINKTYPE_NULL [(udp_bytes, 5, 6)])) = Some (Return (Some ([0], os'))) \<and>
    disk os' (split_fn ''capture'' 0) = Some (pcap_image [(udp_bytes, 5, 6)]) \<and> disk os' (split_fn ''capture'' 1) = Some (pcap_image []) \<and>
    disk os' (split_fn ''capture'' 2) = Some (pcap_image [])"
proof -
  let ?ps = "[(udp_bytes, 5, 6)] :: packet list" and ?m = "udp_bytes @ replicate 32738 0"
  let ?os = "os_with (pcap_file True (replicate 16 0) LINKTYPE_NULL ?ps)"
  have fs: "frames (replicate SIZEOF_BUF 0) ?ps = [(?m, udp_bytes, 5, 6)]" by simp
  then have fr: "list_all (\<lambda>(m, b, y). frame_returns LINKTYPE_NULL m (of_nat (length b))) (frames (replicate SIZEOF_BUF 0) ?ps)"
    by (simp add: udp_bytes_packet)
  have opts: "flowsplit_options [(CHR ''n'', ''3'')] 10000 2 = Some (Some (10000, 3))" by code_simp
  have disk: "disk ?os ''capture'' = Some (pcap_file True (replicate 16 0) LINKTYPE_NULL ?ps)" by (simp add: os_with_def)
  have base: "strip_suffix ''capture'' = ''capture''" by (simp add: strip_suffix_def)
  have n: "3 = unat (min (3 :: u32) 10000)" by simp
  have ids: "split_ids (unat (10000 :: u32)) LINKTYPE_NULL [] (frames (replicate SIZEOF_BUF 0) ?ps) = Some [Some 0]"
    by (simp add: udp_bytes_packet flow_acquire_def flow_pos_def)
  have os: "\<forall>j < 3. may_create ?os (split_fn (strip_suffix ''capture'') j)" "24 * 3 + packets_size ?ps \<le> os.room ?os"
    by (simp_all add: os_with_def os_none_def packets_size_def)
  have k: "0 \<notin> pool_chunks 4096 (ucast (10000 :: u32)) SIZEOF_PEAK_TRACK" by (auto simp: pool_chunks_def)
  have short: "short (strip_suffix ''capture'')" by (simp add: base short_def)
  have ps: "length (replicate 16 (0 :: u8)) = 16" "\<forall>(b, s, u) \<in> set ?ps. b \<noteq> [] \<and> length b \<le> SIZEOF_BUF" by (auto simp: udp_bytes_def)
  from flowsplit_partitions[OF disk ps fr opts _ _ k n short os, of False "\<lambda>a. track_zero" audit_zero, unfolded ids base] obtain os' where
    o: "flowsplit_main (length ?ps) 0 False True (Some 4096) True (\<lambda>a. track_zero) audit_zero [(CHR ''n'', ''3'')] [''capture''] ?os =
      Some (Return (Some (map ret_of [Some 0], os')))" "\<forall>j < 3. disk os' (split_fn ''capture'' j) = Some (pcap_image (picks 3 [Some 0] ?ps j))" by auto
  have "disk os' (split_fn ''capture'' j) = Some (pcap_image (if j = 0 then ?ps else []))" if "j < 3" for j
    using o(2) that by (simp add: picks_def)
  from this[of 0] this[of 1] this[of 2] o(1) show ?thesis by (simp add: ret_of_def)
qed

end
