(* ===== verification/Spec2Isabelle.thy ===== *)
theory Spec2Isabelle
  imports Peak_Type Peak_Net Peak_Audit Peak_Packet Peak_Li Peak_Tree Peak_Prealloc Peak_Track
    Peak_Hash Peak_Token Peak_Stash Peak_Page Peak_String Peak_Alloc Peak_Stream Peak_Number
    Peak_Queue Peak_Jar Peak_Os Peak_Store Peak_Load Peak_Locate Peak_Magic Peak_Netmap
    Peak_Flows Peak_Peek Peak_Flowsplit
begin

text \<open>
  \<^bold>\<open>Verification of libpeak\<close>, a C library for network flow processing (\<open>src/lib\<close>, \<open>src/include\<close>), and of two
  programs built on it (\<open>src/bin\<close>).

  \<^bold>\<open>The program.\<close> A capture loop hands raw frames to \<open>peak_packet_parse\<close>, which finds the layers and fills a
  \<open>struct peak_packet\<close>; \<open>TRACK_KEY\<close> derives a direction-independent key from it, with which
  \<open>peak_track_acquire\<close> finds or creates the flow in a red-black tree, recycling the least recently used one when
  the pool of preallocated flows is exhausted; \<open>peak_li_get\<close> classifies the payload. Counters go to thread-local
  audit records that are merged now and then. The rest are services for the applications on top: pattern and
  number matchers that push results into a bounded stash, stream buffers that grow in runs of pages, a token
  bucket, a monotonic clock, hashes, jars that keep recent data in a ring buffer, and an allocator with guard values that
  replaces \<open>malloc\<close> and \<open>free\<close>. Frames come from capture files, which \<open>peak_load_packet\<close> reads and \<open>peak_store_packet\<close>
  writes, or from network devices over \<open>netmap(4)\<close>; addresses are looked up in a database of locations and payloads are
  classified by \<open>libmagic\<close>.

  \<^bold>\<open>Theories\<close>, in the order of the calls. C functions keep their names; \<open>struct\<close>s are records, macros are
  definitions of the macro's name.
  \<^item> \<open>Peak_Prelude\<close>: machine integers, memory objects as byte lists with failing accesses, \<open>outcome\<close> for calls that
    may panic or hang, word lemmas, the comparison contract \<open>cmp_order\<close>.
  \<^item> \<open>Peak_Type\<close> (\<open>include/peak_type.h\<close>): byte swaps, encoders, decoders. Locale \<open>codec\<close>, interpreted for all six pairs:
    in-range encoding succeeds, touches only its bytes, decodes to the same value.
  \<^item> \<open>Peak_Net\<close> (\<open>include/peak_net.h\<close>): addresses, \<open>netcmp\<close>, \<open>netprefix\<close>, which agrees with comparing leading bits.
  \<^item> \<open>Peak_Alloc\<close> (\<open>include/peak_alloc.h\<close>): the guarded allocator over a heap of bytes and blocks. Locale \<open>guarded_alloc\<close>,
    interpreted for \<open>malloc\<close>, \<open>calloc\<close> and \<open>malign\<close>: a granted block has its guards, its writes stay inside it, others
    stay guarded. The guards detect overwrites; the overflow test of the product is exact.
  \<^item> \<open>Peak_Queue\<close> (\<open>include/sys/queue.h\<close>): tail queue and singly-linked list on pointers, shown to implement lists; locale
    \<open>use_order\<close>, interpreted for the tail queue, is what the tracker does with it. \<open>Peak_Track\<close> and \<open>Peak_Prealloc\<close> work on
    the lists.
  \<^item> \<open>Peak_Prealloc\<close> (\<open>include/peak_prealloc.h\<close>): the chunk pool. Locale \<open>chunk_pool\<close>: what tracker and streams rely on.
  \<^item> \<open>Peak_Tree\<close> (\<open>include/sys/tree.h\<close>): the \<open>RB_\<close> macros on trees with zippers for the parent pointers. Insert and remove
    keep order and balance, with the two colour fixups as written; \<open>RB_NEXT\<close> walks in order; depth is logarithmic.
  \<^item> \<open>Peak_Audit\<close> (\<open>lib/peak_audit.c\<close>): counters, and their merging as an interleaving step relation that loses no count.
  \<^item> \<open>Peak_Packet\<close> (\<open>lib/peak_packet.c\<close>): the parser on the bytes of the frame, with exact bounds, lengths, drop counters,
    and the exact condition under which the IPv6 loop does not end.
  \<^item> \<open>Peak_Li\<close> (\<open>lib/peak_li.c\<close>): all detectors, the table, \<open>peak_li_get\<close> and \<open>peak_li_test\<close>, names and numbers.
  \<^item> \<open>Peak_Track\<close> (\<open>lib/peak_track.c\<close>): the tracker over an explicit store of flows that tree and queue share; it refines an
    abstract table with least-recently-used replacement.
  \<^item> \<open>Peak_Hash\<close>, \<open>Peak_Token\<close> (\<open>include/peak_hash.h\<close>, \<open>peak_token.h\<close>, \<open>peak_timeslice.h\<close>): hashes, rate limit, clock.
  \<^item> \<open>Peak_Stash\<close> (\<open>include/peak_stash.h\<close>): the bounded result array; locale \<open>result_sink\<close> is its interface to the matchers.
  \<^item> \<open>Peak_Page\<close>, \<open>Peak_String\<close> (\<open>include/peak_page.h\<close>, \<open>lib/peak_string.c\<close>): sorted lists over split pages (locale
    \<open>page_order\<close>) and the trie built on them: a table from patterns to results, and what a search reports.
  \<^item> \<open>Peak_Number\<close> (\<open>lib/peak_number.c\<close>, \<open>contrib/libcompat/strlcpy.c\<close>): numeric comparisons of texts.
  \<^item> \<open>Peak_Stream\<close> (\<open>lib/peak_stream.c\<close>): pages, first-fit claims, growth in place and by relocation, release; the
    pool invariant with disjoint streams, and where the code departs from it.
  \<^item> \<open>Peak_Jar\<close> (\<open>lib/peak_jar.c\<close>): the ring buffer of data sets, with overwritten objects made visible; what packing and
    visiting do in a valid context, and three ways in which the buffer goes wrong.
  \<^item> \<open>Peak_Os\<close>: \<open>open(2)\<close>, \<open>read(2)\<close>, \<open>write(2)\<close>, \<open>lseek(2)\<close> and \<open>close(2)\<close> on an explicit state of files and
    descriptors, and structures as the bytes that are read and written.
  \<^item> \<open>Peak_Store\<close>, \<open>Peak_Load\<close> (\<open>lib/peak_store.c\<close>, \<open>lib/peak_load.c\<close>): writing pcap files and reading ERF, pcap, pcapng
    and NetMon files. Every reachable reader is well-formed and stays inside its buffers for every file; what was stored
    is loaded again; when the pcapng loop returns.
  \<^item> \<open>Peak_Search\<close>: \<open>strcmp(3)\<close>, \<open>strcasecmp(3)\<close> and \<open>bsearch(3)\<close>; locales \<open>array_search\<close>, the promise of \<open>bsearch\<close>, and
    \<open>keyword_table\<close>, a table that is sorted by name, interpreted for the tables of the next two theories.
  \<^item> \<open>Peak_Locate\<close> (\<open>lib/peak_locate.c\<close>): the table of locations, and the database of address ranges, which a file fills
    completely or not at all and in which a search finds the range of an address.
  \<^item> \<open>Peak_Magic\<close> (\<open>lib/peak_magic.c\<close>): the table of file types and the classification of buffers, with \<open>libmagic\<close> as a
    parameter.
  \<^item> \<open>Peak_Netmap\<close> (\<open>lib/peak_netmap.c\<close>, \<open>include/peak_transfer.h\<close>): the device table and the rings shared with the kernel,
    with \<open>netmap(4)\<close> and the system calls as parameters. An invariant of table, descriptors, mappings and claimed packet
    for all histories of calls, zero-copy sending that conserves the buffers, receiving in turn.
  \<^item> \<open>Peak_Flows\<close>: the tracker as a table of flows in the order of their first packets, and the packets a reader finds in a file,
    in the form in which the programs use them.
  \<^item> \<open>Peak_Peek\<close>, \<open>Peak_Flowsplit\<close> (\<open>bin/peek/peek.c\<close>, \<open>bin/flowsplit/flowsplit.c\<close>): the whole programs from the command line to
    the output, as compositions of reader, parser, tracker, classifier, clock and writer. \<open>peek\<close> prints what it prints on the plain
    table; \<open>flowsplit\<close> partitions a file by flow. Fuel of the number of packets suffices for their loops.
  \<^item> This theory: properties across components.

  \<^bold>\<open>Conventions.\<close> \<open>None\<close> is undefined behaviour: an access outside an object or through \<open>NULL\<close>. \<open>Panic\<close> is a call of
  \<open>panic()\<close>, \<open>Hang\<close> a call that never returns. Memory that the code gets from the C library is a parameter. The target
  is little-endian with 64-bit pointers and \<open>size_t\<close>.

  \<^bold>\<open>Loops.\<close> Most are structural recursion or \<open>function\<close>s with a measure. Fuel is used where the code walks a structure:
  the extension headers of IPv6 (\<open>2 * length m + 2\<close>; the theorem on hanging shows that running out means there is no
  end), the flows at exit (their number), the elements of a page list (their number), the free pages of the streams (the
  size of the tree and one), the elements of a tail queue (their number and one); each of these is shown to suffice. The
  loop of \<open>peak_jar_pack\<close> has fuel as well: one round suffices when there is room, and for a data set larger than the
  buffer no fuel does.

  The \<open>goto\<close> of the pcapng reader has the number of bytes left and one as fuel; it suffices whenever the reader returns.

  \<^bold>\<open>Not modelled.\<close> \<open>peak_output.h\<close> (logging), the lock primitives of \<open>peak_sys.h\<close>, and two programs in \<open>bin\<close>: \<open>netfuse\<close>, which joins two
  devices until a signal arrives, and \<open>geoconv\<close>, written for yacc and lex. Wrappers of
  other libraries: \<open>peak_regex.c\<close>. Macros that no source file uses: splay trees, \<open>RB_PREV\<close>, and the lists of
  \<open>sys/queue.h\<close> other than the two above. Callers of several threads at once are modelled for the counters only; the
  interface to \<open>netmap(4)\<close> is that of one thread, with the kernel at work during system calls.
\<close>

section \<open>From the wire to the application\<close>

lemma accepted_ipv4_app_ok:
  assumes "peak_packet_parse m len type a = Some (Return (False, p, a'))" and "net_family p = AF_INET"
    and "net_raw p = Some n" and "n + unat (net_len p) + 1 \<le> length m"
  shows "app_ok m p 1"
proof (cases "net_type p \<in> {IPPROTO_TCP, IPPROTO_UDP, IPPROTO_ICMP}")
  case True
  from ipv4_layers[OF assms(1,2) True] assms(3,4) show ?thesis by (auto simp: app_ok_def)
next
  case False
  from ipv4_other_layers[OF assms(1,2) False] assms(3,4) show ?thesis by (auto simp: app_ok_def)
qed

text \<open>C5. A frame that \<open>peak_packet_parse\<close> accepts as IPv4 can be classified: if the datagram and one more
  byte lie inside the buffer, \<open>peak_li_get\<close> reads nothing outside it and returns a number for which
  \<open>peak_li_name\<close> has a name.\<close>

theorem accepted_ipv4_is_classified:
  assumes "peak_packet_parse m len type a = Some (Return (False, p, a'))" and "net_family p = AF_INET"
    and "net_raw p = Some n" and "n + unat (net_len p) + 1 \<le> length m"
  shows "\<exists>k s. peak_li_get m p = Some k \<and> peak_li_name k = Return s"
proof -
  from peak_li_get_total[OF accepted_ipv4_app_ok[OF assms]] obtain k where k: "peak_li_get m p = Some k" ..
  with peak_li_get_named[OF k] show ?thesis by blast
qed

theorem accepted_ipv4_is_classified_witness:
  "\<exists>k s. peak_li_get udp_frame udp_packet = Some k \<and> peak_li_name k = Return s"
  by (rule accepted_ipv4_is_classified[OF udp_frame_parsed, where n = 0])
    (simp_all add: udp_packet_def udp_frame_def)

section \<open>Pools in guarded memory\<close>

text \<open>A multiple of the chunk size below the end of the pool leaves room for a whole chunk.\<close>

lemma chunk_inside:
  assumes "c \<in> pool_chunks start chunks sz"
  shows "start \<le> c" "c + unat sz \<le> start + unat chunks * unat sz"
proof -
  from assms obtain i where i: "i < unat chunks" "c = start + i * unat sz" by (auto simp: pool_chunks_def)
  then have "Suc i * unat sz \<le> unat chunks * unat sz" by (intro mult_right_mono) auto
  with i show "start \<le> c" "c + unat sz \<le> start + unat chunks * unat sz" by simp_all
qed

lemma chunks_apart:
  assumes "c \<in> pool_chunks start chunks sz" "d \<in> pool_chunks start chunks sz" "c < d"
  shows "c + unat sz \<le> d"
proof -
  from assms obtain i j where ij: "c = start + i * unat sz" "d = start + j * unat sz" by (auto simp: pool_chunks_def)
  with assms(3) have "i < j" using mult_le_mono1[of j i "unat sz"] by (metis add_le_cancel_left linorder_not_less)
  then have "Suc i * unat sz \<le> j * unat sz" by (intro mult_right_mono) auto
  with ij show ?thesis by simp
qed

text \<open>A user of the pool takes up to \<open>n\<close> chunks out of it.\<close>

fun prealloc_take :: "nat \<Rightarrow> prealloc_t \<Rightarrow> nat list" where
  "prealloc_take 0 self = []"
| "prealloc_take (Suc n) self = (case prealloc_get self of (None, _) \<Rightarrow> [] | (Some c, self) \<Rightarrow> c # prealloc_take n self)"

lemma prealloc_take_free: "prealloc_take n self = take n (free self)"
  by (induction n arbitrary: self) (auto simp: prealloc_get_def split: list.splits)

lemma length_link_loop [simp]: "length (link_loop n e sz) = n"
  by (induction n arbitrary: e) (simp_all add: Let_def)

lemma init_free:
  assumes "prealloc_init chunks sz (Some start) = (True, pool)"
  shows "set (free pool) = pool_chunks start chunks sz" "distinct (free pool)" "length (free pool) = unat chunks"
    "prealloc_valid pool a \<longleftrightarrow> start \<le> a \<and> a < start + unat chunks * unat sz"
proof -
  from prealloc_init_inv(1)[OF assms] show "set (free pool) = pool_chunks start chunks sz" "distinct (free pool)"
    by (simp_all add: prealloc_inv_def)
  from assms have "pool = prealloc_zero\<lparr>mem_start := start, chunk_size := sz, used := 0, locked := False,
      mem_stop := start + unat chunks * unat sz, free := start # link_loop (unat chunks - 1) start (unat sz)\<rparr>" "chunks \<noteq> 0"
    by (auto simp: prealloc_init_def split: if_splits)
  then show "length (free pool) = unat chunks" "prealloc_valid pool a \<longleftrightarrow> start \<le> a \<and> a < start + unat chunks * unat sz"
    by (simp_all add: prealloc_valid_def unat_gt_0)
qed

text \<open>C18. A pool set up on memory from \<open>malign\<close> hands out as many chunks as were asked for, up to the number it was made for. They are
  inside the memory that \<open>prealloc_valid\<close> accepts, which is exactly the memory asked for, and do not overlap, and whatever their users write into them, releasing the memory of
  the pool finds the guards intact: every write stays inside the bytes that were asked for.\<close>

theorem pool_memory_released:
  assumes "fresh_block s h (malign_block chunks sz)" and "peak_malign (Some h) chunks sz s = Some (Some start, s')"
    and "prealloc_init chunks sz (Some start) = (True, pool)" and "cs = prealloc_take n pool" and "length m = length (heap_mem s')"
    and "\<forall>i. m ! i \<noteq> heap_mem s' ! i \<longrightarrow> (\<exists>c \<in> set cs. c \<le> i \<and> i < c + unat sz)"
  shows "length cs = min n (unat chunks) \<and> (\<forall>c \<in> set cs. prealloc_valid pool c \<and> prealloc_valid pool (c + unat sz - 1)) \<and>
    (\<forall>x. prealloc_valid pool x \<longleftrightarrow> start \<le> x \<and> x < start + unat chunks * unat sz) \<and>
    (\<forall>i < length cs. \<forall>j < length cs. i \<noteq> j \<longrightarrow> cs ! i + unat sz \<le> cs ! j \<or> cs ! j + unat sz \<le> cs ! i) \<and>
    (\<exists>s''. peak_free (Some (mem_start pool)) (s'\<lparr>heap_mem := m\<rparr>) = Some (Return s'') \<and> heap_blocks s'' = heap_blocks s)"
proof (intro conjI)
  note pool = init_free[OF assms(3)]
  have cs: "cs = take n (free pool)" using assms(4) by (simp add: prealloc_take_free)
  then show "length cs = min n (unat chunks)" by (simp add: pool(3) min.commute)
  have in_pool: "c \<in> pool_chunks start chunks sz" if "c \<in> set cs" for c using that cs pool(1) by (auto dest: in_set_takeD)
  have start: "mem_start pool = start" "0 < unat sz" using assms(3) by (auto simp: prealloc_init_def unat_gt_0 split: if_splits)
  show "\<forall>c \<in> set cs. prealloc_valid pool c \<and> prealloc_valid pool (c + unat sz - 1)"
    using chunk_inside[OF in_pool] start(2) unfolding pool(4) by (fastforce dest: in_pool)
  show "\<forall>x. prealloc_valid pool x \<longleftrightarrow> start \<le> x \<and> x < start + unat chunks * unat sz" using pool(4) by blast
  show "\<forall>i < length cs. \<forall>j < length cs. i \<noteq> j \<longrightarrow> cs ! i + unat sz \<le> cs ! j \<or> cs ! j + unat sz \<le> cs ! i"
  proof (intro allI impI)
    fix i j
    assume ij: "i < length cs" "j < length cs" "i \<noteq> j"
    have "distinct cs" using pool(2) cs by (simp add: distinct_take)
    with ij have "cs ! i < cs ! j \<or> cs ! j < cs ! i" by (metis linorder_neqE_nat nth_eq_iff_index_eq)
    with chunks_apart in_pool ij(1,2) show "cs ! i + unat sz \<le> cs ! j \<or> cs ! j + unat sz \<le> cs ! i" by (meson nth_mem)
  qed
  from malign.grant[of s h "(chunks, sz)"] assms(1,2) have g: "start = h + 64" "guarded Malign s' start (unat chunks * unat sz)"
    "heap_blocks s' = (heap_blocks s)(h \<mapsto> malign_block chunks sz)" by auto
  have "m ! i = heap_mem s' ! i" if "i < start \<or> start + unat chunks * unat sz \<le> i" for i
    using that assms(6) chunk_inside[OF in_pool] by (meson leD le_less_trans order_less_le_trans)
  from guarded_check(2)[OF guarded_user_write[OF g(2) assms(5) this], of True] g(1,3) assms(1)
  show "\<exists>s''. peak_free (Some (mem_start pool)) (s'\<lparr>heap_mem := m\<rparr>) = Some (Return s'') \<and> heap_blocks s'' = heap_blocks s"
    by (auto simp: start(1) peak_free_def ALLOC_ERROR_def fresh_block_def)
qed

theorem pool_memory_released_witness:
  "\<exists>start s' pool s''. peak_malign (Some 0) 2 8 sample_heap = Some (Some start, s') \<and> prealloc_init 2 8 (Some start) = (True, pool) \<and>
    prealloc_take 5 pool = [start, start + 8] \<and> length (prealloc_take 5 pool) = min 5 2 \<and>
    peak_free (Some (mem_start pool)) (s'\<lparr>heap_mem := (heap_mem s')[start + 6 := 1]\<rparr>) = Some (Return s'')"
proof -
  have f: "fresh_block sample_heap 0 (malign_block 2 8)" by (rule sample_fresh) (simp add: malign_block_def)
  from malign_grants[OF f] obtain s' where s': "peak_malign (Some 0) 2 8 sample_heap = Some (Some 64, s')" by auto
  obtain pool where p: "prealloc_init 2 8 (Some 64) = (True, pool)" "free pool = [64, 72]" by (simp add: prealloc_init_def)
  then have take: "[64, 72] = prealloc_take 5 pool" by (simp add: prealloc_take_free)
  have "64 \<le> i \<and> i < 64 + unat (8 :: u64)" if "(heap_mem s')[70 := 1] ! i \<noteq> heap_mem s' ! i" for i
    using that by (cases "i = 70") simp_all
  then have "\<forall>i. (heap_mem s')[70 := 1] ! i \<noteq> heap_mem s' ! i \<longrightarrow> (\<exists>c \<in> set [64, 72]. c \<le> i \<and> i < c + unat (8 :: u64))" by auto
  from pool_memory_released[OF f s' p(1) take _ this] s' p take show ?thesis by auto
qed

end
